(* ===== verification/Prelude.thy ===== *)
theory Prelude
  imports Main "HOL-Library.Word"
begin

text \<open>
  Shared vocabulary of the development: the integer and byte types of
  \<^verbatim>\<open>src/common/Types.hpp\<close>, the exception hierarchy of \<^verbatim>\<open>src/common/Errors.hpp\<close> as an error
  datatype, results as sums, and the generic lemmas on words, lists and results that the
  component theories use.  A C++ function that may throw returns \<open>bseal_error + 'a\<close>: \<open>Inl\<close> is
  the exception that leaves the function, \<open>Inr\<close> its normal result.  \<open>std::size_t\<close> is the
  64-bit \<open>size_t\<close> of the supported platform (Linux); the size of a container is the \<open>length\<close>
  of a list and is converted to a machine word where the source casts it.
\<close>

type_synonym u8 = "8 word"
type_synonym u16 = "16 word"
type_synonym u32 = "32 word"
type_synonym u64 = "64 word"
type_synonym byte = "8 word"
type_synonym bytes = "byte list"

text \<open>
  \<^verbatim>\<open>Errors.hpp\<close>: the classes derived from \<open>bseal::Error\<close>, and \<open>Error\<close> itself.  The string
  is the literal text at the throw site; numbers and paths the source appends to a message are
  left out.  A \<open>KeyfileAccessError\<close> keeps the path it stores.
\<close>

datatype bseal_error =
    Error string
  | NotImplemented string
  | InvalidArgument string
  | AuthenticationFailed
  | SystemError string
  | KeyfileAccessError string string

type_synonym 'a result = "bseal_error + 'a"

named_theorems result_simps \<open>unfolding of sequenced results\<close>
named_theorems codec_simps \<open>lengths and round trips of encoders\<close>

text \<open>Sequencing: the rest of the function body runs only if the first part did not throw.\<close>

fun bindr :: "'a result \<Rightarrow> ('a \<Rightarrow> 'b result) \<Rightarrow> 'b result" where
  "bindr (Inl e) f = Inl e"
| "bindr (Inr x) f = f x"

text \<open>\<open>if (cond) throw e;\<close> followed by the rest of the body.\<close>

definition throw_if :: "bool \<Rightarrow> bseal_error \<Rightarrow> 'a result \<Rightarrow> 'a result" where
  "throw_if c e rest = (if c then Inl e else rest)"

lemma bindr_eq_Inr: "bindr m f = Inr y \<longleftrightarrow> (\<exists>x. m = Inr x \<and> f x = Inr y)"
  by (cases m) auto

lemma bindr_eq_Inl: "bindr m f = Inl e \<longleftrightarrow> m = Inl e \<or> (\<exists>x. m = Inr x \<and> f x = Inl e)"
  by (cases m) auto

lemma bindr_assoc: "bindr (bindr m f) g = bindr m (\<lambda>x. bindr (f x) g)"
  by (cases m) auto

lemma bindr_Inr_right [simp]: "bindr m Inr = m"
  by (cases m) auto

lemma bindr_cong [fundef_cong]:
  "m = m' \<Longrightarrow> (\<And>x. m' = Inr x \<Longrightarrow> f x = g x) \<Longrightarrow> bindr m f = bindr m' g"
  by (cases m') auto

lemma throw_if_eq_Inr [simp]: "throw_if c e rest = Inr y \<longleftrightarrow> \<not> c \<and> rest = Inr y"
  by (simp add: throw_if_def)

lemma throw_if_False [simp]: "throw_if False e rest = rest"
  by (simp add: throw_if_def)

lemma throw_if_True [simp]: "throw_if True e rest = Inl e"
  by (simp add: throw_if_def)

lemma throw_if_eq_Inl:
  "throw_if c e rest = Inl d \<longleftrightarrow> (c \<and> d = e) \<or> (\<not> c \<and> rest = Inl d)"
  by (auto simp: throw_if_def)

lemmas [result_simps] = bindr_eq_Inr bindr_eq_Inl throw_if_eq_Inl

definition is_ok :: "'a result \<Rightarrow> bool" where
  "is_ok r = (case r of Inl _ \<Rightarrow> False | Inr _ \<Rightarrow> True)"

lemma is_ok_simps [simp]: "is_ok (Inr x)" "\<not> is_ok (Inl e)"
  by (simp_all add: is_ok_def)

lemma is_ok_iff: "is_ok r \<longleftrightarrow> (\<exists>x. r = Inr x)"
  by (cases r) auto

text \<open>The largest values of the fixed-width types (\<open>std::numeric_limits\<close>).\<close>

abbreviation (input) u64_max :: u64 where "u64_max \<equiv> - 1"
abbreviation (input) u32_max :: u32 where "u32_max \<equiv> - 1"
abbreviation (input) u16_max :: u16 where "u16_max \<equiv> - 1"

subsection \<open>Words\<close>

lemma unat_u64_max: "unat u64_max = 2 ^ 64 - 1"
  by (simp add: unsigned_minus_1_eq_mask mask_eq_exp_minus_1)

lemma unat_u32_max: "unat u32_max = 2 ^ 32 - 1"
  by (simp add: unsigned_minus_1_eq_mask mask_eq_exp_minus_1)

lemma unat_plus_no_overflow:
  fixes a b :: "'a::len word"
  shows "unat a + unat b < 2 ^ LENGTH('a) \<Longrightarrow> unat (a + b) = unat a + unat b"
  by (simp add: unat_word_ariths)

lemma unat_mult_no_overflow:
  fixes a b :: "'a::len word"
  shows "unat a * unat b < 2 ^ LENGTH('a) \<Longrightarrow> unat (a * b) = unat a * unat b"
  by (simp add: unat_word_ariths)

lemma unat_minus_no_underflow:
  fixes a b :: "'a::len word"
  shows "b \<le> a \<Longrightarrow> unat (a - b) = unat a - unat b"
  by (rule unat_sub)

lemma unat_ucast_up:
  fixes x :: "'a::len word"
  assumes "LENGTH('a) \<le> LENGTH('b::len)"
  shows "unat (ucast x :: 'b word) = unat x"
proof -
  have "unat x < 2 ^ LENGTH('b)"
    using unsigned_less [of x] assms by (meson order_less_le_trans one_le_numeral power_increasing)
  then show ?thesis
    by (simp add: unsigned_ucast_eq take_bit_nat_eq_self)
qed

lemma unat_ucast_u32_u64 [simp]: "unat (ucast (x :: u32) :: u64) = unat x"
  by (rule unat_ucast_up) simp

lemma unat_ucast_u16_u64 [simp]: "unat (ucast (x :: u16) :: u64) = unat x"
  by (rule unat_ucast_up) simp

lemma unat_ucast_u8_u64 [simp]: "unat (ucast (x :: u8) :: u64) = unat x"
  by (rule unat_ucast_up) simp

lemma unat_two_power: "k < LENGTH('a) \<Longrightarrow> unat (2 ^ k :: 'a::len word) = 2 ^ k"
  by transfer (simp add: take_bit_int_eq_self nat_power_eq)

lemma unat_u64_lt: "unat (x :: u64) < 2 ^ 64"
  using unsigned_less [of x] by simp

lemma unat_u32_lt: "unat (x :: u32) < 2 ^ 32"
  using unsigned_less [of x] by simp

lemma unat_u16_lt: "unat (x :: u16) < 2 ^ 16"
  using unsigned_less [of x] by simp

lemma unat_of_nat_u64: "n < 2 ^ 64 \<Longrightarrow> unat (of_nat n :: u64) = n"
  by (simp add: unat_of_nat take_bit_nat_eq_self)

lemma unat_of_nat_u32: "n < 2 ^ 32 \<Longrightarrow> unat (of_nat n :: u32) = n"
  by (simp add: unat_of_nat take_bit_nat_eq_self)

lemma len64: "LENGTH(64) = 64" by simp

lemma u64_add_wraps: "a + b < a \<longleftrightarrow> 2 ^ 64 \<le> unat a + unat b" for a b :: u64
proof -
  have "a + b < a \<longleftrightarrow> \<not> a \<le> a + b" by (rule linorder_not_le [symmetric])
  also have "\<dots> \<longleftrightarrow> \<not> unat a + unat b < 2 ^ 64" by (simp only: no_olen_add_nat len64)
  also have "\<dots> \<longleftrightarrow> 2 ^ 64 \<le> unat a + unat b" by (rule linorder_not_less)
  finally show ?thesis .
qed

subsection \<open>Characters\<close>

lemma of_char_nat_less: "(of_char c :: nat) < 256"
  using of_char_of [of "of_char c :: nat"] by (metis char_of_char mod_less_divisor zero_less_numeral)

lemma unat_of_char_byte: "unat (of_char c :: byte) = (of_char c :: nat)"
proof -
  have "(of_char c :: byte) = of_nat (of_char c)" by (rule of_nat_of_char [symmetric])
  then show ?thesis using of_char_nat_less [of c] by (simp add: unat_of_nat take_bit_nat_eq_self)
qed

subsection \<open>Stateful operations that may throw\<close>

text \<open>
  A member function that changes its object and may throw returns its result together with the
  state it leaves behind, also when it throws: C++ does not roll the object back.
\<close>

type_synonym ('s, 'a) op = "'s \<Rightarrow> 'a result \<times> 's"

definition returnS :: "'a \<Rightarrow> ('s, 'a) op" where
  "returnS x s = (Inr x, s)"

definition throwS :: "bseal_error \<Rightarrow> ('s, 'a) op" where
  "throwS e s = (Inl e, s)"

definition bindS :: "('s, 'a) op \<Rightarrow> ('a \<Rightarrow> ('s, 'b) op) \<Rightarrow> ('s, 'b) op" where
  "bindS m f s = (case m s of (Inl e, s') \<Rightarrow> (Inl e, s') | (Inr x, s') \<Rightarrow> f x s')"

definition getS :: "('s \<Rightarrow> ('s, 'a) op) \<Rightarrow> ('s, 'a) op" where
  "getS f s = f s s"

definition modifyS :: "('s \<Rightarrow> 's) \<Rightarrow> ('s, unit) op" where
  "modifyS f s = (Inr (), f s)"

definition liftS :: "'a result \<Rightarrow> ('s, 'a) op" where
  "liftS r s = (r, s)"

definition guardS :: "bool \<Rightarrow> bseal_error \<Rightarrow> ('s, unit) op" where
  "guardS c e s = (if c then (Inl e, s) else (Inr (), s))"

lemmas op_defs = returnS_def throwS_def getS_def modifyS_def liftS_def guardS_def

lemma bindS_Inr:
  "bindS m f s = (Inr y, s'') \<longleftrightarrow> (\<exists>x s'. m s = (Inr x, s') \<and> f x s' = (Inr y, s''))"
  by (auto simp: bindS_def split: prod.splits sum.splits)

lemma bindS_cases:
  obtains e s' where "m s = (Inl e, s')" "bindS m f s = (Inl e, s')"
    | x s' where "m s = (Inr x, s')" "bindS m f s = f x s'"
  by (cases "m s"; cases "fst (m s)") (auto simp: bindS_def)

text \<open>
  Partial and exceptional postconditions: from a state in \<open>P\<close> the operation either returns \<open>x\<close> in a
  state with \<open>Q x\<close>, or throws and leaves a state with \<open>E\<close>.
\<close>

definition spec :: "('s \<Rightarrow> bool) \<Rightarrow> ('s, 'a) op \<Rightarrow> ('a \<Rightarrow> 's \<Rightarrow> bool) \<Rightarrow> ('s \<Rightarrow> bool) \<Rightarrow> bool" where
  "spec P m Q E \<longleftrightarrow> (\<forall>s. P s \<longrightarrow> (case m s of (Inr x, s') \<Rightarrow> Q x s' | (Inl e, s') \<Rightarrow> E s'))"

named_theorems spec_intros \<open>rules for exceptional postconditions\<close>

lemma spec_bindS [spec_intros]:
  "spec P m R E \<Longrightarrow> (\<And>x. spec (R x) (f x) Q E) \<Longrightarrow> spec P (bindS m f) Q E"
  by (fastforce simp: spec_def bindS_def split: prod.splits sum.splits)

lemma spec_returnS [spec_intros]: "(\<And>s. P s \<Longrightarrow> Q x s) \<Longrightarrow> spec P (returnS x) Q E"
  by (simp add: spec_def returnS_def)

lemma spec_throwS [spec_intros]: "(\<And>s. P s \<Longrightarrow> E s) \<Longrightarrow> spec P (throwS e) Q E"
  by (simp add: spec_def throwS_def)

lemma spec_liftS [spec_intros]:
  "(\<And>s x. P s \<Longrightarrow> r = Inr x \<Longrightarrow> Q x s) \<Longrightarrow> (\<And>s. P s \<Longrightarrow> E s) \<Longrightarrow> spec P (liftS r) Q E"
  by (auto simp: spec_def liftS_def split: sum.splits)

lemma spec_guardS [spec_intros]:
  "(\<And>s. P s \<Longrightarrow> \<not> c \<Longrightarrow> Q () s) \<Longrightarrow> (\<And>s. P s \<Longrightarrow> E s) \<Longrightarrow> spec P (guardS c e) Q E"
  by (simp add: spec_def guardS_def)

lemma spec_modifyS [spec_intros]: "(\<And>s. P s \<Longrightarrow> Q () (f s)) \<Longrightarrow> spec P (modifyS f) Q E"
  by (simp add: spec_def modifyS_def)

lemma spec_getS [spec_intros]: "(\<And>s0. P s0 \<Longrightarrow> spec (\<lambda>s. s = s0) (f s0) Q E) \<Longrightarrow> spec P (getS f) Q E"
  by (simp add: spec_def getS_def)

lemma spec_getS_inv: "(\<And>s0. P s0 \<Longrightarrow> spec P (f s0) Q E) \<Longrightarrow> spec P (getS f) Q E"
  by (simp add: spec_def getS_def)

lemma spec_if [spec_intros]:
  "(c \<Longrightarrow> spec P m Q E) \<Longrightarrow> (\<not> c \<Longrightarrow> spec P n Q E) \<Longrightarrow> spec P (if c then m else n) Q E"
  by simp

lemma spec_weaken:
  "spec P m Q E \<Longrightarrow> (\<And>s. P' s \<Longrightarrow> P s) \<Longrightarrow> (\<And>x s. Q x s \<Longrightarrow> Q' x s) \<Longrightarrow> (\<And>s. E s \<Longrightarrow> E' s)
     \<Longrightarrow> spec P' m Q' E'"
  by (fastforce simp: spec_def split: prod.splits sum.splits)

lemma spec_at: "spec P m Q E \<Longrightarrow> P s0 \<Longrightarrow> spec (\<lambda>s. s = s0) m Q E"
  by (simp add: spec_def)

lemma spec_snd:
  assumes "spec P m (\<lambda>_. Q) Q" "P s"
  shows "Q (snd (m s))"
proof -
  obtain r s' where m: "m s = (r, s')" by (cases "m s")
  have "case m s of (Inr x, s') \<Rightarrow> Q s' | (Inl e, s') \<Rightarrow> Q s'" using assms by (simp add: spec_def)
  then show ?thesis by (cases r) (simp_all add: m)
qed

text \<open>Operations that leave a part of the state alone.\<close>

definition preserves :: "('s \<Rightarrow> 'b) \<Rightarrow> ('s, 'a) op \<Rightarrow> bool" where
  "preserves f m \<longleftrightarrow> (\<forall>s. f (snd (m s)) = f s)"

named_theorems preserves_intros \<open>operations that leave a part of the state alone\<close>

lemma preserves_bindS [preserves_intros]:
  assumes "preserves f m" "\<And>x. preserves f (g x)"
  shows "preserves f (bindS m g)"
proof -
  have "f (snd (bindS m g s)) = f s" for s
    using assms by (cases rule: bindS_cases [of m s g]) (metis preserves_def snd_conv)+
  then show ?thesis by (simp add: preserves_def)
qed

lemma preserves_basic [preserves_intros]:
  "preserves f (returnS x)" "preserves f (throwS e)" "preserves f (guardS c e)" "preserves f (liftS r)"
  by (simp_all add: preserves_def op_defs)

lemma preserves_getS [preserves_intros]: "(\<And>s. preserves f (g s)) \<Longrightarrow> preserves f (getS g)"
  by (simp add: preserves_def getS_def)

lemma preserves_modifyS: "(\<And>s. f (h s) = f s) \<Longrightarrow> preserves f (modifyS h)"
  by (simp add: preserves_def modifyS_def)

lemma preserves_if [preserves_intros]:
  "(c \<Longrightarrow> preserves f m) \<Longrightarrow> (\<not> c \<Longrightarrow> preserves f n) \<Longrightarrow> preserves f (if c then m else n)"
  by simp

text \<open>Operations that keep an invariant of the state, whether they throw or not.\<close>

definition stable :: "('s \<Rightarrow> bool) \<Rightarrow> ('s, 'a) op \<Rightarrow> bool" where
  "stable I m \<longleftrightarrow> (\<forall>s. I s \<longrightarrow> I (snd (m s)))"

named_theorems stable_intros \<open>operations that keep an invariant\<close>

lemma stableD: "stable I m \<Longrightarrow> I s \<Longrightarrow> m s = (res, s') \<Longrightarrow> I s'"
  by (metis stable_def snd_conv)

lemma stable_bindS_result:
  assumes "stable I m" "\<And>x s s'. I s \<Longrightarrow> m s = (Inr x, s') \<Longrightarrow> stable I (f x)"
  shows "stable I (bindS m f)"
proof -
  have "I (snd (bindS m f s))" if "I s" for s
  proof (cases rule: bindS_cases [of m s f])
    case (1 e s')
    then show ?thesis using stableD [OF assms(1) that] by auto
  next
    case (2 x s')
    then show ?thesis using stableD [OF assms(1) that 2(1)] assms(2) [OF that 2(1)] by (simp add: stable_def)
  qed
  then show ?thesis by (simp add: stable_def)
qed

lemma stable_bindS [stable_intros]: "stable I m \<Longrightarrow> (\<And>x. stable I (f x)) \<Longrightarrow> stable I (bindS m f)"
  by (rule stable_bindS_result)

lemma stable_bind_liftS [stable_intros]: "(\<And>x. r = Inr x \<Longrightarrow> stable I (f x)) \<Longrightarrow> stable I (bindS (liftS r) f)"
  by (rule stable_bindS_result) (auto simp: stable_def liftS_def)

lemma stable_bind_guardS [stable_intros]: "(\<not> c \<Longrightarrow> stable I (f ())) \<Longrightarrow> stable I (bindS (guardS c e) f)"
  by (rule stable_bindS_result) (auto simp: stable_def guardS_def split: if_splits)

lemma stable_basic [stable_intros]:
  "stable I (returnS x)" "stable I (throwS e)" "stable I (guardS c e)" "stable I (liftS r)"
  by (simp_all add: stable_def op_defs)

lemma stable_getS [stable_intros]: "(\<And>s. I s \<Longrightarrow> stable I (f s)) \<Longrightarrow> stable I (getS f)"
  by (simp add: stable_def getS_def)

lemma stable_modifyS: "(\<And>s. I s \<Longrightarrow> I (f s)) \<Longrightarrow> stable I (modifyS f)"
  by (simp add: stable_def modifyS_def)

lemma stable_if [stable_intros]: "(c \<Longrightarrow> stable I m) \<Longrightarrow> (\<not> c \<Longrightarrow> stable I n) \<Longrightarrow> stable I (if c then m else n)"
  by simp

end
