(* ===== verification/Size_Parser.thy ===== *)
theory Size_Parser
  imports Prelude
begin

text \<open>
  \<^verbatim>\<open>src/common/SizeParser.hpp\<close>: the strict decimal parsers of the command line.  The scanning loop
  of \<open>parse_size_bytes\<close> is \<open>scan_digits\<close>; it returns the value and the text that is left.  The
  lemmas relate the parsers, which compute in \<open>uint64_t\<close> with overflow guards, to the decimal
  value \<open>digits_value\<close> over the natural numbers.
\<close>

subsection \<open>The parsers\<close>

definition isdigit :: "char \<Rightarrow> bool" where
  "isdigit c \<longleftrightarrow> 48 \<le> (of_char c :: nat) \<and> (of_char c :: nat) \<le> 57"

definition digit_of :: "char \<Rightarrow> u64" where
  "digit_of c = of_char c - 48"

fun scan_digits :: "u64 \<Rightarrow> string \<Rightarrow> (u64 \<times> string) result" where
  "scan_digits value [] = Inr (value, [])"
| "scan_digits value (c # cs) =
     (if isdigit c then
        (let digit = digit_of c in
         if value > (u64_max - digit) div 10 then Inl (InvalidArgument ''size value is too large'')
         else scan_digits (value * 10 + digit) cs)
      else Inr (value, c # cs))"

definition suffix_multiplier :: "char \<Rightarrow> u64 result" where
  "suffix_multiplier c =
     (if c = CHR ''K'' \<or> c = CHR ''k'' then Inr 1024
      else if c = CHR ''M'' \<or> c = CHR ''m'' then Inr (1024 * 1024)
      else if c = CHR ''G'' \<or> c = CHR ''g'' then Inr (1024 * 1024 * 1024)
      else if c = CHR ''T'' \<or> c = CHR ''t'' then Inr (1024 * 1024 * 1024 * 1024)
      else Inl (InvalidArgument ''unknown size suffix''))"

definition parse_size_bytes :: "string \<Rightarrow> u64 result" where
  "parse_size_bytes text =
    throw_if (text = []) (InvalidArgument ''size must not be empty'') (
    bindr (scan_digits 0 text) (\<lambda>(value, rest).
    throw_if (length rest = length text) (InvalidArgument ''size must start with a number'') (
    bindr (case rest of
             [] \<Rightarrow> Inr 1
           | [c] \<Rightarrow> suffix_multiplier c
           | _ \<Rightarrow> Inl (InvalidArgument ''size suffix must be one character: K, M, G, or T''))
      (\<lambda>multiplier.
    throw_if (value > u64_max div multiplier) (InvalidArgument ''size value is too large'')
    (Inr (value * multiplier))))))"

fun scan_u32 :: "u64 \<Rightarrow> string \<Rightarrow> u64 result" where
  "scan_u32 value [] = Inr value"
| "scan_u32 value (c # cs) =
    throw_if (\<not> isdigit c) (InvalidArgument ''invalid integer'') (
    let value = value * 10 + digit_of c in
    throw_if (value > ucast u32_max) (InvalidArgument ''integer value is too large'')
    (scan_u32 value cs))"

definition parse_u32 :: "string \<Rightarrow> u32 result" where
  "parse_u32 text =
    throw_if (text = []) (InvalidArgument ''integer value must not be empty'') (
    bindr (scan_u32 0 text) (\<lambda>value. Inr (ucast value)))"

definition parse_size_kib :: "string \<Rightarrow> u32 result" where
  "parse_size_kib text =
    bindr (parse_size_bytes text) (\<lambda>bytes.
    throw_if (bytes mod 1024 \<noteq> 0)
      (InvalidArgument ''size must be a whole number of KiB (e.g. 256M, 2G)'') (
    let kib = bytes div 1024 in
    throw_if (kib > ucast u32_max)
      (InvalidArgument ''size is too large (maximum ~4 TiB expressed in KiB)'')
    (Inr (ucast kib))))"

subsection \<open>The decimal value\<close>

definition digit_value :: "char \<Rightarrow> nat" where
  "digit_value c = of_char c - 48"

definition digits_value :: "nat \<Rightarrow> string \<Rightarrow> nat" where
  "digits_value v ds = fold (\<lambda>c v. v * 10 + digit_value c) ds v"

lemma digits_value_simps [simp]:
  "digits_value v [] = v" "digits_value v (c # cs) = digits_value (v * 10 + digit_value c) cs"
  by (simp_all add: digits_value_def)

lemma digits_value_ge: "v \<le> digits_value v ds"
proof (induction ds arbitrary: v)
  case (Cons c ds)
  show ?case using Cons.IH [of "v * 10 + digit_value c"] by simp
qed simp

lemma digit_value_less: "isdigit c \<Longrightarrow> digit_value c < 10"
  unfolding isdigit_def digit_value_def by linarith

lemma unat_digit_of: "isdigit c \<Longrightarrow> unat (digit_of c) = digit_value c"
proof -
  assume d: "isdigit c"
  have c: "(of_char c :: u64) = of_nat (of_char c)" by (rule of_nat_of_char [symmetric])
  have u: "unat (of_char c :: u64) = (of_char c :: nat)"
    unfolding c using d by (subst unat_of_nat_u64) (auto simp: isdigit_def)
  have "(48 :: u64) \<le> of_char c" unfolding word_le_nat_alt u using d by (simp add: isdigit_def)
  then show ?thesis
    unfolding digit_of_def digit_value_def by (simp add: unat_sub u)
qed

text \<open>The guard of the scanning loop is exact: it throws precisely when the next value does not fit.\<close>

lemma scan_guard:
  assumes "isdigit c"
  shows "value > (u64_max - digit_of c) div 10 \<longleftrightarrow> 2 ^ 64 \<le> unat value * 10 + digit_value c"
proof -
  have le: "digit_of c \<le> u64_max" by (rule word_order.extremum)
  have "unat ((u64_max - digit_of c) div 10) = (2 ^ 64 - 1 - digit_value c) div 10"
    by (simp add: unat_div unat_sub [OF le] unat_u64_max unat_digit_of [OF assms])
  then show ?thesis using digit_value_less [OF assms] by (auto simp: word_less_nat_alt)
qed

lemma unat_scan_step:
  assumes "isdigit c" "unat value * 10 + digit_value c < 2 ^ 64"
  shows "unat (value * 10 + digit_of c) = unat value * 10 + digit_value c"
proof -
  have "unat (value * 10) = unat value * 10"
    using assms(2) by (subst unat_mult_no_overflow) simp_all
  then show ?thesis
    using assms by (subst unat_plus_no_overflow) (simp_all add: unat_digit_of)
qed

lemma scan_digits_spec:
  "scan_digits value cs = Inr (v, rest) \<longleftrightarrow>
     (\<exists>ds. cs = ds @ rest \<and> list_all isdigit ds \<and> (rest = [] \<or> \<not> isdigit (hd rest))
        \<and> digits_value (unat value) ds < 2 ^ 64 \<and> unat v = digits_value (unat value) ds)"
  (is "?l value cs \<longleftrightarrow> ?r value cs")
proof (induction cs arbitrary: "value")
  case Nil
  then show ?case using unat_u64_lt [of v] unat_u64_lt [of "value"]
    by (auto simp: word_unat_eq_iff)
next
  case (Cons c cs)
  show ?case
  proof (cases "isdigit c")
    case False
    have "?r value (c # cs) \<longleftrightarrow> rest = c # cs \<and> unat v = unat value"
      using False unat_u64_lt [of "value"] by (auto simp: Cons_eq_append_conv)
    then show ?thesis using False by (auto simp: word_unat_eq_iff)
  next
    case d: True
    have r: "?r value (c # cs) \<longleftrightarrow>
      (\<exists>ds. cs = ds @ rest \<and> list_all isdigit ds \<and> (rest = [] \<or> \<not> isdigit (hd rest))
        \<and> digits_value (unat value * 10 + digit_value c) ds < 2 ^ 64
        \<and> unat v = digits_value (unat value * 10 + digit_value c) ds)"
      using d by (auto simp: Cons_eq_append_conv)
    show ?thesis
    proof (cases "unat value * 10 + digit_value c < 2 ^ 64")
      case True
      have g: "\<not> value > (u64_max - digit_of c) div 10"
        using scan_guard [OF d, of "value"] True by simp
      show ?thesis
        unfolding r using d g Cons.IH [of "value * 10 + digit_of c"] unat_scan_step [OF d True]
        by (simp add: Let_def)
    next
      case False
      then have "\<not> digits_value (unat value * 10 + digit_value c) ds < 2 ^ 64" for ds
        using digits_value_ge [of "unat value * 10 + digit_value c" ds] by linarith
      moreover have "value > (u64_max - digit_of c) div 10"
        using scan_guard [OF d, of "value"] False by simp
      ultimately show ?thesis unfolding r using d by (simp add: Let_def)
    qed
  qed
qed

subsection \<open>The parsers are exact\<close>

text \<open>The suffixes of the source and their factors.\<close>

definition suffix_factor :: "string \<Rightarrow> nat option" where
  "suffix_factor s =
    (if s = [] then Some 1
     else if s = ''K'' \<or> s = ''k'' then Some (2 ^ 10)
     else if s = ''M'' \<or> s = ''m'' then Some (2 ^ 20)
     else if s = ''G'' \<or> s = ''g'' then Some (2 ^ 30)
     else if s = ''T'' \<or> s = ''t'' then Some (2 ^ 40)
     else None)"

lemma suffix_multiplier_factor: "suffix_multiplier c = Inr m \<longleftrightarrow> suffix_factor [c] = Some (unat m)"
proof -
  have eq: "n = m \<longleftrightarrow> unat n = unat m" for n by (rule word_unat_eq_iff)
  show ?thesis
    by (simp add: suffix_factor_def suffix_multiplier_def eq)
qed

lemma suffix_factor_spec:
  "(case rest of [] \<Rightarrow> Inr 1 | [c] \<Rightarrow> suffix_multiplier c | _ \<Rightarrow> Inl e) = Inr m \<longleftrightarrow>
     suffix_factor rest = Some (unat m)"
proof (cases rest)
  case Nil
  then show ?thesis using word_unat_eq_iff [of 1 m] by (simp add: suffix_factor_def)
next
  case (Cons c cs)
  then show ?thesis
    by (cases cs) (simp_all add: suffix_multiplier_factor suffix_factor_def [of "_ # _ # _"])
qed

lemma suffix_factor_cases:
  "suffix_factor s = Some n \<Longrightarrow> 0 < n \<and> (s = [] \<or> \<not> isdigit (hd s))"
  unfolding suffix_factor_def by (simp add: isdigit_def split: if_splits) (elim disjE; simp)+

lemma mult_guard:
  "m \<noteq> 0 \<Longrightarrow> value > u64_max div m \<longleftrightarrow> 2 ^ 64 \<le> unat value * unat m" for m "value" :: u64
proof -
  assume "m \<noteq> 0"
  then have pos: "0 < unat m" by (simp add: unat_gt_0)
  have "value > u64_max div m \<longleftrightarrow> \<not> unat value \<le> (2 ^ 64 - 1) div unat m"
    by (auto simp: word_less_nat_alt unat_div unat_u64_max)
  also have "\<dots> \<longleftrightarrow> \<not> unat value * unat m \<le> 2 ^ 64 - 1"
    using pos by (simp add: less_eq_div_iff_mult_less_eq)
  finally show ?thesis by auto
qed

text \<open>
  \<open>parse_size_bytes\<close> accepts exactly the decimal numerals with an optional one-letter binary
  suffix whose value fits in 64 bits, and returns that value; no overflow is missed and no value
  that fits is rejected.
\<close>

theorem parse_size_bytes_exact:
  "parse_size_bytes t = Inr v \<longleftrightarrow>
     (\<exists>ds suf n. t = ds @ suf \<and> ds \<noteq> [] \<and> list_all isdigit ds \<and> suffix_factor suf = Some n
        \<and> digits_value 0 ds * n < 2 ^ 64 \<and> unat v = digits_value 0 ds * n)"
  (is "?l \<longleftrightarrow> ?r")
proof
  assume ?l
  then obtain d rest m where t: "t \<noteq> []" "scan_digits 0 t = Inr (d, rest)" "length rest \<noteq> length t"
    and m: "suffix_factor rest = Some (unat m)" "\<not> d > u64_max div m" and v: "v = d * m"
    by (auto simp: parse_size_bytes_def bindr_eq_Inr suffix_factor_spec)
  from t obtain ds where ds: "t = ds @ rest" "list_all isdigit ds" "unat d = digits_value 0 ds"
    by (auto simp: scan_digits_spec)
  have "m \<noteq> 0" using suffix_factor_cases [OF m(1)] by (simp add: unat_gt_0)
  then have fits: "unat d * unat m < 2 ^ 64" using mult_guard [of m d] m(2) by simp
  then have "unat v = unat d * unat m" unfolding v by (simp add: unat_mult_no_overflow)
  with fits ds t(3) m(1) show ?r by auto
next
  assume ?r
  then obtain ds suf n where t: "t = ds @ suf" "ds \<noteq> []" "list_all isdigit ds"
    and n: "suffix_factor suf = Some n" and fits: "digits_value 0 ds * n < 2 ^ 64"
    and v: "unat v = digits_value 0 ds * n" by blast
  from suffix_factor_cases [OF n] have n0: "0 < n" and h: "suf = [] \<or> \<not> isdigit (hd suf)" by auto
  have ds64: "digits_value 0 ds < 2 ^ 64" and n64: "n < 2 ^ 64"
    using fits n0 n by (auto simp: suffix_factor_def intro: le_less_trans split: if_splits)
  define d m where "d = (of_nat (digits_value 0 ds) :: u64)" and "m = (of_nat n :: u64)"
  have um: "unat d = digits_value 0 ds" "unat m = n"
    using ds64 n64 by (simp_all add: d_def m_def unat_of_nat_u64)
  have "scan_digits 0 t = Inr (d, suf)"
    using t h ds64 um by (auto simp: scan_digits_spec)
  moreover have "\<not> d > u64_max div m"
    using mult_guard [of m d] um n0 fits by (auto simp: unat_gt_0)
  moreover have "unat (d * m) = unat v"
    using fits v um by (simp add: unat_mult_no_overflow)
  ultimately show ?l
    using t(1,2) n um
    by (auto simp: parse_size_bytes_def suffix_factor_spec word_unat_eq_iff bindr_eq_Inr
        intro!: exI [of _ m])
qed

lemma scan_u32_spec:
  assumes "unat value < 2 ^ 32"
  shows "scan_u32 value cs = Inr v \<longleftrightarrow>
     list_all isdigit cs \<and> digits_value (unat value) cs < 2 ^ 32 \<and> unat v = digits_value (unat value) cs"
  using assms
proof (induction cs arbitrary: "value")
  case Nil
  then show ?case by (auto simp: word_unat_eq_iff)
next
  case (Cons c cs)
  show ?case
  proof (cases "isdigit c")
    case d: True
    have fit: "unat value * 10 + digit_value c < 2 ^ 64"
      using Cons.prems digit_value_less [OF d] by simp
    note u = unat_scan_step [OF d fit]
    have max: "unat (ucast u32_max :: u64) = 2 ^ 32 - 1"
      by (simp only: unat_ucast_u32_u64 unat_u32_max)
    show ?thesis
    proof (cases "unat value * 10 + digit_value c < 2 ^ 32")
      case True
      then have "\<not> value * 10 + digit_of c > ucast u32_max"
        unfolding word_less_nat_alt u max by simp
      then show ?thesis using d Cons.IH [of "value * 10 + digit_of c"] u True
        by (simp add: Let_def throw_if_def)
    next
      case False
      then have "value * 10 + digit_of c > ucast u32_max"
        unfolding word_less_nat_alt u max by simp
      moreover have "\<not> digits_value (unat value * 10 + digit_value c) cs < 2 ^ 32"
        using False digits_value_ge [of "unat value * 10 + digit_value c" cs] by linarith
      ultimately show ?thesis using d by (simp add: Let_def throw_if_def)
    qed
  qed (simp add: throw_if_def)
qed

lemma unat_ucast_u64_u32: "unat (x :: u64) < 2 ^ 32 \<Longrightarrow> unat (ucast x :: u32) = unat x"
  by (simp add: unsigned_ucast_eq take_bit_nat_eq_self)

text \<open>
  \<open>parse_u32\<close> accepts exactly the non-empty digit strings whose value fits in 32 bits and
  returns that value: its 64-bit accumulator never wraps before the range check sees it.
\<close>

theorem parse_u32_exact:
  "parse_u32 t = Inr v \<longleftrightarrow>
     t \<noteq> [] \<and> list_all isdigit t \<and> digits_value 0 t < 2 ^ 32 \<and> unat v = digits_value 0 t"
proof -
  have "scan_u32 0 t = Inr w \<Longrightarrow> unat (ucast w :: u32) = unat w" for w
    using scan_u32_spec [of 0 t w] by (intro unat_ucast_u64_u32) simp
  moreover have "digits_value 0 t < 2 ^ 32 \<Longrightarrow> unat (of_nat (digits_value 0 t) :: u64) = digits_value 0 t"
    by (rule unat_of_nat_u64) simp
  ultimately show ?thesis
    using scan_u32_spec [of 0 t] unfolding parse_u32_def
    by (auto simp: bindr_eq_Inr word_unat_eq_iff
        intro: exI [of _ "of_nat (digits_value 0 t)"])
qed

lemma parse_size_kib_exact:
  assumes "parse_size_kib t = Inr k"
  shows "\<exists>b. parse_size_bytes t = Inr b \<and> unat b = 1024 * unat k"
proof -
  from assms obtain b where b0: "parse_size_bytes t = Inr b"
    and step: "throw_if (b mod 1024 \<noteq> 0)
      (InvalidArgument ''size must be a whole number of KiB (e.g. 256M, 2G)'') (
      let kib = b div 1024 in throw_if (kib > ucast u32_max)
        (InvalidArgument ''size is too large (maximum ~4 TiB expressed in KiB)'')
      (Inr (ucast kib))) = Inr k"
    unfolding parse_size_kib_def bindr_eq_Inr by blast
  have b: "b mod 1024 = 0" "\<not> b div 1024 > ucast u32_max" "k = ucast (b div 1024)"
    using step unfolding Let_def throw_if_eq_Inr by simp_all
  have d: "unat (b div 1024) = unat b div 1024" "unat b mod 1024 = 0"
    using arg_cong [OF b(1), of unat] by (simp_all add: unat_div unat_mod)
  have "unat (b div 1024) \<le> 2 ^ 32 - 1"
    using b(2) unfolding word_less_nat_alt unat_ucast_u32_u64 unat_u32_max by simp
  then have "unat k = unat b div 1024"
    unfolding b(3) using d by (subst unat_ucast_u64_u32) simp_all
  with b0 d(2) show ?thesis by auto
qed

end
