(* ===== verification/Checked_Arithmetic.thy ===== *)
theory Checked_Arithmetic
  imports Prelude
begin

text \<open>
  \<^verbatim>\<open>src/common/CheckedArithmetic.hpp\<close>: the overflow-checked 64-bit operations.  The context
  string of the source becomes part of the error message; \<open>int\<close> is 32 bits wide and
  \<open>unsigned long long\<close> and \<open>size_t\<close> are 64 bits wide.
\<close>

definition checked_add_u64 :: "u64 \<Rightarrow> u64 \<Rightarrow> string \<Rightarrow> u64 result" where
  "checked_add_u64 a b context =
     (if b > u64_max - a then Inl (InvalidArgument (context @ '': addition overflow''))
      else Inr (a + b))"

definition checked_sub_u64 :: "u64 \<Rightarrow> u64 \<Rightarrow> string \<Rightarrow> u64 result" where
  "checked_sub_u64 a b context =
     (if b > a then Inl (InvalidArgument (context @ '': subtraction underflow''))
      else Inr (a - b))"

definition checked_mul_u64 :: "u64 \<Rightarrow> u64 \<Rightarrow> string \<Rightarrow> u64 result" where
  "checked_mul_u64 a b context =
     (if a \<noteq> 0 \<and> b > u64_max div a
      then Inl (InvalidArgument (context @ '': multiplication overflow''))
      else Inr (a * b))"

definition checked_ceil_div_u64 :: "u64 \<Rightarrow> u64 \<Rightarrow> string \<Rightarrow> u64 result" where
  "checked_ceil_div_u64 a b context =
     (if b = 0 then Inl (InvalidArgument (context @ '': division by zero''))
      else if a = 0 then Inr 0
      else Inr ((a - 1) div b + 1))"

text \<open>
  The loop \<open>while (p < x) p <<= 1\<close>.  In the source it is entered with \<open>x \<le> 2^63\<close>; on 64-bit
  words the loop runs at most 64 times, so 64 units of fuel are enough, and
  \<open>pow2_loop_enough\<close> below shows that the loop returns.
\<close>

fun pow2_loop :: "nat \<Rightarrow> u64 \<Rightarrow> u64 \<Rightarrow> u64 option" where
  "pow2_loop 0 p x = (if p < x then None else Some p)"
| "pow2_loop (Suc fuel) p x = (if p < x then pow2_loop fuel (push_bit 1 p) x else Some p)"

definition checked_next_power_of_two_u64 :: "u64 \<Rightarrow> string \<Rightarrow> u64 result" where
  "checked_next_power_of_two_u64 x context =
     (if x > push_bit 63 1
      then Inl (InvalidArgument (context @ '': value too large for power-of-two rounding''))
      else if x = 0 then Inr 1
      else case pow2_loop 64 1 x of
             Some p \<Rightarrow> Inr p
           | None \<Rightarrow> Inl (Error ''the loop did not end''))"

definition checked_int_size :: "u64 \<Rightarrow> string \<Rightarrow> int result" where
  "checked_int_size value what =
     (if value > 2 ^ 31 - 1 then Inl (InvalidArgument (what @ '' is too large for OpenSSL''))
      else Inr (uint value))"

definition checked_ull_size :: "u64 \<Rightarrow> string \<Rightarrow> u64 result" where
  "checked_ull_size value what =
     (if value > u64_max then Inl (InvalidArgument (what @ '' is too large''))
      else Inr value)"

subsection \<open>The operations are exact or throw\<close>

lemma u64_le_max_minus: "b \<le> u64_max - a \<longleftrightarrow> unat a + unat b < 2 ^ 64"
proof -
  have "unat (u64_max - a) = 2 ^ 64 - 1 - unat a"
    by (simp add: unat_sub unat_u64_max word_order.extremum)
  then show ?thesis
    using unat_u64_lt [of a] unat_u64_lt [of b] by (auto simp: word_le_nat_alt)
qed

lemma u64_gt_max_minus: "u64_max - a < b \<longleftrightarrow> 2 ^ 64 \<le> unat a + unat b"
  using u64_le_max_minus [of b a] by (simp add: linorder_not_le [symmetric] del: linorder_not_le)

lemma checked_add_u64_Inr:
  "checked_add_u64 a b c = Inr r \<longleftrightarrow> unat a + unat b < 2 ^ 64 \<and> r = a + b"
  by (auto simp: checked_add_u64_def u64_gt_max_minus)

lemma checked_add_u64_unat:
  "checked_add_u64 a b c = Inr r \<Longrightarrow> unat r = unat a + unat b"
  by (simp add: checked_add_u64_Inr unat_plus_no_overflow)

lemma checked_sub_u64_unat:
  "checked_sub_u64 a b c = Inr r \<Longrightarrow> unat r = unat a - unat b \<and> unat b \<le> unat a"
  by (auto simp: checked_sub_u64_def unat_sub word_le_nat_alt not_less split: if_splits)

lemma u64_le_max_div: "a \<noteq> 0 \<Longrightarrow> b \<le> u64_max div a \<longleftrightarrow> unat a * unat b < 2 ^ 64"
proof -
  assume "a \<noteq> 0"
  then have pos: "0 < unat a" by (simp add: unat_gt_0)
  have "b \<le> u64_max div a \<longleftrightarrow> unat b \<le> (2 ^ 64 - 1) div unat a"
    by (simp add: word_le_nat_alt unat_div unat_u64_max)
  also have "\<dots> \<longleftrightarrow> unat b * unat a \<le> 2 ^ 64 - 1"
    using pos by (simp add: less_eq_div_iff_mult_less_eq)
  also have "\<dots> \<longleftrightarrow> unat a * unat b < 2 ^ 64"
    by (auto simp: mult.commute)
  finally show ?thesis .
qed

lemma u64_gt_max_div: "a \<noteq> 0 \<Longrightarrow> u64_max div a < b \<longleftrightarrow> 2 ^ 64 \<le> unat a * unat b"
  using u64_le_max_div [of a b] by (simp add: linorder_not_le [symmetric] del: linorder_not_le)

lemma checked_mul_u64_Inr:
  "checked_mul_u64 a b c = Inr r \<longleftrightarrow> unat a * unat b < 2 ^ 64 \<and> r = a * b"
  by (cases "a = 0") (auto simp: checked_mul_u64_def u64_gt_max_div)

lemma checked_mul_u64_unat:
  "checked_mul_u64 a b c = Inr r \<Longrightarrow> unat r = unat a * unat b"
  by (simp add: checked_mul_u64_Inr unat_mult_no_overflow)

lemma checked_ceil_div_u64_unat:
  assumes "checked_ceil_div_u64 a b c = Inr r"
  shows "unat r = (unat a + unat b - 1) div unat b"
proof (cases "a = 0")
  case True
  with assms show ?thesis
    by (auto simp: checked_ceil_div_u64_def unat_gt_0 split: if_splits)
next
  case False
  with assms have b: "b \<noteq> 0" and r: "r = (a - 1) div b + 1"
    by (auto simp: checked_ceil_div_u64_def split: if_splits)
  have pos: "0 < unat a" "0 < unat b" using False b by (simp_all add: unat_gt_0)
  have q: "unat ((a - 1) div b) = (unat a - 1) div unat b"
    using False by (simp add: unat_div unat_minus_one)
  have "(unat a - 1) div unat b \<le> unat a - 1" by (rule div_le_dividend)
  then have "unat ((a - 1) div b) + 1 < 2 ^ 64"
    using pos unat_u64_lt [of a] unfolding q by linarith
  then have "unat r = (unat a - 1) div unat b + 1"
    unfolding r by (subst unat_plus_no_overflow) (simp_all add: q)
  also have "\<dots> = (unat a - 1 + unat b) div unat b" using pos(2) by (simp only: div_add_self2)
  also have "unat a - 1 + unat b = unat a + unat b - 1" using pos by simp
  finally show ?thesis .
qed

subsection \<open>The power-of-two loop\<close>

lemma pow2_loop_spec:
  assumes "k + fuel = 64" "x \<le> 2 ^ 63" "k \<le> 63" "k = 0 \<or> 2 ^ (k - 1) < unat x"
  shows "\<exists>j. pow2_loop fuel (2 ^ k) x = Some (2 ^ j) \<and> j \<le> 63 \<and> unat x \<le> 2 ^ j
           \<and> (j = 0 \<or> 2 ^ (j - 1) < unat x)"
  using assms
proof (induction fuel arbitrary: k)
  case 0
  then show ?case by simp
next
  case (Suc fuel)
  have unat_pow: "unat ((2 :: u64) ^ k) = 2 ^ k" if "k \<le> 63" for k :: nat
    using that by (simp add: unat_two_power)
  have x63: "unat x \<le> 2 ^ 63"
    using Suc.prems(2) by (simp add: word_le_nat_alt)
  show ?case
  proof (cases "(2 :: u64) ^ k < x")
    case True
    then have lt: "2 ^ k < unat x" using Suc.prems(3) by (simp add: word_less_nat_alt unat_pow)
    with x63 have "(2 :: nat) ^ k < 2 ^ 63" by simp
    then have "k < 63" using power_strict_increasing_iff [of "2 :: nat" k 63] by simp
    then have "\<exists>j. pow2_loop fuel (2 ^ Suc k) x = Some (2 ^ j) \<and> j \<le> 63 \<and> unat x \<le> 2 ^ j
           \<and> (j = 0 \<or> 2 ^ (j - 1) < unat x)"
      using Suc.prems lt by (intro Suc.IH) auto
    moreover have "push_bit 1 ((2 :: u64) ^ k) = 2 ^ Suc k"
      by (simp add: push_bit_eq_mult)
    ultimately show ?thesis using True by (simp add: mult.commute)
  next
    case False
    then have "unat x \<le> 2 ^ k"
      using Suc.prems(3) by (simp add: word_less_nat_alt unat_pow)
    with False Suc.prems show ?thesis by auto
  qed
qed

lemma pow2_loop_enough: "x \<le> 2 ^ 63 \<Longrightarrow> \<exists>p. pow2_loop 64 1 x = Some p"
  using pow2_loop_spec [of 0 64 x] by auto

lemma checked_next_power_of_two_u64_total:
  "x \<le> 2 ^ 63 \<longleftrightarrow> (\<exists>p. checked_next_power_of_two_u64 x c = Inr p)"
  using pow2_loop_enough [of x]
  by (auto simp: checked_next_power_of_two_u64_def push_bit_eq_mult not_less)

lemma checked_next_power_of_two_u64_spec:
  assumes "checked_next_power_of_two_u64 x c = Inr p"
  shows "\<exists>j\<le>63. p = 2 ^ j \<and> unat x \<le> 2 ^ j \<and> (\<forall>i. unat x \<le> 2 ^ i \<longrightarrow> j \<le> i)"
proof (cases "x = 0")
  case True
  with assms show ?thesis by (auto simp: checked_next_power_of_two_u64_def)
next
  case False
  with assms have le: "x \<le> 2 ^ 63" and p: "pow2_loop 64 1 x = Some p"
    by (auto simp: checked_next_power_of_two_u64_def push_bit_eq_mult not_less
             split: if_splits option.splits)
  from pow2_loop_spec [of 0 64 x] le p obtain j where
    j: "p = 2 ^ j" "j \<le> 63" "unat x \<le> 2 ^ j" "j = 0 \<or> 2 ^ (j - 1) < unat x" by auto
  have "j \<le> i" if "unat x \<le> 2 ^ i" for i
  proof (cases "j = 0")
    case False
    with j(4) that have "(2 :: nat) ^ (j - 1) < 2 ^ i" by linarith
    then have "j - 1 < i" using power_strict_increasing_iff [of "2 :: nat" "j - 1" i] by simp
    then show ?thesis by simp
  qed simp
  with j show ?thesis by blast
qed

end
