(* ===== verification/Endian.thy ===== *)
theory Endian
  imports Prelude
begin

unbundle bit_operations_syntax

text \<open>
  \<^verbatim>\<open>src/common/Endian.hpp\<close>: explicit little-endian encoding.  The \<open>append_*\<close> functions take the
  buffer and return the extended buffer.  The readers' loops
  \<open>value |= T(bytes[i]) << (8 * i)\<close> (\<^verbatim>\<open>RecordFormat.cpp\<close>, \<^verbatim>\<open>ShardFrame.cpp\<close>,
  \<^verbatim>\<open>ArchiveReader.cpp\<close>) are \<open>read_le\<close>.  The locale \<open>le_codec\<close> is the contract every integer
  codec of the format satisfies; it is interpreted for the 16-, 32- and 64-bit codecs.
\<close>

definition append_u8 :: "bytes \<Rightarrow> u8 \<Rightarrow> bytes" where
  "append_u8 out v = out @ [v]"

definition append_u16_le :: "bytes \<Rightarrow> u16 \<Rightarrow> bytes" where
  "append_u16_le out v =
     out @ [ucast (v AND 0xff)] @ [ucast (drop_bit 8 v AND 0xff)]"

text \<open>One iteration of the loop \<open>for (shift = 0; shift < width; shift += 8)\<close>.\<close>

definition push_shift :: "'a::len word \<Rightarrow> nat \<Rightarrow> bytes \<Rightarrow> bytes" where
  "push_shift v shift out = out @ [ucast (drop_bit shift v AND 0xff)]"

definition append_u32_le :: "bytes \<Rightarrow> u32 \<Rightarrow> bytes" where
  "append_u32_le out v = fold (push_shift v) [0, 8, 16, 24] out"

definition append_u64_le :: "bytes \<Rightarrow> u64 \<Rightarrow> bytes" where
  "append_u64_le out v = fold (push_shift v) [0, 8, 16, 24, 32, 40, 48, 56] out"

text \<open>A signed 64-bit value is kept as its two's complement word; the cast is the identity.\<close>

definition append_i64_le :: "bytes \<Rightarrow> u64 \<Rightarrow> bytes" where
  "append_i64_le out v = append_u64_le out v"

definition append_bytes :: "bytes \<Rightarrow> bytes \<Rightarrow> bytes" where
  "append_bytes out bs = out @ bs"

definition all_zero :: "bytes \<Rightarrow> bool" where
  "all_zero bs = list_all (\<lambda>b. b = 0) bs"

definition read_le :: "bytes \<Rightarrow> 'a::len word" where
  "read_le bs = fold (\<lambda>i v. v OR push_bit (8 * i) (ucast (bs ! i))) [0..<length bs] 0"

subsection \<open>The closed form of the encoders\<close>

definition le_bytes :: "nat \<Rightarrow> 'a::len word \<Rightarrow> bytes" where
  "le_bytes n v = map (\<lambda>i. ucast (drop_bit (8 * i) v AND 0xff)) [0..<n]"

lemma length_le_bytes [simp, codec_simps]: "length (le_bytes n v) = n"
  by (simp add: le_bytes_def)

lemma append_u16_le_eq [codec_simps]: "append_u16_le out v = out @ le_bytes 2 v"
  by (simp add: append_u16_le_def le_bytes_def upt_rec)

lemma append_u32_le_eq [codec_simps]: "append_u32_le out v = out @ le_bytes 4 v"
  by (simp add: append_u32_le_def le_bytes_def push_shift_def upt_rec)

lemma append_u64_le_eq [codec_simps]: "append_u64_le out v = out @ le_bytes 8 v"
  by (simp add: append_u64_le_def le_bytes_def push_shift_def upt_rec)

lemma append_i64_le_eq [codec_simps]: "append_i64_le out v = out @ le_bytes 8 v"
  by (simp add: append_i64_le_def append_u64_le_eq)

lemmas append_simps = append_u16_le_eq append_u32_le_eq append_u64_le_eq append_i64_le_eq
  append_u8_def append_bytes_def

subsection \<open>Round trips\<close>

lemma bit_byte_mask: "bit (0xff :: 'a::len word) j \<longleftrightarrow> j < 8 \<and> j < LENGTH('a)"
proof -
  have "(0xff :: 'a word) = mask 8"
    by (simp add: mask_eq_exp_minus_1)
  then show ?thesis by (simp only: bit_mask_iff possible_bit_word) auto
qed

lemma bit_le_bytes:
  assumes "i < n"
  shows "bit (le_bytes n v ! i) j \<longleftrightarrow> j < 8 \<and> bit v (8 * i + j)"
proof -
  have "le_bytes n v ! i = ucast (drop_bit (8 * i) v AND 0xff)"
    using assms by (simp add: le_bytes_def)
  then show ?thesis
    using bit_imp_le_length [of v "8 * i + j"]
    by (simp only: bit_ucast_iff bit_and_iff bit_drop_bit_eq bit_byte_mask comp_apply) auto
qed

lemma bit_read_le_upto:
  "bit (fold (\<lambda>i v. v OR push_bit (8 * i) (ucast ((bs :: bytes) ! i))) [0..<n] (0 :: 'a::len word)) k
     \<longleftrightarrow> k < LENGTH('a) \<and> k div 8 < n \<and> bit (bs ! (k div 8)) (k mod 8)"
proof (induction n)
  case 0
  then show ?case by simp
next
  case (Suc n)
  have byte: "bit (bs ! n) (k - 8 * n) \<Longrightarrow> k - 8 * n < 8"
    using bit_imp_le_length [of "bs ! n" "k - 8 * n"] by simp
  have split: "8 * n \<le> k \<and> k - 8 * n < 8 \<longleftrightarrow> k div 8 = n"
    by auto
  have md: "k div 8 = n \<Longrightarrow> k - 8 * n = k mod 8"
    by (metis minus_mult_div_eq_mod)
  show ?case
    using byte split md
    by (auto simp: Suc bit_simps less_Suc_eq)
qed

lemma bit_read_le:
  "bit (read_le bs :: 'a::len word) k \<longleftrightarrow>
     k < LENGTH('a) \<and> k div 8 < length bs \<and> bit (bs ! (k div 8)) (k mod 8)"
  unfolding read_le_def by (rule bit_read_le_upto)

lemma read_le_bytes:
  fixes v :: "'a::len word"
  assumes "LENGTH('a) = 8 * n"
  shows "read_le (le_bytes n v) = v"
  by (rule bit_word_eqI) (use assms in \<open>auto simp: bit_read_le bit_le_bytes\<close>)

lemma le_bytes_read:
  assumes "length bs = n" and "LENGTH('a::len) = 8 * n"
  shows "le_bytes n (read_le bs :: 'a word) = bs"
proof (rule nth_equalityI)
  show "length (le_bytes n (read_le bs :: 'a word)) = length bs" using assms by simp
next
  fix i assume "i < length (le_bytes n (read_le bs :: 'a word))"
  then have i: "i < n" by simp
  show "le_bytes n (read_le bs :: 'a word) ! i = bs ! i"
  proof (rule bit_word_eqI)
    fix j assume "j < LENGTH(8)"
    then show "bit (le_bytes n (read_le bs :: 'a word) ! i) j = bit (bs ! i) j"
      using i assms by (simp add: bit_le_bytes bit_read_le)
  qed
qed

lemma le_bytes_inject:
  fixes v w :: "'a::len word"
  assumes "LENGTH('a) = 8 * n"
  shows "le_bytes n v = le_bytes n w \<longleftrightarrow> v = w"
  using read_le_bytes [OF assms] by metis

subsection \<open>The integer codec contract\<close>

locale le_codec =
  fixes append_le :: "bytes \<Rightarrow> 'a::len word \<Rightarrow> bytes"
    and width :: nat
  assumes append_le_eq: "append_le out v = out @ le_bytes width v"
    and width_bits: "LENGTH('a) = 8 * width"
begin

lemma length_append_le: "length (append_le out v) = length out + width"
  by (simp add: append_le_eq)

lemma read_append_le: "read_le (drop (length out) (append_le out v)) = v"
  by (simp add: append_le_eq read_le_bytes width_bits)

lemma append_le_inject: "append_le out v = append_le out w \<longleftrightarrow> v = w"
  by (simp add: append_le_eq le_bytes_inject width_bits)

lemma append_read_le: "length bs = width \<Longrightarrow> append_le out (read_le bs) = out @ bs"
  by (simp add: append_le_eq le_bytes_read width_bits)

end

interpretation u16_codec: le_codec append_u16_le 2
  by unfold_locales (simp_all add: append_u16_le_eq)

interpretation u32_codec: le_codec append_u32_le 4
  by unfold_locales (simp_all add: append_u32_le_eq)

interpretation u64_codec: le_codec append_u64_le 8
  by unfold_locales (simp_all add: append_u64_le_eq)

interpretation i64_codec: le_codec append_i64_le 8
  by unfold_locales (simp_all add: append_i64_le_eq)

lemma read_le_2 [simp]: "read_le (le_bytes 2 (v :: u16)) = v"
  by (rule read_le_bytes) simp

lemma read_le_4 [simp]: "read_le (le_bytes 4 (v :: u32)) = v"
  by (rule read_le_bytes) simp

lemma read_le_8 [simp]: "read_le (le_bytes 8 (v :: u64)) = v"
  by (rule read_le_bytes) simp

lemma all_zero_replicate: "all_zero bs \<longleftrightarrow> bs = replicate (length bs) 0"
  by (induction bs) (auto simp: all_zero_def)

subsection \<open>Byte readers\<close>

text \<open>
  The \<open>Reader\<close> classes of \<^verbatim>\<open>ShardFrame.cpp\<close> and \<^verbatim>\<open>RecordFormat.cpp\<close>: a reader is the list of the
  bytes that remain, and every read returns its value and the reader after it.
\<close>

definition read_bytes :: "string \<Rightarrow> nat \<Rightarrow> bytes \<Rightarrow> (bytes \<times> bytes) result" where
  "read_bytes msg count r =
     (if count > length r then Inl (InvalidArgument msg)
      else Inr (take count r, drop count r))"

definition read_u16_le :: "string \<Rightarrow> bytes \<Rightarrow> (u16 \<times> bytes) result" where
  "read_u16_le msg r = bindr (read_bytes msg 2 r) (\<lambda>(b, r). Inr (read_le b, r))"

definition read_u32_le :: "string \<Rightarrow> bytes \<Rightarrow> (u32 \<times> bytes) result" where
  "read_u32_le msg r = bindr (read_bytes msg 4 r) (\<lambda>(b, r). Inr (read_le b, r))"

definition read_u64_le :: "string \<Rightarrow> bytes \<Rightarrow> (u64 \<times> bytes) result" where
  "read_u64_le msg r = bindr (read_bytes msg 8 r) (\<lambda>(b, r). Inr (read_le b, r))"

lemma read_bytes_append [simp]:
  "length xs = n \<Longrightarrow> read_bytes msg n (xs @ ys) = Inr (xs, ys)"
  by (simp add: read_bytes_def)

lemma read_bytes_all [simp]: "length xs = n \<Longrightarrow> read_bytes msg n xs = Inr (xs, [])"
  by (simp add: read_bytes_def)

lemma read_u16_le_append [simp]: "read_u16_le msg (le_bytes 2 v @ ys) = Inr (v, ys)"
  by (simp add: read_u16_le_def)

lemma read_u32_le_append [simp]: "read_u32_le msg (le_bytes 4 v @ ys) = Inr (v, ys)"
  by (simp add: read_u32_le_def)

lemma read_u64_le_append [simp]: "read_u64_le msg (le_bytes 8 v @ ys) = Inr (v, ys)"
  by (simp add: read_u64_le_def)

lemma read_bytes_Inr:
  "read_bytes msg n r = Inr (xs, r') \<longleftrightarrow> r = xs @ r' \<and> length xs = n"
  by (auto simp: read_bytes_def)

lemma read_u16_le_Inr: "read_u16_le msg r = Inr (v, r') \<longleftrightarrow> r = le_bytes 2 v @ r'"
  by (auto simp: read_u16_le_def bindr_eq_Inr read_bytes_Inr le_bytes_read)

lemma read_u32_le_Inr: "read_u32_le msg r = Inr (v, r') \<longleftrightarrow> r = le_bytes 4 v @ r'"
  by (auto simp: read_u32_le_def bindr_eq_Inr read_bytes_Inr le_bytes_read)

lemma read_u64_le_Inr: "read_u64_le msg r = Inr (v, r') \<longleftrightarrow> r = le_bytes 8 v @ r'"
  by (auto simp: read_u64_le_def bindr_eq_Inr read_bytes_Inr le_bytes_read)

lemmas read_Inr = read_bytes_Inr read_u16_le_Inr read_u32_le_Inr read_u64_le_Inr

end
