(* ===== verification/Shard_Frame.thy ===== *)
theory Shard_Frame
  imports Checked_Arithmetic Endian
begin

unbundle bit_operations_syntax

text \<open>
  \<^verbatim>\<open>src/io/ShardFrame.hpp\<close> and \<^verbatim>\<open>src/io/ShardFrame.cpp\<close>: the three public headers of the shard
  format, their serialisers and validating parsers, the per-shard header hash and MAC, and the
  encoded size of a chunk frame.  A \<open>std::array<Byte, N>\<close> is a byte list; that it has length N is
  the predicate \<open>global_arrays\<close> / \<open>shard_arrays\<close>, which every parsed header satisfies.  The
  \<open>Reader\<close> class is represented by the bytes that remain after its offset, so
  \<open>bytes_.size() - offset_\<close> is the length of that list.  BLAKE3 and HMAC-SHA256 are parameters
  of the definitions that call them: the hash of the concatenated updates, and the one-shot HMAC,
  which may fail.
\<close>

subsection \<open>Constants and headers\<close>

definition ascii :: "string \<Rightarrow> bytes" where
  "ascii s = map of_char s"

definition kGlobalHeaderV1Magic :: bytes where
  "kGlobalHeaderV1Magic = ascii ''BSEAL-F1''"

definition kShardHeaderV1Magic :: bytes where
  "kShardHeaderV1Magic = ascii ''BSEAL-S1''"

definition kChunkFrameV1Magic :: bytes where
  "kChunkFrameV1Magic = ascii ''BSC1''"

abbreviation (input) kGlobalPublicHeaderV1Size :: nat where "kGlobalPublicHeaderV1Size \<equiv> 192"
abbreviation (input) kShardPublicHeaderV1Size :: nat where "kShardPublicHeaderV1Size \<equiv> 80"
abbreviation (input) kChunkFrameHeaderV1Size :: nat where "kChunkFrameHeaderV1Size \<equiv> 40"

abbreviation (input) kAeadAlgIdXChaCha20Poly1305 :: u16 where "kAeadAlgIdXChaCha20Poly1305 \<equiv> 1"
abbreviation (input) kAeadAlgIdAes256Gcm :: u16 where "kAeadAlgIdAes256Gcm \<equiv> 2"
abbreviation (input) kKdfAlgIdArgon2idHkdf :: u16 where "kKdfAlgIdArgon2idHkdf \<equiv> 1"
abbreviation (input) kHashAlgIdBlake3 :: u16 where "kHashAlgIdBlake3 \<equiv> 1"
abbreviation (input) kMacAlgIdHmacSha256 :: u16 where "kMacAlgIdHmacSha256 \<equiv> 1"

abbreviation (input) kChunkFrameFlagFinalChunk :: u16 where "kChunkFrameFlagFinalChunk \<equiv> 1"
abbreviation (input) kChunkFrameKnownFlags :: u16 where "kChunkFrameKnownFlags \<equiv> 1"

record GlobalPublicHeaderV1 =
  gh_magic :: bytes
  gh_format_major :: u16
  gh_format_minor :: u16
  gh_global_header_len :: u32
  gh_shard_header_len :: u32
  gh_frame_header_len :: u16
  gh_global_flags :: u16
  gh_archive_id :: bytes
  gh_aead_alg_id :: u16
  gh_kdf_alg_id :: u16
  gh_hash_alg_id :: u16
  gh_mac_alg_id :: u16
  gh_kdf_salt :: bytes
  gh_argon2_version :: u32
  gh_argon2_memory_kib :: u32
  gh_argon2_iterations :: u32
  gh_argon2_parallelism :: u32
  gh_chunk_plain_size :: u32
  gh_shard_count :: u32
  gh_global_chunk_count :: u64
  gh_padded_plaintext_size :: u64
  gh_final_plaintext_chunk_len :: u32
  gh_padding_policy_id :: u16
  gh_reserved0 :: u16
  gh_padding_policy_value :: u64
  gh_max_shard_payload_len :: u64
  gh_required_feature_flags :: u64
  gh_reserved1 :: bytes

record ShardPublicHeaderV1 =
  sh_shard_magic :: bytes
  sh_shard_header_len :: u32
  sh_shard_index :: u32
  sh_first_global_chunk_index :: u64
  sh_shard_chunk_count :: u64
  sh_shard_payload_len :: u64
  sh_header_mac :: bytes
  sh_reserved0 :: u64

record ChunkFrameHeaderV1 =
  fh_frame_flags :: u16
  fh_shard_index :: u32
  fh_global_chunk_index :: u64
  fh_plaintext_len :: u32
  fh_ciphertext_len :: u64
  fh_tag_len :: u16

text \<open>The lengths the C++ types fix.\<close>

definition global_arrays :: "GlobalPublicHeaderV1 \<Rightarrow> bool" where
  "global_arrays h \<longleftrightarrow> length (gh_magic h) = 8 \<and> length (gh_archive_id h) = 32
     \<and> length (gh_kdf_salt h) = 32 \<and> length (gh_reserved1 h) = 24"

definition shard_arrays :: "ShardPublicHeaderV1 \<Rightarrow> bool" where
  "shard_arrays h \<longleftrightarrow> length (sh_shard_magic h) = 8 \<and> length (sh_header_mac h) = 32"

subsection \<open>Powers of two, as the validator tests them\<close>

definition is_power_of_two :: "'a::len word \<Rightarrow> bool" where
  "is_power_of_two v \<longleftrightarrow> v \<noteq> 0 \<and> v AND (v - 1) = 0"

subsection \<open>The global header\<close>

definition serialize_global_public_header :: "GlobalPublicHeaderV1 \<Rightarrow> bytes result" where
  "serialize_global_public_header h =
    (let out = [];
         out = append_bytes out (gh_magic h);
         out = append_u16_le out (gh_format_major h);
         out = append_u16_le out (gh_format_minor h);
         out = append_u32_le out (gh_global_header_len h);
         out = append_u32_le out (gh_shard_header_len h);
         out = append_u16_le out (gh_frame_header_len h);
         out = append_u16_le out (gh_global_flags h);
         out = append_bytes out (gh_archive_id h);
         out = append_u16_le out (gh_aead_alg_id h);
         out = append_u16_le out (gh_kdf_alg_id h);
         out = append_u16_le out (gh_hash_alg_id h);
         out = append_u16_le out (gh_mac_alg_id h);
         out = append_bytes out (gh_kdf_salt h);
         out = append_u32_le out (gh_argon2_version h);
         out = append_u32_le out (gh_argon2_memory_kib h);
         out = append_u32_le out (gh_argon2_iterations h);
         out = append_u32_le out (gh_argon2_parallelism h);
         out = append_u32_le out (gh_chunk_plain_size h);
         out = append_u32_le out (gh_shard_count h);
         out = append_u64_le out (gh_global_chunk_count h);
         out = append_u64_le out (gh_padded_plaintext_size h);
         out = append_u32_le out (gh_final_plaintext_chunk_len h);
         out = append_u16_le out (gh_padding_policy_id h);
         out = append_u16_le out (gh_reserved0 h);
         out = append_u64_le out (gh_padding_policy_value h);
         out = append_u64_le out (gh_max_shard_payload_len h);
         out = append_u64_le out (gh_required_feature_flags h);
         out = append_bytes out (gh_reserved1 h)
     in if length out \<noteq> kGlobalPublicHeaderV1Size
        then Inl (Error ''internal global header size mismatch'')
        else Inr out)"

text \<open>
  The field reads of \<open>parse_global_public_header\<close>, with the magic check that precedes the other
  reads.  The padding-policy switch is a definition of its own.
\<close>

definition read_global_fields :: "string \<Rightarrow> bytes \<Rightarrow> (GlobalPublicHeaderV1 \<times> bytes) result" where
  "read_global_fields msg r =
    bindr (read_bytes msg 8 r) (\<lambda>(magic, r).
    throw_if (magic \<noteq> kGlobalHeaderV1Magic) (InvalidArgument ''wrong global header magic'') (
    bindr (read_u16_le msg r) (\<lambda>(format_major, r).
    bindr (read_u16_le msg r) (\<lambda>(format_minor, r).
    bindr (read_u32_le msg r) (\<lambda>(global_header_len, r).
    bindr (read_u32_le msg r) (\<lambda>(shard_header_len, r).
    bindr (read_u16_le msg r) (\<lambda>(frame_header_len, r).
    bindr (read_u16_le msg r) (\<lambda>(global_flags, r).
    bindr (read_bytes msg 32 r) (\<lambda>(archive_id, r).
    bindr (read_u16_le msg r) (\<lambda>(aead_alg_id, r).
    bindr (read_u16_le msg r) (\<lambda>(kdf_alg_id, r).
    bindr (read_u16_le msg r) (\<lambda>(hash_alg_id, r).
    bindr (read_u16_le msg r) (\<lambda>(mac_alg_id, r).
    bindr (read_bytes msg 32 r) (\<lambda>(kdf_salt, r).
    bindr (read_u32_le msg r) (\<lambda>(argon2_version, r).
    bindr (read_u32_le msg r) (\<lambda>(argon2_memory_kib, r).
    bindr (read_u32_le msg r) (\<lambda>(argon2_iterations, r).
    bindr (read_u32_le msg r) (\<lambda>(argon2_parallelism, r).
    bindr (read_u32_le msg r) (\<lambda>(chunk_plain_size, r).
    bindr (read_u32_le msg r) (\<lambda>(shard_count, r).
    bindr (read_u64_le msg r) (\<lambda>(global_chunk_count, r).
    bindr (read_u64_le msg r) (\<lambda>(padded_plaintext_size, r).
    bindr (read_u32_le msg r) (\<lambda>(final_plaintext_chunk_len, r).
    bindr (read_u16_le msg r) (\<lambda>(padding_policy_id, r).
    bindr (read_u16_le msg r) (\<lambda>(reserved0, r).
    bindr (read_u64_le msg r) (\<lambda>(padding_policy_value, r).
    bindr (read_u64_le msg r) (\<lambda>(max_shard_payload_len, r).
    bindr (read_u64_le msg r) (\<lambda>(required_feature_flags, r).
    bindr (read_bytes msg 24 r) (\<lambda>(reserved1, r).
    Inr (\<lparr>gh_magic = magic, gh_format_major = format_major, gh_format_minor = format_minor,
          gh_global_header_len = global_header_len, gh_shard_header_len = shard_header_len,
          gh_frame_header_len = frame_header_len, gh_global_flags = global_flags,
          gh_archive_id = archive_id, gh_aead_alg_id = aead_alg_id, gh_kdf_alg_id = kdf_alg_id,
          gh_hash_alg_id = hash_alg_id, gh_mac_alg_id = mac_alg_id, gh_kdf_salt = kdf_salt,
          gh_argon2_version = argon2_version, gh_argon2_memory_kib = argon2_memory_kib,
          gh_argon2_iterations = argon2_iterations,
          gh_argon2_parallelism = argon2_parallelism, gh_chunk_plain_size = chunk_plain_size,
          gh_shard_count = shard_count, gh_global_chunk_count = global_chunk_count,
          gh_padded_plaintext_size = padded_plaintext_size,
          gh_final_plaintext_chunk_len = final_plaintext_chunk_len,
          gh_padding_policy_id = padding_policy_id, gh_reserved0 = reserved0,
          gh_padding_policy_value = padding_policy_value,
          gh_max_shard_payload_len = max_shard_payload_len,
          gh_required_feature_flags = required_feature_flags,
          gh_reserved1 = reserved1\<rparr>, r))))))))))))))))))))))))))))))"

definition check_padding_policy :: "GlobalPublicHeaderV1 \<Rightarrow> unit result" where
  "check_padding_policy h =
    (let multiple = (gh_padded_plaintext_size h mod ucast (gh_chunk_plain_size h) = 0);
         full_final = (gh_final_plaintext_chunk_len h = gh_chunk_plain_size h)
     in if gh_padding_policy_id h = 0 then
          throw_if (gh_padding_policy_value h \<noteq> 0)
            (InvalidArgument ''padding_policy_value must be 0 for none padding policy'') (Inr ())
        else if gh_padding_policy_id h = 1 then
          throw_if (gh_padding_policy_value h \<noteq> 0)
            (InvalidArgument ''padding_policy_value must be 0 for chunk padding policy'') (
          throw_if (\<not> multiple)
            (InvalidArgument ''padded_plaintext_size is not a multiple of chunk_plain_size for chunk padding policy'') (
          throw_if (\<not> full_final)
            (InvalidArgument ''final_plaintext_chunk_len must equal chunk_plain_size for chunk padding policy'')
          (Inr ())))
        else if gh_padding_policy_id h = 2 then
          throw_if (gh_padding_policy_value h \<noteq> 0)
            (InvalidArgument ''padding_policy_value must be 0 for power2 padding policy'') (
          throw_if (\<not> is_power_of_two (gh_padded_plaintext_size h))
            (InvalidArgument ''padded_plaintext_size is not a power of two for power2 padding policy'') (
          throw_if (\<not> multiple)
            (InvalidArgument ''padded_plaintext_size is not a multiple of chunk_plain_size for power2 padding policy'') (
          throw_if (\<not> full_final)
            (InvalidArgument ''final_plaintext_chunk_len must equal chunk_plain_size for power2 padding policy'')
          (Inr ()))))
        else if gh_padding_policy_id h = 3 then
          throw_if (gh_padding_policy_value h \<noteq> gh_padded_plaintext_size h)
            (InvalidArgument ''padding_policy_value must equal padded_plaintext_size for fixed-size padding policy'') (
          throw_if (\<not> multiple)
            (InvalidArgument ''padded_plaintext_size is not a multiple of chunk_plain_size for fixed-size padding policy'') (
          throw_if (\<not> full_final)
            (InvalidArgument ''final_plaintext_chunk_len must equal chunk_plain_size for fixed-size padding policy'')
          (Inr ())))
        else Inl (InvalidArgument ''unsupported padding_policy_id''))"

definition check_global_header :: "GlobalPublicHeaderV1 \<Rightarrow> unit result" where
  "check_global_header h =
    throw_if (gh_format_major h \<noteq> 1 \<or> gh_format_minor h \<noteq> 0)
      (InvalidArgument ''unsupported format version'') (
    throw_if (gh_global_header_len h \<noteq> 192) (InvalidArgument ''global_header_len mismatch'') (
    throw_if (gh_shard_header_len h \<noteq> 80)
      (InvalidArgument ''shard_header_len mismatch in global header'') (
    throw_if (gh_frame_header_len h \<noteq> 40)
      (InvalidArgument ''frame_header_len mismatch in global header'') (
    throw_if (gh_global_flags h \<noteq> 0) (InvalidArgument ''non-zero global_flags'') (
    throw_if (gh_aead_alg_id h \<noteq> kAeadAlgIdXChaCha20Poly1305
        \<and> gh_aead_alg_id h \<noteq> kAeadAlgIdAes256Gcm) (InvalidArgument ''unknown aead_alg_id'') (
    throw_if (gh_kdf_alg_id h \<noteq> kKdfAlgIdArgon2idHkdf) (InvalidArgument ''unknown kdf_alg_id'') (
    throw_if (gh_hash_alg_id h \<noteq> kHashAlgIdBlake3) (InvalidArgument ''unknown hash_alg_id'') (
    throw_if (gh_mac_alg_id h \<noteq> kMacAlgIdHmacSha256) (InvalidArgument ''unknown mac_alg_id'') (
    throw_if (gh_shard_count h = 0) (InvalidArgument ''shard_count is zero'') (
    throw_if (gh_global_chunk_count h = 0) (InvalidArgument ''global_chunk_count is zero'') (
    throw_if (gh_padded_plaintext_size h = 0) (InvalidArgument ''padded_plaintext_size is zero'') (
    throw_if (\<not> is_power_of_two (gh_chunk_plain_size h) \<or> gh_chunk_plain_size h < 65536
        \<or> gh_chunk_plain_size h > 67108864)
      (InvalidArgument ''chunk_plain_size is not a power of two in [65536, 67108864]'') (
    throw_if (gh_final_plaintext_chunk_len h = 0)
      (InvalidArgument ''final_plaintext_chunk_len is zero'') (
    throw_if (gh_final_plaintext_chunk_len h > gh_chunk_plain_size h)
      (InvalidArgument ''final_plaintext_chunk_len > chunk_plain_size'') (
    throw_if (gh_padded_plaintext_size h \<noteq>
        (gh_global_chunk_count h - 1) * ucast (gh_chunk_plain_size h)
          + ucast (gh_final_plaintext_chunk_len h))
      (InvalidArgument ''padded_plaintext_size is inconsistent with chunk counts'') (
    throw_if (ucast (gh_shard_count h) > gh_global_chunk_count h)
      (InvalidArgument ''shard_count > global_chunk_count'') (
    bindr (check_padding_policy h) (\<lambda>_.
    throw_if (gh_max_shard_payload_len h = 0) (InvalidArgument ''max_shard_payload_len is zero'') (
    throw_if (gh_required_feature_flags h \<noteq> 0)
      (InvalidArgument ''non-zero required_feature_flags'') (
    throw_if (gh_reserved0 h \<noteq> 0) (InvalidArgument ''non-zero reserved0 in global header'') (
    throw_if (\<not> all_zero (gh_reserved1 h))
      (InvalidArgument ''non-zero reserved1 in global header'')
    (Inr ()))))))))))))))))))))))"

definition parse_global_public_header :: "bytes \<Rightarrow> GlobalPublicHeaderV1 result" where
  "parse_global_public_header bs =
    throw_if (length bs < kGlobalPublicHeaderV1Size)
      (InvalidArgument ''truncated global public header'') (
    bindr (read_global_fields ''truncated global public header''
             (take kGlobalPublicHeaderV1Size bs)) (\<lambda>(h, _).
    bindr (check_global_header h) (\<lambda>_. Inr h)))"

subsection \<open>The shard header\<close>

definition serialize_shard_public_header :: "ShardPublicHeaderV1 \<Rightarrow> bytes result" where
  "serialize_shard_public_header h =
    (let out = [];
         out = append_bytes out (sh_shard_magic h);
         out = append_u32_le out (sh_shard_header_len h);
         out = append_u32_le out (sh_shard_index h);
         out = append_u64_le out (sh_first_global_chunk_index h);
         out = append_u64_le out (sh_shard_chunk_count h);
         out = append_u64_le out (sh_shard_payload_len h);
         out = append_bytes out (sh_header_mac h);
         out = append_u64_le out (sh_reserved0 h)
     in if length out \<noteq> kShardPublicHeaderV1Size
        then Inl (Error ''internal shard header size mismatch'')
        else Inr out)"

definition serialize_shard_public_header_for_mac :: "ShardPublicHeaderV1 \<Rightarrow> bytes result" where
  "serialize_shard_public_header_for_mac h =
     serialize_shard_public_header (h\<lparr>sh_header_mac := replicate 32 0\<rparr>)"

definition read_shard_fields :: "string \<Rightarrow> bytes \<Rightarrow> (ShardPublicHeaderV1 \<times> bytes) result" where
  "read_shard_fields msg r =
    bindr (read_bytes msg 8 r) (\<lambda>(shard_magic, r).
    throw_if (shard_magic \<noteq> kShardHeaderV1Magic) (InvalidArgument ''wrong shard header magic'') (
    bindr (read_u32_le msg r) (\<lambda>(shard_header_len, r).
    bindr (read_u32_le msg r) (\<lambda>(shard_index, r).
    bindr (read_u64_le msg r) (\<lambda>(first_global_chunk_index, r).
    bindr (read_u64_le msg r) (\<lambda>(shard_chunk_count, r).
    bindr (read_u64_le msg r) (\<lambda>(shard_payload_len, r).
    bindr (read_bytes msg 32 r) (\<lambda>(header_mac, r).
    bindr (read_u64_le msg r) (\<lambda>(reserved0, r).
    Inr (\<lparr>sh_shard_magic = shard_magic, sh_shard_header_len = shard_header_len,
          sh_shard_index = shard_index, sh_first_global_chunk_index = first_global_chunk_index,
          sh_shard_chunk_count = shard_chunk_count, sh_shard_payload_len = shard_payload_len,
          sh_header_mac = header_mac, sh_reserved0 = reserved0\<rparr>, r))))))))))"

definition check_shard_header :: "ShardPublicHeaderV1 \<Rightarrow> unit result" where
  "check_shard_header h =
    throw_if (sh_shard_header_len h \<noteq> 80) (InvalidArgument ''shard_header_len mismatch'') (
    throw_if (sh_shard_chunk_count h = 0) (InvalidArgument ''shard_chunk_count is zero'') (
    throw_if (sh_shard_payload_len h = 0) (InvalidArgument ''shard_payload_len is zero'') (
    throw_if (sh_reserved0 h \<noteq> 0) (InvalidArgument ''non-zero reserved0 in shard header'')
    (Inr ()))))"

definition parse_shard_public_header :: "bytes \<Rightarrow> ShardPublicHeaderV1 result" where
  "parse_shard_public_header bs =
    throw_if (length bs < kShardPublicHeaderV1Size)
      (InvalidArgument ''truncated shard public header'') (
    bindr (read_shard_fields ''truncated shard public header''
             (take kShardPublicHeaderV1Size bs)) (\<lambda>(h, _).
    bindr (check_shard_header h) (\<lambda>_. Inr h)))"

subsection \<open>Header hash and MAC\<close>

definition kPublicHeaderHashDomain :: bytes where
  "kPublicHeaderHashDomain = ascii ''BSEAL public header hash v1'' @ [0]"

definition kHeaderMacDomain :: bytes where
  "kHeaderMacDomain = ascii ''BSEAL header mac v1'' @ [0]"

definition compute_public_header_hash ::
  "(bytes \<Rightarrow> bytes) \<Rightarrow> GlobalPublicHeaderV1 \<Rightarrow> ShardPublicHeaderV1 \<Rightarrow> bytes result" where
  "compute_public_header_hash blake3 global_header shard_header =
    bindr (serialize_global_public_header global_header) (\<lambda>global_bytes.
    bindr (serialize_shard_public_header_for_mac shard_header) (\<lambda>shard_bytes.
    Inr (blake3 (kPublicHeaderHashDomain @ global_bytes @ shard_bytes))))"

definition compute_shard_header_mac ::
  "(bytes \<Rightarrow> bytes \<Rightarrow> bytes option) \<Rightarrow> bytes \<Rightarrow> GlobalPublicHeaderV1
     \<Rightarrow> ShardPublicHeaderV1 \<Rightarrow> bytes result" where
  "compute_shard_header_mac hmac key global_header shard_header =
    throw_if (key = []) (InvalidArgument ''header authentication key is empty'') (
    bindr (serialize_global_public_header global_header) (\<lambda>global_bytes.
    bindr (serialize_shard_public_header_for_mac shard_header) (\<lambda>shard_bytes.
    bindr (checked_int_size (of_nat (length key)) ''header authentication key'') (\<lambda>_.
    (case hmac key (kHeaderMacDomain @ global_bytes @ shard_bytes) of
       None \<Rightarrow> Inl (Error ''failed to compute shard header MAC'')
     | Some out \<Rightarrow> throw_if (length out \<noteq> 32) (Error ''failed to compute shard header MAC'')
                     (Inr out))))))"

definition verify_shard_header_mac ::
  "(bytes \<Rightarrow> bytes \<Rightarrow> bytes option) \<Rightarrow> bytes \<Rightarrow> GlobalPublicHeaderV1
     \<Rightarrow> ShardPublicHeaderV1 \<Rightarrow> bool result" where
  "verify_shard_header_mac hmac key global_header shard_header =
    bindr (compute_shard_header_mac hmac key global_header shard_header) (\<lambda>expected.
    Inr (expected = sh_header_mac shard_header))"

subsection \<open>The chunk frame header\<close>

definition validate_chunk_frame_header_v1 :: "ChunkFrameHeaderV1 \<Rightarrow> unit result" where
  "validate_chunk_frame_header_v1 h =
    throw_if (fh_frame_flags h AND NOT kChunkFrameKnownFlags \<noteq> 0)
      (InvalidArgument ''unsupported chunk frame flags'') (
    throw_if (fh_tag_len h = 0) (InvalidArgument ''invalid chunk frame tag length'') (
    throw_if (fh_ciphertext_len h > u64_max)
      (InvalidArgument ''chunk frame ciphertext length too large for this platform'') (
    throw_if (fh_tag_len h > ucast u64_max)
      (InvalidArgument ''chunk frame tag length too large for this platform'')
    (Inr ()))))"

definition serialize_chunk_frame_header_v1 :: "ChunkFrameHeaderV1 \<Rightarrow> bytes result" where
  "serialize_chunk_frame_header_v1 h =
    bindr (validate_chunk_frame_header_v1 h) (\<lambda>_.
    (let out = [];
         out = append_bytes out kChunkFrameV1Magic;
         out = append_u16_le out 40;
         out = append_u16_le out (fh_frame_flags h);
         out = append_u32_le out (fh_shard_index h);
         out = append_u64_le out (fh_global_chunk_index h);
         out = append_u32_le out (fh_plaintext_len h);
         out = append_u64_le out (fh_ciphertext_len h);
         out = append_u16_le out (fh_tag_len h);
         out = append_u16_le out 0;
         out = append_u32_le out 0
     in Inr out))"

definition parse_chunk_frame_header_v1 :: "bytes \<Rightarrow> ChunkFrameHeaderV1 result" where
  "parse_chunk_frame_header_v1 bs =
    (let msg = ''truncated frame header'' in
    throw_if (length bs < kChunkFrameHeaderV1Size) (InvalidArgument msg) (
    bindr (read_bytes msg 4 (take kChunkFrameHeaderV1Size bs)) (\<lambda>(magic, r).
    throw_if (magic \<noteq> kChunkFrameV1Magic) (InvalidArgument ''wrong chunk frame magic'') (
    bindr (read_u16_le msg r) (\<lambda>(frame_header_len, r).
    throw_if (frame_header_len \<noteq> 40)
      (InvalidArgument ''unsupported chunk frame header length'') (
    bindr (read_u16_le msg r) (\<lambda>(frame_flags, r).
    bindr (read_u32_le msg r) (\<lambda>(shard_index, r).
    bindr (read_u64_le msg r) (\<lambda>(global_chunk_index, r).
    bindr (read_u32_le msg r) (\<lambda>(plaintext_len, r).
    bindr (read_u64_le msg r) (\<lambda>(ciphertext_len, r).
    bindr (read_u16_le msg r) (\<lambda>(tag_len, r).
    bindr (read_u16_le msg r) (\<lambda>(reserved0, r).
    throw_if (reserved0 \<noteq> 0) (InvalidArgument ''non-zero chunk frame reserved0'') (
    bindr (read_bytes msg 4 r) (\<lambda>(reserved1, r).
    throw_if (\<not> all_zero reserved1) (InvalidArgument ''non-zero chunk frame reserved1'') (
    let header = \<lparr>fh_frame_flags = frame_flags, fh_shard_index = shard_index,
        fh_global_chunk_index = global_chunk_index, fh_plaintext_len = plaintext_len,
        fh_ciphertext_len = ciphertext_len, fh_tag_len = tag_len\<rparr> in
    bindr (validate_chunk_frame_header_v1 header) (\<lambda>_.
    throw_if (tag_len \<noteq> 16) (InvalidArgument ''chunk frame tag_len must be 16'') (
    throw_if (ciphertext_len \<noteq> ucast plaintext_len)
      (InvalidArgument ''chunk frame ciphertext_len must equal plaintext_len for v1 AEADs'')
    (Inr header)))))))))))))))))))"

definition chunk_frame_v1_encoded_size :: "ChunkFrameHeaderV1 \<Rightarrow> u64 result" where
  "chunk_frame_v1_encoded_size h =
    bindr (validate_chunk_frame_header_v1 h) (\<lambda>_.
    (let body_len = fh_ciphertext_len h + ucast (fh_tag_len h) in
     throw_if (body_len < fh_ciphertext_len h)
       (InvalidArgument ''chunk frame body length overflow'') (
     let encoded_len = 40 + body_len in
     throw_if (encoded_len < body_len)
       (InvalidArgument ''chunk frame encoded length overflow'') (Inr encoded_len))))"

definition chunk_frame_v1_encoded_size_from_params :: "u64 \<Rightarrow> u16 \<Rightarrow> u64 result" where
  "chunk_frame_v1_encoded_size_from_params plaintext_len tag_len =
    (let body = plaintext_len + ucast tag_len in
     throw_if (body < plaintext_len) (InvalidArgument ''chunk frame body length overflow'') (
     let total = 40 + body in
     throw_if (total < body) (InvalidArgument ''chunk frame encoded length overflow'')
       (Inr total)))"

subsection \<open>Powers of two\<close>

lemma nat_power_of_two_interval: "0 < (n :: nat) \<Longrightarrow> \<exists>k. 2 ^ k \<le> n \<and> n < 2 ^ Suc k"
proof (induction n rule: less_induct)
  case (less n)
  show ?case
  proof (cases "n = 1")
    case True
    then show ?thesis by (intro exI [of _ 0]) simp
  next
    case False
    with less.prems have "0 < n div 2" "n div 2 < n" by auto
    with less.IH obtain k where "2 ^ k \<le> n div 2" "n div 2 < 2 ^ Suc k" by blast
    then show ?thesis by (intro exI [of _ "Suc k"]) auto
  qed
qed

lemma is_power_of_two_iff:
  fixes v :: "'a::len word"
  shows "is_power_of_two v \<longleftrightarrow> (\<exists>k<LENGTH('a). v = 2 ^ k)"
proof
  assume "\<exists>k<LENGTH('a). v = 2 ^ k"
  then obtain k where k: "k < LENGTH('a)" and v: "v = 2 ^ k" by blast
  have "2 ^ k AND mask k = (0 :: 'a word)"
    by (rule bit_word_eqI) (simp add: bit_and_iff bit_exp_iff bit_mask_iff)
  then have "v AND (v - 1) = 0" by (simp only: v mask_eq_exp_minus_1)
  then show "is_power_of_two v" using k by (simp add: is_power_of_two_def v)
next
  assume "is_power_of_two v"
  then have v0: "v \<noteq> 0" and z: "v AND (v - 1) = 0" by (simp_all add: is_power_of_two_def)
  then have "0 < unat v" by (simp add: unat_gt_0)
  then obtain k where k: "2 ^ k \<le> unat v" "unat v < 2 ^ Suc k"
    using nat_power_of_two_interval by blast
  have "(2 :: nat) ^ k < 2 ^ LENGTH('a)"
    using k(1) unsigned_less [of v] by (rule le_less_trans)
  then have kl: "k < LENGTH('a)" by (rule power_less_imp_less_exp [rotated]) simp
  have "unat v = 2 ^ k"
  proof (rule ccontr)
    assume "unat v \<noteq> 2 ^ k"
    then have m: "2 ^ k \<le> unat (v - 1)" "unat (v - 1) < 2 ^ Suc k"
      using k v0 by (simp_all add: unat_minus_one)
    have bit_top: "bit w k" if "2 ^ k \<le> unat w" "unat w < 2 ^ Suc k" for w :: "'a word"
    proof -
      from that have "unat w div 2 ^ k = 1" by (simp add: div_nat_eqI)
      then have "odd (unat w div 2 ^ k)" by simp
      then have "bit (unat w) k" by (simp add: bit_iff_odd)
      then show ?thesis by (simp add: bit_unsigned_iff)
    qed
    from bit_top [OF k] bit_top [OF m] have "bit (v AND (v - 1)) k" by (simp add: bit_and_iff)
    with z show False by simp
  qed
  then have "v = 2 ^ k" using kl by (metis unat_two_power word_unat_eq_iff)
  with kl show "\<exists>k<LENGTH('a). v = 2 ^ k" by blast
qed

lemma frame_flags_known: "(f :: u16) AND NOT 1 = 0 \<longleftrightarrow> f = 0 \<or> f = 1"
proof
  assume a: "f AND NOT 1 = 0"
  have "f = (f AND NOT 1) OR (f AND 1)"
    by (rule bit_word_eqI) (auto simp: bit_simps)
  also have "\<dots> = f AND 1" using a by simp
  finally have "f = f AND 1" .
  then show "f = 0 \<or> f = 1" by (metis and_one_eq even_iff_mod_2_eq_zero mod2_eq_if)
qed auto

subsection \<open>Frame sizes\<close>

lemma frame_size_from_params:
  "chunk_frame_v1_encoded_size_from_params p t = Inr n \<longleftrightarrow>
     unat p + unat t + 40 < 2 ^ 64 \<and> n = 40 + (p + ucast t)"
proof -
  have w: "p + ucast t < p \<longleftrightarrow> 2 ^ 64 \<le> unat p + unat t"
    by (simp only: u64_add_wraps unat_ucast_u16_u64)
  have w2: "40 + b < b \<longleftrightarrow> 2 ^ 64 \<le> unat b + 40" for b :: u64
    using u64_add_wraps [of b 40] by (simp only: add.commute [of 40 b]) simp
  show ?thesis
  proof (cases "unat p + unat t < 2 ^ 64")
    case True
    then have "unat (p + ucast t) = unat p + unat t" by (subst unat_plus_no_overflow) simp_all
    then show ?thesis using True
      by (auto simp: chunk_frame_v1_encoded_size_from_params_def Let_def w w2)
  next
    case False
    then show ?thesis by (auto simp: chunk_frame_v1_encoded_size_from_params_def Let_def w)
  qed
qed

lemma validate_frame_iff:
  "validate_chunk_frame_header_v1 h = Inr () \<longleftrightarrow>
     (fh_frame_flags h = 0 \<or> fh_frame_flags h = 1) \<and> fh_tag_len h \<noteq> 0"
proof -
  have "(ucast (- 1 :: u64) :: u16) = - 1"
    by (rule bit_word_eqI) (simp add: bit_simps)
  then show ?thesis
    using frame_flags_known [of "fh_frame_flags h"]
    by (simp add: validate_chunk_frame_header_v1_def word_order.extremum_strict)
qed

lemma frame_size_unat:
  "chunk_frame_v1_encoded_size_from_params p t = Inr n \<Longrightarrow> unat n = 40 + unat p + unat t"
proof -
  assume "chunk_frame_v1_encoded_size_from_params p t = Inr n"
  then have le: "unat p + unat t + 40 < 2 ^ 64" and n: "n = 40 + (p + ucast t)"
    by (simp_all add: frame_size_from_params)
  have "unat (p + ucast t) = unat p + unat t" using le by (subst unat_plus_no_overflow) simp_all
  then show ?thesis unfolding n using le by (subst unat_plus_no_overflow) simp_all
qed

lemma encoded_size_eq:
  "chunk_frame_v1_encoded_size h =
     bindr (validate_chunk_frame_header_v1 h)
       (\<lambda>_. chunk_frame_v1_encoded_size_from_params (fh_ciphertext_len h) (fh_tag_len h))"
  by (simp add: chunk_frame_v1_encoded_size_def chunk_frame_v1_encoded_size_from_params_def)

lemma length_magic [simp]: "length kGlobalHeaderV1Magic = 8" "length kShardHeaderV1Magic = 8"
  "length kChunkFrameV1Magic = 4"
  by (simp_all add: kGlobalHeaderV1Magic_def kShardHeaderV1Magic_def kChunkFrameV1Magic_def ascii_def)

definition global_bytes :: "GlobalPublicHeaderV1 \<Rightarrow> bytes" where
  "global_bytes h =
     gh_magic h @ le_bytes 2 (gh_format_major h) @ le_bytes 2 (gh_format_minor h)
     @ le_bytes 4 (gh_global_header_len h) @ le_bytes 4 (gh_shard_header_len h)
     @ le_bytes 2 (gh_frame_header_len h) @ le_bytes 2 (gh_global_flags h)
     @ gh_archive_id h @ le_bytes 2 (gh_aead_alg_id h) @ le_bytes 2 (gh_kdf_alg_id h)
     @ le_bytes 2 (gh_hash_alg_id h) @ le_bytes 2 (gh_mac_alg_id h) @ gh_kdf_salt h
     @ le_bytes 4 (gh_argon2_version h) @ le_bytes 4 (gh_argon2_memory_kib h)
     @ le_bytes 4 (gh_argon2_iterations h) @ le_bytes 4 (gh_argon2_parallelism h)
     @ le_bytes 4 (gh_chunk_plain_size h) @ le_bytes 4 (gh_shard_count h)
     @ le_bytes 8 (gh_global_chunk_count h) @ le_bytes 8 (gh_padded_plaintext_size h)
     @ le_bytes 4 (gh_final_plaintext_chunk_len h) @ le_bytes 2 (gh_padding_policy_id h)
     @ le_bytes 2 (gh_reserved0 h) @ le_bytes 8 (gh_padding_policy_value h)
     @ le_bytes 8 (gh_max_shard_payload_len h) @ le_bytes 8 (gh_required_feature_flags h)
     @ gh_reserved1 h"

lemma length_global_bytes: "global_arrays h \<Longrightarrow> length (global_bytes h) = 192"
  by (simp add: global_bytes_def global_arrays_def)

lemma serialize_global_eq:
  "global_arrays h \<Longrightarrow> serialize_global_public_header h = Inr (global_bytes h)"
  using length_global_bytes [of h]
  by (simp add: serialize_global_public_header_def append_simps global_bytes_def)

lemma read_global_fields_append:
  "global_arrays h \<Longrightarrow> gh_magic h = kGlobalHeaderV1Magic
     \<Longrightarrow> read_global_fields msg (global_bytes h @ rest) = Inr (h, rest)"
  by (simp add: read_global_fields_def global_bytes_def global_arrays_def)

lemma read_global_fields_Inr:
  "read_global_fields msg r = Inr (h, r') \<Longrightarrow>
     r = global_bytes h @ r' \<and> global_arrays h \<and> gh_magic h = kGlobalHeaderV1Magic"
  unfolding read_global_fields_def
  by (auto simp: bindr_eq_Inr read_Inr global_bytes_def global_arrays_def)

lemma parse_global_append:
  assumes "global_arrays h" "gh_magic h = kGlobalHeaderV1Magic" "check_global_header h = Inr ()"
  shows "parse_global_public_header (global_bytes h @ rest) = Inr h"
proof -
  have "take 192 (global_bytes h @ rest) = global_bytes h @ []"
    using length_global_bytes [OF assms(1)] by simp
  then show ?thesis
    using length_global_bytes [OF assms(1)] read_global_fields_append [OF assms(1,2)] assms(3)
    by (simp add: parse_global_public_header_def del: append_Nil2)
qed

lemma parse_global_Inr:
  assumes "parse_global_public_header bs = Inr h"
  shows "take 192 bs = global_bytes h" "192 \<le> length bs" "global_arrays h"
    "gh_magic h = kGlobalHeaderV1Magic" "check_global_header h = Inr ()"
proof -
  from assms obtain r where len: "192 \<le> length bs"
    and rd: "read_global_fields ''truncated global public header'' (take 192 bs) = Inr (h, r)"
    and ck: "check_global_header h = Inr ()"
    by (auto simp: parse_global_public_header_def bindr_eq_Inr)
  from read_global_fields_Inr [OF rd] have eq: "take 192 bs = global_bytes h @ r"
    and arr: "global_arrays h" and m: "gh_magic h = kGlobalHeaderV1Magic" by auto
  from arg_cong [OF eq, of length] len length_global_bytes [OF arr] have "r = []" by simp
  with eq len arr m ck show "take 192 bs = global_bytes h" "192 \<le> length bs" "global_arrays h"
    "gh_magic h = kGlobalHeaderV1Magic" "check_global_header h = Inr ()" by auto
qed

subsection \<open>The shard header\<close>

definition shard_bytes :: "ShardPublicHeaderV1 \<Rightarrow> bytes" where
  "shard_bytes h =
     sh_shard_magic h @ le_bytes 4 (sh_shard_header_len h) @ le_bytes 4 (sh_shard_index h)
     @ le_bytes 8 (sh_first_global_chunk_index h) @ le_bytes 8 (sh_shard_chunk_count h)
     @ le_bytes 8 (sh_shard_payload_len h) @ sh_header_mac h @ le_bytes 8 (sh_reserved0 h)"

lemma length_shard_bytes: "shard_arrays h \<Longrightarrow> length (shard_bytes h) = 80"
  by (simp add: shard_bytes_def shard_arrays_def)

lemma serialize_shard_eq:
  "shard_arrays h \<Longrightarrow> serialize_shard_public_header h = Inr (shard_bytes h)"
  using length_shard_bytes [of h]
  by (simp add: serialize_shard_public_header_def append_simps shard_bytes_def)

lemma serialize_shard_for_mac_eq:
  "shard_arrays h \<Longrightarrow>
     serialize_shard_public_header_for_mac h = Inr (shard_bytes (h\<lparr>sh_header_mac := replicate 32 0\<rparr>))"
  unfolding serialize_shard_public_header_for_mac_def
  by (rule serialize_shard_eq) (simp add: shard_arrays_def)

lemma read_shard_fields_append:
  "shard_arrays h \<Longrightarrow> sh_shard_magic h = kShardHeaderV1Magic
     \<Longrightarrow> read_shard_fields msg (shard_bytes h @ rest) = Inr (h, rest)"
  by (simp add: read_shard_fields_def shard_bytes_def shard_arrays_def)

lemma read_shard_fields_Inr:
  "read_shard_fields msg r = Inr (h, r') \<Longrightarrow>
     r = shard_bytes h @ r' \<and> shard_arrays h \<and> sh_shard_magic h = kShardHeaderV1Magic"
  unfolding read_shard_fields_def
  by (auto simp: bindr_eq_Inr read_Inr shard_bytes_def shard_arrays_def)

lemma check_shard_header_iff:
  "check_shard_header h = Inr () \<longleftrightarrow> sh_shard_header_len h = 80 \<and> sh_shard_chunk_count h \<noteq> 0
     \<and> sh_shard_payload_len h \<noteq> 0 \<and> sh_reserved0 h = 0"
  by (simp add: check_shard_header_def)

lemma parse_shard_append:
  assumes "shard_arrays h" "sh_shard_magic h = kShardHeaderV1Magic" "check_shard_header h = Inr ()"
  shows "parse_shard_public_header (shard_bytes h @ rest) = Inr h"
proof -
  have "take 80 (shard_bytes h @ rest) = shard_bytes h @ []"
    using length_shard_bytes [OF assms(1)] by simp
  then show ?thesis
    using length_shard_bytes [OF assms(1)] read_shard_fields_append [OF assms(1,2)] assms(3)
    by (simp add: parse_shard_public_header_def del: append_Nil2)
qed

lemma parse_shard_Inr:
  assumes "parse_shard_public_header bs = Inr h"
  shows "take 80 bs = shard_bytes h" "80 \<le> length bs" "shard_arrays h"
    "sh_shard_magic h = kShardHeaderV1Magic" "check_shard_header h = Inr ()"
proof -
  from assms obtain r where len: "80 \<le> length bs"
    and rd: "read_shard_fields ''truncated shard public header'' (take 80 bs) = Inr (h, r)"
    and ck: "check_shard_header h = Inr ()"
    by (auto simp: parse_shard_public_header_def bindr_eq_Inr)
  from read_shard_fields_Inr [OF rd] have eq: "take 80 bs = shard_bytes h @ r"
    and arr: "shard_arrays h" and m: "sh_shard_magic h = kShardHeaderV1Magic" by auto
  from arg_cong [OF eq, of length] len length_shard_bytes [OF arr] have "r = []" by simp
  with eq len arr m ck show "take 80 bs = shard_bytes h" "80 \<le> length bs" "shard_arrays h"
    "sh_shard_magic h = kShardHeaderV1Magic" "check_shard_header h = Inr ()" by auto
qed

subsection \<open>The frame header\<close>

definition frame_bytes :: "ChunkFrameHeaderV1 \<Rightarrow> bytes" where
  "frame_bytes h = kChunkFrameV1Magic @ le_bytes 2 (40 :: u16) @ le_bytes 2 (fh_frame_flags h)
     @ le_bytes 4 (fh_shard_index h) @ le_bytes 8 (fh_global_chunk_index h)
     @ le_bytes 4 (fh_plaintext_len h) @ le_bytes 8 (fh_ciphertext_len h)
     @ le_bytes 2 (fh_tag_len h) @ le_bytes 2 (0 :: u16) @ le_bytes 4 (0 :: u32)"

definition valid_frame :: "ChunkFrameHeaderV1 \<Rightarrow> bool" where
  "valid_frame h \<longleftrightarrow> (fh_frame_flags h = 0 \<or> fh_frame_flags h = 1) \<and> fh_tag_len h = 16
     \<and> unat (fh_ciphertext_len h) = unat (fh_plaintext_len h)"

lemma length_frame_bytes [simp]: "length (frame_bytes h) = 40"
  by (simp add: frame_bytes_def)

lemma serialize_frame_eq:
  "serialize_chunk_frame_header_v1 h = bindr (validate_chunk_frame_header_v1 h) (\<lambda>_. Inr (frame_bytes h))"
  by (simp add: serialize_chunk_frame_header_v1_def append_simps frame_bytes_def)

lemma serialize_frame_Inr:
  "serialize_chunk_frame_header_v1 h = Inr bs \<longleftrightarrow>
     bs = frame_bytes h \<and> (fh_frame_flags h = 0 \<or> fh_frame_flags h = 1) \<and> fh_tag_len h \<noteq> 0"
  by (auto simp: serialize_frame_eq bindr_eq_Inr validate_frame_iff)

lemma le_bytes_zero: "le_bytes n (0 :: 'a::len word) = replicate n 0"
  by (simp add: le_bytes_def map_replicate_const)

lemma all_zero_le_bytes [simp]: "all_zero (le_bytes n (0 :: 'a::len word))"
  by (simp add: le_bytes_zero all_zero_replicate)

lemma ucast_eq_iff_unat: "(c :: u64) = ucast (p :: u32) \<longleftrightarrow> unat c = unat p"
  by (simp add: word_unat_eq_iff)

lemma validate_frame_ok:
  "valid_frame h \<Longrightarrow> validate_chunk_frame_header_v1 h = Inr ()"
  by (simp add: validate_frame_iff valid_frame_def)

lemma parse_frame_append: "valid_frame h \<Longrightarrow> parse_chunk_frame_header_v1 (frame_bytes h @ rest) = Inr h"
  using validate_frame_ok [of h]
  by (cases h) (simp add: parse_chunk_frame_header_v1_def frame_bytes_def valid_frame_def
      ucast_eq_iff_unat)

lemma parse_frame_Inr_rest:
  assumes "parse_chunk_frame_header_v1 bs = Inr h"
  shows "40 \<le> length bs \<and> valid_frame h \<and> (\<exists>r. take 40 bs = frame_bytes h @ r)"
  using assms
  by (auto simp: parse_chunk_frame_header_v1_def bindr_eq_Inr read_Inr frame_bytes_def Let_def
     valid_frame_def validate_frame_iff ucast_eq_iff_unat all_zero_replicate le_bytes_zero)

lemma parse_frame_Inr:
  assumes "parse_chunk_frame_header_v1 bs = Inr h"
  shows "take 40 bs = frame_bytes h" "40 \<le> length bs" "valid_frame h"
proof -
  from parse_frame_Inr_rest [OF assms] obtain r where len: "40 \<le> length bs"
    and v: "valid_frame h" and eq: "take 40 bs = frame_bytes h @ r" by blast
  from arg_cong [OF eq, of length] len have "r = []" by simp
  with eq len v show "take 40 bs = frame_bytes h" "40 \<le> length bs" "valid_frame h" by auto
qed

subsection \<open>What a global header that passes the checks says\<close>

text \<open>
  The rejection rules on numbers, read as arithmetic: the chunk size is a power of two between
  64 KiB and 64 MiB, the final chunk is non-empty and not larger, and the padded size is the one
  the chunk counts give modulo the width of the field.
\<close>

definition header_sizes :: "GlobalPublicHeaderV1 \<Rightarrow> bool" where
  "header_sizes h \<longleftrightarrow>
     (\<exists>k. 16 \<le> k \<and> k \<le> 26 \<and> unat (gh_chunk_plain_size h) = 2 ^ k)
     \<and> 1 \<le> unat (gh_final_plaintext_chunk_len h)
     \<and> unat (gh_final_plaintext_chunk_len h) \<le> unat (gh_chunk_plain_size h)
     \<and> 1 \<le> unat (gh_shard_count h) \<and> unat (gh_shard_count h) \<le> unat (gh_global_chunk_count h)
     \<and> unat (gh_padded_plaintext_size h) =
          ((unat (gh_global_chunk_count h) - 1) * unat (gh_chunk_plain_size h)
            + unat (gh_final_plaintext_chunk_len h)) mod 2 ^ 64"

lemma chunk_size_power:
  assumes "is_power_of_two (c :: u32)" "\<not> c < 65536" "\<not> c > 67108864"
  shows "\<exists>k. 16 \<le> k \<and> k \<le> 26 \<and> unat c = 2 ^ k"
proof -
  from assms(1) obtain k where k: "k < 32" "c = 2 ^ k" by (auto simp: is_power_of_two_iff)
  then have u: "unat c = 2 ^ k" by (simp add: unat_two_power)
  have lo: "65536 \<le> unat c" and hi: "unat c \<le> 67108864"
    using assms(2,3) by (simp_all add: word_less_nat_alt)
  have "(2 :: nat) ^ 16 \<le> 2 ^ k" using lo u by simp
  then have "16 \<le> k" by (rule power_le_imp_le_exp [rotated]) simp
  moreover have "(2 :: nat) ^ k \<le> 2 ^ 26" using hi u by simp
  then have "k \<le> 26" by (rule power_le_imp_le_exp [rotated]) simp
  ultimately show ?thesis using u by blast
qed

lemma check_global_sizes:
  assumes "check_global_header h = Inr ()"
  shows "header_sizes h"
proof -
  from assms have
    c: "is_power_of_two (gh_chunk_plain_size h)" "\<not> gh_chunk_plain_size h < 65536"
       "\<not> gh_chunk_plain_size h > 67108864"
    and f: "gh_final_plaintext_chunk_len h \<noteq> 0"
       "\<not> gh_final_plaintext_chunk_len h > gh_chunk_plain_size h"
    and n: "gh_shard_count h \<noteq> 0" "gh_global_chunk_count h \<noteq> 0"
       "\<not> ucast (gh_shard_count h) > gh_global_chunk_count h"
    and p: "gh_padded_plaintext_size h = (gh_global_chunk_count h - 1) * ucast (gh_chunk_plain_size h)
          + ucast (gh_final_plaintext_chunk_len h)"
    unfolding check_global_header_def by (auto simp: bindr_eq_Inr)
  have "unat (gh_padded_plaintext_size h) =
          ((unat (gh_global_chunk_count h) - 1) * unat (gh_chunk_plain_size h)
            + unat (gh_final_plaintext_chunk_len h)) mod 2 ^ 64"
    using n(2) unfolding p by (simp add: unat_word_ariths unat_minus_one mod_simps)
  moreover have "1 \<le> unat (gh_final_plaintext_chunk_len h)" "1 \<le> unat (gh_shard_count h)"
    using f(1) n(1) by (simp_all add: Suc_leI unat_gt_0)
  moreover have "unat (gh_shard_count h) \<le> unat (gh_global_chunk_count h)"
    using n(3) by (simp add: word_less_nat_alt)
  moreover have "unat (gh_final_plaintext_chunk_len h) \<le> unat (gh_chunk_plain_size h)"
    using f(2) by (simp add: word_less_nat_alt)
  ultimately show ?thesis unfolding header_sizes_def using chunk_size_power [OF c] by blast
qed

subsection \<open>The header codec contract\<close>

locale header_codec =
  fixes serialize :: "'h \<Rightarrow> bytes result"
    and parse :: "bytes \<Rightarrow> 'h result"
    and width :: nat
    and valid :: "'h \<Rightarrow> bool"
  assumes serialize_ok: "valid h \<Longrightarrow> \<exists>bs. serialize h = Inr bs \<and> length bs = width"
    and parse_serialize: "valid h \<Longrightarrow> serialize h = Inr bs \<Longrightarrow> parse (bs @ rest) = Inr h"
    and parse_ok: "parse bs = Inr h \<Longrightarrow>
          valid h \<and> width \<le> length bs \<and> serialize h = Inr (take width bs)"
begin

lemma serialize_inject: "valid h \<Longrightarrow> valid h' \<Longrightarrow> serialize h = serialize h' \<Longrightarrow> h = h'"
  using parse_serialize serialize_ok by (metis Inr_inject)

lemma parse_prefix_only: "parse bs = Inr h \<Longrightarrow> parse (take width bs @ rest) = Inr h"
  using parse_ok parse_serialize by blast

lemma parse_inject: "parse bs = Inr h \<Longrightarrow> parse bs' = Inr h \<Longrightarrow> take width bs = take width bs'"
  using parse_ok by (metis Inr_inject)

lemma parse_iff:
  "parse bs = Inr h \<longleftrightarrow> valid h \<and> width \<le> length bs \<and> serialize h = Inr (take width bs)"
proof
  assume a: "valid h \<and> width \<le> length bs \<and> serialize h = Inr (take width bs)"
  then have "parse (take width bs @ drop width bs) = Inr h" using parse_serialize by blast
  then show "parse bs = Inr h" by simp
qed (rule parse_ok)

end

definition valid_global :: "GlobalPublicHeaderV1 \<Rightarrow> bool" where
  "valid_global h \<longleftrightarrow> global_arrays h \<and> gh_magic h = kGlobalHeaderV1Magic
     \<and> check_global_header h = Inr ()"

definition valid_shard :: "ShardPublicHeaderV1 \<Rightarrow> bool" where
  "valid_shard h \<longleftrightarrow> shard_arrays h \<and> sh_shard_magic h = kShardHeaderV1Magic
     \<and> check_shard_header h = Inr ()"

interpretation global_codec: header_codec serialize_global_public_header
  parse_global_public_header 192 valid_global
proof
  show "\<exists>bs. serialize_global_public_header h = Inr bs \<and> length bs = 192" if "valid_global h" for h
    using that by (simp add: valid_global_def serialize_global_eq length_global_bytes)
  show "parse_global_public_header (bs @ rest) = Inr h"
    if "valid_global h" "serialize_global_public_header h = Inr bs" for h bs rest
    using that parse_global_append by (auto simp: valid_global_def serialize_global_eq)
  show "valid_global h \<and> 192 \<le> length bs \<and> serialize_global_public_header h = Inr (take 192 bs)"
    if "parse_global_public_header bs = Inr h" for bs h
    using parse_global_Inr [OF that] by (simp add: valid_global_def serialize_global_eq)
qed

interpretation shard_codec: header_codec serialize_shard_public_header
  parse_shard_public_header 80 valid_shard
proof
  show "\<exists>bs. serialize_shard_public_header h = Inr bs \<and> length bs = 80" if "valid_shard h" for h
    using that by (simp add: valid_shard_def serialize_shard_eq length_shard_bytes)
  show "parse_shard_public_header (bs @ rest) = Inr h"
    if "valid_shard h" "serialize_shard_public_header h = Inr bs" for h bs rest
    using that parse_shard_append by (auto simp: valid_shard_def serialize_shard_eq)
  show "valid_shard h \<and> 80 \<le> length bs \<and> serialize_shard_public_header h = Inr (take 80 bs)"
    if "parse_shard_public_header bs = Inr h" for bs h
    using parse_shard_Inr [OF that] by (simp add: valid_shard_def serialize_shard_eq)
qed

interpretation frame_codec: header_codec serialize_chunk_frame_header_v1
  parse_chunk_frame_header_v1 40 valid_frame
proof
  show "\<exists>bs. serialize_chunk_frame_header_v1 h = Inr bs \<and> length bs = 40" if "valid_frame h" for h
    using that by (simp add: serialize_frame_eq validate_frame_ok)
  show "parse_chunk_frame_header_v1 (bs @ rest) = Inr h"
    if "valid_frame h" "serialize_chunk_frame_header_v1 h = Inr bs" for h bs rest
    using that parse_frame_append by (auto simp: serialize_frame_eq validate_frame_ok)
  show "valid_frame h \<and> 40 \<le> length bs \<and> serialize_chunk_frame_header_v1 h = Inr (take 40 bs)"
    if "parse_chunk_frame_header_v1 bs = Inr h" for bs h
    using parse_frame_Inr [OF that] by (simp add: serialize_frame_eq validate_frame_ok)
qed

subsection \<open>What the hash and the MAC bind\<close>

text \<open>The bytes that the hash and the MAC are computed over, after the domain string.\<close>

definition auth_input :: "GlobalPublicHeaderV1 \<Rightarrow> ShardPublicHeaderV1 \<Rightarrow> bytes" where
  "auth_input g s = global_bytes g @ shard_bytes (s\<lparr>sh_header_mac := replicate 32 0\<rparr>)"

lemma global_bytes_inject:
  "global_arrays g \<Longrightarrow> global_arrays g' \<Longrightarrow> global_bytes g = global_bytes g' \<Longrightarrow> g = g'"
  by (cases g; cases g') (simp add: global_bytes_def global_arrays_def le_bytes_inject)

lemma shard_bytes_inject:
  "shard_arrays s \<Longrightarrow> shard_arrays s' \<Longrightarrow> shard_bytes s = shard_bytes s' \<Longrightarrow> s = s'"
  by (cases s; cases s') (simp add: shard_bytes_def shard_arrays_def le_bytes_inject)

lemma auth_input_inject:
  assumes "global_arrays g" "global_arrays g'" "shard_arrays s" "shard_arrays s'"
  shows "auth_input g s = auth_input g' s' \<longleftrightarrow>
     g = g' \<and> s\<lparr>sh_header_mac := replicate 32 0\<rparr> = s'\<lparr>sh_header_mac := replicate 32 0\<rparr>"
proof -
  have "shard_arrays (s\<lparr>sh_header_mac := replicate 32 0\<rparr>)" "shard_arrays (s'\<lparr>sh_header_mac := replicate 32 0\<rparr>)"
    using assms(3,4) by (simp_all add: shard_arrays_def)
  then show ?thesis
    using assms(1,2) global_bytes_inject shard_bytes_inject length_global_bytes
    unfolding auth_input_def by (metis append_eq_append_conv)
qed

lemma public_header_hash_eq:
  "global_arrays g \<Longrightarrow> shard_arrays s \<Longrightarrow>
     compute_public_header_hash blake3 g s = Inr (blake3 (kPublicHeaderHashDomain @ auth_input g s))"
  by (simp add: compute_public_header_hash_def serialize_global_eq serialize_shard_for_mac_eq auth_input_def)

lemma shard_header_mac_ignores_mac:
  "compute_shard_header_mac hmac key g (s\<lparr>sh_header_mac := m\<rparr>) = compute_shard_header_mac hmac key g s"
  by (simp add: compute_shard_header_mac_def serialize_shard_public_header_for_mac_def)

lemma shard_header_mac_eq:
  assumes "global_arrays g" "shard_arrays s" "compute_shard_header_mac hmac key g s = Inr m"
  shows "hmac key (kHeaderMacDomain @ auth_input g s) = Some m \<and> length m = 32"
  using assms
  by (auto simp: compute_shard_header_mac_def serialize_global_eq serialize_shard_for_mac_eq
      auth_input_def bindr_eq_Inr split: option.splits)

lemma domains_differ: "kPublicHeaderHashDomain @ x \<noteq> kHeaderMacDomain @ y"
  by (simp add: kPublicHeaderHashDomain_def kHeaderMacDomain_def ascii_def)

subsection \<open>Properties\<close>

text \<open>
  C23: The global header codec is a bijection between valid headers and accepted byte strings: the
  parser accepts \<open>bs\<close> with result \<open>h\<close> exactly if \<open>h\<close> satisfies every rejection rule and its
  serialisation is the first 192 bytes of \<open>bs\<close>.  No two byte prefixes parse to the same header.
\<close>

theorem parse_global_public_header_iff:
  "parse_global_public_header bs = Inr h \<longleftrightarrow>
     valid_global h \<and> 192 \<le> length bs \<and> serialize_global_public_header h = Inr (take 192 bs)"
  by (rule global_codec.parse_iff)

text \<open>C28: The same for the 80-byte shard header.\<close>

theorem parse_shard_public_header_iff:
  "parse_shard_public_header bs = Inr h \<longleftrightarrow>
     valid_shard h \<and> 80 \<le> length bs \<and> serialize_shard_public_header h = Inr (take 80 bs)"
  by (rule shard_codec.parse_iff)

text \<open>
  C29: The same for the 40-byte chunk frame header, where a valid frame has no unknown flag, a
  16-byte tag and a ciphertext as long as its plaintext.
\<close>

theorem parse_chunk_frame_header_v1_iff:
  "parse_chunk_frame_header_v1 bs = Inr h \<longleftrightarrow>
     valid_frame h \<and> 40 \<le> length bs \<and> serialize_chunk_frame_header_v1 h = Inr (take 40 bs)"
  by (rule frame_codec.parse_iff)

text \<open>
  C24: What a parsed global header promises about sizes: the chunk size is a power of two between
  64 KiB and 64 MiB, the last chunk is non-empty and not larger than a chunk, there are between
  one and \<open>global_chunk_count\<close> shards, and the padded size is the size that the chunk counts give
  modulo 2^64.
\<close>

theorem parsed_header_sizes: "parse_global_public_header bs = Inr h \<Longrightarrow> header_sizes h"
  by (rule check_global_sizes [OF parse_global_Inr(5)])

text \<open>
  C26: The public header hash and the header MAC cover both headers except the MAC field itself:
  the hash is BLAKE3 of a domain string and an input from which the global header and all other
  fields of the shard header can be recovered, and the domain strings of the hash and of the MAC
  keep their inputs apart.
\<close>

theorem header_hash_input_binds:
  assumes "global_arrays g" "global_arrays g'" "shard_arrays s" "shard_arrays s'"
  shows "compute_public_header_hash blake3 g s = Inr (blake3 (kPublicHeaderHashDomain @ auth_input g s))
    \<and> (auth_input g s = auth_input g' s' \<longleftrightarrow>
          g = g' \<and> s\<lparr>sh_header_mac := replicate 32 0\<rparr> = s'\<lparr>sh_header_mac := replicate 32 0\<rparr>)
    \<and> kPublicHeaderHashDomain @ auth_input g s \<noteq> kHeaderMacDomain @ auth_input g' s'"
  using assms by (simp add: public_header_hash_eq auth_input_inject domains_differ)

text \<open>
  C27: The header MAC round trip.  A MAC computed for a shard header is the HMAC of that input, and
  a stored MAC verifies exactly if it equals the computed one, whatever was stored before.
\<close>

theorem shard_header_mac_roundtrip:
  assumes "global_arrays g" "shard_arrays s" "compute_shard_header_mac hmac key g s = Inr m"
  shows "verify_shard_header_mac hmac key g (s\<lparr>sh_header_mac := m'\<rparr>) = Inr (m = m')
    \<and> hmac key (kHeaderMacDomain @ auth_input g s) = Some m \<and> length m = 32"
  using assms shard_header_mac_eq [OF assms]
  by (simp add: verify_shard_header_mac_def shard_header_mac_ignores_mac)

subsection \<open>A concrete archive\<close>

text \<open>The headers of a one-shard archive with two 64 KiB chunks, padded to a power of two.\<close>

definition sample_global :: GlobalPublicHeaderV1 where
  "sample_global = \<lparr>gh_magic = kGlobalHeaderV1Magic, gh_format_major = 1, gh_format_minor = 0,
     gh_global_header_len = 192, gh_shard_header_len = 80, gh_frame_header_len = 40,
     gh_global_flags = 0, gh_archive_id = replicate 32 7, gh_aead_alg_id = 1, gh_kdf_alg_id = 1,
     gh_hash_alg_id = 1, gh_mac_alg_id = 1, gh_kdf_salt = replicate 32 9, gh_argon2_version = 0x13,
     gh_argon2_memory_kib = 65536, gh_argon2_iterations = 3, gh_argon2_parallelism = 1,
     gh_chunk_plain_size = 65536, gh_shard_count = 1, gh_global_chunk_count = 2,
     gh_padded_plaintext_size = 131072, gh_final_plaintext_chunk_len = 65536,
     gh_padding_policy_id = 2, gh_reserved0 = 0, gh_padding_policy_value = 0,
     gh_max_shard_payload_len = 131184, gh_required_feature_flags = 0,
     gh_reserved1 = replicate 24 0\<rparr>"

definition sample_shard :: ShardPublicHeaderV1 where
  "sample_shard = \<lparr>sh_shard_magic = kShardHeaderV1Magic, sh_shard_header_len = 80,
     sh_shard_index = 0, sh_first_global_chunk_index = 0, sh_shard_chunk_count = 2,
     sh_shard_payload_len = 131184, sh_header_mac = replicate 32 0, sh_reserved0 = 0\<rparr>"

lemma sample_global_valid: "valid_global sample_global"
  by (simp add: valid_global_def global_arrays_def sample_global_def check_global_header_def
      check_padding_policy_def is_power_of_two_def all_zero_replicate throw_if_def Let_def)

lemma sample_shard_valid: "valid_shard sample_shard"
  by (simp add: valid_shard_def shard_arrays_def sample_shard_def check_shard_header_iff)

lemma sample_arrays: "global_arrays sample_global" "shard_arrays sample_shard"
  using sample_global_valid sample_shard_valid by (simp_all add: valid_global_def valid_shard_def)

theorem parsed_header_sizes_witness:
  "parse_global_public_header (global_bytes sample_global) = Inr sample_global
     \<and> header_sizes sample_global"
proof -
  have p: "parse_global_public_header (global_bytes sample_global @ []) = Inr sample_global"
    using sample_global_valid by (intro parse_global_append) (simp_all add: valid_global_def)
  show ?thesis using parsed_header_sizes [OF p] p by simp
qed

theorem header_hash_input_binds_witness:
  "compute_public_header_hash (\<lambda>x. x) sample_global sample_shard
     = Inr (kPublicHeaderHashDomain @ auth_input sample_global sample_shard)"
  using header_hash_input_binds [OF sample_arrays(1) sample_arrays(1) sample_arrays(2) sample_arrays(2),
      of "\<lambda>x. x"] by simp

theorem shard_header_mac_roundtrip_witness:
  "verify_shard_header_mac (\<lambda>k m. Some (replicate 32 1)) [5] sample_global
     (sample_shard\<lparr>sh_header_mac := replicate 32 2\<rparr>) = Inr False"
proof -
  have "compute_shard_header_mac (\<lambda>k m. Some (replicate 32 1)) [5] sample_global sample_shard
      = Inr (replicate 32 1)"
    using sample_arrays
    by (simp add: compute_shard_header_mac_def serialize_global_eq serialize_shard_for_mac_eq
        checked_int_size_def)
  from shard_header_mac_roundtrip [OF sample_arrays this, of "replicate 32 2"] show ?thesis
    by (auto simp: list_eq_iff_nth_eq intro: exI [of _ 0])
qed

end
