(* ===== verification/Crypto_Backend.thy ===== *)
theory Crypto_Backend
  imports Shard_Frame
begin

text \<open>
  \<^verbatim>\<open>src/crypto/CryptoBackend.hpp\<close>, \<^verbatim>\<open>AesGcmBackend.cpp\<close> and \<^verbatim>\<open>XChaCha20Poly1305Backend.cpp\<close>.  The abstract
  class is a record of its virtual methods, and the two backends are functions that build such a
  record from the library they call.  libsodium and OpenSSL are parameters: \<open>sodium_lib\<close> has the
  return code of \<open>sodium_init\<close> and the two AEAD calls, \<open>evp_gcm_lib\<close> has the cipher itself and,
  for every setup call that may fail, whether it succeeds.
\<close>

datatype CipherSuite = XChaCha20Poly1305 | Aes256Gcm

fun suite_id :: "CipherSuite \<Rightarrow> u16" where
  "suite_id XChaCha20Poly1305 = 1"
| "suite_id Aes256Gcm = 2"

abbreviation (input) kXChaCha20Poly1305KeyBytes :: nat where "kXChaCha20Poly1305KeyBytes \<equiv> 32"
abbreviation (input) kXChaCha20Poly1305NonceBytes :: nat where "kXChaCha20Poly1305NonceBytes \<equiv> 24"
abbreviation (input) kAes256GcmKeyBytes :: nat where "kAes256GcmKeyBytes \<equiv> 32"
abbreviation (input) kAesGcmRecommendedNonceBytes :: nat where "kAesGcmRecommendedNonceBytes \<equiv> 12"
abbreviation (input) kAeadTagBytes :: nat where "kAeadTagBytes \<equiv> 16"

record ChunkAad =
  aad_public_header_hash :: bytes
  aad_chunk_frame_header :: bytes

record EncryptChunkRequest =
  er_key :: bytes
  er_nonce :: bytes
  er_plaintext :: bytes
  er_aad :: ChunkAad

record DecryptChunkRequest =
  dr_key :: bytes
  dr_nonce :: bytes
  dr_ciphertext_and_tag :: bytes
  dr_aad :: ChunkAad

definition kChunkAadDomain :: bytes where
  "kChunkAadDomain = ascii ''BSEAL chunk aad v1'' @ [0]"

definition serialize_chunk_aad_v1 :: "ChunkAad \<Rightarrow> bytes result" where
  "serialize_chunk_aad_v1 aad =
    throw_if (length (aad_public_header_hash aad) \<noteq> 32)
      (InvalidArgument ''chunk AAD requires 32-byte public_header_hash'') (
    throw_if (length (aad_chunk_frame_header aad) \<noteq> 40)
      (InvalidArgument ''chunk AAD requires 40-byte ChunkFrameHeaderV1'') (
    Inr (kChunkAadDomain @ aad_public_header_hash aad @ aad_chunk_frame_header aad)))"

definition validate_aead_request :: "bytes \<Rightarrow> bytes \<Rightarrow> nat \<Rightarrow> nat \<Rightarrow> unit result" where
  "validate_aead_request key nonce expected_key_size expected_nonce_size =
    throw_if (length key \<noteq> expected_key_size) (InvalidArgument ''invalid AEAD key size'') (
    throw_if (length nonce \<noteq> expected_nonce_size) (InvalidArgument ''invalid AEAD nonce size'')
    (Inr ()))"

record CryptoBackend =
  cb_suite :: CipherSuite
  cb_name :: string
  cb_key_size :: nat
  cb_nonce_size :: nat
  cb_tag_size :: nat
  cb_encrypt_chunk :: "EncryptChunkRequest \<Rightarrow> bytes result"
  cb_decrypt_chunk :: "DecryptChunkRequest \<Rightarrow> bytes result"

subsection \<open>XChaCha20-Poly1305\<close>

record sodium_lib =
  so_init :: int
  so_encrypt :: "bytes \<Rightarrow> bytes \<Rightarrow> bytes \<Rightarrow> bytes \<Rightarrow> bytes option"
  so_decrypt :: "bytes \<Rightarrow> bytes \<Rightarrow> bytes \<Rightarrow> bytes \<Rightarrow> bytes option"

definition ensure_sodium_initialized :: "sodium_lib \<Rightarrow> unit result" where
  "ensure_sodium_initialized lib =
     throw_if (so_init lib < 0) (Error ''libsodium initialization failed'') (Inr ())"

definition xchacha_encrypt_chunk :: "sodium_lib \<Rightarrow> EncryptChunkRequest \<Rightarrow> bytes result" where
  "xchacha_encrypt_chunk lib req =
    bindr (ensure_sodium_initialized lib) (\<lambda>_.
    bindr (validate_aead_request (er_key req) (er_nonce req)
      kXChaCha20Poly1305KeyBytes kXChaCha20Poly1305NonceBytes) (\<lambda>_.
    bindr (serialize_chunk_aad_v1 (er_aad req)) (\<lambda>aad.
    bindr (checked_ull_size (of_nat (length (er_plaintext req))) ''plaintext'') (\<lambda>_.
    bindr (checked_ull_size (of_nat (length aad)) ''AAD'') (\<lambda>_.
    (case so_encrypt lib (er_key req) (er_nonce req) aad (er_plaintext req) of
       None \<Rightarrow> Inl (Error ''XChaCha20-Poly1305 encryption failed'')
     | Some ciphertext \<Rightarrow> Inr ciphertext))))))"

definition xchacha_decrypt_chunk :: "sodium_lib \<Rightarrow> DecryptChunkRequest \<Rightarrow> bytes result" where
  "xchacha_decrypt_chunk lib req =
    bindr (ensure_sodium_initialized lib) (\<lambda>_.
    bindr (validate_aead_request (dr_key req) (dr_nonce req)
      kXChaCha20Poly1305KeyBytes kXChaCha20Poly1305NonceBytes) (\<lambda>_.
    throw_if (length (dr_ciphertext_and_tag req) < kAeadTagBytes) AuthenticationFailed (
    bindr (serialize_chunk_aad_v1 (dr_aad req)) (\<lambda>aad.
    bindr (checked_ull_size (of_nat (length (dr_ciphertext_and_tag req))) ''ciphertext'') (\<lambda>_.
    bindr (checked_ull_size (of_nat (length aad)) ''AAD'') (\<lambda>_.
    (case so_decrypt lib (dr_key req) (dr_nonce req) aad (dr_ciphertext_and_tag req) of
       None \<Rightarrow> Inl AuthenticationFailed
     | Some plaintext \<Rightarrow> Inr plaintext)))))))"

definition XChaCha20Poly1305Backend :: "sodium_lib \<Rightarrow> CryptoBackend" where
  "XChaCha20Poly1305Backend lib =
     \<lparr>cb_suite = XChaCha20Poly1305, cb_name = ''xchacha20-poly1305'',
      cb_key_size = kXChaCha20Poly1305KeyBytes, cb_nonce_size = kXChaCha20Poly1305NonceBytes,
      cb_tag_size = kAeadTagBytes, cb_encrypt_chunk = xchacha_encrypt_chunk lib,
      cb_decrypt_chunk = xchacha_decrypt_chunk lib\<rparr>"

subsection \<open>AES-256-GCM\<close>

record evp_gcm_lib =
  eg_has_hardware_aes :: bool
  eg_step_ok :: "string \<Rightarrow> bool"
  eg_encrypt :: "bytes \<Rightarrow> bytes \<Rightarrow> bytes \<Rightarrow> bytes \<Rightarrow> bytes \<times> bytes"
  eg_decrypt :: "bytes \<Rightarrow> bytes \<Rightarrow> bytes \<Rightarrow> bytes \<Rightarrow> bytes \<Rightarrow> bytes option"

text \<open>The calls both directions make before the data is processed.\<close>

definition gcm_setup :: "evp_gcm_lib \<Rightarrow> bytes \<Rightarrow> bytes \<Rightarrow> unit result" where
  "gcm_setup lib nonce aad =
    throw_if (\<not> eg_step_ok lib ''CTX_new'') (Error ''failed to allocate OpenSSL EVP_CIPHER_CTX'') (
    throw_if (\<not> eg_step_ok lib ''Init'') (Error ''AES-256-GCM initialization failed'') (
    bindr (checked_int_size (of_nat (length nonce)) ''nonce'') (\<lambda>_.
    throw_if (\<not> eg_step_ok lib ''SET_IVLEN'') (Error ''AES-256-GCM nonce length setup failed'') (
    throw_if (\<not> eg_step_ok lib ''Init_key'') (Error ''AES-256-GCM key/nonce setup failed'') (
    if aad = [] then Inr () else
    bindr (checked_int_size (of_nat (length aad)) ''AAD'') (\<lambda>_.
    throw_if (\<not> eg_step_ok lib ''Update_aad'') (Error ''AES-256-GCM AAD setup failed'')
    (Inr ())))))))"

definition aesgcm_encrypt_chunk :: "evp_gcm_lib \<Rightarrow> EncryptChunkRequest \<Rightarrow> bytes result" where
  "aesgcm_encrypt_chunk lib req =
    bindr (validate_aead_request (er_key req) (er_nonce req)
      kAes256GcmKeyBytes kAesGcmRecommendedNonceBytes) (\<lambda>_.
    bindr (serialize_chunk_aad_v1 (er_aad req)) (\<lambda>aad.
    bindr (gcm_setup lib (er_nonce req) aad) (\<lambda>_.
    (let (ciphertext, tag) = eg_encrypt lib (er_key req) (er_nonce req) aad (er_plaintext req) in
    bindr (if er_plaintext req = [] then Inr 0
           else checked_int_size (of_nat (length (er_plaintext req))) ''plaintext'') (\<lambda>_.
    throw_if (er_plaintext req \<noteq> [] \<and> \<not> eg_step_ok lib ''Update'')
      (Error ''AES-256-GCM encryption failed'') (
    throw_if (\<not> eg_step_ok lib ''Final'') (Error ''AES-256-GCM finalization failed'') (
    throw_if (\<not> eg_step_ok lib ''GET_TAG'') (Error ''AES-256-GCM tag extraction failed'')
    (Inr (ciphertext @ tag)))))))))"

definition aesgcm_decrypt_chunk :: "evp_gcm_lib \<Rightarrow> DecryptChunkRequest \<Rightarrow> bytes result" where
  "aesgcm_decrypt_chunk lib req =
    bindr (validate_aead_request (dr_key req) (dr_nonce req)
      kAes256GcmKeyBytes kAesGcmRecommendedNonceBytes) (\<lambda>_.
    throw_if (length (dr_ciphertext_and_tag req) < kAeadTagBytes) AuthenticationFailed (
    let ciphertext_size = length (dr_ciphertext_and_tag req) - kAeadTagBytes;
        ciphertext = take ciphertext_size (dr_ciphertext_and_tag req);
        tag = drop ciphertext_size (dr_ciphertext_and_tag req) in
    bindr (serialize_chunk_aad_v1 (dr_aad req)) (\<lambda>aad.
    bindr (gcm_setup lib (dr_nonce req) aad) (\<lambda>_.
    bindr (if ciphertext_size = 0 then Inr 0
           else checked_int_size (of_nat ciphertext_size) ''ciphertext'') (\<lambda>_.
    throw_if (ciphertext_size > 0 \<and> \<not> eg_step_ok lib ''Update'') AuthenticationFailed (
    throw_if (\<not> eg_step_ok lib ''SET_TAG'') AuthenticationFailed (
    (case eg_decrypt lib (dr_key req) (dr_nonce req) aad ciphertext tag of
       None \<Rightarrow> Inl AuthenticationFailed
     | Some plaintext \<Rightarrow> Inr plaintext))))))))"

definition AesGcmBackend :: "evp_gcm_lib \<Rightarrow> CryptoBackend result" where
  "AesGcmBackend lib =
    throw_if (\<not> eg_has_hardware_aes lib)
      (Error ''AES-256-GCM requires hardware AES support'')
    (Inr \<lparr>cb_suite = Aes256Gcm, cb_name = ''aes-256-gcm'',
      cb_key_size = kAes256GcmKeyBytes, cb_nonce_size = kAesGcmRecommendedNonceBytes,
      cb_tag_size = kAeadTagBytes, cb_encrypt_chunk = aesgcm_encrypt_chunk lib,
      cb_decrypt_chunk = aesgcm_decrypt_chunk lib\<rparr>)"

subsection \<open>The associated data\<close>

lemma length_aad_domain: "length kChunkAadDomain = 19"
  by (simp add: kChunkAadDomain_def ascii_def)

lemma serialize_aad_Inr:
  "serialize_chunk_aad_v1 a = Inr x \<longleftrightarrow> length (aad_public_header_hash a) = 32
     \<and> length (aad_chunk_frame_header a) = 40
     \<and> x = kChunkAadDomain @ aad_public_header_hash a @ aad_chunk_frame_header a"
  by (auto simp: serialize_chunk_aad_v1_def)

lemma serialize_aad_inject:
  "serialize_chunk_aad_v1 a = Inr x \<Longrightarrow> serialize_chunk_aad_v1 b = Inr x \<Longrightarrow> a = b"
  by (cases a; cases b) (auto simp: serialize_aad_Inr)

subsection \<open>The contract of a backend\<close>

text \<open>
  What the pipelines rely on: a ciphertext is 16 bytes longer than its plaintext and decrypts,
  under the same key, nonce and associated data, to that plaintext.
\<close>

definition decrypt_request :: "EncryptChunkRequest \<Rightarrow> bytes \<Rightarrow> DecryptChunkRequest" where
  "decrypt_request req c = \<lparr>dr_key = er_key req, dr_nonce = er_nonce req,
     dr_ciphertext_and_tag = c, dr_aad = er_aad req\<rparr>"

definition backend_roundtrip :: "CryptoBackend \<Rightarrow> bool" where
  "backend_roundtrip be \<longleftrightarrow>
     (\<forall>req c. cb_encrypt_chunk be req = Inr c \<longrightarrow>
        length c = length (er_plaintext req) + cb_tag_size be
        \<and> cb_decrypt_chunk be (decrypt_request req c) = Inr (er_plaintext req))"

text \<open>The documented behaviour of the libraries' AEAD calls.\<close>

definition sodium_aead_ok :: "sodium_lib \<Rightarrow> bool" where
  "sodium_aead_ok lib \<longleftrightarrow>
     (\<forall>k n a m c. so_encrypt lib k n a m = Some c \<longrightarrow>
        length c = length m + 16 \<and> so_decrypt lib k n a c = Some m)"

definition evp_gcm_ok :: "evp_gcm_lib \<Rightarrow> bool" where
  "evp_gcm_ok lib \<longleftrightarrow> eg_step_ok lib ''SET_TAG'' \<and>
     (\<forall>k n a m c t. eg_encrypt lib k n a m = (c, t) \<longrightarrow>
        length c = length m \<and> length t = 16 \<and> eg_decrypt lib k n a c t = Some m)"

lemma checked_ull_size_ok [simp]: "checked_ull_size v what = Inr v"
  by (simp add: checked_ull_size_def word_order.extremum_strict)

lemma xchacha_roundtrip:
  assumes "sodium_aead_ok lib"
  shows "backend_roundtrip (XChaCha20Poly1305Backend lib)"
proof -
  have "length c = length (er_plaintext req) + 16 \<and>
      xchacha_decrypt_chunk lib (decrypt_request req c) = Inr (er_plaintext req)"
    if enc: "xchacha_encrypt_chunk lib req = Inr c" for req c
  proof -
    from enc obtain aad where
      v: "ensure_sodium_initialized lib = Inr ()"
         "validate_aead_request (er_key req) (er_nonce req) 32 24 = Inr ()"
      and aad: "serialize_chunk_aad_v1 (er_aad req) = Inr aad"
      and c: "so_encrypt lib (er_key req) (er_nonce req) aad (er_plaintext req) = Some c"
      by (auto simp: xchacha_encrypt_chunk_def bindr_eq_Inr split: option.splits)
    with assms have "length c = length (er_plaintext req) + 16"
      "so_decrypt lib (er_key req) (er_nonce req) aad c = Some (er_plaintext req)"
      by (auto simp: sodium_aead_ok_def)
    with v aad show ?thesis by (simp add: xchacha_decrypt_chunk_def decrypt_request_def)
  qed
  then show ?thesis by (simp add: backend_roundtrip_def XChaCha20Poly1305Backend_def)
qed

lemma aesgcm_roundtrip:
  assumes "evp_gcm_ok lib" "AesGcmBackend lib = Inr be"
  shows "backend_roundtrip be"
proof -
  have be: "cb_encrypt_chunk be = aesgcm_encrypt_chunk lib" "cb_decrypt_chunk be = aesgcm_decrypt_chunk lib"
    "cb_tag_size be = 16" using assms(2) by (auto simp: AesGcmBackend_def)
  have "length c = length (er_plaintext req) + 16 \<and>
      aesgcm_decrypt_chunk lib (decrypt_request req c) = Inr (er_plaintext req)"
    if enc: "aesgcm_encrypt_chunk lib req = Inr c" for req c
  proof -
    from enc obtain aad where
      v: "validate_aead_request (er_key req) (er_nonce req) 32 12 = Inr ()"
      and aad: "serialize_chunk_aad_v1 (er_aad req) = Inr aad"
      and su: "gcm_setup lib (er_nonce req) aad = Inr ()"
      by (auto simp: aesgcm_encrypt_chunk_def bindr_eq_Inr)
    obtain ct t where enc_eq: "eg_encrypt lib (er_key req) (er_nonce req) aad (er_plaintext req) = (ct, t)"
      by fastforce
    from enc have sz: "er_plaintext req \<noteq> [] \<Longrightarrow>
          \<exists>n. checked_int_size (of_nat (length (er_plaintext req))) ''plaintext'' = Inr n"
      and up: "er_plaintext req \<noteq> [] \<Longrightarrow> eg_step_ok lib ''Update''" and c: "c = ct @ t"
      by (auto simp: aesgcm_encrypt_chunk_def v aad su enc_eq bindr_eq_Inr)
    from assms(1) enc_eq have l: "length ct = length (er_plaintext req)" "length t = 16"
      "eg_decrypt lib (er_key req) (er_nonce req) aad ct t = Some (er_plaintext req)"
      "eg_step_ok lib ''SET_TAG''" by (auto simp: evp_gcm_ok_def)
    have ci: "checked_int_size v what = Inr n \<Longrightarrow> checked_int_size v w2 = Inr n" for v what w2 n
      by (simp add: checked_int_size_def split: if_splits)
    show ?thesis
    proof (cases "er_plaintext req = []")
      case True
      then show ?thesis using v aad su l c
        by (simp add: aesgcm_decrypt_chunk_def decrypt_request_def Let_def)
    next
      case False
      obtain n where "checked_int_size (of_nat (length (er_plaintext req))) ''ciphertext'' = Inr n"
        using sz [OF False] ci by blast
      then show ?thesis using v aad su l c up [OF False] False
        by (simp add: aesgcm_decrypt_chunk_def decrypt_request_def Let_def)
    qed
  qed
  then show ?thesis by (simp add: backend_roundtrip_def be)
qed

text \<open>No plaintext is returned that the library did not authenticate with exactly this input.\<close>

lemma xchacha_authenticated:
  assumes "cb_decrypt_chunk (XChaCha20Poly1305Backend lib) req = Inr p"
  shows "\<exists>aad. serialize_chunk_aad_v1 (dr_aad req) = Inr aad
    \<and> so_decrypt lib (dr_key req) (dr_nonce req) aad (dr_ciphertext_and_tag req) = Some p"
  using assms
  by (auto simp: XChaCha20Poly1305Backend_def xchacha_decrypt_chunk_def bindr_eq_Inr split: option.splits)

end
