(* ===== verification/Kdf.thy ===== *)
theory Kdf
  imports Crypto_Backend
begin

text \<open>
  \<^verbatim>\<open>src/crypto/Kdf.hpp\<close> and \<^verbatim>\<open>Kdf.cpp\<close>: Argon2id parameters and their three layers of checks (format
  bounds, security floor, local resource policy), keyfile digests and the master seed.  OpenSSL's
  HKDF, libargon2 and BLAKE3 are parameters.  \<open>keyfile_io\<close> is what the file system returns for a
  keyfile: its size, and the bytes read from it with the information whether the stream ended
  at the end of the file; the two need not agree.  A \<open>SecureBuffer\<close> is its contents.
\<close>

subsection \<open>Parameters\<close>

datatype KdfPreset = Fast | Strong | Paranoid | Custom

abbreviation (input) kArgon2MemoryKiBMin :: u32 where "kArgon2MemoryKiBMin \<equiv> 65536"
abbreviation (input) kArgon2MemoryKiBMax :: u32 where "kArgon2MemoryKiBMax \<equiv> 4194304"
abbreviation (input) kArgon2IterationsMin :: u32 where "kArgon2IterationsMin \<equiv> 1"
abbreviation (input) kArgon2IterationsMax :: u32 where "kArgon2IterationsMax \<equiv> 10"
abbreviation (input) kArgon2ParallelismMin :: u32 where "kArgon2ParallelismMin \<equiv> 1"
abbreviation (input) kArgon2ParallelismMax :: u32 where "kArgon2ParallelismMax \<equiv> 32"
abbreviation (input) kArgon2OutputBytesMin :: u32 where "kArgon2OutputBytesMin \<equiv> 32"
abbreviation (input) kArgon2OutputBytesMax :: u32 where "kArgon2OutputBytesMax \<equiv> 64"
abbreviation (input) kArgon2OutputBytesDefault :: u32 where "kArgon2OutputBytesDefault \<equiv> 32"
abbreviation (input) kArgon2FloorMemoryKiB :: u32 where "kArgon2FloorMemoryKiB \<equiv> 256 * 1024"
abbreviation (input) kArgon2FloorIterationsHigh :: u32 where "kArgon2FloorIterationsHigh \<equiv> 3"
abbreviation (input) kArgon2FloorIterationsLow :: u32 where "kArgon2FloorIterationsLow \<equiv> 4"

record KdfParams =
  kp_preset :: KdfPreset
  kp_memory_kib :: u32
  kp_iterations :: u32
  kp_parallelism :: u32
  kp_output_bytes :: u32

definition default_kdf_params :: KdfParams where
  "default_kdf_params = \<lparr>kp_preset = Strong, kp_memory_kib = 1024 * 1024, kp_iterations = 3,
     kp_parallelism = 4, kp_output_bytes = kArgon2OutputBytesDefault\<rparr>"

record KdfResourcePolicy =
  rp_max_memory_kib :: u32
  rp_max_iterations :: u32
  rp_max_parallelism :: u32

definition default_resource_policy :: KdfResourcePolicy where
  "default_resource_policy = \<lparr>rp_max_memory_kib = 2 * 1024 * 1024, rp_max_iterations = 4,
     rp_max_parallelism = 8\<rparr>"

definition require_u32_range :: "u32 \<Rightarrow> u32 \<Rightarrow> u32 \<Rightarrow> string \<Rightarrow> unit result" where
  "require_u32_range v min_value max_value name =
     throw_if (v < min_value \<or> v > max_value)
       (InvalidArgument (name @ '' is outside the allowed range'')) (Inr ())"

definition validate_kdf_params :: "KdfParams \<Rightarrow> unit result" where
  "validate_kdf_params p =
    bindr (require_u32_range (kp_memory_kib p) kArgon2MemoryKiBMin kArgon2MemoryKiBMax
      ''Argon2id memory_kib'') (\<lambda>_.
    bindr (require_u32_range (kp_iterations p) kArgon2IterationsMin kArgon2IterationsMax
      ''Argon2id iterations'') (\<lambda>_.
    bindr (require_u32_range (kp_parallelism p) kArgon2ParallelismMin kArgon2ParallelismMax
      ''Argon2id parallelism'') (\<lambda>_.
    require_u32_range (kp_output_bytes p) kArgon2OutputBytesMin kArgon2OutputBytesMax
      ''KDF output_bytes'')))"

definition validate_kdf_security_floor :: "KdfParams \<Rightarrow> unit result" where
  "validate_kdf_security_floor p =
    (let min_iter = (if kp_memory_kib p \<ge> kArgon2FloorMemoryKiB then kArgon2FloorIterationsHigh
                     else kArgon2FloorIterationsLow)
     in throw_if (kp_iterations p < min_iter)
          (InvalidArgument ''Argon2id parameters are below the minimum security floor'') (Inr ()))"

definition validate_kdf_resource_policy :: "KdfResourcePolicy \<Rightarrow> unit result" where
  "validate_kdf_resource_policy policy =
    throw_if (rp_max_memory_kib policy = 0)
      (InvalidArgument ''KDF resource policy max_memory_kib must not be zero'') (
    throw_if (rp_max_memory_kib policy > kArgon2MemoryKiBMax)
      (InvalidArgument ''KDF resource policy max_memory_kib exceeds the format maximum'') (
    throw_if (rp_max_iterations policy = 0)
      (InvalidArgument ''KDF resource policy max_iterations must not be zero'') (
    throw_if (rp_max_iterations policy > kArgon2IterationsMax)
      (InvalidArgument ''KDF resource policy max_iterations exceeds the format maximum'') (
    throw_if (rp_max_parallelism policy = 0)
      (InvalidArgument ''KDF resource policy max_parallelism must not be zero'') (
    throw_if (rp_max_parallelism policy > kArgon2ParallelismMax)
      (InvalidArgument ''KDF resource policy max_parallelism exceeds the format maximum'')
    (Inr ()))))))"

definition check_kdf_params_against_policy :: "KdfParams \<Rightarrow> KdfResourcePolicy \<Rightarrow> unit result" where
  "check_kdf_params_against_policy p policy =
    throw_if (kp_memory_kib p > rp_max_memory_kib policy)
      (InvalidArgument ''archive Argon2id memory_kib exceeds the local KDF resource policy limit; use --max-kdf-memory to override'') (
    throw_if (kp_iterations p > rp_max_iterations policy)
      (InvalidArgument ''archive Argon2id iterations exceed the local KDF resource policy limit; use --max-kdf-iterations to override'') (
    throw_if (kp_parallelism p > rp_max_parallelism policy)
      (InvalidArgument ''archive Argon2id parallelism exceeds the local KDF resource policy limit; use --max-kdf-parallelism to override'')
    (Inr ())))"

fun preset_params :: "KdfPreset \<Rightarrow> KdfParams" where
  "preset_params Fast = \<lparr>kp_preset = Fast, kp_memory_kib = 256 * 1024, kp_iterations = 3,
     kp_parallelism = 4, kp_output_bytes = kArgon2OutputBytesDefault\<rparr>"
| "preset_params Strong = \<lparr>kp_preset = Strong, kp_memory_kib = 1024 * 1024, kp_iterations = 3,
     kp_parallelism = 4, kp_output_bytes = kArgon2OutputBytesDefault\<rparr>"
| "preset_params Paranoid = \<lparr>kp_preset = Paranoid, kp_memory_kib = 2 * 1024 * 1024, kp_iterations = 4,
     kp_parallelism = 8, kp_output_bytes = kArgon2OutputBytesDefault\<rparr>"
| "preset_params Custom = default_kdf_params"

subsection \<open>HKDF\<close>

record hkdf_lib =
  hl_step_ok :: "string \<Rightarrow> bool"
  hl_derive :: "bytes \<Rightarrow> bytes \<Rightarrow> bytes \<Rightarrow> nat \<Rightarrow> bytes option"

definition hkdf_sha256 :: "hkdf_lib \<Rightarrow> bytes \<Rightarrow> bytes \<Rightarrow> bytes \<Rightarrow> nat \<Rightarrow> bytes result" where
  "hkdf_sha256 lib ikm salt info output_len =
    throw_if (ikm = []) (InvalidArgument ''HKDF input keying material must not be empty'') (
    throw_if (output_len = 0) (InvalidArgument ''HKDF output length must not be zero'') (
    throw_if (\<not> hl_step_ok lib ''CTX_new_id'') (Error ''failed to allocate HKDF context'') (
    throw_if (\<not> hl_step_ok lib ''derive_init'') (Error ''HKDF initialization failed'') (
    throw_if (\<not> hl_step_ok lib ''set_hkdf_md'') (Error ''HKDF digest setup failed'') (
    bindr (if salt = [] then Inr 0 else checked_int_size (of_nat (length salt)) ''HKDF salt'') (\<lambda>_.
    throw_if (salt \<noteq> [] \<and> \<not> hl_step_ok lib ''set1_hkdf_salt'') (Error ''HKDF salt setup failed'') (
    bindr (checked_int_size (of_nat (length ikm)) ''HKDF IKM'') (\<lambda>_.
    throw_if (\<not> hl_step_ok lib ''set1_hkdf_key'') (Error ''HKDF key setup failed'') (
    bindr (if info = [] then Inr 0 else checked_int_size (of_nat (length info)) ''HKDF info'') (\<lambda>_.
    throw_if (info \<noteq> [] \<and> \<not> hl_step_ok lib ''add1_hkdf_info'') (Error ''HKDF info setup failed'') (
    (case hl_derive lib ikm salt info output_len of
       None \<Rightarrow> Inl (Error ''HKDF derivation failed'')
     | Some out \<Rightarrow>
         throw_if (length out \<noteq> output_len) (Error ''HKDF derivation failed'') (Inr out)))))))))))))"

subsection \<open>Keyfiles\<close>

record keyfile_io =
  ki_file_size :: "string \<Rightarrow> u64 option"
  ki_open_read :: "string \<Rightarrow> (bytes \<times> bool) option"

abbreviation (input) kIoBufferSize :: nat where "kIoBufferSize \<equiv> 1024 * 1024"

text \<open>The reads of the loop \<open>while (in)\<close>: blocks of at most the buffer size, in order.\<close>

function read_blocks :: "nat \<Rightarrow> bytes \<Rightarrow> bytes list" where
  "read_blocks n bs = (if n = 0 \<or> bs = [] then [] else take n bs # read_blocks n (drop n bs))"
  by auto
termination by (relation "measure (\<lambda>(n, bs). length bs)") (auto simp: length_greater_0_conv [symmetric] simp del: length_greater_0_conv)

declare read_blocks.simps [simp del]

definition kDigestDomain :: bytes where
  "kDigestDomain = ascii ''BSEAL keyfile digest v1'' @ [0]"

definition kMixDomain :: bytes where
  "kMixDomain = ascii ''BSEAL keyfile mix v1'' @ [0]"

definition hash_keyfile :: "(bytes \<Rightarrow> bytes) \<Rightarrow> keyfile_io \<Rightarrow> string \<Rightarrow> bytes result" where
  "hash_keyfile blake3 io path =
    (case ki_file_size io path of
       None \<Rightarrow> Inl (KeyfileAccessError ''failed to read keyfile size'' path)
     | Some file_size \<Rightarrow>
         (case ki_open_read io path of
            None \<Rightarrow> Inl (KeyfileAccessError ''failed to open keyfile'' path)
          | Some (contents, at_eof) \<Rightarrow>
              throw_if (\<not> at_eof) (KeyfileAccessError ''failed while reading keyfile'' path)
              (Inr (blake3 (kDigestDomain @ append_u64_le [] file_size
                     @ concat (read_blocks kIoBufferSize contents))))))"

fun hash_keyfiles_blake3 :: "(bytes \<Rightarrow> bytes) \<Rightarrow> keyfile_io \<Rightarrow> string list \<Rightarrow> bytes list result" where
  "hash_keyfiles_blake3 blake3 io [] = Inr []"
| "hash_keyfiles_blake3 blake3 io (path # paths) =
     bindr (hash_keyfile blake3 io path) (\<lambda>digest.
     bindr (hash_keyfiles_blake3 blake3 io paths) (\<lambda>digests. Inr (digest # digests)))"

definition mix_input :: "bytes list \<Rightarrow> bytes" where
  "mix_input digests = kMixDomain @ append_u32_le [] (of_nat (length digests)) @ concat digests"

definition mix_keyfile_digests :: "(bytes \<Rightarrow> bytes) \<Rightarrow> bytes list \<Rightarrow> bytes" where
  "mix_keyfile_digests blake3 digests = blake3 (mix_input digests)"

subsection \<open>The master seed\<close>

record KdfInput =
  ki_passphrase :: bytes
  ki_keyfiles :: "string list"
  ki_salt :: bytes
  ki_archive_id :: bytes
  ki_params :: KdfParams

text \<open>
  The libraries the derivation calls.  \<open>kl_argon2id t m p password salt length\<close> is
  \<open>argon2id_hash_raw\<close>; \<open>None\<close> stands for a return code other than \<open>ARGON2_OK\<close>.
\<close>

record kdf_libs =
  kl_blake3 :: "bytes \<Rightarrow> bytes"
  kl_hkdf :: hkdf_lib
  kl_argon2id :: "u32 \<Rightarrow> u32 \<Rightarrow> u32 \<Rightarrow> bytes \<Rightarrow> bytes \<Rightarrow> nat \<Rightarrow> bytes option"
  kl_io :: keyfile_io

definition derive_master_seed :: "kdf_libs \<Rightarrow> KdfInput \<Rightarrow> bytes result" where
  "derive_master_seed libs input =
    throw_if (ki_passphrase input = []) (InvalidArgument ''passphrase must not be empty'') (
    bindr (validate_kdf_params (ki_params input)) (\<lambda>_.
    bindr (validate_kdf_security_floor (ki_params input)) (\<lambda>_.
    bindr (hash_keyfiles_blake3 (kl_blake3 libs) (kl_io libs) (ki_keyfiles input)) (\<lambda>digests.
    let keyfile_mix = mix_keyfile_digests (kl_blake3 libs) digests in
    (case kl_argon2id libs (kp_iterations (ki_params input)) (kp_memory_kib (ki_params input))
        (kp_parallelism (ki_params input)) (ki_passphrase input) (ki_salt input)
        (unat (kp_output_bytes (ki_params input))) of
       None \<Rightarrow> Inl (Error ''Argon2id derivation failed: '')
     | Some pass_key \<Rightarrow>
         hkdf_sha256 (kl_hkdf libs) (pass_key @ keyfile_mix)
           (ki_archive_id input @ ki_salt input) (ascii ''BSEAL master key v1'') 32)))))"

subsection \<open>Lemmas\<close>

lemma concat_read_blocks: "0 < n \<Longrightarrow> concat (read_blocks n bs) = bs"
proof (induction n bs rule: read_blocks.induct)
  case (1 n bs)
  then show ?case by (subst read_blocks.simps) auto
qed

lemma hkdf_length: "hkdf_sha256 lib ikm salt info n = Inr out \<Longrightarrow> length out = n \<and> 0 < n \<and> ikm \<noteq> []"
  by (auto simp: hkdf_sha256_def bindr_eq_Inr split: option.splits)

lemma hkdf_Inr:
  "hkdf_sha256 lib ikm salt info n = Inr out \<Longrightarrow> hl_derive lib ikm salt info n = Some out"
  by (auto simp: hkdf_sha256_def bindr_eq_Inr split: option.splits)

text \<open>The parameters Argon2id may be called with: within the format bounds and above the floor.\<close>

definition acceptable_cost :: "u32 \<Rightarrow> u32 \<Rightarrow> u32 \<Rightarrow> nat \<Rightarrow> bool" where
  "acceptable_cost t m p n \<longleftrightarrow> 65536 \<le> unat m \<and> unat m \<le> 4194304 \<and> unat t \<le> 10
     \<and> (if 262144 \<le> unat m then 3 \<le> unat t else 4 \<le> unat t)
     \<and> 1 \<le> unat p \<and> unat p \<le> 32 \<and> 32 \<le> n \<and> n \<le> 64"

lemma require_u32_range_Inr:
  "require_u32_range v a b name = Inr () \<longleftrightarrow> unat a \<le> unat v \<and> unat v \<le> unat b"
  by (auto simp: require_u32_range_def word_less_nat_alt)

lemma validated_cost:
  assumes "validate_kdf_params p = Inr ()" "validate_kdf_security_floor p = Inr ()"
  shows "acceptable_cost (kp_iterations p) (kp_memory_kib p) (kp_parallelism p) (unat (kp_output_bytes p))"
  using assms
  by (auto simp: validate_kdf_params_def bindr_eq_Inr require_u32_range_Inr acceptable_cost_def
      validate_kdf_security_floor_def Let_def word_less_nat_alt word_le_nat_alt split: if_splits)

subsection \<open>Properties\<close>

text \<open>
  Every built-in preset passes all three layers of checks: the format bounds, the security
  floor, and the default resource policy of the decrypting side, which is itself consistent.
\<close>

theorem presets_accepted:
  "validate_kdf_params (preset_params p) = Inr ()
   \<and> validate_kdf_security_floor (preset_params p) = Inr ()
   \<and> check_kdf_params_against_policy (preset_params p) default_resource_policy = Inr ()
   \<and> validate_kdf_resource_policy default_resource_policy = Inr ()"
  by (cases p)
     (simp_all add: validate_kdf_params_def require_u32_range_def validate_kdf_security_floor_def
       check_kdf_params_against_policy_def default_resource_policy_def default_kdf_params_def
       validate_kdf_resource_policy_def)

text \<open>
  C34: Argon2id is never run with parameters outside the format bounds or below the security
  floor: the derivation depends on the Argon2 library only at acceptable costs, so replacing the
  library elsewhere changes nothing, and a derivation that succeeds had acceptable costs.
\<close>

theorem argon2_only_at_acceptable_cost:
  assumes "\<And>t m p pw s n. acceptable_cost t m p n \<Longrightarrow> argon t m p pw s n = kl_argon2id libs t m p pw s n"
  shows "derive_master_seed (libs\<lparr>kl_argon2id := argon\<rparr>) input = derive_master_seed libs input
    \<and> (\<forall>seed. derive_master_seed libs input = Inr seed \<longrightarrow>
         acceptable_cost (kp_iterations (ki_params input)) (kp_memory_kib (ki_params input))
           (kp_parallelism (ki_params input)) (unat (kp_output_bytes (ki_params input)))
         \<and> length seed = 32 \<and> ki_passphrase input \<noteq> [])"
proof -
  let ?p = "ki_params input"
  have d: "derive_master_seed (libs\<lparr>kl_argon2id := argon\<rparr>) input = derive_master_seed libs input"
  proof (cases "validate_kdf_params ?p = Inr () \<and> validate_kdf_security_floor ?p = Inr ()")
    case True
    then have "acceptable_cost (kp_iterations ?p) (kp_memory_kib ?p) (kp_parallelism ?p)
        (unat (kp_output_bytes ?p))" by (simp add: validated_cost)
    then show ?thesis using assms by (simp add: derive_master_seed_def cong: option.case_cong)
  next
    case False
    then show ?thesis
      by (cases "validate_kdf_params ?p"; cases "validate_kdf_security_floor ?p")
         (auto simp: derive_master_seed_def throw_if_def)
  qed
  then show ?thesis
    by (auto simp: derive_master_seed_def bindr_eq_Inr Let_def validated_cost split: option.splits
        dest: hkdf_length)
qed

text \<open>
  C35: The keyfile mix binds the number, the contents and the order of the keyfile digests: two
  lists of fewer than 2^32 digests of 32 bytes give BLAKE3 the same input only if they are equal.
\<close>

theorem keyfile_mix_binds:
  assumes "list_all (\<lambda>d. length d = 32) ds" "list_all (\<lambda>d. length d = 32) es"
    "length ds < 2 ^ 32" "length es < 2 ^ 32"
  shows "mix_keyfile_digests blake3 ds = blake3 (mix_input ds) \<and> (mix_input ds = mix_input es \<longleftrightarrow> ds = es)"
proof -
  have "ds = es" if "mix_input ds = mix_input es"
  proof -
    from that have "le_bytes 4 (of_nat (length ds) :: u32) @ concat ds
        = le_bytes 4 (of_nat (length es) :: u32) @ concat es"
      by (simp add: mix_input_def append_simps)
    then have c: "concat ds = concat es" by simp
    then have "length (concat ds) = length (concat es)" by simp
    moreover have "length (concat xs) = 32 * length xs" if "list_all (\<lambda>d. length d = 32) xs" for xs :: "bytes list"
      using that by (induction xs) simp_all
    ultimately have "length ds = length es" using assms by simp
    with c assms(1,2) show "ds = es"
      by (intro concat_injective) (auto simp: list_all_iff set_zip)
  qed
  then show ?thesis by (auto simp: mix_keyfile_digests_def)
qed

text \<open>Concrete libraries: each returns a constant of the requested length.\<close>

definition sample_hkdf :: hkdf_lib where
  "sample_hkdf = \<lparr>hl_step_ok = (\<lambda>_. True), hl_derive = (\<lambda>ikm salt info n. Some (replicate n 3))\<rparr>"

definition sample_kdf_libs :: kdf_libs where
  "sample_kdf_libs = \<lparr>kl_blake3 = (\<lambda>_. replicate 32 1), kl_hkdf = sample_hkdf,
     kl_argon2id = (\<lambda>t m p pw s n. Some (replicate n 2)),
     kl_io = \<lparr>ki_file_size = (\<lambda>_. Some 0), ki_open_read = (\<lambda>_. Some ([], True))\<rparr>\<rparr>"

definition sample_kdf_input :: KdfInput where
  "sample_kdf_input = \<lparr>ki_passphrase = [112], ki_keyfiles = [''key''], ki_salt = replicate 32 4,
     ki_archive_id = replicate 32 5, ki_params = preset_params Fast\<rparr>"

lemma sample_hkdf_eq:
  "ikm \<noteq> [] \<Longrightarrow> length ikm < 2 ^ 31 \<Longrightarrow> length salt < 2 ^ 31 \<Longrightarrow> length info < 2 ^ 31 \<Longrightarrow> 0 < n \<Longrightarrow>
     hkdf_sha256 sample_hkdf ikm salt info n = Inr (replicate n 3)"
  by (simp add: hkdf_sha256_def sample_hkdf_def checked_int_size_def word_less_nat_alt unat_of_nat_u64)

lemma sample_master_seed: "derive_master_seed sample_kdf_libs sample_kdf_input = Inr (replicate 32 3)"
proof -
  have "validate_kdf_params (preset_params Fast) = Inr ()"
    "validate_kdf_security_floor (preset_params Fast) = Inr ()"
    by (simp_all add: validate_kdf_params_def require_u32_range_def validate_kdf_security_floor_def)
  then show ?thesis
    by (simp add: derive_master_seed_def sample_kdf_libs_def sample_kdf_input_def hash_keyfile_def
        mix_keyfile_digests_def sample_hkdf_eq ascii_def)
qed

theorem argon2_only_at_acceptable_cost_witness:
  "derive_master_seed
     (sample_kdf_libs\<lparr>kl_argon2id := (\<lambda>t m p pw s n. if acceptable_cost t m p n then Some (replicate n 2) else None)\<rparr>)
     sample_kdf_input = Inr (replicate 32 3)"
proof -
  have "(\<lambda>t m p pw s n. if acceptable_cost t m p n then Some (replicate n 2) else None) t m p pw s n
      = kl_argon2id sample_kdf_libs t m p pw s n" if "acceptable_cost t m p n"
    for t m p and pw s :: bytes and n
    using that by (simp add: sample_kdf_libs_def)
  from argon2_only_at_acceptable_cost [OF this] show ?thesis
    using sample_master_seed by simp
qed

theorem keyfile_mix_binds_witness:
  "mix_input [replicate 32 1, replicate 32 2] \<noteq> mix_input [replicate 32 2, replicate 32 1]"
proof -
  have "replicate 32 (1 :: byte) \<noteq> replicate 32 2"
    using arg_cong [of "replicate 32 (1 :: byte)" "replicate 32 2" "\<lambda>xs. xs ! 0"] by auto
  then have "[replicate 32 (1 :: byte), replicate 32 2] \<noteq> [replicate 32 2, replicate 32 1]" by simp
  with keyfile_mix_binds [of "[replicate 32 1, replicate 32 2]" "[replicate 32 2, replicate 32 1]"]
  show ?thesis by simp
qed

end
