(* ===== verification/Key_Schedule.thy ===== *)
theory Key_Schedule
  imports Kdf
begin

text \<open>
  \<^verbatim>\<open>src/crypto/KeySchedule.hpp\<close> and \<^verbatim>\<open>KeySchedule.cpp\<close>: the four keys derived from the master seed
  and the nonce of a chunk.
\<close>

record ExpandedKeys =
  ek_chunk_encryption_key :: bytes
  ek_manifest_key :: bytes
  ek_header_authentication_key :: bytes
  ek_nonce_derivation_key :: bytes

record NonceContext =
  nc_suite :: CipherSuite
  nc_archive_id :: bytes

definition make_info :: "string \<Rightarrow> CipherSuite \<Rightarrow> bytes" where
  "make_info label suite = append_u16_le (ascii label) (suite_id suite)"

fun key_size_for_suite :: "CipherSuite \<Rightarrow> nat" where
  "key_size_for_suite XChaCha20Poly1305 = kXChaCha20Poly1305KeyBytes"
| "key_size_for_suite Aes256Gcm = kAes256GcmKeyBytes"

fun nonce_size_for_suite :: "CipherSuite \<Rightarrow> nat" where
  "nonce_size_for_suite XChaCha20Poly1305 = kXChaCha20Poly1305NonceBytes"
| "nonce_size_for_suite Aes256Gcm = kAesGcmRecommendedNonceBytes"

definition expand_keys :: "hkdf_lib \<Rightarrow> bytes \<Rightarrow> CipherSuite \<Rightarrow> ExpandedKeys result" where
  "expand_keys lib master_seed suite =
    throw_if (length master_seed \<noteq> 32) (InvalidArgument ''master seed must be exactly 32 bytes'') (
    bindr (hkdf_sha256 lib master_seed [] (make_info ''BSEAL chunk encryption key v1'' suite)
      (key_size_for_suite suite)) (\<lambda>chunk_encryption_key.
    bindr (hkdf_sha256 lib master_seed [] (make_info ''BSEAL manifest key v1'' suite) 32)
      (\<lambda>manifest_key.
    bindr (hkdf_sha256 lib master_seed [] (make_info ''BSEAL header authentication key v1'' suite) 32)
      (\<lambda>header_authentication_key.
    bindr (hkdf_sha256 lib master_seed [] (make_info ''BSEAL nonce derivation key v1'' suite) 32)
      (\<lambda>nonce_derivation_key.
    Inr \<lparr>ek_chunk_encryption_key = chunk_encryption_key, ek_manifest_key = manifest_key,
         ek_header_authentication_key = header_authentication_key,
         ek_nonce_derivation_key = nonce_derivation_key\<rparr>)))))"

definition derive_chunk_nonce :: "hkdf_lib \<Rightarrow> bytes \<Rightarrow> NonceContext \<Rightarrow> u64 \<Rightarrow> bytes result" where
  "derive_chunk_nonce lib nonce_derivation_key ctx global_chunk_index =
    throw_if (nonce_derivation_key = [])
      (InvalidArgument ''nonce derivation key must not be empty'') (
    let nonce_len = nonce_size_for_suite (nc_suite ctx) in
    throw_if (nonce_len < 12) (InvalidArgument ''unsupported AEAD nonce length'') (
    let prefix_len = nonce_len - 8 in
    bindr (hkdf_sha256 lib nonce_derivation_key (nc_archive_id ctx)
        (make_info ''BSEAL chunk nonce prefix v1'' (nc_suite ctx)) prefix_len) (\<lambda>prefix.
    Inr (append_u64_le prefix global_chunk_index))))"

subsection \<open>Lemmas\<close>

lemma nonce_size_ge: "12 \<le> nonce_size_for_suite s"
  by (cases s) simp_all

lemma ascii_inject: "ascii a = ascii b \<longleftrightarrow> a = b"
proof -
  have "inj (of_char :: char \<Rightarrow> byte)"
    by (rule injI) (metis unat_of_char_byte of_char_eq_iff)
  then show ?thesis by (simp add: ascii_def inj_map_eq_map)
qed

lemma suite_id_inject: "suite_id a = suite_id b \<longleftrightarrow> a = b"
  by (cases a; cases b) simp_all

lemma make_info_inject: "make_info l s = make_info l' s' \<longleftrightarrow> l = l' \<and> s = s'"
  by (auto simp: make_info_def append_simps ascii_inject le_bytes_inject suite_id_inject)

lemma derive_chunk_nonce_Inr:
  assumes "derive_chunk_nonce lib key ctx i = Inr n"
  shows "\<exists>prefix. hkdf_sha256 lib key (nc_archive_id ctx)
      (make_info ''BSEAL chunk nonce prefix v1'' (nc_suite ctx)) (nonce_size_for_suite (nc_suite ctx) - 8)
      = Inr prefix \<and> n = prefix @ le_bytes 8 i \<and> length n = nonce_size_for_suite (nc_suite ctx)"
proof -
  from assms obtain p where p: "hkdf_sha256 lib key (nc_archive_id ctx)
      (make_info ''BSEAL chunk nonce prefix v1'' (nc_suite ctx)) (nonce_size_for_suite (nc_suite ctx) - 8)
      = Inr p" and n: "n = p @ le_bytes 8 i"
    by (auto simp: derive_chunk_nonce_def Let_def bindr_eq_Inr append_simps)
  then show ?thesis
    using hkdf_length [OF p] nonce_size_ge [of "nc_suite ctx"] by (intro exI [of _ p]) simp
qed

subsection \<open>Properties\<close>

text \<open>
  C19: Nonces never repeat within an archive: a nonce has the length the cipher suite requires
  and, for one key and archive, two chunk indices have the same nonce only if they are equal.
\<close>

theorem chunk_nonce_unique:
  assumes "derive_chunk_nonce lib key ctx i = Inr n" "derive_chunk_nonce lib key ctx j = Inr m"
  shows "length n = nonce_size_for_suite (nc_suite ctx) \<and> (n = m \<longleftrightarrow> i = j)"
  using derive_chunk_nonce_Inr [OF assms(1)] derive_chunk_nonce_Inr [OF assms(2)]
  by (auto simp: le_bytes_inject)

text \<open>
  The keys are domain separated: the five HKDF labels with the two suites give ten distinct
  info strings, and the expanded keys are the HKDF outputs for four of them, each of 32 bytes.
\<close>

theorem expanded_keys_separated:
  assumes "expand_keys lib seed suite = Inr k"
  shows "distinct [make_info l s. l \<leftarrow> [''BSEAL chunk encryption key v1'', ''BSEAL manifest key v1'',
        ''BSEAL header authentication key v1'', ''BSEAL nonce derivation key v1'',
        ''BSEAL chunk nonce prefix v1''], s \<leftarrow> [XChaCha20Poly1305, Aes256Gcm]]
    \<and> hl_derive lib seed [] (make_info ''BSEAL chunk encryption key v1'' suite) 32 = Some (ek_chunk_encryption_key k)
    \<and> hl_derive lib seed [] (make_info ''BSEAL manifest key v1'' suite) 32 = Some (ek_manifest_key k)
    \<and> hl_derive lib seed [] (make_info ''BSEAL header authentication key v1'' suite) 32
        = Some (ek_header_authentication_key k)
    \<and> hl_derive lib seed [] (make_info ''BSEAL nonce derivation key v1'' suite) 32 = Some (ek_nonce_derivation_key k)
    \<and> length (ek_chunk_encryption_key k) = 32 \<and> length (ek_manifest_key k) = 32
    \<and> length (ek_header_authentication_key k) = 32 \<and> length (ek_nonce_derivation_key k) = 32"
proof -
  have ks: "key_size_for_suite suite = 32" by (cases suite) simp_all
  have d: "distinct [make_info l s. l \<leftarrow> [''BSEAL chunk encryption key v1'', ''BSEAL manifest key v1'',
        ''BSEAL header authentication key v1'', ''BSEAL nonce derivation key v1'',
        ''BSEAL chunk nonce prefix v1''], s \<leftarrow> [XChaCha20Poly1305, Aes256Gcm]]"
    by (simp add: make_info_inject)
  show ?thesis using assms d
    by (auto simp: expand_keys_def bindr_eq_Inr ks hkdf_Inr dest: hkdf_length)
qed

theorem chunk_nonce_unique_witness:
  "derive_chunk_nonce sample_hkdf [1] \<lparr>nc_suite = Aes256Gcm, nc_archive_id = replicate 32 0\<rparr> 0 \<noteq>
   derive_chunk_nonce sample_hkdf [1] \<lparr>nc_suite = Aes256Gcm, nc_archive_id = replicate 32 0\<rparr> 1"
proof -
  have d: "derive_chunk_nonce sample_hkdf [1] \<lparr>nc_suite = Aes256Gcm, nc_archive_id = replicate 32 0\<rparr> i
      = Inr (replicate 4 3 @ le_bytes 8 i)" for i
    by (simp add: derive_chunk_nonce_def sample_hkdf_eq make_info_def append_simps ascii_def)
  show ?thesis using chunk_nonce_unique [OF d [of 0] d [of 1]] by (simp only: d) simp
qed

theorem expanded_keys_separated_witness:
  "\<exists>k. expand_keys sample_hkdf (replicate 32 6) Aes256Gcm = Inr k
     \<and> length (ek_chunk_encryption_key k) = 32"
proof -
  have "expand_keys sample_hkdf (replicate 32 6) Aes256Gcm =
      Inr \<lparr>ek_chunk_encryption_key = replicate 32 3, ek_manifest_key = replicate 32 3,
        ek_header_authentication_key = replicate 32 3, ek_nonce_derivation_key = replicate 32 3\<rparr>"
    by (simp add: expand_keys_def sample_hkdf_eq make_info_def append_simps ascii_def)
  from expanded_keys_separated [OF this] this show ?thesis by blast
qed

end
