(* ===== verification/Path_Sanitizer.thy ===== *)
theory Path_Sanitizer
  imports Prelude
begin

text \<open>
  The part of \<open>std::filesystem::path\<close> that the program relies on, for POSIX paths, and
  \<^verbatim>\<open>src/archive/PathSanitizer.cpp\<close>.  A path is its native string.  \<open>path_elements\<close> is the
  sequence that iterating over a path yields: the root directory if there is one, the file names
  between runs of slashes, and an empty element for a trailing slash.
\<close>

type_synonym path = string

subsection \<open>Paths of the standard library\<close>

fun split_slash :: "string \<Rightarrow> string list" where
  "split_slash [] = [[]]"
| "split_slash (c # cs) =
     (if c = CHR ''/'' then [] # split_slash cs
      else (c # hd (split_slash cs)) # tl (split_slash cs))"

definition relative_elements :: "string \<Rightarrow> string list" where
  "relative_elements s =
     (let ps = split_slash s in filter (\<lambda>p. p \<noteq> []) (butlast ps) @ [last ps])"

definition is_absolute :: "path \<Rightarrow> bool" where
  "is_absolute p \<longleftrightarrow> p \<noteq> [] \<and> hd p = CHR ''/''"

definition path_elements :: "path \<Rightarrow> string list" where
  "path_elements p =
     (if p = [] then []
      else if is_absolute p then
        (let r = dropWhile (\<lambda>c. c = CHR ''/'') p
         in ''/'' # (if r = [] then [] else relative_elements r))
      else relative_elements p)"

definition path_eq :: "path \<Rightarrow> path \<Rightarrow> bool" where
  "path_eq p q \<longleftrightarrow> path_elements p = path_elements q"

fun join_slash :: "string list \<Rightarrow> string" where
  "join_slash [] = []"
| "join_slash [n] = n"
| "join_slash (n # ns) = n @ CHR ''/'' # join_slash ns"

text \<open>\<open>path::generic_string\<close>: the elements joined by single slashes.\<close>

definition generic_string :: "path \<Rightarrow> string" where
  "generic_string p =
     (if is_absolute p then CHR ''/'' # join_slash (tl (path_elements p))
      else join_slash (path_elements p))"

text \<open>\<open>operator/\<close>: an absolute right-hand side replaces the left one.\<close>

definition path_append :: "path \<Rightarrow> path \<Rightarrow> path" where
  "path_append a b =
     (if is_absolute b then b
      else if a \<noteq> [] \<and> last a \<noteq> CHR ''/'' then a @ CHR ''/'' # b
      else a @ b)"

text \<open>\<open>path::lexically_normal\<close>: one element of the path is pushed on, or pops, the names so far.\<close>

definition norm_step :: "bool \<Rightarrow> string list \<Rightarrow> string \<Rightarrow> string list" where
  "norm_step rooted names e =
     (if e = [] \<or> e = ''.'' then names
      else if e = ''..'' then
        (if names \<noteq> [] \<and> last names \<noteq> ''..'' then butlast names
         else if rooted then names
         else names @ [''..''])
      else names @ [e])"

definition normal_names :: "path \<Rightarrow> string list" where
  "normal_names p =
     foldl (norm_step (is_absolute p)) []
       (if is_absolute p then tl (path_elements p) else path_elements p)"

definition render_path :: "bool \<Rightarrow> string list \<Rightarrow> bool \<Rightarrow> path" where
  "render_path rooted names trailing =
     (if names = [] then (if rooted then ''/'' else ''.'')
      else (if rooted then ''/'' else []) @ join_slash names
           @ (if trailing \<and> last names \<noteq> ''..'' then ''/'' else []))"

definition lexically_normal :: "path \<Rightarrow> path" where
  "lexically_normal p =
     (if p = [] then []
      else render_path (is_absolute p) (normal_names p)
             (last (path_elements p) \<in> {[], ''.'', ''..''}))"

subsection \<open>The sanitizer\<close>

definition isalpha :: "char \<Rightarrow> bool" where
  "isalpha c \<longleftrightarrow> (65 \<le> (of_char c :: nat) \<and> (of_char c :: nat) \<le> 90)
     \<or> (97 \<le> (of_char c :: nat) \<and> (of_char c :: nat) \<le> 122)"

text \<open>On POSIX a path has a root directory exactly if it is absolute, and never a root name.\<close>

definition is_safe_relative_path :: "path \<Rightarrow> bool" where
  "is_safe_relative_path path =
     (if path = [] \<or> is_absolute path then False
      else
        (let str = generic_string path in
         if length str \<ge> 2
            \<and> ((isalpha (str ! 0) \<and> str ! 1 = CHR '':'')
               \<or> (str ! 0 = CHR 0x5C \<and> str ! 1 = CHR 0x5C))
         then False
         else list_all (\<lambda>part. part \<noteq> ''..'' \<and> part \<noteq> []) (path_elements path)))"

definition make_safe_output_path :: "path \<Rightarrow> path \<Rightarrow> path result" where
  "make_safe_output_path output_root archive_path =
     throw_if (\<not> is_safe_relative_path archive_path)
       (InvalidArgument ''unsafe archive path rejected during extraction'')
       (Inr (lexically_normal (path_append output_root archive_path)))"

subsection \<open>Splitting and joining\<close>

definition is_name :: "string \<Rightarrow> bool" where
  "is_name n \<longleftrightarrow> n \<noteq> [] \<and> CHR ''/'' \<notin> set n"

lemma split_slash_not_Nil [simp]: "split_slash s \<noteq> []"
  by (cases s) auto

lemma split_slash_no_slash: "n \<in> set (split_slash s) \<Longrightarrow> CHR ''/'' \<notin> set n"
proof (induction s arbitrary: n)
  case (Cons c cs)
  show ?case
  proof (cases "c = CHR ''/''")
    case False
    with Cons.prems have "n = c # hd (split_slash cs) \<or> n \<in> set (split_slash cs)"
      by (auto dest: list.set_sel(2) [rotated])
    then show ?thesis using Cons.IH False by auto
  qed (use Cons in auto)
qed simp

lemma split_slash_single: "CHR ''/'' \<notin> set n \<Longrightarrow> split_slash n = [n]"
  by (induction n) auto

lemma split_slash_append:
  "CHR ''/'' \<notin> set n \<Longrightarrow> split_slash (n @ CHR ''/'' # s) = n # split_slash s"
  by (induction n) auto

lemma split_slash_concat:
  "split_slash (s @ CHR ''/'' # t) = split_slash s @ split_slash t"
  by (induction s) (auto simp: hd_append)

lemma relative_elements_names:
  assumes "n \<in> set (relative_elements s)"
  shows "n = [] \<or> is_name n"
proof -
  have "n \<in> set (split_slash s)"
    using assms by (auto simp: relative_elements_def Let_def dest: in_set_butlastD)
  then show ?thesis by (auto simp: is_name_def split_slash_no_slash)
qed

lemma split_join_slash:
  "names \<noteq> [] \<Longrightarrow> list_all (\<lambda>n. CHR ''/'' \<notin> set n) names \<Longrightarrow> split_slash (join_slash names) = names"
  by (induction names rule: join_slash.induct) (auto simp: split_slash_single split_slash_append)

lemma relative_elements_join:
  assumes "names \<noteq> []" "list_all is_name names"
  shows "relative_elements (join_slash names) = names"
proof -
  have s: "split_slash (join_slash names) = names"
    using assms by (intro split_join_slash) (auto simp: list_all_iff is_name_def)
  have "filter (\<lambda>p. p \<noteq> []) (butlast names) = butlast names"
    using assms(2) by (auto simp: list_all_iff is_name_def filter_id_conv dest: in_set_butlastD)
  then show ?thesis using assms(1) by (simp add: relative_elements_def s)
qed

lemma relative_elements_join_trailing:
  assumes "names \<noteq> []" "list_all is_name names"
  shows "relative_elements (join_slash names @ ''/'') = names @ [[]]"
proof -
  have s: "split_slash (join_slash names @ ''/'') = names @ [[]]"
    using assms by (subst split_slash_concat) (auto simp: split_join_slash list_all_iff is_name_def)
  have "filter (\<lambda>p. p \<noteq> []) names = names"
    using assms(2) by (auto simp: list_all_iff is_name_def filter_id_conv)
  then show ?thesis by (simp add: relative_elements_def s)
qed

lemma is_name_hd: "is_name n \<Longrightarrow> n \<noteq> [] \<and> hd n \<noteq> CHR ''/''"
  by (cases n) (auto simp: is_name_def)

lemma join_slash_start:
  "names \<noteq> [] \<Longrightarrow> list_all is_name names \<Longrightarrow>
     join_slash names \<noteq> [] \<and> hd (join_slash names) \<noteq> CHR ''/''"
  by (cases names rule: join_slash.cases) (auto simp: hd_append dest: is_name_hd)

subsection \<open>Normal forms\<close>

text \<open>The names of a path: what lies between its slashes.\<close>

definition path_names :: "path \<Rightarrow> string list" where
  "path_names p = filter (\<lambda>n. n \<noteq> []) (split_slash p)"

lemma path_names_is_name: "list_all is_name (path_names p)"
  by (auto simp: path_names_def list_all_iff is_name_def split_slash_no_slash)

lemma filter_relative_elements: "filter (\<lambda>n. n \<noteq> []) (relative_elements s) = path_names s"
proof -
  have "split_slash s = butlast (split_slash s) @ [last (split_slash s)]" by simp
  then have "path_names s = filter (\<lambda>n. n \<noteq> []) (butlast (split_slash s) @ [last (split_slash s)])"
    unfolding path_names_def by (rule arg_cong)
  also have "\<dots> = filter (\<lambda>n. n \<noteq> []) (relative_elements s)"
    unfolding relative_elements_def Let_def filter_append filter_filter by simp
  finally show ?thesis by (rule sym)
qed

lemma path_names_Nil [simp]: "path_names [] = []"
  by (simp add: path_names_def)

lemma path_names_Cons_slash [simp]: "path_names (CHR ''/'' # s) = path_names s"
  by (simp add: path_names_def)

lemma path_names_dropWhile: "path_names (dropWhile (\<lambda>c. c = CHR ''/'') s) = path_names s"
  by (induction s) simp_all

lemma path_names_append: "path_names (s @ CHR ''/'' # t) = path_names s @ path_names t"
  by (simp add: path_names_def split_slash_concat)

lemma norm_step_Nil [simp]: "norm_step r names [] = names"
  by (simp add: norm_step_def)

lemma foldl_norm_filter:
  "foldl (norm_step r) names xs = foldl (norm_step r) names (filter (\<lambda>n. n \<noteq> []) xs)"
  by (induction xs arbitrary: names) auto

lemma normal_names_eq: "normal_names p = foldl (norm_step (is_absolute p)) [] (path_names p)"
proof -
  have "filter (\<lambda>n. n \<noteq> []) (if is_absolute p then tl (path_elements p) else path_elements p)
      = path_names p"
  proof (cases "p = []")
    case False
    show ?thesis
    proof (cases "is_absolute p")
      case True
      let ?r = "dropWhile (\<lambda>c. c = CHR ''/'') p"
      have "filter (\<lambda>n. n \<noteq> []) (if ?r = [] then [] else relative_elements ?r) = path_names ?r"
        by (cases "?r = []") (simp_all only: filter_relative_elements path_names_Nil if_True if_False filter.simps refl)
      then show ?thesis using True False path_names_dropWhile [of p]
        by (simp add: path_elements_def Let_def)
    next
      case rel: False
      then show ?thesis using False by (simp add: path_elements_def filter_relative_elements)
    qed
  qed (simp add: path_elements_def is_absolute_def path_names_def)
  then show ?thesis unfolding normal_names_def using foldl_norm_filter by metis
qed

lemma foldl_norm_no_dotdot:
  "list_all (\<lambda>n. n \<noteq> ''..'' \<and> n \<noteq> []) xs \<Longrightarrow>
     foldl (norm_step r) names xs = names @ filter (\<lambda>n. n \<noteq> ''.'') xs"
  by (induction xs arbitrary: names) (auto simp: norm_step_def)

lemma normal_names_is_name:
  "list_all is_name xs \<Longrightarrow> list_all is_name names \<Longrightarrow> list_all is_name (foldl (norm_step r) names xs)"
proof (induction xs arbitrary: names)
  case (Cons x xs)
  have "list_all is_name (norm_step r names x)"
    using Cons.prems by (auto simp: norm_step_def is_name_def list_all_iff dest: in_set_butlastD)
  with Cons show ?case by simp
qed simp

lemma safe_path_cases:
  assumes "is_safe_relative_path p"
  shows "p \<noteq> []" "\<not> is_absolute p" "path_elements p = path_names p"
    "list_all (\<lambda>n. n \<noteq> ''..'' \<and> n \<noteq> []) (path_names p)"
proof -
  show p: "p \<noteq> []" "\<not> is_absolute p"
    using assms by (auto simp: is_safe_relative_path_def split: if_splits)
  have e: "list_all (\<lambda>n. n \<noteq> ''..'' \<and> n \<noteq> []) (path_elements p)"
    using assms by (auto simp: is_safe_relative_path_def Let_def split: if_splits)
  then have "filter (\<lambda>n. n \<noteq> []) (path_elements p) = path_elements p"
    by (auto simp: list_all_iff filter_id_conv)
  then show eq: "path_elements p = path_names p"
    using p filter_relative_elements [of p] by (simp add: path_elements_def)
  show "list_all (\<lambda>n. n \<noteq> ''..'' \<and> n \<noteq> []) (path_names p)" using e eq by simp
qed

text \<open>Appending a path without \<open>..\<close> only extends the normal form.\<close>

lemma path_append_names:
  assumes "\<not> is_absolute p"
  shows "path_names (path_append root p) = path_names root @ path_names p"
proof (cases "root \<noteq> [] \<and> last root = CHR ''/''")
  case True
  then have "root = butlast root @ ''/''" using append_butlast_last_id [of root] by simp
  then obtain r where "root = r @ ''/''" ..
  then show ?thesis using assms path_names_append [of r p] path_names_append [of r "[]"]
    by (simp add: path_append_def path_names_def)
next
  case False
  then show ?thesis using assms
    by (cases "root = []") (simp_all add: path_append_def path_names_append path_names_def [of "[]"])
qed

lemma path_append_absolute:
  "root \<noteq> [] \<Longrightarrow> \<not> is_absolute p \<Longrightarrow> is_absolute (path_append root p) = is_absolute root"
  by (auto simp: path_append_def is_absolute_def)

lemma normal_names_append:
  assumes "root \<noteq> []" "is_safe_relative_path p"
  shows "normal_names (path_append root p) = normal_names root @ filter (\<lambda>n. n \<noteq> ''.'') (path_names p)"
  using safe_path_cases [OF assms(2)] assms(1)
  by (simp add: normal_names_eq path_append_names path_append_absolute foldl_norm_no_dotdot)

text \<open>The names of a normal form are recovered from the rendered string.\<close>

lemma path_names_join:
  "list_all is_name names \<Longrightarrow> path_names (join_slash names) = names"
proof (induction names rule: join_slash.induct)
  case (2 n)
  then show ?case by (auto simp: path_names_def split_slash_single is_name_def)
next
  case (3 n m ns)
  then show ?case
    by (auto simp: path_names_append) (auto simp: path_names_def split_slash_single is_name_def)
qed (simp add: path_names_def)

lemma path_names_render:
  assumes "list_all is_name names" "names \<noteq> []"
  shows "path_names (render_path r names t) = names"
proof -
  have "path_names (join_slash names @ ''/'') = names"
    using path_names_append [of "join_slash names" "[]"] path_names_join [OF assms(1)]
    by (simp add: path_names_def)
  then show ?thesis using assms path_names_join by (auto simp: render_path_def)
qed

lemma last_split_dropWhile:
  "dropWhile (\<lambda>c. c = CHR ''/'') s \<noteq> [] \<Longrightarrow>
     last (split_slash (dropWhile (\<lambda>c. c = CHR ''/'') s)) = last (split_slash s)"
proof (induction s)
  case (Cons c cs)
  then show ?case by (cases "c = CHR ''/''") (simp_all only: dropWhile.simps split_slash.simps
      if_True if_False last.simps split_slash_not_Nil refl
      not_False_eq_True simp_thms)
qed simp

lemma last_path_elements:
  "dropWhile (\<lambda>c. c = CHR ''/'') p \<noteq> [] \<Longrightarrow> last (path_elements p) = last (split_slash p)"
  using last_split_dropWhile [of p] by (auto simp: path_elements_def relative_elements_def Let_def)

lemma last_element_append:
  assumes "p \<noteq> []" "\<not> is_absolute p" "root \<noteq> []"
  shows "last (path_elements (path_append root p)) = last (path_elements p)"
proof -
  obtain r where r: "path_append root p = r @ CHR ''/'' # p"
  proof (cases "last root = CHR ''/''")
    case True
    then have "root = butlast root @ [CHR ''/'']"
      using assms(3) append_butlast_last_id [of root] by simp
    then have "root @ p = (butlast root @ [CHR ''/'']) @ p" by (rule arg_cong)
    then have "root @ p = butlast root @ CHR ''/'' # p" by (simp only: append.assoc append_Cons append_Nil)
    then show ?thesis using True assms that by (simp add: path_append_def)
  next
    case False
    then show ?thesis using assms that by (auto simp: path_append_def)
  qed
  have np: "\<exists>c\<in>set p. c \<noteq> CHR ''/''" using assms(1,2) by (cases p) (auto simp: is_absolute_def)
  have "dropWhile (\<lambda>c. c = CHR ''/'') (r @ CHR ''/'' # p) \<noteq> []" "dropWhile (\<lambda>c. c = CHR ''/'') p \<noteq> []"
    using np by auto
  then show ?thesis unfolding r by (simp add: last_path_elements split_slash_concat)
qed

lemma safe_path_last:
  assumes "is_safe_relative_path p"
  shows "last (path_elements p) \<noteq> [] \<and> last (path_elements p) \<noteq> ''..''"
proof -
  note sp = safe_path_cases [OF assms]
  have "path_elements p \<noteq> []" using sp(1,2) by (simp add: path_elements_def relative_elements_def Let_def)
  then show ?thesis using sp(3,4) by (auto simp: list_all_iff dest: last_in_set)
qed

lemma safe_output_path_shape:
  assumes "root \<noteq> []" "make_safe_output_path root p = Inr q"
  shows "\<exists>names. list_all (\<lambda>n. is_name n \<and> n \<noteq> ''.'' \<and> n \<noteq> ''..'') names
    \<and> names = filter (\<lambda>n. n \<noteq> ''.'') (path_names p)
    \<and> q = render_path (is_absolute root) (normal_names root @ names) (last (path_elements p) = ''.'')
    \<and> (normal_names root @ names \<noteq> [] \<longrightarrow> path_names q = normal_names root @ names)"
proof -
  let ?names = "filter (\<lambda>n. n \<noteq> ''.'') (path_names p)"
  from assms(2) have safe: "is_safe_relative_path p"
    and q: "q = lexically_normal (path_append root p)" by (simp_all add: make_safe_output_path_def)
  note sp = safe_path_cases [OF safe]
  have "list_all is_name ?names" "list_all (\<lambda>n. n \<noteq> ''.'' \<and> n \<noteq> ''..'') ?names"
    using path_names_is_name [of p] sp(4) by (auto simp: list_all_iff)
  then have l: "list_all (\<lambda>n. is_name n \<and> n \<noteq> ''.'' \<and> n \<noteq> ''..'') ?names"
    by (auto simp: list_all_iff)
  have ap: "path_append root p \<noteq> []" using assms(1) sp(2) by (auto simp: path_append_def)
  have names: "list_all is_name (normal_names root @ ?names)"
    using normal_names_is_name [OF path_names_is_name [of root], of "[]"] l
    by (auto simp: normal_names_eq list_all_iff)
  have "last (path_elements (path_append root p)) = last (path_elements p)"
    using sp(1,2) assms(1) by (rule last_element_append)
  then have t: "last (path_elements (path_append root p)) \<in> {[], ''.'', ''..''}
      \<longleftrightarrow> last (path_elements p) = ''.''"
    using sp safe_path_last [OF safe] by auto
  have qr: "q = render_path (is_absolute root) (normal_names root @ ?names) (last (path_elements p) = ''.'')"
    unfolding q lexically_normal_def t using ap assms(1) safe sp(2)
    by (simp add: normal_names_append path_append_absolute)
  then have "normal_names root @ ?names \<noteq> [] \<longrightarrow> path_names q = normal_names root @ ?names"
    using path_names_render [OF names] by simp
  with l qr show ?thesis by blast
qed

text \<open>
  C30: Extraction paths stay beneath the output root.  Whatever root and archive path the
  caller passes, \<open>make_safe_output_path\<close> either throws or returns a path whose names are those of
  the normalised root followed by the archive path's own names, none of which is \<open>.\<close>, \<open>..\<close> or
  empty; it is absolute exactly if the root is.
\<close>

theorem make_safe_output_path_beneath:
  assumes "root \<noteq> []" "make_safe_output_path root p = Inr q"
  shows "\<exists>names. list_all (\<lambda>n. is_name n \<and> n \<noteq> ''.'' \<and> n \<noteq> ''..'') names
    \<and> names = filter (\<lambda>n. n \<noteq> ''.'') (path_names p)
    \<and> q = render_path (is_absolute root) (normal_names root @ names) (last (path_elements p) = ''.'')
    \<and> (normal_names root @ names \<noteq> [] \<longrightarrow> path_names q = normal_names root @ names)"
  using assms by (rule safe_output_path_shape)

theorem make_safe_output_path_beneath_witness:
  "make_safe_output_path ''/out/../data'' ''a/./b'' = Inr ''/data/a/b''
     \<and> path_names ''/data/a/b'' = normal_names ''/out/../data'' @ [''a'', ''b'']"
proof -
  have q: "make_safe_output_path ''/out/../data'' ''a/./b'' = Inr ''/data/a/b''" by code_simp
  have f: "filter (\<lambda>n. n \<noteq> ''.'') (path_names ''a/./b'') = [''a'', ''b'']" by code_simp
  have r: "''/out/../data'' \<noteq> []" by simp
  obtain names where "names = filter (\<lambda>n. n \<noteq> ''.'') (path_names ''a/./b'')"
      "normal_names ''/out/../data'' @ names \<noteq> [] \<longrightarrow>
        path_names ''/data/a/b'' = normal_names ''/out/../data'' @ names"
    using make_safe_output_path_beneath [OF r q] by (elim exE conjE) (rule that)
  then have "path_names ''/data/a/b'' = normal_names ''/out/../data'' @ [''a'', ''b'']"
    unfolding f by simp
  with q show ?thesis by (rule conjI)
qed

end
