(* ===== verification/Record_Format.thy ===== *)
theory Record_Format
  imports Endian Path_Sanitizer
begin

text \<open>
  \<^verbatim>\<open>src/archive/Metadata.hpp\<close>, \<^verbatim>\<open>src/archive/RecordFormat.hpp\<close> and \<^verbatim>\<open>RecordFormat.cpp\<close>: the records
  of the plaintext archive stream and the metadata payload of its entries.  A signed 64-bit
  timestamp is kept as its two's complement word.  A \<open>std::string\<close> is a list of characters;
  \<open>string_bytes\<close> and \<open>bytes_string\<close> are the reinterpreting casts between characters and bytes.
\<close>

subsection \<open>Metadata and records\<close>

datatype EntryKind = RegularFile | Directory | Symlink

record FileTimes =
  ft_modified_ns :: u64
  ft_accessed_ns :: "u64 option"
  ft_created_ns :: "u64 option"

record EntryMetadata =
  em_kind :: EntryKind
  em_relative_path :: path
  em_original_size :: u64
  em_posix_mode :: u32
  em_times :: FileTimes
  em_symlink_target :: string

datatype RecordType = ArchiveBegin | DirectoryEntry | FileEntry | FileBytes | FileEnd
  | SymlinkEntry | ArchiveEnd | RandomPadding

record ArchiveRecord =
  ar_type :: RecordType
  ar_payload :: bytes

abbreviation (input) kRecordPrefixSize :: nat where "kRecordPrefixSize \<equiv> 9"

definition kMaxRecordPayloadBytes :: nat where
  "kMaxRecordPayloadBytes = 128 * 1024 * 1024"

abbreviation (input) kArchiveFormatVersion :: u32 where "kArchiveFormatVersion \<equiv> 1"

fun record_type_code :: "RecordType \<Rightarrow> u8" where
  "record_type_code ArchiveBegin = 1"
| "record_type_code DirectoryEntry = 2"
| "record_type_code FileEntry = 3"
| "record_type_code FileBytes = 4"
| "record_type_code FileEnd = 5"
| "record_type_code SymlinkEntry = 6"
| "record_type_code ArchiveEnd = 7"
| "record_type_code RandomPadding = 8"

text \<open>\<open>valid_record_type\<close> and the cast it guards: \<open>None\<close> is an invalid value.\<close>

definition record_type_of :: "u8 \<Rightarrow> RecordType option" where
  "record_type_of v =
     find (\<lambda>t. record_type_code t = v)
       [ArchiveBegin, DirectoryEntry, FileEntry, FileBytes, FileEnd, SymlinkEntry, ArchiveEnd,
        RandomPadding]"

definition valid_record_type :: "u8 \<Rightarrow> bool" where
  "valid_record_type v \<longleftrightarrow> record_type_of v \<noteq> None"

fun entry_kind_code :: "EntryKind \<Rightarrow> u8" where
  "entry_kind_code RegularFile = 1"
| "entry_kind_code Directory = 2"
| "entry_kind_code Symlink = 3"

definition parse_entry_kind :: "u8 \<Rightarrow> EntryKind result" where
  "parse_entry_kind v =
     (if v = 1 then Inr RegularFile
      else if v = 2 then Inr Directory
      else if v = 3 then Inr Symlink
      else Inl (InvalidArgument ''invalid archive entry kind''))"

definition string_bytes :: "string \<Rightarrow> bytes" where
  "string_bytes s = map of_char s"

definition bytes_string :: "bytes \<Rightarrow> string" where
  "bytes_string bs = map (\<lambda>b. char_of (unat b)) bs"

subsection \<open>Readers and appenders\<close>

abbreviation (input) truncated_record :: string where
  "truncated_record \<equiv> ''truncated archive record''"

definition rec_u8 :: "bytes \<Rightarrow> (u8 \<times> bytes) result" where
  "rec_u8 r = bindr (read_bytes truncated_record 1 r) (\<lambda>(b, r). Inr (hd b, r))"

definition rec_u32_le :: "bytes \<Rightarrow> (u32 \<times> bytes) result" where
  "rec_u32_le r = read_u32_le truncated_record r"

definition rec_u64_le :: "bytes \<Rightarrow> (u64 \<times> bytes) result" where
  "rec_u64_le r = read_u64_le truncated_record r"

definition rec_i64_le :: "bytes \<Rightarrow> (u64 \<times> bytes) result" where
  "rec_i64_le r = rec_u64_le r"

definition rec_bytes :: "nat \<Rightarrow> bytes \<Rightarrow> (bytes \<times> bytes) result" where
  "rec_bytes n r = read_bytes truncated_record n r"

definition require_eof :: "string \<Rightarrow> bytes \<Rightarrow> unit result" where
  "require_eof what r = throw_if (r \<noteq> []) (InvalidArgument (what @ '' contains trailing bytes'')) (Inr ())"

definition read_string :: "bytes \<Rightarrow> (string \<times> bytes) result" where
  "read_string r =
     bindr (rec_u32_le r) (\<lambda>(len, r).
     bindr (rec_bytes (unat len) r) (\<lambda>(b, r). Inr (bytes_string b, r)))"

definition append_string :: "bytes \<Rightarrow> string \<Rightarrow> bytes result" where
  "append_string out s =
     throw_if (length s > unat u32_max) (InvalidArgument ''archive string is too large'')
       (Inr (append_bytes (append_u32_le out (of_nat (length s))) (string_bytes s)))"

text \<open>For evaluation: the comparisons with large numbers are done on words and integers.\<close>

lemma append_string_code [code]:
  "append_string out s =
     throw_if (4294967295 < int (length s)) (InvalidArgument ''archive string is too large'')
       (Inr (append_bytes (append_u32_le out (of_nat (length s))) (string_bytes s)))"
  by (simp add: append_string_def unat_u32_max)

subsection \<open>Records\<close>

definition serialize_record :: "ArchiveRecord \<Rightarrow> bytes" where
  "serialize_record rec =
     (let out = append_u8 [] (record_type_code (ar_type rec));
          out = append_u64_le out (of_nat (length (ar_payload rec)))
      in append_bytes out (ar_payload rec))"

definition encoded_record_size_if_complete :: "bytes \<Rightarrow> nat option result" where
  "encoded_record_size_if_complete bs =
     (if length bs < kRecordPrefixSize then Inr None
      else
        throw_if (\<not> valid_record_type (bs ! 0)) (InvalidArgument ''invalid archive record type'') (
        let payload_size = (read_le (take 8 (drop 1 bs)) :: u64) in
        throw_if (payload_size > of_nat kMaxRecordPayloadBytes)
          (InvalidArgument ''archive record payload exceeds maximum allowed size'') (
        throw_if (payload_size > u64_max - 9)
          (InvalidArgument ''archive record payload is too large for this platform'') (
        let total = kRecordPrefixSize + unat payload_size in
        if length bs < total then Inr None else Inr (Some total)))))"

lemma encoded_record_size_code [code]:
  "encoded_record_size_if_complete bs =
     (if length bs < kRecordPrefixSize then Inr None
      else
        throw_if (\<not> valid_record_type (bs ! 0)) (InvalidArgument ''invalid archive record type'') (
        let payload_size = (read_le (take 8 (drop 1 bs)) :: u64) in
        throw_if (payload_size > 134217728)
          (InvalidArgument ''archive record payload exceeds maximum allowed size'') (
        throw_if (payload_size > u64_max - 9)
          (InvalidArgument ''archive record payload is too large for this platform'') (
        let total = kRecordPrefixSize + unat payload_size in
        if length bs < total then Inr None else Inr (Some total)))))"
  by (simp add: encoded_record_size_if_complete_def kMaxRecordPayloadBytes_def)

definition parse_record :: "bytes \<Rightarrow> ArchiveRecord result" where
  "parse_record bs =
     bindr (encoded_record_size_if_complete bs) (\<lambda>complete_size.
     throw_if (complete_size \<noteq> Some (length bs))
       (InvalidArgument ''record buffer does not contain exactly one complete record'') (
     bindr (rec_u8 bs) (\<lambda>(type_byte, r).
     (case record_type_of type_byte of
        None \<Rightarrow> Inl (InvalidArgument ''invalid archive record type'')
      | Some t \<Rightarrow>
          bindr (rec_u64_le r) (\<lambda>(payload_size, r).
          bindr (rec_bytes (unat payload_size) r) (\<lambda>(payload, r).
          bindr (require_eof ''archive record'' r) (\<lambda>_.
          Inr \<lparr>ar_type = t, ar_payload = payload\<rparr>)))))))"

subsection \<open>Entry metadata\<close>

definition append_opt_time :: "bytes \<Rightarrow> u64 option \<Rightarrow> bytes" where
  "append_opt_time out t =
     (case t of None \<Rightarrow> append_u8 out 0 | Some v \<Rightarrow> append_i64_le (append_u8 out 1) v)"

definition serialize_entry_metadata :: "EntryMetadata \<Rightarrow> bytes result" where
  "serialize_entry_metadata m =
     (let out = append_u8 [] (entry_kind_code (em_kind m)) in
      bindr (append_string out (generic_string (em_relative_path m))) (\<lambda>out.
      let out = append_u64_le out (em_original_size m);
          out = append_u32_le out (em_posix_mode m);
          out = append_i64_le out (ft_modified_ns (em_times m));
          out = append_opt_time out (ft_accessed_ns (em_times m));
          out = append_opt_time out (ft_created_ns (em_times m))
      in append_string out (em_symlink_target m)))"

definition read_opt_time :: "bytes \<Rightarrow> (u64 option \<times> bytes) result" where
  "read_opt_time r =
     bindr (rec_u8 r) (\<lambda>(flag, r).
     throw_if (flag > 1) (InvalidArgument ''invalid optional timestamp flag'') (
     if flag = 1 then bindr (rec_i64_le r) (\<lambda>(t, r). Inr (Some t, r))
     else Inr (None, r)))"

definition parse_entry_metadata :: "bytes \<Rightarrow> EntryMetadata result" where
  "parse_entry_metadata bs =
     bindr (rec_u8 bs) (\<lambda>(k, r).
     bindr (parse_entry_kind k) (\<lambda>kind.
     bindr (read_string r) (\<lambda>(path_text, r).
     throw_if (path_eq path_text ''.'' \<or> \<not> is_safe_relative_path path_text)
       (InvalidArgument ''unsafe path inside archive metadata'') (
     bindr (rec_u64_le r) (\<lambda>(original_size, r).
     bindr (rec_u32_le r) (\<lambda>(posix_mode, r).
     bindr (rec_i64_le r) (\<lambda>(modified, r).
     bindr (read_opt_time r) (\<lambda>(accessed, r).
     bindr (read_opt_time r) (\<lambda>(created, r).
     bindr (read_string r) (\<lambda>(target, r).
     bindr (require_eof ''entry metadata'' r) (\<lambda>_.
     throw_if (kind \<noteq> Symlink \<and> target \<noteq> [])
       (InvalidArgument ''non-symlink metadata contains symlink target'') (
     throw_if (kind = Symlink \<and> original_size \<noteq> 0)
       (InvalidArgument ''symlink metadata must have zero original size'') (
     throw_if (kind = Directory \<and> original_size \<noteq> 0)
       (InvalidArgument ''directory metadata must have zero original size'')
     (Inr \<lparr>em_kind = kind, em_relative_path = path_text, em_original_size = original_size,
           em_posix_mode = posix_mode,
           em_times = \<lparr>ft_modified_ns = modified, ft_accessed_ns = accessed,
                       ft_created_ns = created\<rparr>,
           em_symlink_target = target\<rparr>))))))))))))))"

subsection \<open>Characters and bytes\<close>

lemma bytes_string_inverse [simp]: "bytes_string (string_bytes s) = s"
  by (simp add: bytes_string_def string_bytes_def unat_of_char_byte comp_def)

lemma of_char_char_of_byte: "of_char (char_of (unat (b :: byte))) = b"
proof -
  have "unat b < 256" using unsigned_less [of b] by simp
  then have "unat (of_char (char_of (unat b)) :: byte) = unat b" by (simp add: unat_of_char_byte)
  then show ?thesis by (simp add: word_unat_eq_iff)
qed

lemma string_bytes_inverse [simp]: "string_bytes (bytes_string bs) = bs"
  by (simp add: bytes_string_def string_bytes_def of_char_char_of_byte comp_def map_idI)

lemma length_string_bytes [simp]: "length (string_bytes s) = length s"
  "length (bytes_string bs) = length bs"
  by (simp_all add: string_bytes_def bytes_string_def)

subsection \<open>Record types\<close>

lemma record_type_of_code [simp]: "record_type_of (record_type_code t) = Some t"
  by (cases t) (simp_all add: record_type_of_def)

lemma record_type_of_Some: "record_type_of v = Some t \<longleftrightarrow> v = record_type_code t"
proof
  assume "record_type_of v = Some t"
  then show "v = record_type_code t" by (auto simp: record_type_of_def split: if_splits)
qed simp

lemma valid_record_type_code [simp]: "valid_record_type (record_type_code t)"
  by (simp add: valid_record_type_def)

lemma parse_entry_kind_code [simp]: "parse_entry_kind (entry_kind_code k) = Inr k"
  by (cases k) (simp_all add: parse_entry_kind_def)

lemma parse_entry_kind_Inr: "parse_entry_kind v = Inr k \<longleftrightarrow> v = entry_kind_code k"
  by (cases k) (auto simp: parse_entry_kind_def)

subsection \<open>Record framing\<close>

lemma serialize_record_eq:
  "serialize_record r = record_type_code (ar_type r)
     # le_bytes 8 (of_nat (length (ar_payload r)) :: u64) @ ar_payload r"
  by (simp add: serialize_record_def append_simps)

lemma length_serialize_record: "length (serialize_record r) = 9 + length (ar_payload r)"
  by (simp add: serialize_record_eq)

lemma encoded_size_prefix:
  "encoded_record_size_if_complete (t # le_bytes 8 (n :: u64) @ rest) =
     (if \<not> valid_record_type t then Inl (InvalidArgument ''invalid archive record type'')
      else if unat n > kMaxRecordPayloadBytes
      then Inl (InvalidArgument ''archive record payload exceeds maximum allowed size'')
      else if length rest < unat n then Inr None else Inr (Some (9 + unat n)))"
proof -
  have max: "n > of_nat kMaxRecordPayloadBytes \<longleftrightarrow> unat n > kMaxRecordPayloadBytes"
    by (simp add: word_less_nat_alt kMaxRecordPayloadBytes_def)
  have plat: "\<not> n > u64_max - 9" if "\<not> unat n > kMaxRecordPayloadBytes"
    using that by (simp add: word_less_nat_alt kMaxRecordPayloadBytes_def)
  show ?thesis
    using plat by (auto simp: encoded_record_size_if_complete_def Let_def throw_if_def max)
qed

lemma bytes_prefix_cases:
  assumes "9 \<le> length bs"
  shows "bs = bs ! 0 # le_bytes 8 (read_le (take 8 (drop 1 bs)) :: u64) @ drop 9 bs"
proof -
  have "le_bytes 8 (read_le (take 8 (drop 1 bs)) :: u64) = take 8 (drop 1 bs)"
    using assms by (intro le_bytes_read) simp_all
  then show ?thesis using assms by (cases bs) (simp_all add: drop_Cons')
qed

text \<open>
  The decision about the record at the head of the buffer never changes when more bytes arrive.
\<close>

lemma encoded_size_mono:
  assumes "encoded_record_size_if_complete bs \<noteq> Inr None"
  shows "encoded_record_size_if_complete (bs @ extra) = encoded_record_size_if_complete bs"
proof -
  have len: "9 \<le> length bs"
    using assms by (auto simp: encoded_record_size_if_complete_def split: if_splits)
  obtain t n rest where bs: "bs = t # le_bytes 8 (n :: u64) @ rest"
    using bytes_prefix_cases [OF len] by blast
  show ?thesis using assms unfolding bs
    by (simp add: encoded_size_prefix split: if_splits)
qed

lemma encoded_size_Some:
  assumes "encoded_record_size_if_complete bs = Inr (Some n)"
  shows "\<exists>t n'. bs = t # le_bytes 8 (n' :: u64) @ drop 9 bs \<and> n = 9 + unat n' \<and> valid_record_type t
           \<and> unat n' \<le> kMaxRecordPayloadBytes \<and> n \<le> length bs"
proof -
  have len: "9 \<le> length bs"
    using assms by (auto simp: encoded_record_size_if_complete_def split: if_splits)
  obtain t n' where bs: "bs = t # le_bytes 8 (n' :: u64) @ drop 9 bs"
    using bytes_prefix_cases [OF len] by blast
  show ?thesis using assms encoded_size_prefix [of t n' "drop 9 bs"] bs [symmetric] len
    by (intro exI [of _ t] exI [of _ n']) (auto split: if_splits)
qed

lemma rec_u8_Cons [simp]: "rec_u8 (b # r) = Inr (b, r)"
  by (simp add: rec_u8_def read_bytes_def)

lemma rec_u8_Inr: "rec_u8 r = Inr (b, r') \<longleftrightarrow> r = b # r'"
  by (cases r) (auto simp: rec_u8_def read_bytes_def)

lemmas rec_defs = rec_u32_le_def rec_u64_le_def rec_i64_le_def rec_bytes_def

lemma parse_record_iff:
  "parse_record bs = Inr r \<longleftrightarrow>
     bs = serialize_record r \<and> length (ar_payload r) \<le> kMaxRecordPayloadBytes"
proof
  assume "parse_record bs = Inr r"
  then obtain t n r1 where size: "encoded_record_size_if_complete bs = Inr (Some (length bs))"
    and bs: "bs = record_type_code t # le_bytes 8 (n :: u64) @ r1"
    and p: "r = \<lparr>ar_type = t, ar_payload = r1\<rparr>" and len: "length r1 = unat n"
    by (auto simp: parse_record_def bindr_eq_Inr rec_u8_Inr rec_defs read_Inr require_eof_def
        record_type_of_Some split: option.splits)
  have "unat n \<le> kMaxRecordPayloadBytes"
    using size unfolding bs encoded_size_prefix by (auto split: if_splits)
  moreover have le8: "of_nat (length r1) = n" unfolding len by simp
  ultimately show "bs = serialize_record r \<and> length (ar_payload r) \<le> kMaxRecordPayloadBytes"
    using bs p len le8 by (simp add: serialize_record_eq)
next
  assume a: "bs = serialize_record r \<and> length (ar_payload r) \<le> kMaxRecordPayloadBytes"
  then have u: "unat (of_nat (length (ar_payload r)) :: u64) = length (ar_payload r)"
    by (intro unat_of_nat_u64) (simp add: kMaxRecordPayloadBytes_def)
  then show "parse_record bs = Inr r"
    using a by (simp add: parse_record_def serialize_record_eq encoded_size_prefix rec_defs
        require_eof_def)
qed

subsection \<open>Metadata\<close>

definition valid_metadata :: "EntryMetadata \<Rightarrow> bool" where
  "valid_metadata m \<longleftrightarrow>
     is_safe_relative_path (em_relative_path m) \<and> \<not> path_eq (em_relative_path m) ''.''
     \<and> (em_kind m \<noteq> Symlink \<longrightarrow> em_symlink_target m = [])
     \<and> (em_kind m = Symlink \<or> em_kind m = Directory \<longrightarrow> em_original_size m = 0)"

definition string_enc :: "string \<Rightarrow> bytes" where
  "string_enc s = le_bytes 4 (of_nat (length s) :: u32) @ string_bytes s"

definition opt_time_enc :: "u64 option \<Rightarrow> bytes" where
  "opt_time_enc t = (case t of None \<Rightarrow> [0] | Some v \<Rightarrow> 1 # le_bytes 8 v)"

definition metadata_bytes :: "EntryMetadata \<Rightarrow> bytes" where
  "metadata_bytes m =
     entry_kind_code (em_kind m) # string_enc (em_relative_path m)
     @ le_bytes 8 (em_original_size m) @ le_bytes 4 (em_posix_mode m)
     @ le_bytes 8 (ft_modified_ns (em_times m)) @ opt_time_enc (ft_accessed_ns (em_times m))
     @ opt_time_enc (ft_created_ns (em_times m)) @ string_enc (em_symlink_target m)"

lemma append_string_eq:
  "length s < 2 ^ 32 \<Longrightarrow> append_string out s = Inr (out @ string_enc s)"
  by (simp add: append_string_def append_simps string_enc_def unat_u32_max throw_if_def)

lemma append_opt_time_eq: "append_opt_time out t = out @ opt_time_enc t"
  by (simp add: append_opt_time_def opt_time_enc_def append_simps split: option.splits)

lemma read_string_append:
  "length s < 2 ^ 32 \<Longrightarrow> read_string (string_enc s @ r) = Inr (s, r)"
  by (simp add: read_string_def string_enc_def rec_defs unat_of_nat_u32)

lemma read_string_Inr:
  assumes "read_string r = Inr (s, r')"
  shows "r = string_enc s @ r' \<and> length s < 2 ^ 32"
proof -
  from assms obtain n b where r: "r = le_bytes 4 (n :: u32) @ b @ r'" and b: "length b = unat n"
    and s: "s = bytes_string b"
    by (auto simp: read_string_def bindr_eq_Inr rec_defs read_Inr)
  have "of_nat (length b) = n" unfolding b by simp
  then show ?thesis using r s b unat_u32_lt [of n] by (simp add: string_enc_def)
qed

lemma read_opt_time_append [simp]: "read_opt_time (opt_time_enc t @ r) = Inr (t, r)"
  by (cases t) (simp_all add: read_opt_time_def opt_time_enc_def rec_defs)

lemma read_opt_time_Inr: "read_opt_time r = Inr (t, r') \<longleftrightarrow> r = opt_time_enc t @ r'"
proof
  assume a: "read_opt_time r = Inr (t, r')"
  then obtain f r1 where r: "r = f # r1" and f: "\<not> f > 1"
    by (auto simp: read_opt_time_def bindr_eq_Inr rec_u8_Inr)
  have "f = 0 \<or> f = 1"
  proof -
    have "unat f \<le> 1" using f by (simp add: word_less_nat_alt)
    then show ?thesis by (auto simp: word_unat_eq_iff)
  qed
  then show "r = opt_time_enc t @ r'"
    using a r by (auto simp: read_opt_time_def opt_time_enc_def bindr_eq_Inr rec_defs read_Inr)
qed simp

lemma serialize_metadata_eq:
  assumes "length (generic_string (em_relative_path m)) < 2 ^ 32" "length (em_symlink_target m) < 2 ^ 32"
  shows "serialize_entry_metadata m =
    Inr (metadata_bytes (m\<lparr>em_relative_path := generic_string (em_relative_path m)\<rparr>))"
  using assms
  by (simp add: serialize_entry_metadata_def append_string_eq append_simps append_opt_time_eq
      metadata_bytes_def)

lemma parse_metadata_bytes:
  assumes "valid_metadata m" "length (em_relative_path m) < 2 ^ 32" "length (em_symlink_target m) < 2 ^ 32"
  shows "parse_entry_metadata (metadata_bytes m) = Inr m"
proof -
  have "read_string (string_enc (em_symlink_target m)) = Inr (em_symlink_target m, [])"
    using read_string_append [OF assms(3), of "[]"] by simp
  then show ?thesis using assms
    by (cases m; cases "em_times m")
       (auto simp: parse_entry_metadata_def metadata_bytes_def read_string_append rec_defs
          valid_metadata_def require_eof_def throw_if_def)
qed

lemma parse_metadata_Inr:
  assumes "parse_entry_metadata bs = Inr m"
  shows "bs = metadata_bytes m" "valid_metadata m" "length (em_relative_path m) < 2 ^ 32"
    "length (em_symlink_target m) < 2 ^ 32"
  using assms
  by (auto simp: parse_entry_metadata_def bindr_eq_Inr rec_u8_Inr rec_defs read_Inr
      parse_entry_kind_Inr read_opt_time_Inr require_eof_def metadata_bytes_def valid_metadata_def
      dest!: read_string_Inr)

lemma safe_elements_nonempty: "is_safe_relative_path p \<Longrightarrow> path_names p \<noteq> []"
proof -
  assume "is_safe_relative_path p"
  note sp = safe_path_cases [OF this]
  have "path_elements p \<noteq> []" using sp(1,2) by (simp add: path_elements_def relative_elements_def Let_def)
  then show ?thesis using sp(3) by simp
qed

lemma generic_string_safe:
  assumes "is_safe_relative_path p"
  shows "path_elements (generic_string p) = path_elements p" "is_safe_relative_path (generic_string p)"
    "generic_string (generic_string p) = generic_string p"
proof -
  note sp = safe_path_cases [OF assms]
  have g: "generic_string p = join_slash (path_names p)" using sp by (simp add: generic_string_def)
  note start = join_slash_start [OF safe_elements_nonempty [OF assms] path_names_is_name]
  have na: "generic_string p \<noteq> []" "\<not> is_absolute (generic_string p)"
    using start by (simp_all add: g is_absolute_def)
  have "path_elements (generic_string p) = relative_elements (join_slash (path_names p))"
    using na by (simp add: path_elements_def g)
  also have "\<dots> = path_names p"
    by (rule relative_elements_join [OF safe_elements_nonempty [OF assms] path_names_is_name])
  finally show e: "path_elements (generic_string p) = path_elements p" using sp(3) by simp
  then show gg: "generic_string (generic_string p) = generic_string p"
    using na(2) sp(3) g unfolding generic_string_def [of "generic_string p"] by simp
  show "is_safe_relative_path (generic_string p)"
    using assms na sp(1,2) unfolding is_safe_relative_path_def gg e by simp
qed

subsection \<open>Properties\<close>

text \<open>
  C31: Record framing is exact: \<open>parse_record\<close> accepts a buffer exactly if it is the encoding of a
  record whose payload is at most 128 MiB, and returns that record.
\<close>

theorem parse_record_exact:
  "parse_record bs = Inr r \<longleftrightarrow>
     bs = serialize_record r \<and> length (ar_payload r) \<le> kMaxRecordPayloadBytes"
  by (rule parse_record_iff)

text \<open>
  The encoder has no such limit.  A record with a larger payload is encoded without an error
  and rejected by every reader as soon as its nine prefix bytes have arrived.
\<close>

theorem oversized_record_rejected:
  assumes "kMaxRecordPayloadBytes < length (ar_payload r)" "length (ar_payload r) < 2 ^ 64"
  shows "encoded_record_size_if_complete (take 9 (serialize_record r) @ rest) =
     Inl (InvalidArgument ''archive record payload exceeds maximum allowed size'')"
proof -
  have "take 9 (serialize_record r) @ rest =
      record_type_code (ar_type r) # le_bytes 8 (of_nat (length (ar_payload r)) :: u64) @ rest"
    by (simp add: serialize_record_eq)
  then show ?thesis using assms by (simp add: encoded_size_prefix unat_of_nat_u64)
qed

theorem oversized_record_rejected_witness:
  "encoded_record_size_if_complete
     (take 9 (serialize_record \<lparr>ar_type = RandomPadding, ar_payload = replicate 267386880 0\<rparr>) @ []) =
     Inl (InvalidArgument ''archive record payload exceeds maximum allowed size'')"
  by (rule oversized_record_rejected) (simp_all add: kMaxRecordPayloadBytes_def)

definition generic_metadata :: "EntryMetadata \<Rightarrow> EntryMetadata" where
  "generic_metadata m = m\<lparr>em_relative_path := generic_string (em_relative_path m)\<rparr>"

text \<open>
  C32: The metadata round trip, exactly.  Metadata is encoded without error and parsed back, with its
  path in generic form, if and only if in this form it is valid (the path is safe and not \<open>.\<close>, only a
  symlink has a target, and a symlink or directory has the size 0) and the path and the target are
  shorter than 2^32 bytes.  The generic form of valid metadata is valid and names the same file.
\<close>

theorem metadata_roundtrip:
  "((\<exists>bs. serialize_entry_metadata m = Inr bs \<and> parse_entry_metadata bs = Inr (generic_metadata m)) \<longleftrightarrow>
       valid_metadata (generic_metadata m) \<and> length (em_relative_path (generic_metadata m)) < 2 ^ 32
       \<and> length (em_symlink_target m) < 2 ^ 32)
    \<and> (valid_metadata m \<longrightarrow> valid_metadata (generic_metadata m)
       \<and> path_eq (em_relative_path (generic_metadata m)) (em_relative_path m))"
proof (intro conjI iffI impI)
  assume "\<exists>bs. serialize_entry_metadata m = Inr bs \<and> parse_entry_metadata bs = Inr (generic_metadata m)"
  then show "valid_metadata (generic_metadata m)" "length (em_relative_path (generic_metadata m)) < 2 ^ 32" "length (em_symlink_target m) < 2 ^ 32"
    by (auto simp: generic_metadata_def dest: parse_metadata_Inr(2) parse_metadata_Inr(3) parse_metadata_Inr(4))
next
  assume "valid_metadata (generic_metadata m) \<and> length (em_relative_path (generic_metadata m)) < 2 ^ 32 \<and> length (em_symlink_target m) < 2 ^ 32"
  then show "\<exists>bs. serialize_entry_metadata m = Inr bs \<and> parse_entry_metadata bs = Inr (generic_metadata m)"
    using serialize_metadata_eq [of m] parse_metadata_bytes [of "generic_metadata m"] by (simp add: generic_metadata_def)
next
  assume v: "valid_metadata m"
  then have safe: "is_safe_relative_path (em_relative_path m)" by (simp add: valid_metadata_def)
  show "valid_metadata (generic_metadata m)" "path_eq (em_relative_path (generic_metadata m)) (em_relative_path m)"
    using v generic_string_safe [OF safe] by (simp_all add: generic_metadata_def valid_metadata_def path_eq_def)
qed

text \<open>
  C33: Parsed metadata is well-formed: it has a safe relative path other than \<open>.\<close>, only a symlink
  has a target, only a file has a size, and, if its path is in generic form, encoding it again
  gives the same bytes.
\<close>

theorem parsed_metadata_valid:
  assumes "parse_entry_metadata bs = Inr m"
  shows "valid_metadata m
    \<and> (generic_string (em_relative_path m) = em_relative_path m \<longrightarrow> serialize_entry_metadata m = Inr bs)"
proof -
  note p = parse_metadata_Inr [OF assms]
  have "em_relative_path m = generic_string (em_relative_path m) \<Longrightarrow>
      m\<lparr>em_relative_path := generic_string (em_relative_path m)\<rparr> = m" by simp
  then show ?thesis using p by (auto simp: serialize_metadata_eq)
qed

definition sample_metadata :: EntryMetadata where
  "sample_metadata = \<lparr>em_kind = RegularFile, em_relative_path = ''a//b.txt'', em_original_size = 3,
     em_posix_mode = 420, em_times = \<lparr>ft_modified_ns = 5, ft_accessed_ns = Some 7, ft_created_ns = None\<rparr>,
     em_symlink_target = []\<rparr>"

lemma sample_metadata_valid: "valid_metadata sample_metadata" by code_simp

theorem metadata_roundtrip_witness:
  "\<exists>bs. serialize_entry_metadata sample_metadata = Inr bs
     \<and> parse_entry_metadata bs = Inr (sample_metadata\<lparr>em_relative_path := ''a/b.txt''\<rparr>)"
proof -
  have g: "generic_string (em_relative_path sample_metadata) = ''a/b.txt''" by code_simp
  have t: "em_symlink_target sample_metadata = []" by (simp add: sample_metadata_def)
  show ?thesis using metadata_roundtrip [of sample_metadata] sample_metadata_valid by (auto simp: g t generic_metadata_def)
qed

theorem parsed_metadata_valid_witness:
  "valid_metadata (sample_metadata\<lparr>em_relative_path := ''a/b.txt''\<rparr>)"
proof -
  have v: "valid_metadata (sample_metadata\<lparr>em_relative_path := ''a/b.txt''\<rparr>)" by code_simp
  have "parse_entry_metadata (metadata_bytes (sample_metadata\<lparr>em_relative_path := ''a/b.txt''\<rparr>))
      = Inr (sample_metadata\<lparr>em_relative_path := ''a/b.txt''\<rparr>)"
    by (rule parse_metadata_bytes [OF v]) (simp_all add: sample_metadata_def)
  then show ?thesis using parsed_metadata_valid by blast
qed

text \<open>
  The guard against the path \<open>.\<close> compares elements, so \<open>./.\<close>, which names the output root as well,
  passes it and the sanitizer.
\<close>

lemma dot_slash_dot_accepted:
  "is_safe_relative_path ''./.'' \<and> \<not> path_eq ''./.'' ''.''
     \<and> make_safe_output_path ''/out'' ''./.'' = Inr ''/out/''"
  by code_simp

end
