(* ===== verification/Durable_File.thy ===== *)
theory Durable_File
  imports Path_Sanitizer
begin

text \<open>
  The files a shard writer works on, and \<^verbatim>\<open>src/platform/DurableFile.cpp\<close>.  A \<open>disk\<close> maps the paths of
  regular files to their contents; of directories only the creation is represented, which may fail.
  Every operation that may fail consults a fault schedule: at step \<open>t\<close>, \<open>Some k\<close> makes the operation fail after \<open>k\<close> bytes
  have been transferred.  The random file names drawn so far are counted, the names themselves
  are given by the schedule.
\<close>

record disk =
  dk_files :: "path \<Rightarrow> bytes option"
  dk_clock :: nat
  dk_fault :: "nat \<Rightarrow> nat option"
  dk_names :: "nat \<Rightarrow> string"
  dk_drawn :: nat

definition overwrite_at :: "nat \<Rightarrow> bytes \<Rightarrow> bytes \<Rightarrow> bytes" where
  "overwrite_at off bs content =
     take off (content @ replicate (off - length content) 0) @ bs @ drop (off + length bs) content"

definition file_contents :: "disk \<Rightarrow> path \<Rightarrow> bytes" where
  "file_contents d p = (case dk_files d p of None \<Rightarrow> [] | Some c \<Rightarrow> c)"

definition fs_create_directories :: "path \<Rightarrow> disk \<Rightarrow> bool \<times> disk" where
  "fs_create_directories p d = (dk_fault d (dk_clock d) = None, d\<lparr>dk_clock := Suc (dk_clock d)\<rparr>)"

definition fs_open_trunc :: "path \<Rightarrow> disk \<Rightarrow> bool \<times> disk" where
  "fs_open_trunc p d =
     (let d' = d\<lparr>dk_clock := Suc (dk_clock d)\<rparr> in
      if dk_fault d (dk_clock d) = None then (True, d'\<lparr>dk_files := (dk_files d)(p := Some [])\<rparr>)
      else (False, d'))"

definition fs_open_rw :: "path \<Rightarrow> disk \<Rightarrow> bool \<times> disk" where
  "fs_open_rw p d =
     (dk_fault d (dk_clock d) = None \<and> dk_files d p \<noteq> None, d\<lparr>dk_clock := Suc (dk_clock d)\<rparr>)"

definition fs_write_at :: "path \<Rightarrow> nat \<Rightarrow> bytes \<Rightarrow> disk \<Rightarrow> bool \<times> disk" where
  "fs_write_at p off bs d =
     (let d' = d\<lparr>dk_clock := Suc (dk_clock d)\<rparr>; c = file_contents d p in
      case dk_fault d (dk_clock d) of
        None \<Rightarrow> (True, d'\<lparr>dk_files := (dk_files d)(p := Some (overwrite_at off bs c))\<rparr>)
      | Some k \<Rightarrow> (False, d'\<lparr>dk_files := (dk_files d)(p := Some (overwrite_at off (take k bs) c))\<rparr>))"

definition fs_append :: "path \<Rightarrow> bytes \<Rightarrow> disk \<Rightarrow> bool \<times> disk" where
  "fs_append p bs d = fs_write_at p (length (file_contents d p)) bs d"

definition fs_remove :: "path \<Rightarrow> disk \<Rightarrow> bool \<times> disk" where
  "fs_remove p d =
     (let d' = d\<lparr>dk_clock := Suc (dk_clock d)\<rparr> in
      if dk_fault d (dk_clock d) = None then (True, d'\<lparr>dk_files := (dk_files d)(p := None)\<rparr>)
      else (False, d'))"

definition draw_name :: "disk \<Rightarrow> string \<times> disk" where
  "draw_name d = (dk_names d (dk_drawn d), d\<lparr>dk_drawn := Suc (dk_drawn d)\<rparr>)"

subsection \<open>Durability\<close>

datatype DurabilityMode = DurabilityOff | DurabilityBestEffort | DurabilityOn

text \<open>What \<open>open\<close> and \<open>fsync\<close> answer for a path; the flag tells whether a directory is meant.\<close>

record fsync_os =
  os_open_ok :: "path \<Rightarrow> bool \<Rightarrow> bool"
  os_fsync_ok :: "path \<Rightarrow> bool \<Rightarrow> bool"

definition posix_fsync :: "fsync_os \<Rightarrow> path \<Rightarrow> DurabilityMode \<Rightarrow> bool \<Rightarrow> bool result" where
  "posix_fsync os p mode is_dir =
     (if mode = DurabilityOff then Inr False
      else if \<not> os_open_ok os p is_dir then
        throw_if (mode = DurabilityOn) (Error ''durability: cannot open'') (Inr False)
      else if \<not> os_fsync_ok os p is_dir then
        throw_if (mode = DurabilityOn) (Error ''durability: fsync'') (Inr False)
      else Inr True)"

text \<open>The Windows counterpart, for files only: \<open>CreateFileW\<close> and \<open>FlushFileBuffers\<close>.\<close>

definition win32_flush_file :: "fsync_os \<Rightarrow> path \<Rightarrow> DurabilityMode \<Rightarrow> bool result" where
  "win32_flush_file os p mode =
     (if mode = DurabilityOff then Inr False
      else if \<not> os_open_ok os p False then
        throw_if (mode = DurabilityOn) (Error ''durability: cannot open for flush (GENERIC_WRITE denied)'') (Inr False)
      else if \<not> os_fsync_ok os p False then
        throw_if (mode = DurabilityOn) (Error ''durability: FlushFileBuffers failed with error '') (Inr False)
      else Inr True)"

record DurabilityHooks =
  dh_flush_file :: "(path \<Rightarrow> DurabilityMode \<Rightarrow> bool result) option"
  dh_flush_dir :: "(path \<Rightarrow> DurabilityMode \<Rightarrow> bool result) option"

definition hooks_noop :: DurabilityHooks where
  "hooks_noop = \<lparr>dh_flush_file = Some (\<lambda>_ _. Inr False), dh_flush_dir = Some (\<lambda>_ _. Inr False)\<rparr>"

definition hooks_production :: "fsync_os \<Rightarrow> DurabilityHooks" where
  "hooks_production os =
     \<lparr>dh_flush_file = Some (\<lambda>p mode. posix_fsync os p mode False),
      dh_flush_dir = Some (\<lambda>p mode. posix_fsync os p mode True)\<rparr>"

definition flush_file_by_path :: "fsync_os \<Rightarrow> path \<Rightarrow> DurabilityMode \<Rightarrow> bool result" where
  "flush_file_by_path os p mode =
     (case dh_flush_file (hooks_production os) of None \<Rightarrow> Inr False | Some f \<Rightarrow> f p mode)"

definition flush_directory_by_path :: "fsync_os \<Rightarrow> path \<Rightarrow> DurabilityMode \<Rightarrow> bool result" where
  "flush_directory_by_path os p mode =
     (case dh_flush_dir (hooks_production os) of None \<Rightarrow> Inr False | Some f \<Rightarrow> f p mode)"

subsection \<open>Lemmas\<close>

lemma overwrite_at_end [simp]: "overwrite_at (length c) bs c = c @ bs"
  by (simp add: overwrite_at_def)

lemma overwrite_at_mid:
  "length a = off \<Longrightarrow> length b = length bs \<Longrightarrow> overwrite_at off bs (a @ b @ c) = a @ bs @ c"
  by (simp add: overwrite_at_def)

lemma overwrite_at_start: "length b = length bs \<Longrightarrow> overwrite_at 0 bs (b @ c) = bs @ c"
  by (simp add: overwrite_at_def)

text \<open>A flush reports success only if the data was flushed; only mode \<open>On\<close> throws.\<close>

lemma posix_fsync_spec:
  "posix_fsync os p mode is_dir = Inr True \<longleftrightarrow>
     mode \<noteq> DurabilityOff \<and> os_open_ok os p is_dir \<and> os_fsync_ok os p is_dir"
  "posix_fsync os p mode is_dir = Inl e \<Longrightarrow>
     mode = DurabilityOn \<and> \<not> (os_open_ok os p is_dir \<and> os_fsync_ok os p is_dir)"
  by (auto simp: posix_fsync_def throw_if_eq_Inl split: if_splits)

text \<open>No operation touches another file.\<close>

lemma fs_frame:
  "q \<noteq> p \<Longrightarrow> dk_files (snd (fs_open_trunc p d)) q = dk_files d q"
  "q \<noteq> p \<Longrightarrow> dk_files (snd (fs_write_at p off bs d)) q = dk_files d q"
  "q \<noteq> p \<Longrightarrow> dk_files (snd (fs_append p bs d)) q = dk_files d q"
  "q \<noteq> p \<Longrightarrow> dk_files (snd (fs_remove p d)) q = dk_files d q"
  "dk_files (snd (fs_open_rw p d)) q = dk_files d q"
  "dk_files (snd (draw_name d)) q = dk_files d q"
  "dk_files (snd (fs_create_directories p d)) q = dk_files d q"
  by (simp_all add: fs_create_directories_def fs_open_trunc_def fs_write_at_def fs_append_def fs_remove_def fs_open_rw_def
      draw_name_def Let_def split: option.splits)

lemma fs_static:
  "dk_fault (snd (fs_open_trunc p d)) = dk_fault d" "dk_fault (snd (fs_write_at p off bs d)) = dk_fault d"
  "dk_fault (snd (fs_append p bs d)) = dk_fault d" "dk_fault (snd (fs_remove p d)) = dk_fault d"
  "dk_fault (snd (fs_open_rw p d)) = dk_fault d" "dk_fault (snd (draw_name d)) = dk_fault d"
  "dk_names (snd (fs_open_trunc p d)) = dk_names d" "dk_names (snd (fs_write_at p off bs d)) = dk_names d"
  "dk_names (snd (fs_append p bs d)) = dk_names d" "dk_names (snd (fs_remove p d)) = dk_names d"
  "dk_names (snd (fs_open_rw p d)) = dk_names d" "dk_names (snd (draw_name d)) = dk_names d"
  "dk_fault (snd (fs_create_directories p d)) = dk_fault d" "dk_names (snd (fs_create_directories p d)) = dk_names d"
  by (simp_all add: fs_create_directories_def fs_open_trunc_def fs_write_at_def fs_append_def fs_remove_def
      fs_open_rw_def draw_name_def Let_def split: option.splits)

text \<open>\<open>bs\<close> stands in the file, \<open>off\<close> bytes after its start.\<close>

definition file_has :: "disk \<Rightarrow> path \<Rightarrow> nat \<Rightarrow> bytes \<Rightarrow> bool" where
  "file_has d p off bs \<longleftrightarrow> (\<exists>a b. dk_files d p = Some (a @ bs @ b) \<and> length a = off)"

lemma file_has_cong: "dk_files d' p = dk_files d p \<Longrightarrow> file_has d p off bs \<Longrightarrow> file_has d' p off bs"
  by (simp add: file_has_def)

lemma overwrite_at_before: "n + length bs \<le> length a \<Longrightarrow> overwrite_at n bs (a @ c) = overwrite_at n bs a @ c"
  by (simp add: overwrite_at_def)

lemma length_overwrite_at: "n + length bs \<le> length a \<Longrightarrow> length (overwrite_at n bs a) = length a"
  by (simp add: overwrite_at_def)

text \<open>A write that succeeds keeps what stands behind it, and an append keeps everything.\<close>

lemma file_has_write_at:
  assumes "fs_write_at q n ws d = (True, d')" "file_has d p off bs" "n + length ws \<le> off"
  shows "file_has d' p off bs"
proof (cases "p = q")
  case True
  from assms(2) obtain a b where f: "dk_files d p = Some (a @ bs @ b)" "length a = off" by (auto simp: file_has_def)
  then have "dk_files d' p = Some (overwrite_at n ws a @ bs @ b)"
    using assms(1,3) True overwrite_at_before [of n ws a "bs @ b"]
    by (auto simp: fs_write_at_def file_contents_def Let_def split: option.splits)
  then show ?thesis using f(2) assms(3) length_overwrite_at [of n ws a] unfolding file_has_def by blast
next
  case False
  then show ?thesis using assms(1,2) fs_frame(2) [of p q n ws d] by (intro file_has_cong [OF _ assms(2)]) simp
qed

lemma append_contents:
  "fs_append p bs d = (True, d') \<Longrightarrow> dk_files d p = Some c \<Longrightarrow> dk_files d' p = Some (c @ bs)"
  by (auto simp: fs_append_def fs_write_at_def file_contents_def Let_def split: option.splits)

lemma file_has_append:
  assumes "fs_append q ws d = (True, d')" "file_has d p off bs"
  shows "file_has d' p off bs"
proof (cases "p = q")
  case True
  from assms(2) obtain a b where f: "dk_files d p = Some (a @ bs @ b)" "length a = off" by (auto simp: file_has_def)
  then have "dk_files d' p = Some (a @ bs @ (b @ ws))" using append_contents [of p ws d d'] assms(1) True by simp
  then show ?thesis using f(2) unfolding file_has_def by blast
next
  case False
  then show ?thesis using assms(1,2) fs_frame(3) [of p q ws d] by (intro file_has_cong [OF _ assms(2)]) simp
qed

end
