(* ===== verification/Core_Plan.thy ===== *)
theory Core_Plan
  imports Key_Schedule Record_Format Durable_File
begin

unbundle bit_operations_syntax

text \<open>
  The planning part of \<^verbatim>\<open>src/app/CoreApi.cpp\<close>: padding, the chunk layout, the shard plan and the
  headers that \<open>core_encrypt\<close> builds before any byte is written.  The random salt and archive id
  are arguments.  The loops of \<open>plan_shards\<close> run on 64-bit chunk indices as in the source; their
  termination is proved from the distance to the chunk count.
\<close>

subsection \<open>Padding\<close>

datatype PaddingPolicyKind = PaddingNone | PaddingChunk | PaddingPower2 | PaddingFixedSize

record PaddingPolicy =
  pp_kind :: PaddingPolicyKind
  pp_fixed_size_bytes :: u64

record PaddingResult =
  pr_target_size :: u64
  pr_policy_id :: u16
  pr_policy_value :: u64

definition compute_padding :: "u64 \<Rightarrow> u64 \<Rightarrow> PaddingPolicy \<Rightarrow> PaddingResult result" where
  "compute_padding raw_size chunk_plain_size policy =
    (case pp_kind policy of
       PaddingNone \<Rightarrow> Inr \<lparr>pr_target_size = raw_size, pr_policy_id = 0, pr_policy_value = 0\<rparr>
     | PaddingChunk \<Rightarrow>
         if raw_size = 0 then Inr \<lparr>pr_target_size = 0, pr_policy_id = 1, pr_policy_value = 0\<rparr>
         else
           (let rem = raw_size mod chunk_plain_size in
            bindr (if rem = 0 then Inr raw_size
                   else checked_add_u64 raw_size (chunk_plain_size - rem)
                          ''chunk padding: padded size'') (\<lambda>target.
            let gap = target - raw_size in
            bindr (if gap > 0 \<and> gap < 9
                   then checked_add_u64 target chunk_plain_size ''chunk padding: extra chunk''
                   else Inr target) (\<lambda>target.
            Inr \<lparr>pr_target_size = target, pr_policy_id = 1, pr_policy_value = 0\<rparr>)))
     | PaddingPower2 \<Rightarrow>
         if raw_size = 0 then Inr \<lparr>pr_target_size = 0, pr_policy_id = 2, pr_policy_value = 0\<rparr>
         else
           bindr (checked_next_power_of_two_u64 raw_size ''power2 padding: target size'') (\<lambda>target.
           let target = (if target < chunk_plain_size then chunk_plain_size else target);
               gap = target - raw_size in
           bindr (if gap > 0 \<and> gap < 9
                  then checked_mul_u64 target 2 ''power2 padding: bump''
                  else Inr target) (\<lambda>target.
           Inr \<lparr>pr_target_size = target, pr_policy_id = 2, pr_policy_value = 0\<rparr>))
     | PaddingFixedSize \<Rightarrow>
         (let N = pp_fixed_size_bytes policy in
          throw_if (raw_size > N)
            (InvalidArgument ''fixed-size padding target is smaller than the unpadded archive'') (
          throw_if (N mod chunk_plain_size \<noteq> 0)
            (InvalidArgument ''fixed-size padding target is not a multiple of chunk-size'') (
          let gap = N - raw_size in
          throw_if (gap > 0 \<and> gap < 9)
            (InvalidArgument ''fixed-size padding target leaves a gap which is too small for a padding record'')
          (Inr \<lparr>pr_target_size = N, pr_policy_id = 3, pr_policy_value = N\<rparr>)))))"

subsection \<open>Chunks\<close>

record ChunkLayout =
  cl_global_chunk_count :: u64
  cl_final_plaintext_chunk_len :: u32
  cl_effective_padded_size :: u64

definition chunk_layout :: "u64 \<Rightarrow> u64 \<Rightarrow> ChunkLayout result" where
  "chunk_layout padded_plaintext_size chunk_plain_size =
    (if padded_plaintext_size = 0 then
       (let final_len = (ucast (min chunk_plain_size (ucast u32_max)) :: u32) in
        Inr \<lparr>cl_global_chunk_count = 1, cl_final_plaintext_chunk_len = final_len,
             cl_effective_padded_size = ucast final_len\<rparr>)
     else
       bindr (checked_ceil_div_u64 padded_plaintext_size chunk_plain_size ''chunk count'') (\<lambda>count.
       let rem = padded_plaintext_size mod chunk_plain_size in
       Inr \<lparr>cl_global_chunk_count = count,
            cl_final_plaintext_chunk_len = (if rem = 0 then ucast chunk_plain_size else ucast rem),
            cl_effective_padded_size = padded_plaintext_size\<rparr>))"

subsection \<open>Shards\<close>

record ShardPlan =
  sp_shard_index :: u32
  sp_first_chunk_index :: u64
  sp_chunk_count :: u64
  sp_payload_len :: u64
  sp_public_header_hash :: bytes

text \<open>The plaintext length of a chunk.\<close>

definition plain_len_at :: "u64 \<Rightarrow> u64 \<Rightarrow> u32 \<Rightarrow> u64 \<Rightarrow> u64" where
  "plain_len_at global_chunk_count chunk_plain_size final_len chunk_idx =
     (if chunk_idx = global_chunk_count - 1 then ucast final_len else chunk_plain_size)"

lemma unat_next: "i < n \<Longrightarrow> unat (i + 1) = unat i + 1" for i n :: u64
proof -
  assume "i < n"
  then have "unat i < unat n" by (simp add: word_less_nat_alt)
  then have "unat i + unat (1 :: u64) < 2 ^ 64" using unat_u64_lt [of n] by simp
  then show ?thesis by (subst unat_plus_no_overflow) simp_all
qed

text \<open>The inner loop: chunks are added to the current shard until the next one does not fit.\<close>

function plan_shard_chunks ::
  "u64 \<Rightarrow> u64 \<Rightarrow> u32 \<Rightarrow> u16 \<Rightarrow> u64 \<Rightarrow> u64 \<Rightarrow> u64 \<Rightarrow> u64 \<Rightarrow> (u64 \<times> u64 \<times> u64) result" where
  "plan_shard_chunks gcc chunk_plain_size final_len tag_len max_len chunk_idx chunk_count payload =
    (if chunk_idx < gcc then
       bindr (chunk_frame_v1_encoded_size_from_params
                (plain_len_at gcc chunk_plain_size final_len chunk_idx) tag_len) (\<lambda>frame_size.
       if chunk_count > 0 \<and> payload > max_len - frame_size
       then Inr (chunk_idx, chunk_count, payload)
       else
         bindr (checked_add_u64 payload frame_size ''shard payload accumulation'') (\<lambda>payload.
         plan_shard_chunks gcc chunk_plain_size final_len tag_len max_len
           (chunk_idx + 1) (chunk_count + 1) payload))
     else Inr (chunk_idx, chunk_count, payload))"
  by pat_completeness auto

termination
  by (relation "measure (\<lambda>(gcc, c, f, t, m, i, n, p). unat gcc - unat i)")
     (auto simp: unat_next word_less_nat_alt)

declare plan_shard_chunks.simps [simp del]

text \<open>A shard always takes at least one chunk, which is why the outer loop ends.\<close>

lemma plan_shard_chunks_mono:
  assumes "plan_shard_chunks gcc c f t m i n p = Inr (i', n', p')"
  shows "unat i \<le> unat i' \<and> (i < gcc \<and> n = 0 \<longrightarrow> unat i < unat i')"
  using assms
proof (induction gcc c f t m i n p rule: plan_shard_chunks.induct)
  case (1 gcc c f t m i n p)
  show ?case
  proof (cases "i < gcc")
    case True
    from 1(2) True obtain fs where fs: "chunk_frame_v1_encoded_size_from_params (plain_len_at gcc c f i) t = Inr fs"
      by (subst (asm) plan_shard_chunks.simps) (auto simp: bindr_eq_Inr)
    show ?thesis
    proof (cases "n > 0 \<and> p > m - fs")
      case stop: True
      then show ?thesis using 1(2) True fs by (subst (asm) plan_shard_chunks.simps) auto
    next
      case go: False
      then obtain q where q: "checked_add_u64 p fs ''shard payload accumulation'' = Inr q"
        and r: "plan_shard_chunks gcc c f t m (i + 1) (n + 1) q = Inr (i', n', p')"
        using 1(2) True fs by (subst (asm) plan_shard_chunks.simps) (auto simp: bindr_eq_Inr)
      from 1(1) [OF True fs go q r] have "unat (i + 1) \<le> unat i'" by simp
      then show ?thesis using unat_next [OF True] by simp
    qed
  next
    case False
    then show ?thesis using 1(2) by (subst (asm) plan_shard_chunks.simps) simp
  qed
qed

function plan_shards_loop ::
  "u64 \<Rightarrow> u64 \<Rightarrow> u32 \<Rightarrow> u16 \<Rightarrow> u64 \<Rightarrow> u64 \<Rightarrow> u64 \<Rightarrow> ShardPlan list result" where
  "plan_shards_loop gcc chunk_plain_size final_len tag_len max_len chunk_idx shard_idx =
    (if chunk_idx < gcc then
       bindr (plan_shard_chunks gcc chunk_plain_size final_len tag_len max_len chunk_idx 0 0)
         (\<lambda>r. case r of (next_idx, chunk_count, payload) \<Rightarrow>
       bindr (plan_shards_loop gcc chunk_plain_size final_len tag_len max_len next_idx (shard_idx + 1))
         (\<lambda>rest.
       Inr (\<lparr>sp_shard_index = ucast shard_idx, sp_first_chunk_index = chunk_idx,
             sp_chunk_count = chunk_count, sp_payload_len = payload,
             sp_public_header_hash = replicate 32 0\<rparr> # rest)))
     else Inr [])"
  by pat_completeness auto
termination
proof (relation "measure (\<lambda>(gcc, c, f, t, m, i, k). unat gcc - unat i)", goal_cases)
  case (2 gcc c f t m i k r i' y n' p')
  then have "unat i < unat i'" using plan_shard_chunks_mono [of gcc c f t m i 0 0 i' n' p'] by simp
  with 2(1) show ?case by (simp add: word_less_nat_alt)
qed simp

declare plan_shards_loop.simps [simp del]

definition plan_shards ::
  "u64 \<Rightarrow> u64 \<Rightarrow> u16 \<Rightarrow> u64 \<Rightarrow> GlobalPublicHeaderV1 \<Rightarrow> ShardPlan list result" where
  "plan_shards global_chunk_count chunk_plain_size tag_len max_shard_payload_len global_header =
    bindr (chunk_frame_v1_encoded_size_from_params chunk_plain_size tag_len) (\<lambda>max_frame_size.
    throw_if (max_frame_size > max_shard_payload_len)
      (InvalidArgument ''--chunk-size with tag overhead produces a frame which exceeds --shard-size'')
    (plan_shards_loop global_chunk_count chunk_plain_size
       (gh_final_plaintext_chunk_len global_header) tag_len max_shard_payload_len 0 0))"

definition planned_shard_header :: "ShardPlan \<Rightarrow> ShardPublicHeaderV1" where
  "planned_shard_header plan =
     \<lparr>sh_shard_magic = kShardHeaderV1Magic, sh_shard_header_len = 80,
      sh_shard_index = sp_shard_index plan,
      sh_first_global_chunk_index = sp_first_chunk_index plan,
      sh_shard_chunk_count = sp_chunk_count plan, sh_shard_payload_len = sp_payload_len plan,
      sh_header_mac = replicate 32 0, sh_reserved0 = 0\<rparr>"

fun fill_per_shard_hashes ::
  "(bytes \<Rightarrow> bytes) \<Rightarrow> ShardPlan list \<Rightarrow> GlobalPublicHeaderV1 \<Rightarrow> ShardPlan list result" where
  "fill_per_shard_hashes blake3 [] global_header = Inr []"
| "fill_per_shard_hashes blake3 (plan # plans) global_header =
     bindr (compute_public_header_hash blake3 global_header (planned_shard_header plan)) (\<lambda>h.
     bindr (fill_per_shard_hashes blake3 plans global_header) (\<lambda>plans.
     Inr (plan\<lparr>sp_public_header_hash := h\<rparr> # plans)))"

subsection \<open>Parameters and contexts\<close>

text \<open>
  \<open>cli::HardenedExtractMode\<close>, and the parameters.  Of the output stream and the two callbacks only
  whether they are set is kept: the stream itself and what the callbacks are told belong to the run.
\<close>

datatype CliHardenedExtractMode = CliHardenedAuto | CliHardenedOn | CliHardenedOff

record CoreEncryptParams =
  ep_input :: path
  ep_output :: path
  ep_passphrase :: bytes
  ep_keyfiles :: "path list"
  ep_suite :: CipherSuite
  ep_kdf_preset :: KdfPreset
  ep_chunk_size :: u64
  ep_shard_size :: u64
  ep_padding :: PaddingPolicy
  ep_durability_mode :: DurabilityMode
  ep_lock_memory :: bool
  ep_require_lock_memory :: bool
  ep_stdout_stream :: bool
  ep_allow_large_stdout :: bool
  ep_on_warning :: bool
  ep_on_progress :: bool

record CoreDecryptParams =
  dp_input :: path
  dp_output :: path
  dp_passphrase :: bytes
  dp_keyfiles :: "path list"
  dp_overwrite :: bool
  dp_kdf_policy :: KdfResourcePolicy
  dp_hardened_extract :: CliHardenedExtractMode
  dp_durability_mode :: DurabilityMode
  dp_lock_memory :: bool
  dp_require_lock_memory :: bool
  dp_on_warning :: bool
  dp_on_progress :: bool

text \<open>The answers of the file system to the queries of the validators.\<close>

record fs_view =
  fv_exists :: "path \<Rightarrow> bool"
  fv_is_directory :: "path \<Rightarrow> bool"
  fv_is_regular_file :: "path \<Rightarrow> bool"
  fv_is_empty :: "path \<Rightarrow> bool"

definition require_path_exists :: "fs_view \<Rightarrow> path \<Rightarrow> string \<Rightarrow> unit result" where
  "require_path_exists fs p description =
     throw_if (\<not> fv_exists fs p) (InvalidArgument (description @ '' does not exist: '')) (Inr ())"

definition require_directory :: "fs_view \<Rightarrow> path \<Rightarrow> string \<Rightarrow> unit result" where
  "require_directory fs p description =
     bindr (require_path_exists fs p description) (\<lambda>_.
     throw_if (\<not> fv_is_directory fs p) (InvalidArgument (description @ '' is not a directory: ''))
     (Inr ()))"

fun require_keyfiles_exist :: "fs_view \<Rightarrow> path list \<Rightarrow> unit result" where
  "require_keyfiles_exist fs [] = Inr ()"
| "require_keyfiles_exist fs (kf # kfs) =
     throw_if (\<not> fv_exists fs kf) (KeyfileAccessError ''keyfile does not exist'' kf) (
     throw_if (\<not> fv_is_regular_file fs kf) (KeyfileAccessError ''keyfile is not a regular file'' kf)
     (require_keyfiles_exist fs kfs))"

definition validate_encrypt_params :: "fs_view \<Rightarrow> CoreEncryptParams \<Rightarrow> unit result" where
  "validate_encrypt_params fs params =
    throw_if (ep_input params = []) (InvalidArgument ''input path is required'') (
    bindr (require_directory fs (ep_input params) ''input path'') (\<lambda>_.
    bindr (require_keyfiles_exist fs (ep_keyfiles params)) (\<lambda>_.
    let stdout_output = ep_stdout_stream params in
    throw_if (\<not> stdout_output \<and> ep_output params = [])
      (InvalidArgument ''output path is required'') (
    throw_if (ep_chunk_size params < 65536 \<or> ep_chunk_size params > 67108864)
      (InvalidArgument ''--chunk-size must be between 65536 and 67108864 bytes inclusive'') (
    throw_if (ep_chunk_size params AND (ep_chunk_size params - 1) \<noteq> 0)
      (InvalidArgument ''--chunk-size must be a power of two'') (
    bindr (if stdout_output then Inr () else
           throw_if (ep_shard_size params = 0) (InvalidArgument ''--shard-size must be nonzero'') (
           bindr (chunk_frame_v1_encoded_size_from_params (ep_chunk_size params) 16) (\<lambda>min_frame.
           throw_if (min_frame > ep_shard_size params) (InvalidArgument ''--shard-size is too small'')
           (Inr ())))) (\<lambda>_.
    if pp_kind (ep_padding params) = PaddingFixedSize then
      throw_if (pp_fixed_size_bytes (ep_padding params) = 0)
        (InvalidArgument ''fixed-size padding value must be nonzero'') (
      throw_if (pp_fixed_size_bytes (ep_padding params) mod ep_chunk_size params \<noteq> 0)
        (InvalidArgument ''fixed-size padding target is not a multiple of chunk-size'')
      (Inr ()))
    else Inr ())))))))"

definition validate_decrypt_params :: "fs_view \<Rightarrow> CoreDecryptParams \<Rightarrow> unit result" where
  "validate_decrypt_params fs params =
    throw_if (dp_input params = []) (InvalidArgument ''input path is required'') (
    bindr (require_directory fs (dp_input params) ''input path'') (\<lambda>_.
    throw_if (dp_output params = []) (InvalidArgument ''output path is required'') (
    bindr (require_keyfiles_exist fs (dp_keyfiles params)) (\<lambda>_.
    bindr (validate_kdf_resource_policy (dp_kdf_policy params)) (\<lambda>_.
    throw_if (fv_exists fs (dp_output params) \<and> \<not> dp_overwrite params
        \<and> \<not> fv_is_empty fs (dp_output params))
      (InvalidArgument ''output directory already exists and is not empty; use --overwrite'')
    (Inr ()))))))"

record ArchiveOpenContext =
  ac_suite :: CipherSuite
  ac_kdf_params :: KdfParams
  ac_kdf_salt :: bytes
  ac_archive_id :: bytes
  ac_chunk_plain_size :: u64
  ac_global_header :: GlobalPublicHeaderV1

fun suite_to_aead_alg_id :: "CipherSuite \<Rightarrow> u16" where
  "suite_to_aead_alg_id XChaCha20Poly1305 = kAeadAlgIdXChaCha20Poly1305"
| "suite_to_aead_alg_id Aes256Gcm = kAeadAlgIdAes256Gcm"

definition suite_from_aead_alg_id :: "u16 \<Rightarrow> CipherSuite result" where
  "suite_from_aead_alg_id i =
    (if i = kAeadAlgIdXChaCha20Poly1305 then Inr XChaCha20Poly1305
     else if i = kAeadAlgIdAes256Gcm then Inr Aes256Gcm
     else Inl (InvalidArgument ''archive uses an unsupported AEAD algorithm''))"

definition make_encrypt_context :: "bytes \<Rightarrow> bytes \<Rightarrow> CoreEncryptParams \<Rightarrow> ArchiveOpenContext result" where
  "make_encrypt_context salt archive_id params =
    (let kdf_params = preset_params (ep_kdf_preset params) in
     bindr (validate_kdf_params kdf_params) (\<lambda>_.
     Inr \<lparr>ac_suite = ep_suite params, ac_kdf_params = kdf_params, ac_kdf_salt = salt,
       ac_archive_id = archive_id, ac_chunk_plain_size = ep_chunk_size params,
       ac_global_header =
         \<lparr>gh_magic = kGlobalHeaderV1Magic, gh_format_major = 1, gh_format_minor = 0,
          gh_global_header_len = 192, gh_shard_header_len = 80, gh_frame_header_len = 40,
          gh_global_flags = 0, gh_archive_id = archive_id,
          gh_aead_alg_id = suite_to_aead_alg_id (ep_suite params),
          gh_kdf_alg_id = kKdfAlgIdArgon2idHkdf, gh_hash_alg_id = kHashAlgIdBlake3,
          gh_mac_alg_id = kMacAlgIdHmacSha256, gh_kdf_salt = salt, gh_argon2_version = 0x13,
          gh_argon2_memory_kib = kp_memory_kib kdf_params,
          gh_argon2_iterations = kp_iterations kdf_params,
          gh_argon2_parallelism = kp_parallelism kdf_params,
          gh_chunk_plain_size = ucast (ep_chunk_size params), gh_shard_count = 0,
          gh_global_chunk_count = 0, gh_padded_plaintext_size = 0,
          gh_final_plaintext_chunk_len = 0, gh_padding_policy_id = 0, gh_reserved0 = 0,
          gh_padding_policy_value = 0, gh_max_shard_payload_len = 0,
          gh_required_feature_flags = 0, gh_reserved1 = replicate 24 0\<rparr>\<rparr>))"

text \<open>
  The planning phase of \<open>core_encrypt\<close>: from the context and the unpadded size of the archive to
  the final global header, the shard plans with their header hashes, and the payload size of the
  padding record, if there is one.
\<close>

record EncryptPlan =
  pl_global_header :: GlobalPublicHeaderV1
  pl_shards :: "ShardPlan list"
  pl_padded_plaintext_size :: u64
  pl_padding_payload :: "u64 option"

definition effective_shard_size :: "CoreEncryptParams \<Rightarrow> u64" where
  "effective_shard_size params = (if ep_stdout_stream params then u64_max else ep_shard_size params)"

definition encrypt_plan ::
  "(bytes \<Rightarrow> bytes) \<Rightarrow> CoreEncryptParams \<Rightarrow> ArchiveOpenContext \<Rightarrow> u64 \<Rightarrow> EncryptPlan result" where
  "encrypt_plan blake3 params ctx raw_plaintext_size =
    (let chunk_plain_size = ac_chunk_plain_size ctx; tag_len = 16 in
    bindr (compute_padding raw_plaintext_size chunk_plain_size (ep_padding params)) (\<lambda>pad.
    let padding_payload = (if pr_target_size pad > raw_plaintext_size
                           then Some (pr_target_size pad - raw_plaintext_size - 9) else None);
        padded_plaintext_size = pr_target_size pad in
    throw_if (ep_stdout_stream params \<and> \<not> ep_allow_large_stdout params
        \<and> padded_plaintext_size > push_bit 30 1)
      (InvalidArgument ''--output - buffers the entire shard in memory; planned plaintext size exceeds 1 GiB'') (
    bindr (chunk_layout padded_plaintext_size chunk_plain_size) (\<lambda>cl.
    let gh = (ac_global_header ctx)
          \<lparr>gh_padding_policy_id := pr_policy_id pad, gh_padding_policy_value := pr_policy_value pad,
           gh_global_chunk_count := cl_global_chunk_count cl,
           gh_padded_plaintext_size := cl_effective_padded_size cl,
           gh_final_plaintext_chunk_len := cl_final_plaintext_chunk_len cl,
           gh_max_shard_payload_len := effective_shard_size params\<rparr> in
    bindr (plan_shards (cl_global_chunk_count cl) chunk_plain_size tag_len
             (effective_shard_size params) gh) (\<lambda>plans.
    let gh = gh\<lparr>gh_shard_count := of_nat (length plans)\<rparr> in
    bindr (fill_per_shard_hashes blake3 plans gh) (\<lambda>plans.
    Inr \<lparr>pl_global_header = gh, pl_shards = plans,
         pl_padded_plaintext_size = padded_plaintext_size,
         pl_padding_payload = padding_payload\<rparr>))))))"

subsection \<open>Padding\<close>

text \<open>What a padding result promises, over the natural numbers.\<close>

definition padding_ok :: "nat \<Rightarrow> nat \<Rightarrow> PaddingResult \<Rightarrow> bool" where
  "padding_ok raw chunk pr \<longleftrightarrow>
     (let target = unat (pr_target_size pr) in
      raw \<le> target \<and> (target = raw \<or> raw + 9 \<le> target)
      \<and> (pr_policy_id pr = 0 \<and> pr_policy_value pr = 0 \<and> target = raw
         \<or> pr_policy_id pr = 1 \<and> pr_policy_value pr = 0 \<and> chunk dvd target
         \<or> pr_policy_id pr = 2 \<and> pr_policy_value pr = 0 \<and> chunk dvd target
             \<and> (\<exists>j<64. target = 2 ^ j)
         \<or> pr_policy_id pr = 3 \<and> pr_policy_value pr = pr_target_size pr \<and> chunk dvd target))"

lemma gap_word:
  fixes a b :: u64
  assumes "b \<le> a" "\<not> (a - b > 0 \<and> a - b < 9)"
  shows "unat a = unat b \<or> unat b + 9 \<le> unat a"
  using assms by (auto simp: word_less_nat_alt word_le_nat_alt unat_sub)

lemma gap_word_small:
  fixes a b :: u64
  assumes "b \<le> a" "a - b < 9"
  shows "unat a < unat b + 9"
  using assms by (auto simp: word_less_nat_alt word_le_nat_alt unat_sub)

lemma padding_chunk:
  assumes "compute_padding raw c policy = Inr pr" "pp_kind policy = PaddingChunk" "raw \<noteq> 0"
    "9 \<le> unat c"
  shows "padding_ok (unat raw) (unat c) pr"
proof -
  from assms(4) have c0: "c \<noteq> 0" by auto
  from assms obtain t1 t2 where
    t1: "(if raw mod c = 0 then Inr raw else checked_add_u64 raw (c - raw mod c) ''chunk padding: padded size'') = Inr t1"
    and t2: "(if t1 - raw > 0 \<and> t1 - raw < 9 then checked_add_u64 t1 c ''chunk padding: extra chunk'' else Inr t1) = Inr t2"
    and pr: "pr = \<lparr>pr_target_size = t2, pr_policy_id = 1, pr_policy_value = 0\<rparr>"
    unfolding compute_padding_def by (auto simp: bindr_eq_Inr Let_def)
  have m: "unat (raw mod c) = unat raw mod unat c" by (simp add: unat_mod)
  have mlt: "unat raw mod unat c < unat c" using assms(4) by simp
  have a: "unat c dvd unat t1 \<and> unat raw \<le> unat t1"
  proof (cases "raw mod c = 0")
    case True
    then have "unat raw mod unat c = 0" using m by simp
    then show ?thesis using t1 True by (auto simp: mod_eq_0_iff_dvd)
  next
    case False
    then have "checked_add_u64 raw (c - raw mod c) ''chunk padding: padded size'' = Inr t1" using t1 by simp
    then have "unat t1 = unat raw + unat (c - raw mod c)" by (rule checked_add_u64_unat)
    also have "unat (c - raw mod c) = unat c - unat raw mod unat c"
      using mlt m by (subst unat_sub) (simp_all add: word_le_nat_alt)
    finally have e: "unat t1 = unat raw + (unat c - unat raw mod unat c)" .
    then have "unat t1 = unat raw div unat c * unat c + unat c"
      using mlt div_mult_mod_eq [of "unat raw" "unat c"] by linarith
    then show ?thesis using e by (auto intro: dvd_add)
  qed
  show ?thesis
  proof (cases "t1 - raw > 0 \<and> t1 - raw < 9")
    case True
    then have "unat t2 = unat t1 + unat c" using t2 by (auto dest: checked_add_u64_unat)
    then show ?thesis using a assms(4) by (auto simp: padding_ok_def pr Let_def)
  next
    case False
    then have "t2 = t1" using t2 by auto
    then show ?thesis using a gap_word [of raw t1] False
      by (auto simp: padding_ok_def pr Let_def word_le_nat_alt)
  qed
qed

lemma padding_power2:
  assumes "compute_padding raw c policy = Inr pr" "pp_kind policy = PaddingPower2" "raw \<noteq> 0"
    "unat c = 2 ^ k" "4 \<le> k" "k < 64"
  shows "padding_ok (unat raw) (unat c) pr"
proof -
  from assms obtain t0 t2 where
    t0: "checked_next_power_of_two_u64 raw ''power2 padding: target size'' = Inr t0"
    and t2: "(if (if t0 < c then c else t0) - raw > 0 \<and> (if t0 < c then c else t0) - raw < 9
      then checked_mul_u64 (if t0 < c then c else t0) 2 ''power2 padding: bump'' else Inr (if t0 < c then c else t0)) = Inr t2"
    and pr: "pr = \<lparr>pr_target_size = t2, pr_policy_id = 2, pr_policy_value = 0\<rparr>"
    unfolding compute_padding_def by (auto simp: bindr_eq_Inr Let_def)
  define t1 where "t1 = (if t0 < c then c else t0)"
  from checked_next_power_of_two_u64_spec [OF t0] obtain j where
    j: "j \<le> 63" "t0 = 2 ^ j" "unat raw \<le> 2 ^ j" by blast
  have ut0: "unat t0 = 2 ^ j" using j by (simp add: unat_two_power)
  obtain i where i: "i < 64" "unat t1 = 2 ^ i" "k \<le> i" and le: "unat raw \<le> unat t1"
  proof (cases "t0 < c")
    case True
    then have "unat t0 < unat c" by (simp add: word_less_nat_alt)
    then have "unat raw \<le> 2 ^ k" using ut0 j(3) assms(4) by linarith
    then show ?thesis using that [of k] True assms(4,6) by (simp add: t1_def)
  next
    case False
    then have "unat c \<le> unat t0" by (simp add: word_less_nat_alt)
    then have "(2 :: nat) ^ k \<le> 2 ^ j" using ut0 assms(4) by simp
    then have "k \<le> j" by (rule power_le_imp_le_exp [rotated]) simp
    then show ?thesis using that [of j] False j ut0 by (simp add: t1_def)
  qed
  show ?thesis
  proof (cases "t1 - raw > 0 \<and> t1 - raw < 9")
    case True
    then have "unat t2 = unat t1 * 2" using t2 by (auto simp: t1_def [symmetric] dest: checked_mul_u64_unat)
    then have u: "unat t2 = 2 ^ Suc i" using i by simp
    then have "(2 :: nat) ^ Suc i < 2 ^ 64" using unat_u64_lt [of t2] by simp
    then have "Suc i < 64" by (rule power_less_imp_less_exp [rotated]) simp
    moreover have "(16 :: nat) \<le> 2 ^ i"
      using power_increasing [of 4 i "2 :: nat"] assms(5) i(3) by simp
    moreover have "unat c dvd 2 ^ Suc i" using assms(4) i(3) le_imp_power_dvd [of k "Suc i" "2 :: nat"] by simp
    ultimately show ?thesis using u le i(2)
      by (auto simp: padding_ok_def pr Let_def intro!: exI [of _ "Suc i"])
  next
    case False
    then have "t2 = t1" using t2 unfolding t1_def by auto
    moreover have "unat c dvd unat t1" using assms(4) i by (auto intro: le_imp_power_dvd)
    ultimately show ?thesis using le i gap_word [of raw t1] False
      by (auto simp: padding_ok_def pr Let_def word_le_nat_alt)
  qed
qed

lemma padding_other:
  assumes "compute_padding raw c policy = Inr pr" "pp_kind policy = PaddingNone \<or> pp_kind policy = PaddingFixedSize"
  shows "padding_ok (unat raw) (unat c) pr"
proof (cases "pp_kind policy = PaddingNone")
  case True
  then show ?thesis using assms(1) by (auto simp: compute_padding_def padding_ok_def)
next
  case False
  with assms have le: "\<not> raw > pp_fixed_size_bytes policy" and m: "pp_fixed_size_bytes policy mod c = 0"
    and g: "\<not> (pp_fixed_size_bytes policy - raw > 0 \<and> pp_fixed_size_bytes policy - raw < 9)"
    and pr: "pr = \<lparr>pr_target_size = pp_fixed_size_bytes policy, pr_policy_id = 3,
              pr_policy_value = pp_fixed_size_bytes policy\<rparr>"
    unfolding compute_padding_def by (simp_all add: Let_def)
  have "unat (pp_fixed_size_bytes policy) mod unat c = 0" using arg_cong [OF m, of unat] by (simp add: unat_mod)
  then show ?thesis using le gap_word [of raw "pp_fixed_size_bytes policy"] g
    by (auto simp: padding_ok_def pr Let_def word_less_nat_alt word_le_nat_alt mod_eq_0_iff_dvd)
qed

lemma compute_padding_ok:
  assumes "compute_padding raw c policy = Inr pr" "raw \<noteq> 0" "unat c = 2 ^ k" "16 \<le> k" "k \<le> 26"
  shows "padding_ok (unat raw) (unat c) pr"
proof -
  have "9 \<le> unat c" using power_increasing [of 4 k "2 :: nat"] assms(3,4) by simp
  then show ?thesis
    using padding_chunk [OF assms(1) _ assms(2)] padding_power2 [OF assms(1) _ assms(2,3)]
      padding_other [OF assms(1)] assms(4,5)
    by (cases "pp_kind policy") simp_all
qed

subsection \<open>The chunk layout\<close>

lemma unat_ucast_small: "unat (x :: u64) < 2 ^ 32 \<Longrightarrow> unat (ucast x :: u32) = unat x"
  by (simp add: unsigned_ucast_eq take_bit_nat_eq_self)

lemma chunk_layout_ok:
  assumes "chunk_layout padded c = Inr cl" "padded \<noteq> 0" "unat c = 2 ^ k" "16 \<le> k" "k \<le> 26"
  shows "cl_effective_padded_size cl = padded"
    "1 \<le> unat (cl_global_chunk_count cl)" "unat (cl_global_chunk_count cl) \<le> 2 ^ 48"
    "1 \<le> unat (cl_final_plaintext_chunk_len cl)"
    "unat (cl_final_plaintext_chunk_len cl) \<le> unat c"
    "unat padded = (unat (cl_global_chunk_count cl) - 1) * unat c + unat (cl_final_plaintext_chunk_len cl)"
    "unat c dvd unat padded \<Longrightarrow> unat (cl_final_plaintext_chunk_len cl) = unat c"
proof -
  from assms(1,2) obtain n where n: "checked_ceil_div_u64 padded c ''chunk count'' = Inr n"
    and cl: "cl = \<lparr>cl_global_chunk_count = n,
       cl_final_plaintext_chunk_len = (if padded mod c = 0 then ucast c else ucast (padded mod c)),
       cl_effective_padded_size = padded\<rparr>"
    by (auto simp: chunk_layout_def bindr_eq_Inr Let_def)
  define p d where "p = unat padded" and "d = unat c"
  have d: "65536 \<le> d" "d \<le> 67108864"
    using power_increasing [of 16 k "2 :: nat"] power_increasing [of k 26 "2 :: nat"] assms(3-5)
    by (simp_all add: d_def)
  have p0: "0 < p" "p < 2 ^ 64" using assms(2) unat_u64_lt [of padded] by (simp_all add: p_def unat_gt_0)
  have n': "unat n = (p + d - 1) div d" using checked_ceil_div_u64_unat [OF n] by (simp add: p_def d_def)
  have m: "unat (padded mod c) = p mod d" by (simp add: unat_mod p_def d_def)
  have mlt: "p mod d < d" using d by simp
  have z: "padded mod c = 0 \<longleftrightarrow> p mod d = 0"
    using m by (metis unat_0 word_unat_eq_iff)
  define f where "f = (if p mod d = 0 then d else p mod d)"
  have uc: "unat (ucast c :: u32) = d" using d by (subst unat_ucast_small) (simp_all add: d_def [symmetric])
  have "p mod d < 2 ^ 32" using mlt d(2) by simp
  then have um: "unat (ucast (padded mod c) :: u32) = p mod d"
    using m by (subst unat_ucast_small) simp_all
  have fin: "unat (cl_final_plaintext_chunk_len cl) = f"
  proof (cases "padded mod c = 0")
    case True
    have "p mod d = 0" by (rule z [THEN iffD1, OF True])
    then show ?thesis using True uc by (simp only: cl ChunkLayout.simps if_True f_def refl)
  next
    case False
    have "p mod d \<noteq> 0" by (rule contrapos_nn [OF False z [THEN iffD2]])
    then show ?thesis using False um by (simp only: cl ChunkLayout.simps if_False f_def)
  qed
  have f1: "1 \<le> f" "f \<le> d" using mlt d by (auto simp: f_def)
  have eq: "p = (unat n - 1) * d + f \<and> 1 \<le> unat n"
  proof (cases "p mod d = 0")
    case True
    then obtain q where q: "p = d * q" by (auto simp: mod_eq_0_iff_dvd)
    then have q0: "0 < q" using p0 by (cases q) auto
    have "unat n = q"
      unfolding n' q using d q0 by (intro div_nat_eqI) (auto simp: algebra_simps)
    then show ?thesis using q q0 True by (cases q) (simp_all add: f_def algebra_simps)
  next
    case False
    define q r where "q = p div d" and "r = p mod d"
    have r: "0 < r" "r < d" and pq: "p = d * q + r"
      using False mlt by (simp_all add: q_def r_def)
    have "(p + d - 1) div d = q + 1"
      using r unfolding pq by (intro div_nat_eqI) (simp_all add: algebra_simps)
    then have "unat n = p div d + 1" unfolding n' q_def .
    then show ?thesis using False div_mult_mod_eq [of p d] by (simp add: f_def)
  qed
  show "cl_effective_padded_size cl = padded" by (simp add: cl)
  have gcc: "cl_global_chunk_count cl = n" by (simp add: cl)
  show "1 \<le> unat (cl_global_chunk_count cl)" using eq gcc by simp
  have "(unat n - 1) * 65536 \<le> (unat n - 1) * d" using d by simp
  then have "(unat n - 1) * 65536 < 2 ^ 64" using eq p0(2) by linarith
  then show "unat (cl_global_chunk_count cl) \<le> 2 ^ 48" using gcc by simp
  show "1 \<le> unat (cl_final_plaintext_chunk_len cl)" "unat (cl_final_plaintext_chunk_len cl) \<le> unat c"
    using fin f1 by (simp_all add: d_def)
  show "unat padded = (unat (cl_global_chunk_count cl) - 1) * unat c + unat (cl_final_plaintext_chunk_len cl)"
    using eq fin gcc by (simp add: p_def d_def)
  show "unat c dvd unat padded \<Longrightarrow> unat (cl_final_plaintext_chunk_len cl) = unat c"
    using fin by (simp add: f_def p_def [symmetric] d_def [symmetric])
qed

subsection \<open>The shard plan\<close>

text \<open>The encoded size of the frame of chunk \<open>j\<close>, over the natural numbers.\<close>

definition frame_len :: "nat \<Rightarrow> nat \<Rightarrow> nat \<Rightarrow> nat \<Rightarrow> nat \<Rightarrow> nat" where
  "frame_len gcc chunk final_len tag j = 40 + (if j = gcc - 1 then final_len else chunk) + tag"

text \<open>
  The specification of a shard plan: from chunk \<open>i\<close> and shard \<open>k\<close> on, the shards are numbered
  consecutively, cover consecutive non-empty ranges of chunks up to \<open>gcc\<close>, have the payload that
  the frames of their chunks add up to, fit into \<open>max_len\<close>, and are filled greedily: the next chunk
  would not have fitted.
\<close>

fun shard_partition :: "(nat \<Rightarrow> nat) \<Rightarrow> nat \<Rightarrow> nat \<Rightarrow> nat \<Rightarrow> nat \<Rightarrow> ShardPlan list \<Rightarrow> bool" where
  "shard_partition fl max_len gcc i k [] \<longleftrightarrow> i = gcc"
| "shard_partition fl max_len gcc i k (sp # sps) \<longleftrightarrow>
     (let n = unat (sp_chunk_count sp) in
      sp_shard_index sp = of_nat k \<and> unat (sp_first_chunk_index sp) = i \<and> 0 < n \<and> i + n \<le> gcc
      \<and> unat (sp_payload_len sp) = sum fl {i..<i + n} \<and> unat (sp_payload_len sp) \<le> max_len
      \<and> (i + n < gcc \<longrightarrow> max_len < unat (sp_payload_len sp) + fl (i + n))
      \<and> shard_partition fl max_len gcc (i + n) (k + 1) sps)"

lemma plain_len_frame:
  assumes "i < gcc"
  shows "40 + unat (plain_len_at gcc c f i) + unat t = frame_len (unat gcc) (unat c) (unat f) (unat t) (unat i)"
proof -
  have "gcc \<noteq> 0" using assms by auto
  then have "i = gcc - 1 \<longleftrightarrow> unat i = unat gcc - 1" by (simp add: word_unat_eq_iff unat_minus_one)
  then show ?thesis by (simp add: plain_len_at_def frame_len_def)
qed

lemma plan_shard_chunks_spec:
  assumes "plan_shard_chunks gcc c f t m i n p = Inr (i', n', p')"
    "unat p \<le> unat m" "i \<le> gcc" "unat n \<le> unat i"
    "\<And>j. frame_len (unat gcc) (unat c) (unat f) (unat t) j \<le> unat m"
    "n = 0 \<longrightarrow> p = 0"
  shows "i' \<le> gcc \<and> unat i \<le> unat i' \<and> unat n' = unat n + (unat i' - unat i) \<and> unat p' \<le> unat m
    \<and> unat p' = unat p + sum (frame_len (unat gcc) (unat c) (unat f) (unat t)) {unat i..<unat i'}
    \<and> (i' < gcc \<longrightarrow> unat m < unat p' + frame_len (unat gcc) (unat c) (unat f) (unat t) (unat i'))"
  using assms
proof (induction gcc c f t m i n p rule: plan_shard_chunks.induct)
  case (1 gcc c f t m i n p)
  let ?fl = "frame_len (unat gcc) (unat c) (unat f) (unat t)"
  show ?case
  proof (cases "i < gcc")
    case True
    from 1(2) True obtain fs where fs: "chunk_frame_v1_encoded_size_from_params (plain_len_at gcc c f i) t = Inr fs"
      by (subst (asm) plan_shard_chunks.simps) (auto simp: bindr_eq_Inr)
    have ufs: "unat fs = ?fl (unat i)"
      using frame_size_unat [OF fs] plain_len_frame [OF True] by simp
    have fsm: "fs \<le> m" using 1(6) [of "unat i"] ufs by (simp add: word_le_nat_alt)
    have guard: "p > m - fs \<longleftrightarrow> unat m < unat p + ?fl (unat i)"
      using fsm ufs by (auto simp: word_less_nat_alt word_le_nat_alt unat_sub)
    show ?thesis
    proof (cases "n > 0 \<and> p > m - fs")
      case stop: True
      then have "i' = i" "n' = n" "p' = p" using 1(2) True fs by (subst (asm) plan_shard_chunks.simps, auto)+
      then show ?thesis using stop guard 1(3,4) by simp
    next
      case go: False
      then obtain q where q: "checked_add_u64 p fs ''shard payload accumulation'' = Inr q"
        and r: "plan_shard_chunks gcc c f t m (i + 1) (n + 1) q = Inr (i', n', p')"
        using 1(2) True fs by (subst (asm) plan_shard_chunks.simps) (auto simp: bindr_eq_Inr)
      have uq: "unat q = unat p + ?fl (unat i)" using checked_add_u64_unat [OF q] ufs by simp
      have qm: "unat q \<le> unat m"
      proof (cases "n = 0")
        case True
        then show ?thesis using uq 1(7) 1(6) [of "unat i"] by simp
      next
        case False
        then have "\<not> p > m - fs" using go by (simp add: word_greater_zero_iff)
        then show ?thesis using guard uq by simp
      qed
      have ui: "unat (i + 1) = unat i + 1" by (rule unat_next [OF True])
      have "unat n < 2 ^ 64 - 1" using 1(5) True unat_u64_lt [of gcc] by (simp add: word_less_nat_alt)
      then have un: "unat (n + 1) = unat n + 1" by (subst unat_plus_no_overflow) simp_all
      have le: "i + 1 \<le> gcc" using True ui by (simp add: word_le_nat_alt word_less_nat_alt)
      have n0: "n + 1 = 0 \<longrightarrow> q = 0" using un by (metis add_is_0 one_neq_zero unat_0)
      have len: "unat (n + 1) \<le> unat (i + 1)" using 1(5) ui un by simp
      have IH: "i' \<le> gcc \<and> unat (i + 1) \<le> unat i' \<and> unat n' = unat (n + 1) + (unat i' - unat (i + 1))
          \<and> unat p' \<le> unat m \<and> unat p' = unat q + sum ?fl {unat (i + 1)..<unat i'}
          \<and> (i' < gcc \<longrightarrow> unat m < unat p' + ?fl (unat i'))"
        by (rule 1(1) [OF True fs go q r qm le len 1(6) n0])
      have "sum ?fl {unat i..<unat i'} = ?fl (unat i) + sum ?fl {unat i + 1..<unat i'}"
        using IH ui by (subst sum.atLeast_Suc_lessThan) simp_all
      then have "unat p' = unat p + sum ?fl {unat i..<unat i'}" using IH ui uq by simp
      then show ?thesis using IH ui un by auto
    qed
  next
    case False
    then have "i' = i" "n' = n" "p' = p" using 1(2) by (subst (asm) plan_shard_chunks.simps, simp)+
    then show ?thesis using 1(3,4) False by simp
  qed
qed

lemma plan_shards_loop_spec:
  assumes "plan_shards_loop gcc c f t m i k = Inr plans" "i \<le> gcc"
    "\<And>j. frame_len (unat gcc) (unat c) (unat f) (unat t) j \<le> unat m" "unat k \<le> unat i"
  shows "shard_partition (frame_len (unat gcc) (unat c) (unat f) (unat t)) (unat m) (unat gcc) (unat i) (unat k) plans"
  using assms
proof (induction gcc c f t m i k arbitrary: plans rule: plan_shards_loop.induct)
  case (1 gcc c f t m i k)
  let ?fl = "frame_len (unat gcc) (unat c) (unat f) (unat t)"
  show ?case
  proof (cases "i < gcc")
    case True
    from 1(2) True obtain i' n p rest where
      r: "plan_shard_chunks gcc c f t m i 0 0 = Inr (i', n, p)"
      and l: "plan_shards_loop gcc c f t m i' (k + 1) = Inr rest"
      and plans: "plans = \<lparr>sp_shard_index = ucast k, sp_first_chunk_index = i, sp_chunk_count = n,
                    sp_payload_len = p, sp_public_header_hash = replicate 32 0\<rparr> # rest"
      by (subst (asm) plan_shards_loop.simps) (auto simp: bindr_eq_Inr)
    have spec: "i' \<le> gcc" "unat i \<le> unat i'" "unat n = unat i' - unat i" "unat p \<le> unat m"
      "unat p = sum ?fl {unat i..<unat i'}" "i' < gcc \<longrightarrow> unat m < unat p + ?fl (unat i')"
      using plan_shard_chunks_spec [OF r _ _ _ 1(4)] True by (auto simp: word_le_nat_alt word_less_nat_alt)
    have lt: "unat i < unat i'" using plan_shard_chunks_mono [OF r] True by simp
    have uk: "unat (k + 1) = unat k + 1"
      using 1(5) True unat_u64_lt [of gcc] by (subst unat_plus_no_overflow) (simp_all add: word_less_nat_alt)
    have IH: "shard_partition ?fl (unat m) (unat gcc) (unat i') (unat k + 1) rest"
      using 1(1) [OF True r refl refl l spec(1) 1(4)] uk lt 1(5) by simp
    have idx: "(ucast k :: u32) = of_nat (unat k)" by simp
    have in': "unat i + unat n = unat i'" using spec(2,3) by simp
    show ?thesis using IH spec lt idx in' by (simp add: plans Let_def word_less_nat_alt word_le_nat_alt)
  next
    case False
    then have "plans = []" "i = gcc" using 1(2,3) by (subst (asm) plan_shards_loop.simps, simp)+
    then show ?thesis by simp
  qed
qed

subsection \<open>Planning always succeeds on a feasible layout\<close>

lemma frame_size_total:
  "40 + unat p + unat t < 2 ^ 64 \<Longrightarrow> \<exists>n. chunk_frame_v1_encoded_size_from_params p t = Inr n"
  by (auto simp: frame_size_from_params)

lemma plan_shard_chunks_total:
  assumes "unat p \<le> unat m" "n = 0 \<longrightarrow> p = 0" "unat n \<le> unat i"
    "\<And>j. frame_len (unat gcc) (unat c) (unat f) (unat t) j \<le> unat m"
  shows "\<exists>r. plan_shard_chunks gcc c f t m i n p = Inr r"
  using assms
proof (induction gcc c f t m i n p rule: plan_shard_chunks.induct)
  case (1 gcc c f t m i n p)
  let ?fl = "frame_len (unat gcc) (unat c) (unat f) (unat t)"
  show ?case
  proof (cases "i < gcc")
    case True
    have "40 + unat (plain_len_at gcc c f i) + unat t \<le> unat m"
      using 1(5) [of "unat i"] by (simp add: plain_len_frame [OF True])
    then obtain fs where fs: "chunk_frame_v1_encoded_size_from_params (plain_len_at gcc c f i) t = Inr fs"
      using frame_size_total unat_u64_lt [of m] by (meson le_less_trans)
    have ufs: "unat fs = ?fl (unat i)"
      using frame_size_unat [OF fs] plain_len_frame [OF True] by simp
    have fsm: "fs \<le> m" using 1(5) [of "unat i"] ufs by (simp add: word_le_nat_alt)
    show ?thesis
    proof (cases "n > 0 \<and> p > m - fs")
      case go: False
      have qm: "unat p + unat fs \<le> unat m"
      proof (cases "n = 0")
        case False
        then have "\<not> p > m - fs" using go by (simp add: word_greater_zero_iff)
        then show ?thesis using fsm by (simp add: word_less_nat_alt word_le_nat_alt unat_sub)
      qed (use 1(3) fsm in \<open>simp add: word_le_nat_alt\<close>)
      then have q: "checked_add_u64 p fs ''shard payload accumulation'' = Inr (p + fs)"
        using unat_u64_lt [of m] by (simp add: checked_add_u64_Inr)
      have uq: "unat (p + fs) \<le> unat m" using checked_add_u64_unat [OF q] qm by simp
      have "unat n < 2 ^ 64 - 1" using 1(4) True unat_u64_lt [of gcc] by (simp add: word_less_nat_alt)
      then have un: "unat (n + 1) = unat n + 1" by (subst unat_plus_no_overflow) simp_all
      have n0: "n + 1 = 0 \<longrightarrow> p + fs = 0" using un by (metis add_is_0 one_neq_zero unat_0)
      have len: "unat (n + 1) \<le> unat (i + 1)" using 1(4) un unat_next [OF True] by simp
      show ?thesis
        using 1(1) [OF True fs go q uq n0 len 1(5)] True fs go q
        by (subst plan_shard_chunks.simps) (simp only: bindr.simps if_True if_False)
    qed (use True fs in \<open>subst plan_shard_chunks.simps; simp\<close>)
  qed (subst plan_shard_chunks.simps, simp)
qed

lemma plan_shards_loop_total:
  assumes "\<And>j. frame_len (unat gcc) (unat c) (unat f) (unat t) j \<le> unat m"
  shows "\<exists>plans. plan_shards_loop gcc c f t m i k = Inr plans"
  using assms
proof (induction gcc c f t m i k rule: plan_shards_loop.induct)
  case (1 gcc c f t m i k)
  obtain r where r: "plan_shard_chunks gcc c f t m i 0 0 = Inr r"
    using plan_shard_chunks_total [OF _ _ _ 1(2), of 0 0 i] by auto
  obtain i' n p where rr: "r = (i', n, p)" by (cases r)
  show ?case
  proof (cases "i < gcc")
    case True
    obtain rest where "plan_shards_loop gcc c f t m i' (k + 1) = Inr rest"
      using 1(1) [OF True r rr [symmetric] refl 1(2)] by blast
    then show ?thesis using True r rr by (subst plan_shards_loop.simps) simp
  qed (subst plan_shards_loop.simps, simp)
qed

lemma plan_shards_total:
  assumes "40 + unat chunk + unat tag \<le> unat max_len"
    "unat (gh_final_plaintext_chunk_len gh) \<le> unat chunk"
  shows "\<exists>plans. plan_shards gcc chunk tag max_len gh = Inr plans
    \<and> shard_partition
        (frame_len (unat gcc) (unat chunk) (unat (gh_final_plaintext_chunk_len gh)) (unat tag))
        (unat max_len) (unat gcc) 0 0 plans"
proof -
  have fl: "frame_len (unat gcc) (unat chunk) (unat (gh_final_plaintext_chunk_len gh)) (unat tag) j \<le> unat max_len" for j
    using assms by (simp add: frame_len_def)
  have "40 + unat chunk + unat tag < 2 ^ 64" using assms(1) unat_u64_lt [of max_len] by linarith
  then obtain mf where mf: "chunk_frame_v1_encoded_size_from_params chunk tag = Inr mf"
    using frame_size_total by blast
  have "\<not> mf > max_len" using frame_size_unat [OF mf] assms(1) by (simp add: word_less_nat_alt)
  moreover obtain plans where p: "plan_shards_loop gcc chunk (gh_final_plaintext_chunk_len gh) tag max_len 0 0 = Inr plans"
    using plan_shards_loop_total [OF fl] by blast
  ultimately have "plan_shards gcc chunk tag max_len gh = Inr plans" by (simp add: plan_shards_def mf)
  with plan_shards_loop_spec [OF p _ fl] show ?thesis by auto
qed

text \<open>
  C17: The shard plan is correct and total: whenever the largest frame fits into a shard and the
  last chunk is not longer than the others, \<open>plan_shards\<close> terminates with a plan, and the plan
  partitions the chunks greedily into consecutively numbered, non-empty shards of at most the
  given payload, whose payload lengths are the sums of their frame sizes.
\<close>

theorem plan_shards_correct:
  assumes "40 + unat chunk + unat tag \<le> unat max_len"
    "unat (gh_final_plaintext_chunk_len gh) \<le> unat chunk"
  shows "\<exists>plans. plan_shards gcc chunk tag max_len gh = Inr plans
    \<and> shard_partition
        (frame_len (unat gcc) (unat chunk) (unat (gh_final_plaintext_chunk_len gh)) (unat tag))
        (unat max_len) (unat gcc) 0 0 plans"
  by (rule plan_shards_total [OF assms])

theorem plan_shards_correct_witness:
  "\<exists>plans. plan_shards 5 65536 16 140000 sample_global = Inr plans
     \<and> shard_partition (frame_len 5 65536 65536 16) 140000 5 0 0 plans"
  using plan_shards_correct [of 65536 16 140000 sample_global 5] by (simp add: sample_global_def)

subsection \<open>The planned header is accepted by every reader\<close>

lemma shard_partition_hash:
  "fill_per_shard_hashes blake3 plans gh = Inr plans' \<Longrightarrow>
     shard_partition fl m gcc i k plans' = shard_partition fl m gcc i k plans
     \<and> length plans' = length plans
     \<and> list_all (\<lambda>sp. compute_public_header_hash blake3 gh (planned_shard_header sp)
          = Inr (sp_public_header_hash sp)) plans'"
proof (induction plans arbitrary: plans' i k)
  case (Cons sp sps)
  then show ?case by (auto simp: bindr_eq_Inr planned_shard_header_def Let_def)
qed simp

lemma shard_partition_nonempty: "shard_partition fl m gcc i k plans \<Longrightarrow> i < gcc \<Longrightarrow> plans \<noteq> []"
  by (cases plans) auto

lemma shard_partition_length: "shard_partition fl m gcc i k plans \<Longrightarrow> i + length plans \<le> gcc"
proof (induction plans arbitrary: i k)
  case (Cons sp sps)
  then show ?case using Cons.IH [of "i + unat (sp_chunk_count sp)" "k + 1"] by (auto simp: Let_def)
qed simp

lemma check_padding_policy_ok:
  assumes "padding_ok raw (2 ^ k) pr" "unat (gh_chunk_plain_size h) = 2 ^ k"
    "gh_padded_plaintext_size h = pr_target_size pr"
    "gh_padding_policy_id h = pr_policy_id pr" "gh_padding_policy_value h = pr_policy_value pr"
    "2 ^ k dvd unat (pr_target_size pr) \<Longrightarrow> unat (gh_final_plaintext_chunk_len h) = 2 ^ k"
  shows "check_padding_policy h = Inr ()"
proof -
  have full: "gh_final_plaintext_chunk_len h = gh_chunk_plain_size h"
    and mult: "pr_target_size pr mod ucast (gh_chunk_plain_size h) = 0"
    if "2 ^ k dvd unat (pr_target_size pr)"
  proof -
    show "gh_final_plaintext_chunk_len h = gh_chunk_plain_size h"
      using that assms(2,6) by (simp add: word_unat_eq_iff)
    have "unat (pr_target_size pr mod ucast (gh_chunk_plain_size h)) = 0"
      using that assms(2) by (simp add: unat_mod mod_eq_0_iff_dvd)
    then show "pr_target_size pr mod ucast (gh_chunk_plain_size h) = 0" by (simp only: unat_eq_zero)
  qed
  have pow: "is_power_of_two (pr_target_size pr)" if "\<exists>j<64. unat (pr_target_size pr) = 2 ^ j"
  proof -
    from that obtain j where "j < 64" "unat (pr_target_size pr) = 2 ^ j" by blast
    then have "pr_target_size pr = 2 ^ j" by (simp add: word_unat_eq_iff unat_two_power)
    then show ?thesis using \<open>j < 64\<close> by (auto simp: is_power_of_two_iff)
  qed
  show ?thesis
    using assms(1) full mult pow
    unfolding check_padding_policy_def padding_ok_def assms(3-5) Let_def
    by (elim conjE disjE) (simp_all only: throw_if_False bindr.simps if_True if_False not_True_eq_False
        not_False_eq_True zero_neq_one one_neq_zero zero_neq_numeral numeral_eq_one_iff simp_thms refl, simp_all)
qed

text \<open>What the parameter validation guarantees about the sizes.\<close>

lemma validated_params:
  assumes "validate_encrypt_params fs params = Inr ()"
  shows "\<exists>k. 16 \<le> k \<and> k \<le> 26 \<and> unat (ep_chunk_size params) = 2 ^ k
    \<and> 40 + unat (ep_chunk_size params) + 16 \<le> unat (effective_shard_size params)"
proof -
  let ?c = "ep_chunk_size params"
  from assms have lo: "\<not> ?c < 65536" and hi: "\<not> ?c > 67108864" and pw: "?c AND (?c - 1) = 0"
    and sh: "ep_stdout_stream params \<or> (\<exists>mf. chunk_frame_v1_encoded_size_from_params ?c 16 = Inr mf
               \<and> \<not> mf > ep_shard_size params)"
    unfolding validate_encrypt_params_def Let_def
    by (auto simp: bindr_eq_Inr split: if_splits)
  have r: "65536 \<le> unat ?c" "unat ?c \<le> 67108864"
    using lo hi by (simp_all add: word_less_nat_alt)
  then have "?c \<noteq> 0" by auto
  then have "is_power_of_two ?c" using pw by (simp add: is_power_of_two_def)
  then obtain k where k: "k < 64" "?c = 2 ^ k" by (auto simp: is_power_of_two_iff)
  then have u: "unat ?c = 2 ^ k" by (simp add: unat_two_power)
  have "(2 :: nat) ^ 16 \<le> 2 ^ k" using r u by simp
  then have "16 \<le> k" by (rule power_le_imp_le_exp [rotated]) simp
  moreover have "(2 :: nat) ^ k \<le> 2 ^ 26" using r u by simp
  then have "k \<le> 26" by (rule power_le_imp_le_exp [rotated]) simp
  moreover have "40 + unat ?c + 16 \<le> unat (effective_shard_size params)"
  proof (cases "ep_stdout_stream params")
    case True
    then have "unat (effective_shard_size params) = 2 ^ 64 - 1"
      by (simp add: effective_shard_size_def unat_u64_max)
    then show ?thesis using r by simp
  next
    case False
    with sh obtain mf where mf: "chunk_frame_v1_encoded_size_from_params ?c 16 = Inr mf"
      "\<not> mf > ep_shard_size params" by blast
    then show ?thesis using frame_size_unat [OF mf(1)] False
      by (simp add: effective_shard_size_def word_less_nat_alt)
  qed
  ultimately show ?thesis using u by blast
qed

lemma encrypt_plan_Inr:
  assumes "encrypt_plan blake3 params ctx raw = Inr pl"
  obtains pad cl plans plans' gh where
    "compute_padding raw (ac_chunk_plain_size ctx) (ep_padding params) = Inr pad"
    "chunk_layout (pr_target_size pad) (ac_chunk_plain_size ctx) = Inr cl"
    "gh = (ac_global_header ctx)
          \<lparr>gh_padding_policy_id := pr_policy_id pad, gh_padding_policy_value := pr_policy_value pad,
           gh_global_chunk_count := cl_global_chunk_count cl,
           gh_padded_plaintext_size := cl_effective_padded_size cl,
           gh_final_plaintext_chunk_len := cl_final_plaintext_chunk_len cl,
           gh_max_shard_payload_len := effective_shard_size params\<rparr>"
    "plan_shards (cl_global_chunk_count cl) (ac_chunk_plain_size ctx) 16 (effective_shard_size params) gh = Inr plans"
    "fill_per_shard_hashes blake3 plans (gh\<lparr>gh_shard_count := of_nat (length plans)\<rparr>) = Inr plans'"
    "pl = \<lparr>pl_global_header = gh\<lparr>gh_shard_count := of_nat (length plans)\<rparr>, pl_shards = plans',
           pl_padded_plaintext_size = pr_target_size pad,
           pl_padding_payload = (if pr_target_size pad > raw then Some (pr_target_size pad - raw - 9) else None)\<rparr>"
  using assms unfolding encrypt_plan_def Let_def bindr_eq_Inr throw_if_eq_Inr by blast

lemma plan_shards_Inr:
  assumes "plan_shards gcc chunk tag max_len gh = Inr plans" "unat (gh_final_plaintext_chunk_len gh) \<le> unat chunk"
  shows "shard_partition
    (frame_len (unat gcc) (unat chunk) (unat (gh_final_plaintext_chunk_len gh)) (unat tag))
    (unat max_len) (unat gcc) 0 0 plans"
proof -
  from assms(1) obtain mf where mf: "chunk_frame_v1_encoded_size_from_params chunk tag = Inr mf"
    "\<not> mf > max_len"
    and l: "plan_shards_loop gcc chunk (gh_final_plaintext_chunk_len gh) tag max_len 0 0 = Inr plans"
    by (auto simp: plan_shards_def bindr_eq_Inr)
  have "40 + unat chunk + unat tag \<le> unat max_len"
    using frame_size_unat [OF mf(1)] mf(2) by (simp add: word_less_nat_alt)
  then have fl: "frame_len (unat gcc) (unat chunk) (unat (gh_final_plaintext_chunk_len gh)) (unat tag) j \<le> unat max_len" for j
    using assms(2) by (simp add: frame_len_def)
  show ?thesis using plan_shards_loop_spec [OF l _ fl] by simp
qed

lemma padded_size_word:
  fixes n :: u64 and c f :: u32
  assumes "unat p = (unat n - 1) * unat c + unat f" "n \<noteq> 0" "unat n \<le> 2 ^ 48" "unat c \<le> 2 ^ 26"
  shows "p = (n - 1) * ucast c + ucast f"
proof -
  have "unat ((n - 1) * ucast c + ucast f) = ((unat n - 1) * unat c + unat f) mod 2 ^ 64"
    using assms(2) by (simp add: unat_word_ariths unat_minus_one mod_simps)
  also have "\<dots> = unat p" unfolding assms(1) [symmetric] using unat_u64_lt [of p] by (rule mod_less)
  finally show ?thesis by (simp add: word_unat_eq_iff)
qed

lemma suite_cases: "suite_to_aead_alg_id s = 1 \<or> suite_to_aead_alg_id s = 2"
  by (cases s) simp_all

text \<open>The rejection rules, read as conditions on a header that a writer fills in.\<close>

lemma check_global_intro:
  assumes "gh_format_major h = 1" "gh_format_minor h = 0" "gh_global_header_len h = 192"
    "gh_shard_header_len h = 80" "gh_frame_header_len h = 40" "gh_global_flags h = 0"
    "gh_aead_alg_id h = 1 \<or> gh_aead_alg_id h = 2" "gh_kdf_alg_id h = 1" "gh_hash_alg_id h = 1"
    "gh_mac_alg_id h = 1" "gh_reserved0 h = 0" "gh_required_feature_flags h = 0"
    "all_zero (gh_reserved1 h)" "check_padding_policy h = Inr ()"
    "unat (gh_chunk_plain_size h) = 2 ^ k" "16 \<le> k" "k \<le> 26"
    "1 \<le> unat (gh_final_plaintext_chunk_len h)"
    "unat (gh_final_plaintext_chunk_len h) \<le> unat (gh_chunk_plain_size h)"
    "1 \<le> unat (gh_shard_count h)" "unat (gh_shard_count h) \<le> unat (gh_global_chunk_count h)"
    "unat (gh_global_chunk_count h) \<le> 2 ^ 48"
    "unat (gh_padded_plaintext_size h) =
       (unat (gh_global_chunk_count h) - 1) * unat (gh_chunk_plain_size h) + unat (gh_final_plaintext_chunk_len h)"
    "gh_max_shard_payload_len h \<noteq> 0"
  shows "check_global_header h = Inr ()"
proof -
  have le: "65536 \<le> unat (gh_chunk_plain_size h)" "unat (gh_chunk_plain_size h) \<le> 67108864"
    using power_increasing [of 16 k "2 :: nat"] power_increasing [of k 26 "2 :: nat"] assms(15-17) by simp_all
  have "gh_chunk_plain_size h = 2 ^ k" using assms(15,17) by (simp add: word_unat_eq_iff unat_two_power)
  then have pw: "is_power_of_two (gh_chunk_plain_size h)"
    using assms(17) by (auto simp: is_power_of_two_iff intro!: exI [of _ k])
  have n0: "gh_global_chunk_count h \<noteq> 0" "gh_shard_count h \<noteq> 0" "gh_final_plaintext_chunk_len h \<noteq> 0"
    using assms(18,20,21) by auto
  have p0: "gh_padded_plaintext_size h \<noteq> 0" using assms(18,23) by auto
  have sz: "gh_padded_plaintext_size h = (gh_global_chunk_count h - 1) * ucast (gh_chunk_plain_size h)
      + ucast (gh_final_plaintext_chunk_len h)"
    using le(2) by (intro padded_size_word [OF assms(23) n0(1) assms(22)]) simp
  have cmp: "\<not> gh_chunk_plain_size h < 65536" "\<not> gh_chunk_plain_size h > 67108864"
    "\<not> gh_final_plaintext_chunk_len h > gh_chunk_plain_size h"
    "\<not> ucast (gh_shard_count h) > gh_global_chunk_count h"
    using le assms(19,21) by (simp_all add: word_less_nat_alt)
  show ?thesis
    unfolding check_global_header_def
    using assms(1-14,24) pw n0 p0 sz cmp
    by (simp only: throw_if_eq_Inr bindr.simps simp_thms) blast
qed

lemma encrypt_context_fields:
  assumes "make_encrypt_context salt archive_id params = Inr ctx"
  shows "ac_chunk_plain_size ctx = ep_chunk_size params"
    "length salt = 32 \<Longrightarrow> length archive_id = 32 \<Longrightarrow> global_arrays (ac_global_header ctx)"
  using assms by (auto simp: make_encrypt_context_def Let_def bindr_eq_Inr global_arrays_def)

lemma encrypt_context_constants:
  assumes "make_encrypt_context salt archive_id params = Inr ctx"
  shows "gh_magic (ac_global_header ctx) = kGlobalHeaderV1Magic"
    "gh_format_major (ac_global_header ctx) = 1" "gh_format_minor (ac_global_header ctx) = 0"
    "gh_global_header_len (ac_global_header ctx) = 192" "gh_shard_header_len (ac_global_header ctx) = 80"
    "gh_frame_header_len (ac_global_header ctx) = 40" "gh_global_flags (ac_global_header ctx) = 0"
    "gh_kdf_alg_id (ac_global_header ctx) = 1" "gh_hash_alg_id (ac_global_header ctx) = 1"
    "gh_mac_alg_id (ac_global_header ctx) = 1" "gh_reserved0 (ac_global_header ctx) = 0"
    "gh_required_feature_flags (ac_global_header ctx) = 0" "all_zero (gh_reserved1 (ac_global_header ctx))"
    "gh_aead_alg_id (ac_global_header ctx) = 1 \<or> gh_aead_alg_id (ac_global_header ctx) = 2"
    "gh_chunk_plain_size (ac_global_header ctx) = ucast (ep_chunk_size params)"
  using assms suite_cases [of "ep_suite params"]
  by (auto simp: make_encrypt_context_def Let_def bindr_eq_Inr all_zero_replicate)

lemma planned_header_ok:
  assumes "validate_encrypt_params fs params = Inr ()"
    "make_encrypt_context salt archive_id params = Inr ctx" "length salt = 32" "length archive_id = 32"
    "encrypt_plan blake3 params ctx raw = Inr pl" "raw \<noteq> 0" "length (pl_shards pl) < 2 ^ 32"
  shows "valid_global (pl_global_header pl)
    \<and> unat (gh_shard_count (pl_global_header pl)) = length (pl_shards pl)
    \<and> unat (gh_padded_plaintext_size (pl_global_header pl)) =
        (unat (gh_global_chunk_count (pl_global_header pl)) - 1) * unat (gh_chunk_plain_size (pl_global_header pl))
          + unat (gh_final_plaintext_chunk_len (pl_global_header pl))
    \<and> shard_partition (frame_len (unat (gh_global_chunk_count (pl_global_header pl)))
          (unat (gh_chunk_plain_size (pl_global_header pl)))
          (unat (gh_final_plaintext_chunk_len (pl_global_header pl))) 16)
        (unat (effective_shard_size params)) (unat (gh_global_chunk_count (pl_global_header pl))) 0 0 (pl_shards pl)
    \<and> list_all (\<lambda>sp. compute_public_header_hash blake3 (pl_global_header pl) (planned_shard_header sp)
          = Inr (sp_public_header_hash sp)) (pl_shards pl)"
proof -
  from validated_params [OF assms(1)] obtain k where k: "16 \<le> k" "k \<le> 26"
    and uc: "unat (ep_chunk_size params) = 2 ^ k"
    and big: "40 + unat (ep_chunk_size params) + 16 \<le> unat (effective_shard_size params)" by blast
  have ctx: "ac_chunk_plain_size ctx = ep_chunk_size params"
    and gh0: "gh_chunk_plain_size (ac_global_header ctx) = ucast (ep_chunk_size params)"
    using encrypt_context_fields [OF assms(2)] encrypt_context_constants [OF assms(2)] by simp_all
  note const = encrypt_context_constants [OF assms(2)]
  from assms(5) obtain pad cl plans plans' gh where
    pad: "compute_padding raw (ep_chunk_size params) (ep_padding params) = Inr pad"
    and cl: "chunk_layout (pr_target_size pad) (ep_chunk_size params) = Inr cl"
    and gh: "gh = (ac_global_header ctx)
          \<lparr>gh_padding_policy_id := pr_policy_id pad, gh_padding_policy_value := pr_policy_value pad,
           gh_global_chunk_count := cl_global_chunk_count cl,
           gh_padded_plaintext_size := cl_effective_padded_size cl,
           gh_final_plaintext_chunk_len := cl_final_plaintext_chunk_len cl,
           gh_max_shard_payload_len := effective_shard_size params\<rparr>"
    and plans: "plan_shards (cl_global_chunk_count cl) (ep_chunk_size params) 16 (effective_shard_size params) gh = Inr plans"
    and fill: "fill_per_shard_hashes blake3 plans (gh\<lparr>gh_shard_count := of_nat (length plans)\<rparr>) = Inr plans'"
    and pl: "pl_global_header pl = gh\<lparr>gh_shard_count := of_nat (length plans)\<rparr>" "pl_shards pl = plans'"
    by (rule encrypt_plan_Inr) (simp add: ctx)
  have pok: "padding_ok (unat raw) (unat (ep_chunk_size params)) pad"
    by (rule compute_padding_ok [OF pad assms(6) uc k])
  have "0 < unat raw" using assms(6) by (simp add: unat_gt_0)
  then have t0: "pr_target_size pad \<noteq> 0" using pok by (auto simp: padding_ok_def Let_def)
  note cl' = chunk_layout_ok [OF cl t0 uc k]
  let ?h = "pl_global_header pl"
  have "unat (ep_chunk_size params) \<le> 2 ^ 26" unfolding uc by (rule power_increasing [OF k(2)]) simp
  then have ch: "unat (gh_chunk_plain_size ?h) = unat (ep_chunk_size params)"
    unfolding pl gh by (simp add: gh0 unat_ucast_small)
  have fields: "gh_global_chunk_count ?h = cl_global_chunk_count cl"
    "gh_final_plaintext_chunk_len ?h = cl_final_plaintext_chunk_len cl"
    "gh_padded_plaintext_size ?h = pr_target_size pad" "gh_max_shard_payload_len ?h = effective_shard_size params"
    "gh_padding_policy_id ?h = pr_policy_id pad" "gh_padding_policy_value ?h = pr_policy_value pad"
    "gh_shard_count ?h = of_nat (length plans)"
    by (simp_all add: pl gh cl'(1))
  have fl: "unat (gh_final_plaintext_chunk_len gh) = unat (cl_final_plaintext_chunk_len cl)" by (simp add: gh)
  have part: "shard_partition (frame_len (unat (cl_global_chunk_count cl)) (unat (ep_chunk_size params))
      (unat (cl_final_plaintext_chunk_len cl)) 16) (unat (effective_shard_size params))
      (unat (cl_global_chunk_count cl)) 0 0 plans"
    using plan_shards_Inr [OF plans] cl'(5) by (simp add: fl)
  note fh = shard_partition_hash [OF fill]
  have len: "length plans' = length plans" "length plans < 2 ^ 32"
    using fh assms(7) by (simp_all add: pl)
  then have sc: "unat (gh_shard_count ?h) = length plans" by (simp add: fields unat_of_nat_u32)
  have ne: "plans \<noteq> []" using shard_partition_nonempty [OF part] cl'(2) by simp
  have "check_global_header ?h = Inr ()"
  proof (rule check_global_intro [of ?h k])
    show "check_padding_policy ?h = Inr ()"
      using pok cl'(7) by (intro check_padding_policy_ok [of "unat raw" k pad]) (simp_all add: fields ch uc)
    show "1 \<le> unat (gh_shard_count ?h)" using ne by (simp add: sc Suc_leI)
    show "unat (gh_shard_count ?h) \<le> unat (gh_global_chunk_count ?h)"
      using shard_partition_length [OF part] unfolding sc fields(1) by simp
    show "gh_max_shard_payload_len ?h \<noteq> 0" using big by (auto simp: fields)
  qed (use cl' k const in \<open>simp_all add: fields ch uc\<close>, simp_all add: pl gh const)
  moreover have "global_arrays ?h" "gh_magic ?h = kGlobalHeaderV1Magic"
    using encrypt_context_fields(2) [OF assms(2-4)] by (simp_all add: pl gh const global_arrays_def)
  ultimately have "valid_global ?h" by (simp add: valid_global_def)
  moreover have "list_all (\<lambda>sp. compute_public_header_hash blake3 ?h (planned_shard_header sp)
      = Inr (sp_public_header_hash sp)) (pl_shards pl)" using fh by (simp add: pl)
  moreover have "shard_partition (frame_len (unat (cl_global_chunk_count cl)) (unat (ep_chunk_size params))
      (unat (cl_final_plaintext_chunk_len cl)) 16) (unat (effective_shard_size params))
      (unat (cl_global_chunk_count cl)) 0 0 (pl_shards pl)" using fh part by (simp add: pl)
  ultimately show ?thesis using sc len cl'(6) by (simp add: fields ch pl(2))
qed

text \<open>
  C16: The headers that \<open>core_encrypt\<close> plans are accepted by every reader.  For validated
  parameters and a non-empty archive, whatever padding policy is chosen, a planned global header
  passes all rejection rules of \<open>parse_global_public_header\<close>, its shard count is the number of
  planned shards, its padded size is the exact (not wrapped) size given by its chunk counts, the
  plan is a greedy partition of its chunks, and every planned header hash is the one computed from
  the final headers.
\<close>

theorem planned_header_accepted:
  assumes "validate_encrypt_params fs params = Inr ()"
    "make_encrypt_context salt archive_id params = Inr ctx" "length salt = 32" "length archive_id = 32"
    "encrypt_plan blake3 params ctx raw = Inr pl" "raw \<noteq> 0" "length (pl_shards pl) < 2 ^ 32"
  shows "valid_global (pl_global_header pl)
    \<and> unat (gh_shard_count (pl_global_header pl)) = length (pl_shards pl)
    \<and> unat (gh_padded_plaintext_size (pl_global_header pl)) =
        (unat (gh_global_chunk_count (pl_global_header pl)) - 1) * unat (gh_chunk_plain_size (pl_global_header pl))
          + unat (gh_final_plaintext_chunk_len (pl_global_header pl))
    \<and> shard_partition (frame_len (unat (gh_global_chunk_count (pl_global_header pl)))
          (unat (gh_chunk_plain_size (pl_global_header pl)))
          (unat (gh_final_plaintext_chunk_len (pl_global_header pl))) 16)
        (unat (effective_shard_size params)) (unat (gh_global_chunk_count (pl_global_header pl))) 0 0 (pl_shards pl)
    \<and> list_all (\<lambda>sp. compute_public_header_hash blake3 (pl_global_header pl) (planned_shard_header sp)
          = Inr (sp_public_header_hash sp)) (pl_shards pl)"
  by (rule planned_header_ok [OF assms])

definition sample_params :: CoreEncryptParams where
  "sample_params = \<lparr>ep_input = ''in'', ep_output = ''out'', ep_passphrase = [112], ep_keyfiles = [],
     ep_suite = XChaCha20Poly1305, ep_kdf_preset = Strong, ep_chunk_size = 65536,
     ep_shard_size = 140000, ep_padding = \<lparr>pp_kind = PaddingChunk, pp_fixed_size_bytes = 0\<rparr>,
     ep_durability_mode = DurabilityBestEffort, ep_lock_memory = False, ep_require_lock_memory = False,
     ep_stdout_stream = False, ep_allow_large_stdout = False, ep_on_warning = False, ep_on_progress = False\<rparr>"

definition sample_fs :: fs_view where
  "sample_fs = \<lparr>fv_exists = (\<lambda>_. True), fv_is_directory = (\<lambda>_. True),
     fv_is_regular_file = (\<lambda>_. True), fv_is_empty = (\<lambda>_. True)\<rparr>"

lemma sample_params_valid: "validate_encrypt_params sample_fs sample_params = Inr ()"
  by (simp add: validate_encrypt_params_def sample_params_def sample_fs_def require_directory_def
      require_path_exists_def chunk_frame_v1_encoded_size_from_params_def Let_def)

definition sample_context :: ArchiveOpenContext where
  "sample_context = (case make_encrypt_context (replicate 32 4) (replicate 32 5) sample_params of Inr c \<Rightarrow> c)"

lemma sample_context_eq:
  "make_encrypt_context (replicate 32 4) (replicate 32 5) sample_params = Inr sample_context"
  by (simp add: sample_context_def make_encrypt_context_def sample_params_def Let_def
      validate_kdf_params_def require_u32_range_def)

lemma sample_context_chunk: "ac_chunk_plain_size sample_context = 65536"
  using encrypt_context_fields(1) [OF sample_context_eq] by (simp add: sample_params_def)

lemma fill_total:
  "global_arrays gh \<Longrightarrow> \<exists>plans'. fill_per_shard_hashes blake3 plans gh = Inr plans'"
proof (induction plans)
  case (Cons sp sps)
  have "shard_arrays (planned_shard_header sp)" by (simp add: planned_shard_header_def shard_arrays_def)
  then show ?case using Cons by (auto simp: public_header_hash_eq)
qed simp

lemma sample_plan:
  "\<exists>pl. encrypt_plan (\<lambda>_. replicate 32 1) sample_params sample_context 100000 = Inr pl \<and> length (pl_shards pl) \<le> 2"
proof -
  have p: "compute_padding 100000 65536 (ep_padding sample_params)
      = Inr \<lparr>pr_target_size = 131072, pr_policy_id = 1, pr_policy_value = 0\<rparr>"
    by (simp add: compute_padding_def sample_params_def checked_add_u64_def Let_def)
  have c: "chunk_layout 131072 65536 = Inr \<lparr>cl_global_chunk_count = 2,
      cl_final_plaintext_chunk_len = 65536, cl_effective_padded_size = 131072\<rparr>"
    by (simp add: chunk_layout_def checked_ceil_div_u64_def Let_def)
  define gh where "gh = (ac_global_header sample_context)
          \<lparr>gh_padding_policy_id := 1, gh_padding_policy_value := 0, gh_global_chunk_count := 2,
           gh_padded_plaintext_size := 131072, gh_final_plaintext_chunk_len := 65536,
           gh_max_shard_payload_len := 140000\<rparr>"
  obtain plans where plans: "plan_shards 2 65536 16 140000 gh = Inr plans"
    and part: "shard_partition (frame_len 2 65536 65536 16) 140000 2 0 0 plans"
    using plan_shards_total [of 65536 16 140000 gh 2] by (auto simp: gh_def)
  have "global_arrays (gh\<lparr>gh_shard_count := of_nat (length plans)\<rparr>)"
    using encrypt_context_fields(2) [OF sample_context_eq] by (simp add: gh_def global_arrays_def)
  then obtain plans' where f: "fill_per_shard_hashes (\<lambda>_. replicate 32 1) plans (gh\<lparr>gh_shard_count := of_nat (length plans)\<rparr>) = Inr plans'"
    using fill_total by blast
  have "length plans' \<le> 2" using shard_partition_length [OF part] shard_partition_hash [OF f] by simp
  moreover have "effective_shard_size sample_params = 140000" "\<not> ep_stdout_stream sample_params"
    by (simp_all add: effective_shard_size_def sample_params_def)
  ultimately show ?thesis
    using plans f by (simp add: encrypt_plan_def sample_context_chunk p c gh_def)
qed

theorem planned_header_accepted_witness:
  "\<exists>pl. encrypt_plan (\<lambda>_. replicate 32 1) sample_params sample_context 100000 = Inr pl
     \<and> valid_global (pl_global_header pl)"
proof -
  obtain pl where pl: "encrypt_plan (\<lambda>_. replicate 32 1) sample_params sample_context 100000 = Inr pl"
    "length (pl_shards pl) \<le> 2" using sample_plan by blast
  have "valid_global (pl_global_header pl)"
    using planned_header_accepted [OF sample_params_valid sample_context_eq _ _ pl(1)] pl(2) by simp
  with pl(1) show ?thesis by blast
qed

text \<open>
  How much power-of-two padding adds when the size of the archive lies between two powers of two that
  are not below the chunk size.
\<close>

lemma power2_padding_target:
  assumes "pp_kind policy = PaddingPower2" "2 ^ k < unat raw" "unat raw + 9 \<le> 2 ^ (k + 1)" "k < 63" "unat c \<le> 2 ^ (k + 1)"
  shows "\<exists>pad. compute_padding raw c policy = Inr pad \<and> unat (pr_target_size pad) = 2 ^ (k + 1)"
proof -
  have "(2 :: nat) ^ (k + 1) \<le> 2 ^ 63" using assms(4) by (intro power_increasing) simp_all
  then have "raw \<le> 2 ^ 63" using assms(3) by (simp add: word_le_nat_alt)
  then obtain p where p: "checked_next_power_of_two_u64 raw ''power2 padding: target size'' = Inr p"
    using checked_next_power_of_two_u64_total by blast
  from checked_next_power_of_two_u64_spec [OF p] obtain j where j: "j \<le> 63" "p = 2 ^ j" "unat raw \<le> 2 ^ j"
    "\<And>i. unat raw \<le> 2 ^ i \<Longrightarrow> j \<le> i" by blast
  have "j \<le> k + 1" using j(4) [of "k + 1"] assms(3) by linarith
  moreover have "(2 :: nat) ^ k < 2 ^ j" using j(3) assms(2) by linarith
  then have "k < j" by (rule power_less_imp_less_exp [rotated]) simp
  ultimately have jk: "j = k + 1" by simp
  have up: "unat p = 2 ^ (k + 1)" 
    using unat_two_power [of j, where 'a = 64] j(1) unfolding j(2) jk by simp
  have c: "\<not> p < c" using up assms(5) by (simp add: word_less_nat_alt)
  have gap: "\<not> (p - raw > 0 \<and> p - raw < 9)"
    using gap_word_small [of raw p] up assms(3) by (auto simp: word_le_nat_alt)
  have "raw \<noteq> 0" using assms(2) by auto
  then show ?thesis using assms(1) p c gap up by (auto simp: compute_padding_def Let_def)
qed

end
