(* ===== verification/Shard_Writer.thy ===== *)
theory Shard_Writer
  imports Shard_Frame Durable_File
begin

unbundle bit_operations_syntax

text \<open>
  \<^verbatim>\<open>src/io/ShardWriter.hpp\<close> and \<^verbatim>\<open>ShardWriter.cpp\<close>: the writer that distributes chunk frames over shard
  files.  The record \<open>ShardWriter\<close> has the members of the class, in their order, and the disk the
  writer acts on; the open output stream is represented by whether it is open and whether it is
  still good, and always writes at the end of \<open>sw_current_path\<close>.  Every operation returns the
  state it leaves, also when it throws.  HMAC-SHA256 is a parameter.
\<close>

record ShardWriterOptions =
  wo_output_dir :: path
  wo_max_shard_payload_len :: u64
  wo_filename_extension :: string
  wo_global_header :: GlobalPublicHeaderV1
  wo_header_authentication_key :: bytes
  wo_per_shard_public_header_hashes :: "bytes list"
  wo_durability_mode :: DurabilityMode
  wo_durability_hooks :: DurabilityHooks
  wo_before_chunk_write :: "(u64 \<Rightarrow> unit result) option"

record ShardWritePosition =
  wp_shard_index :: u32
  wp_record_offset :: u64
  wp_chunk_index :: u64

record PlannedChunkFrame =
  pf_position :: ShardWritePosition
  pf_header :: ChunkFrameHeaderV1
  pf_header_bytes :: bytes

record FinalizedShard =
  fz_path :: path
  fz_shard_index :: u32
  fz_first_chunk_index :: u64
  fz_chunk_count :: u64
  fz_payload_len :: u64

record ShardWriter =
  sw_options :: ShardWriterOptions
  sw_stream_open :: bool
  sw_stream_good :: bool
  sw_current_path :: path
  sw_current_shard_index :: u32
  sw_next_shard_index :: u32
  sw_current_payload_offset :: u64
  sw_current_first_chunk_index :: u64
  sw_current_chunk_count :: u64
  sw_next_expected_chunk_index :: u64
  sw_final_chunk_plaintext_len :: u64
  sw_planned_shard_index :: u32
  sw_planned_payload_offset :: u64
  sw_planned_next_chunk_index :: u64
  sw_finalized_shards :: "FinalizedShard list"
  sw_finished :: bool
  sw_disk :: disk

subsection \<open>Construction\<close>

definition validate_and_normalize_options :: "ShardWriterOptions \<Rightarrow> ShardWriterOptions result" where
  "validate_and_normalize_options opts =
    throw_if (wo_output_dir opts = []) (InvalidArgument ''ShardWriter output directory is empty'') (
    throw_if (wo_max_shard_payload_len opts = 0)
      (InvalidArgument ''ShardWriter max_shard_payload_len must be non-zero'') (
    let opts = (if wo_filename_extension opts = [] then opts\<lparr>wo_filename_extension := ''.bin''\<rparr> else opts) in
    throw_if (gh_chunk_plain_size (wo_global_header opts) = 0)
      (InvalidArgument ''ShardWriter global_header.chunk_plain_size is missing'')
    (Inr opts)))"

definition validate_shard_hash_vector :: "ShardWriterOptions \<Rightarrow> unit result" where
  "validate_shard_hash_vector opts =
    (let hashes = wo_per_shard_public_header_hashes opts in
    throw_if (hashes = [])
      (InvalidArgument ''ShardWriter per_shard_public_header_hashes must not be empty'') (
    throw_if (length hashes \<noteq> unat (gh_shard_count (wo_global_header opts)))
      (InvalidArgument ''ShardWriter per_shard_public_header_hashes size does not match global_header.shard_count'') (
    throw_if (\<not> list_all (\<lambda>h. \<not> all_zero h) hashes)
      (InvalidArgument ''ShardWriter per_shard_public_header_hashes contains an all-zero hash'')
    (Inr ()))))"

definition initial_writer :: "ShardWriterOptions \<Rightarrow> disk \<Rightarrow> ShardWriter" where
  "initial_writer opts d =
     \<lparr>sw_options = opts, sw_stream_open = False, sw_stream_good = True, sw_current_path = [],
      sw_current_shard_index = 0, sw_next_shard_index = 0, sw_current_payload_offset = 0,
      sw_current_first_chunk_index = 0, sw_current_chunk_count = 0,
      sw_next_expected_chunk_index = 0, sw_final_chunk_plaintext_len = 0,
      sw_planned_shard_index = 0, sw_planned_payload_offset = 0, sw_planned_next_chunk_index = 0,
      sw_finalized_shards = [], sw_finished = False, sw_disk = d\<rparr>"

definition new_ShardWriter :: "ShardWriterOptions \<Rightarrow> disk \<Rightarrow> ShardWriter result" where
  "new_ShardWriter opts d =
    bindr (validate_and_normalize_options opts) (\<lambda>opts.
    bindr (validate_shard_hash_vector opts) (\<lambda>_.
    (case fs_create_directories (wo_output_dir opts) d of (ok, d) \<Rightarrow>
    throw_if (\<not> ok) (SystemError ''filesystem error: cannot create directories'') (
    throw_if (all_zero (wo_header_authentication_key opts))
      (InvalidArgument ''ShardWriter header_authentication_key is missing'')
    (Inr (initial_writer opts d))))))"

subsection \<open>Files\<close>

text \<open>A step on the disk: the boolean answer of the file system, and the writer with the new disk.\<close>

definition on_disk :: "(disk \<Rightarrow> 'a \<times> disk) \<Rightarrow> (ShardWriter, 'a) op" where
  "on_disk f w = (case f (sw_disk w) of (x, d) \<Rightarrow> (Inr x, w\<lparr>sw_disk := d\<rparr>))"

definition write_raw :: "bytes \<Rightarrow> (ShardWriter, unit) op" where
  "write_raw bs =
    getS (\<lambda>w.
    bindS (guardS (\<not> sw_stream_good w) (Error ''shard stream is not writable'')) (\<lambda>_.
    bindS (on_disk (fs_append (sw_current_path w) bs)) (\<lambda>ok.
    if ok then returnS ()
    else bindS (modifyS (\<lambda>w. w\<lparr>sw_stream_good := False\<rparr>)) (\<lambda>_.
         throwS (Error ''failed to write shard file: '')))))"

definition placeholder_shard_header :: ShardPublicHeaderV1 where
  "placeholder_shard_header =
     \<lparr>sh_shard_magic = kShardHeaderV1Magic, sh_shard_header_len = 80, sh_shard_index = 0,
      sh_first_global_chunk_index = 0, sh_shard_chunk_count = 0, sh_shard_payload_len = 0,
      sh_header_mac = replicate 32 0, sh_reserved0 = 0\<rparr>"

text \<open>What \<open>open_next_shard\<close> does once the stream is open on the candidate path.\<close>

definition begin_shard :: "path \<Rightarrow> u64 \<Rightarrow> (ShardWriter, unit) op" where
  "begin_shard candidate first_chunk_index =
    bindS (modifyS (\<lambda>w. w\<lparr>sw_stream_open := True, sw_stream_good := True,
        sw_current_path := candidate,
        sw_current_shard_index := sw_next_shard_index w,
        sw_next_shard_index := sw_next_shard_index w + 1,
        sw_current_payload_offset := 0,
        sw_current_first_chunk_index := first_chunk_index,
        sw_current_chunk_count := 0\<rparr>)) (\<lambda>_.
    getS (\<lambda>w.
    bindS (liftS (serialize_global_public_header (wo_global_header (sw_options w)))) (\<lambda>global_bytes.
    bindS (write_raw global_bytes) (\<lambda>_.
    bindS (liftS (serialize_shard_public_header placeholder_shard_header)) (\<lambda>shard_bytes.
    write_raw shard_bytes)))))"

fun open_attempts :: "nat \<Rightarrow> u64 \<Rightarrow> (ShardWriter, unit) op" where
  "open_attempts 0 first_chunk_index =
     throwS (Error ''failed to allocate unique random shard filename'')"
| "open_attempts (Suc n) first_chunk_index =
     bindS (on_disk draw_name) (\<lambda>name.
     getS (\<lambda>w.
     let candidate = path_append (wo_output_dir (sw_options w))
                       (name @ wo_filename_extension (sw_options w)) in
     if dk_files (sw_disk w) candidate \<noteq> None then open_attempts n first_chunk_index
     else
       bindS (on_disk (fs_open_trunc candidate)) (\<lambda>ok.
       bindS (guardS (\<not> ok) (Error ''failed to open shard for writing: '')) (\<lambda>_.
       begin_shard candidate first_chunk_index))))"

definition open_next_shard :: "u64 \<Rightarrow> (ShardWriter, unit) op" where
  "open_next_shard first_chunk_index =
    getS (\<lambda>w.
    bindS (guardS (sw_stream_open w) (Error ''internal error: shard already open'')) (\<lambda>_.
    open_attempts 128 first_chunk_index))"

definition final_shard_header :: "u32 \<Rightarrow> u64 \<Rightarrow> u64 \<Rightarrow> u64 \<Rightarrow> ShardPublicHeaderV1" where
  "final_shard_header shard_index first_chunk_index chunk_count payload_len =
     \<lparr>sh_shard_magic = kShardHeaderV1Magic, sh_shard_header_len = 80, sh_shard_index = shard_index,
      sh_first_global_chunk_index = first_chunk_index, sh_shard_chunk_count = chunk_count,
      sh_shard_payload_len = payload_len, sh_header_mac = replicate 32 0, sh_reserved0 = 0\<rparr>"

definition rewrite_shard_header ::
  "(bytes \<Rightarrow> bytes \<Rightarrow> bytes option) \<Rightarrow> path \<Rightarrow> GlobalPublicHeaderV1 \<Rightarrow> u32 \<Rightarrow> u64 \<Rightarrow> u64 \<Rightarrow> u64
     \<Rightarrow> (ShardWriter, unit) op" where
  "rewrite_shard_header hmac stream_path global_header shard_index first_chunk_index chunk_count payload_len =
    getS (\<lambda>w.
    let sh = final_shard_header shard_index first_chunk_index chunk_count payload_len in
    bindS (liftS (compute_shard_header_mac hmac (wo_header_authentication_key (sw_options w))
             global_header sh)) (\<lambda>mac.
    bindS (liftS (serialize_shard_public_header (sh\<lparr>sh_header_mac := mac\<rparr>))) (\<lambda>encoded.
    bindS (on_disk (fs_write_at stream_path kGlobalPublicHeaderV1Size encoded)) (\<lambda>ok.
    guardS (\<not> ok) (Error ''failed to rewrite shard public header'')))))"

definition close_current_shard ::
  "(bytes \<Rightarrow> bytes \<Rightarrow> bytes option) \<Rightarrow> (ShardWriter, unit) op" where
  "close_current_shard hmac =
    getS (\<lambda>w.
    if \<not> sw_stream_open w then returnS ()
    else if sw_current_chunk_count w = 0 then
      bindS (modifyS (\<lambda>w. w\<lparr>sw_stream_open := False\<rparr>)) (\<lambda>_.
      bindS (on_disk (fs_remove (sw_current_path w))) (\<lambda>ok.
      bindS (guardS (\<not> ok) (SystemError ''filesystem error: cannot remove'')) (\<lambda>_.
      modifyS (\<lambda>w. w\<lparr>sw_current_path := []\<rparr>))))
    else
      bindS (modifyS (\<lambda>w. w\<lparr>sw_stream_open := False\<rparr>)) (\<lambda>_.
      bindS (on_disk (fs_open_rw (sw_current_path w))) (\<lambda>ok.
      bindS (guardS (\<not> ok) (Error ''failed to reopen shard for header update: '')) (\<lambda>_.
      bindS (rewrite_shard_header hmac (sw_current_path w) (wo_global_header (sw_options w))
               (sw_current_shard_index w) (sw_current_first_chunk_index w)
               (sw_current_chunk_count w) (sw_current_payload_offset w)) (\<lambda>_.
      modifyS (\<lambda>w. w\<lparr>sw_finalized_shards := sw_finalized_shards w @
          [\<lparr>fz_path = sw_current_path w, fz_shard_index = sw_current_shard_index w,
            fz_first_chunk_index = sw_current_first_chunk_index w,
            fz_chunk_count = sw_current_chunk_count w,
            fz_payload_len = sw_current_payload_offset w\<rparr>],
        sw_current_path := [], sw_current_payload_offset := 0, sw_current_chunk_count := 0\<rparr>))))))"

subsection \<open>Frames\<close>

text \<open>The checks of \<open>write_chunk_frame\<close> before any file is touched; the result is the frame size.\<close>

definition write_checks :: "ShardWriter \<Rightarrow> ChunkFrameHeaderV1 \<Rightarrow> bytes \<Rightarrow> bytes \<Rightarrow> u64 result" where
  "write_checks w header header_bytes ciphertext_and_tag =
    throw_if (sw_finished w) (Error ''cannot write to finalized ShardWriter'') (
    throw_if (fh_global_chunk_index header \<noteq> sw_next_expected_chunk_index w)
      (InvalidArgument ''ShardWriter requires contiguous ascending frame chunk indexes'') (
    throw_if (fh_plaintext_len header > gh_chunk_plain_size (wo_global_header (sw_options w)))
      (InvalidArgument ''chunk plaintext_len exceeds archive chunk_plain_size'') (
    bindr (serialize_chunk_frame_header_v1 header) (\<lambda>expected_header_bytes.
    throw_if (header_bytes \<noteq> expected_header_bytes)
      (InvalidArgument ''ChunkFrameHeaderV1 bytes do not match supplied header'') (
    bindr (chunk_frame_v1_encoded_size header) (\<lambda>frame_size.
    let body_size = frame_size - 40 in
    throw_if (of_nat (length ciphertext_and_tag) \<noteq> body_size)
      (InvalidArgument ''ciphertext length does not match ChunkFrameHeaderV1'') (
    throw_if (frame_size > wo_max_shard_payload_len (sw_options w))
      (InvalidArgument ''chunk frame exceeds max_shard_payload_len'') (
    bindr (case wo_before_chunk_write (sw_options w) of
             None \<Rightarrow> Inr ()
           | Some hook \<Rightarrow> hook (fh_global_chunk_index header)) (\<lambda>_.
    Inr frame_size)))))))))"

definition write_chunk_frame ::
  "(bytes \<Rightarrow> bytes \<Rightarrow> bytes option) \<Rightarrow> ChunkFrameHeaderV1 \<Rightarrow> bytes \<Rightarrow> bytes
     \<Rightarrow> (ShardWriter, ShardWritePosition) op" where
  "write_chunk_frame hmac header header_bytes ciphertext_and_tag =
    getS (\<lambda>w.
    bindS (liftS (write_checks w header header_bytes ciphertext_and_tag)) (\<lambda>frame_size.
    let max_len = wo_max_shard_payload_len (sw_options w) in
    bindS (if \<not> sw_stream_open w then open_next_shard (fh_global_chunk_index header)
           else if sw_current_payload_offset w > max_len - frame_size then
             bindS (close_current_shard hmac) (\<lambda>_. open_next_shard (fh_global_chunk_index header))
           else returnS ()) (\<lambda>_.
    getS (\<lambda>w.
    bindS (guardS (fh_shard_index header \<noteq> sw_current_shard_index w)
      (InvalidArgument ''ChunkFrameHeaderV1 shard_index does not match current shard'')) (\<lambda>_.
    let position = \<lparr>wp_shard_index = sw_current_shard_index w,
                    wp_record_offset = sw_current_payload_offset w,
                    wp_chunk_index = fh_global_chunk_index header\<rparr> in
    bindS (write_raw header_bytes) (\<lambda>_.
    bindS (write_raw ciphertext_and_tag) (\<lambda>_.
    bindS (modifyS (\<lambda>w. w\<lparr>
        sw_current_payload_offset := sw_current_payload_offset w + frame_size,
        sw_current_chunk_count := sw_current_chunk_count w + 1,
        sw_next_expected_chunk_index := sw_next_expected_chunk_index w + 1,
        sw_final_chunk_plaintext_len :=
          (if fh_frame_flags header AND kChunkFrameFlagFinalChunk \<noteq> 0
           then ucast (fh_plaintext_len header) else sw_final_chunk_plaintext_len w)\<rparr>)) (\<lambda>_.
    getS (\<lambda>w.
    bindS (if sw_current_payload_offset w \<ge> max_len then close_current_shard hmac else returnS ()) (\<lambda>_.
    returnS position))))))))))"

definition plan_chunk_frame ::
  "u64 \<Rightarrow> u64 \<Rightarrow> u64 \<Rightarrow> u16 \<Rightarrow> bool \<Rightarrow> (ShardWriter, PlannedChunkFrame) op" where
  "plan_chunk_frame chunk_index plaintext_len ciphertext_len tag_len final_chunk =
    getS (\<lambda>w.
    bindS (guardS (sw_finished w) (Error ''cannot plan frame for finalized ShardWriter'')) (\<lambda>_.
    bindS (guardS (chunk_index \<noteq> sw_planned_next_chunk_index w)
      (InvalidArgument ''ShardWriter frame planner requires contiguous ascending chunk indexes'')) (\<lambda>_.
    bindS (guardS (plaintext_len > ucast (gh_chunk_plain_size (wo_global_header (sw_options w))))
      (InvalidArgument ''chunk plaintext_len exceeds archive chunk_plain_size'')) (\<lambda>_.
    bindS (guardS (plaintext_len > ucast u32_max)
      (InvalidArgument ''chunk plaintext_len does not fit ChunkFrameHeaderV1'')) (\<lambda>_.
    let header = \<lparr>fh_frame_flags = (if final_chunk then kChunkFrameFlagFinalChunk else 0),
                  fh_shard_index = sw_planned_shard_index w, fh_global_chunk_index = chunk_index,
                  fh_plaintext_len = ucast plaintext_len, fh_ciphertext_len = ciphertext_len,
                  fh_tag_len = tag_len\<rparr>;
        max_len = wo_max_shard_payload_len (sw_options w) in
    bindS (liftS (chunk_frame_v1_encoded_size header)) (\<lambda>frame_size.
    bindS (guardS (frame_size > max_len)
      (InvalidArgument ''chunk frame exceeds max_shard_payload_len'')) (\<lambda>_.
    bindS (if sw_planned_payload_offset w > max_len - frame_size then
             modifyS (\<lambda>w. w\<lparr>sw_planned_shard_index := sw_planned_shard_index w + 1,
                            sw_planned_payload_offset := 0\<rparr>)
           else returnS ()) (\<lambda>_.
    getS (\<lambda>w.
    let header = header\<lparr>fh_shard_index := sw_planned_shard_index w\<rparr> in
    bindS (liftS (serialize_chunk_frame_header_v1 header)) (\<lambda>header_bytes.
    let planned = \<lparr>pf_position = \<lparr>wp_shard_index = fh_shard_index header,
                     wp_record_offset = sw_planned_payload_offset w, wp_chunk_index = chunk_index\<rparr>,
                   pf_header = header, pf_header_bytes = header_bytes\<rparr> in
    bindS (modifyS (\<lambda>w. w\<lparr>sw_planned_payload_offset := sw_planned_payload_offset w + frame_size,
        sw_planned_next_chunk_index := sw_planned_next_chunk_index w + 1\<rparr>)) (\<lambda>_.
    returnS planned)))))))))))"

subsection \<open>Completion\<close>

definition final_global_header :: "ShardWriter \<Rightarrow> GlobalPublicHeaderV1 result" where
  "final_global_header w =
    (let total_chunks = sw_next_expected_chunk_index w;
         final_global = (wo_global_header (sw_options w))
           \<lparr>gh_global_chunk_count := total_chunks,
            gh_shard_count := of_nat (length (sw_finalized_shards w))\<rparr> in
     if total_chunks > 0 \<and> sw_final_chunk_plaintext_len w > 0 then
       bindr (checked_mul_u64 (total_chunks - 1) (ucast (gh_chunk_plain_size final_global))
                ''ShardWriter: padded plaintext size'') (\<lambda>full.
       bindr (checked_add_u64 full (sw_final_chunk_plaintext_len w)
                ''ShardWriter: padded plaintext size'') (\<lambda>padded.
       Inr (final_global\<lparr>gh_final_plaintext_chunk_len := ucast (sw_final_chunk_plaintext_len w),
              gh_padded_plaintext_size := padded\<rparr>)))
     else Inr final_global)"

definition run_flush ::
  "(path \<Rightarrow> DurabilityMode \<Rightarrow> bool result) option \<Rightarrow> path \<Rightarrow> DurabilityMode \<Rightarrow> (ShardWriter, unit) op" where
  "run_flush hook p mode =
    (case hook of
       None \<Rightarrow> returnS ()
     | Some f \<Rightarrow> if mode = DurabilityOff then returnS ()
                 else bindS (liftS (f p mode)) (\<lambda>_. returnS ()))"

fun rewrite_finalized ::
  "(bytes \<Rightarrow> bytes \<Rightarrow> bytes option) \<Rightarrow> GlobalPublicHeaderV1 \<Rightarrow> bytes \<Rightarrow> FinalizedShard list
     \<Rightarrow> (ShardWriter, unit) op" where
  "rewrite_finalized hmac final_global header_image [] = returnS ()"
| "rewrite_finalized hmac final_global header_image (fs # rest) =
    bindS (on_disk (fs_open_rw (fz_path fs))) (\<lambda>ok.
    bindS (guardS (\<not> ok) (Error ''failed to reopen finalized shard for global header update: '')) (\<lambda>_.
    bindS (on_disk (fs_write_at (fz_path fs) 0 header_image)) (\<lambda>ok.
    bindS (guardS (\<not> ok) (Error ''failed to rewrite global header in finalized shard: '')) (\<lambda>_.
    bindS (rewrite_shard_header hmac (fz_path fs) final_global (fz_shard_index fs)
             (fz_first_chunk_index fs) (fz_chunk_count fs) (fz_payload_len fs)) (\<lambda>_.
    getS (\<lambda>w.
    bindS (run_flush (dh_flush_file (wo_durability_hooks (sw_options w))) (fz_path fs)
             (wo_durability_mode (sw_options w))) (\<lambda>_.
    rewrite_finalized hmac final_global header_image rest)))))))"

definition finish :: "(bytes \<Rightarrow> bytes \<Rightarrow> bytes option) \<Rightarrow> (ShardWriter, unit) op" where
  "finish hmac =
    getS (\<lambda>w.
    if sw_finished w then returnS ()
    else
      bindS (close_current_shard hmac) (\<lambda>_.
      getS (\<lambda>w.
      bindS (liftS (final_global_header w)) (\<lambda>final_global.
      bindS (liftS (serialize_global_public_header final_global)) (\<lambda>global_bytes.
      bindS (rewrite_finalized hmac final_global global_bytes (sw_finalized_shards w)) (\<lambda>_.
      bindS (run_flush (dh_flush_dir (wo_durability_hooks (sw_options w)))
               (wo_output_dir (sw_options w)) (wo_durability_mode (sw_options w))) (\<lambda>_.
      modifyS (\<lambda>w. w\<lparr>sw_finished := True\<rparr>))))))))"

fun remove_all_shards :: "path list \<Rightarrow> disk \<Rightarrow> disk" where
  "remove_all_shards [] d = d"
| "remove_all_shards (p # ps) d = remove_all_shards ps (snd (fs_remove p d))"

definition abort_and_remove_created_shards_noexcept :: "ShardWriter \<Rightarrow> ShardWriter" where
  "abort_and_remove_created_shards_noexcept w =
    (let d = (if sw_current_path w \<noteq> [] then snd (fs_remove (sw_current_path w) (sw_disk w))
              else sw_disk w)
     in w\<lparr>sw_stream_open := False, sw_current_path := [], sw_finalized_shards := [],
          sw_disk := remove_all_shards (map fz_path (sw_finalized_shards w)) d\<rparr>)"

text \<open>The destructor completes the archive and ignores exceptions.\<close>

definition destroy_ShardWriter :: "(bytes \<Rightarrow> bytes \<Rightarrow> bytes option) \<Rightarrow> ShardWriter \<Rightarrow> ShardWriter" where
  "destroy_ShardWriter hmac w = snd (finish hmac w)"

subsection \<open>What the writer owns\<close>

text \<open>
  The files a writer has created: the current shard and the finalized ones.  \<open>owns d0\<close> says that
  none of them existed on the disk \<open>d0\<close> the writer started from, and that every other file still
  has the contents it had there.
\<close>

definition created :: "ShardWriter \<Rightarrow> path set" where
  "created w = (if sw_current_path w = [] then {} else {sw_current_path w})
     \<union> fz_path ` set (sw_finalized_shards w)"

definition owns :: "disk \<Rightarrow> ShardWriter \<Rightarrow> bool" where
  "owns d0 w \<longleftrightarrow> wo_output_dir (sw_options w) \<noteq> []
     \<and> (sw_stream_open w \<longrightarrow> sw_current_path w \<noteq> [])
     \<and> (\<forall>p\<in>created w. dk_files d0 p = None)
     \<and> (\<forall>q. q \<notin> created w \<longrightarrow> dk_files (sw_disk w) q = dk_files d0 q)"

lemma owns_disk_step:
  "owns d0 w \<Longrightarrow> p \<in> created w \<Longrightarrow> (\<And>q. q \<noteq> p \<Longrightarrow> dk_files d q = dk_files (sw_disk w) q)
     \<Longrightarrow> owns d0 (w\<lparr>sw_disk := d\<rparr>)"
proof -
  assume w: "owns d0 w" and p: "p \<in> created w" and d: "\<And>q. q \<noteq> p \<Longrightarrow> dk_files d q = dk_files (sw_disk w) q"
  have c: "created (w\<lparr>sw_disk := d\<rparr>) = created w" by (simp add: created_def)
  have "dk_files d q = dk_files d0 q" if "q \<notin> created w" for q
  proof -
    have "q \<noteq> p" using p that by blast
    then show ?thesis using d that w by (simp add: owns_def)
  qed
  then show ?thesis using w by (simp add: owns_def c)
qed

lemma spec_on_disk:
  assumes "\<And>w. P w \<Longrightarrow> Q (fst (f (sw_disk w))) (w\<lparr>sw_disk := snd (f (sw_disk w))\<rparr>)"
  shows "spec P (on_disk f) Q E"
  using assms by (auto simp: spec_def on_disk_def split: prod.splits) (metis fst_conv snd_conv)

lemma owns_frames:
  assumes "owns d0 w"
  shows "p \<in> created w \<Longrightarrow> owns d0 (w\<lparr>sw_disk := snd (fs_append p bs (sw_disk w))\<rparr>)"
    "p \<in> created w \<Longrightarrow> owns d0 (w\<lparr>sw_disk := snd (fs_write_at p off bs (sw_disk w))\<rparr>)"
    "p \<in> created w \<Longrightarrow> owns d0 (w\<lparr>sw_disk := snd (fs_remove p (sw_disk w))\<rparr>)"
    "owns d0 (w\<lparr>sw_disk := snd (fs_open_rw p (sw_disk w))\<rparr>)"
    "owns d0 (w\<lparr>sw_disk := snd (draw_name (sw_disk w))\<rparr>)"
proof -
  show "p \<in> created w \<Longrightarrow> owns d0 (w\<lparr>sw_disk := snd (fs_append p bs (sw_disk w))\<rparr>)"
    by (rule owns_disk_step [OF assms]) (assumption, rule fs_frame(3))
  show "p \<in> created w \<Longrightarrow> owns d0 (w\<lparr>sw_disk := snd (fs_write_at p off bs (sw_disk w))\<rparr>)"
    by (rule owns_disk_step [OF assms]) (assumption, rule fs_frame(2))
  show "p \<in> created w \<Longrightarrow> owns d0 (w\<lparr>sw_disk := snd (fs_remove p (sw_disk w))\<rparr>)"
    by (rule owns_disk_step [OF assms]) (assumption, rule fs_frame(4))
qed (use assms in \<open>simp_all add: owns_def created_def fs_frame\<close>)

definition owns_open :: "disk \<Rightarrow> ShardWriter \<Rightarrow> bool" where
  "owns_open d0 w \<longleftrightarrow> owns d0 w \<and> sw_stream_open w"

lemma owns_open_path: "owns_open d0 w \<Longrightarrow> sw_current_path w \<in> created w"
  by (auto simp: owns_open_def owns_def created_def)

lemma owns_stream_good [simp]: "owns d0 (w\<lparr>sw_stream_good := b\<rparr>) = owns d0 w"
  by (simp add: owns_def created_def)

lemma write_raw_owns: "spec (owns_open d0) (write_raw bs) (\<lambda>_. owns_open d0) (owns d0)"
proof -
  have "case write_raw bs w of (Inr x, w') \<Rightarrow> owns_open d0 w' | (Inl e, w') \<Rightarrow> owns d0 w'"
    if w: "owns_open d0 w" for w
  proof (cases "fs_append (sw_current_path w) bs (sw_disk w)")
    case (Pair ok d)
    have "owns d0 (w\<lparr>sw_disk := d\<rparr>)"
      using owns_frames(1) [of d0 w "sw_current_path w" bs] w owns_open_path [OF w] Pair by (simp add: owns_open_def)
    then show ?thesis
      using w Pair by (auto simp: write_raw_def bindS_def op_defs on_disk_def owns_open_def)
  qed
  then show ?thesis by (simp add: spec_def)
qed

lemma path_append_nonempty: "a \<noteq> [] \<Longrightarrow> path_append a b \<noteq> []"
  by (auto simp: path_append_def is_absolute_def)

text \<open>Between frames no file is half open: a closed stream has no current path.\<close>

definition settled :: "disk \<Rightarrow> ShardWriter \<Rightarrow> bool" where
  "settled d0 w \<longleftrightarrow> owns d0 w \<and> (\<not> sw_stream_open w \<longrightarrow> sw_current_path w = [])"

lemma owns_open_settled: "owns_open d0 w \<Longrightarrow> settled d0 w"
  by (simp add: owns_open_def settled_def)

lemma settled_owns: "settled d0 w \<Longrightarrow> owns d0 w"
  by (simp add: settled_def)

lemma begin_shard_owns:
  assumes "candidate \<noteq> []" "dk_files d0 candidate = None"
  shows "spec (\<lambda>w. wo_output_dir (sw_options w) \<noteq> [] \<and> sw_current_path w = []
         \<and> (\<forall>p\<in>created w. dk_files d0 p = None)
         \<and> (\<forall>q. q \<notin> created w \<longrightarrow> q \<noteq> candidate \<longrightarrow> dk_files (sw_disk w) q = dk_files d0 q))
    (begin_shard candidate i) (\<lambda>_. owns_open d0) (owns d0)"
  unfolding begin_shard_def
proof (rule spec_bindS [where R = "\<lambda>_. owns_open d0"], goal_cases)
  case 1
  show ?case
    by (rule spec_modifyS) (use assms in \<open>auto simp: owns_open_def owns_def created_def\<close>)
next
  case 2
  have "spec (owns_open d0)
      (bindS (liftS (serialize_global_public_header gh)) (\<lambda>gb.
       bindS (write_raw gb) (\<lambda>_.
       bindS (liftS (serialize_shard_public_header placeholder_shard_header)) write_raw)))
      (\<lambda>_. owns_open d0) (owns d0)" for gh
    by (intro spec_bindS [where R = "\<lambda>_. owns_open d0"] spec_liftS write_raw_owns)
       (simp_all add: owns_open_def)
  then show ?case
    by (intro spec_getS) (rule spec_weaken, assumption, simp_all)
qed

lemma open_attempts_owns:
  "spec (\<lambda>w. owns d0 w \<and> \<not> sw_stream_open w \<and> sw_current_path w = []) (open_attempts n i)
     (\<lambda>_. owns_open d0) (owns d0)"
proof (induction n)
  case 0
  show ?case unfolding open_attempts.simps by (rule spec_throwS) simp
next
  case (Suc n)
  let ?P = "\<lambda>w. owns d0 w \<and> \<not> sw_stream_open w \<and> sw_current_path w = []"
  show ?case
    unfolding open_attempts.simps
  proof (rule spec_bindS [where R = "\<lambda>_. ?P"], goal_cases)
    case 1
    show ?case by (rule spec_on_disk) (simp add: owns_frames)
  next
    case (2 name)
    show ?case
    proof (rule spec_getS, unfold Let_def, rule spec_if, goal_cases)
      case (1 w)
      then show ?case by (intro spec_weaken [OF Suc]) auto
    next
      case (2 w)
      let ?c = "path_append (wo_output_dir (sw_options w)) (name @ wo_filename_extension (sw_options w))"
      have fresh: "dk_files (sw_disk w) ?c = None" and ne: "?c \<noteq> []" and w: "?P w"
        using 2 by (auto simp: owns_def path_append_nonempty)
      have c0: "dk_files d0 ?c = None"
        using fresh w by (cases "?c \<in> created w") (auto simp: owns_def)
      let ?R = "\<lambda>w'. wo_output_dir (sw_options w') \<noteq> [] \<and> sw_current_path w' = []
         \<and> (\<forall>p\<in>created w'. dk_files d0 p = None)
         \<and> (\<forall>q. q \<notin> created w' \<longrightarrow> q \<noteq> ?c \<longrightarrow> dk_files (sw_disk w') q = dk_files d0 q)"
      show ?case
      proof (rule spec_bindS [where R = "\<lambda>ok w'. ?R w' \<and> (\<not> ok \<longrightarrow> owns d0 w')"], goal_cases)
        case 1
        show ?case
          by (rule spec_on_disk)
             (use w in \<open>auto simp: owns_def created_def fs_frame fs_open_trunc_def Let_def\<close>)
      next
        case (2 ok)
        show ?case
          by (rule spec_bindS [where R = "\<lambda>_. ?R"], unfold spec_def guardS_def,
              auto simp: begin_shard_owns [OF ne c0, unfolded spec_def])
      qed
    qed
  qed
qed

lemma open_next_shard_owns:
  "spec (\<lambda>w. owns d0 w \<and> \<not> sw_stream_open w \<and> sw_current_path w = []) (open_next_shard i)
     (\<lambda>_. owns_open d0) (owns d0)"
  unfolding open_next_shard_def
  by (rule spec_getS_inv, rule spec_bindS [OF _ open_attempts_owns]) (rule spec_guardS, auto)

text \<open>Rewriting a header changes the disk at the given path only.\<close>

lemma rewrite_shard_header_frame:
  assumes "\<And>w d. I w \<Longrightarrow> (\<And>q. q \<noteq> p \<Longrightarrow> dk_files d q = dk_files (sw_disk w) q) \<Longrightarrow> I (w\<lparr>sw_disk := d\<rparr>)"
  shows "spec I (rewrite_shard_header hmac p g i f c l) (\<lambda>_. I) I"
proof -
  have "spec I (on_disk (fs_write_at p off bs)) (\<lambda>_. I) I" for off bs
    by (rule spec_on_disk) (rule assms, assumption, rule fs_frame(2))
  then show ?thesis
    unfolding rewrite_shard_header_def Let_def
    by (intro spec_getS_inv spec_bindS [where R = "\<lambda>_. I"] spec_liftS spec_guardS) auto
qed

text \<open>Closing a shard that is closed off, named \<open>p\<close> and still the current one.\<close>

definition closing :: "disk \<Rightarrow> path \<Rightarrow> ShardWriter \<Rightarrow> bool" where
  "closing d0 p w \<longleftrightarrow> owns d0 w \<and> \<not> sw_stream_open w \<and> sw_current_path w = p \<and> p \<noteq> []"

definition idle :: "disk \<Rightarrow> ShardWriter \<Rightarrow> bool" where
  "idle d0 w \<longleftrightarrow> owns d0 w \<and> \<not> sw_stream_open w \<and> sw_current_path w = []"

lemma closing_disk:
  "closing d0 p w \<Longrightarrow> (\<And>q. q \<noteq> p \<Longrightarrow> dk_files d q = dk_files (sw_disk w) q) \<Longrightarrow> closing d0 p (w\<lparr>sw_disk := d\<rparr>)"
  by (simp add: closing_def owns_disk_step [where p = p] created_def)

lemma close_empty_owns:
  "spec (closing d0 p)
     (bindS (on_disk (fs_remove p)) (\<lambda>ok.
      bindS (guardS (\<not> ok) e) (\<lambda>_. modifyS (\<lambda>w. w\<lparr>sw_current_path := []\<rparr>))))
     (\<lambda>_. idle d0) (owns d0)"
proof (rule spec_bindS [where R = "\<lambda>ok w. closing d0 p w \<and> (ok \<longrightarrow> dk_files (sw_disk w) p = None)"], goal_cases)
  case 1
  show ?case
    by (rule spec_on_disk) (use closing_disk fs_frame(4) in \<open>auto simp: fs_remove_def Let_def\<close>)
next
  case (2 ok)
  have "idle d0 (w\<lparr>sw_current_path := []\<rparr>)" if "closing d0 p w" "dk_files (sw_disk w) p = None" for w
    using that by (auto simp: idle_def closing_def owns_def created_def) metis+
  then show ?case
    by (intro spec_bindS [where R = "\<lambda>_ w. closing d0 p w \<and> dk_files (sw_disk w) p = None"]
        spec_guardS spec_modifyS) (auto simp: closing_def)
qed

lemma close_current_shard_owns:
  "spec (settled d0) (close_current_shard hmac) (\<lambda>_. idle d0) (owns d0)"
  unfolding close_current_shard_def
proof (rule spec_getS, intro spec_if, goal_cases)
  case (1 w)
  then show ?case by (auto intro!: spec_returnS simp: settled_def idle_def)
next
  case (2 w)
  have "closing d0 (sw_current_path w) (w\<lparr>sw_stream_open := False\<rparr>)"
    using 2 by (auto simp: closing_def settled_def owns_def created_def)
  then show ?case by (intro spec_bindS [OF _ close_empty_owns] spec_modifyS) auto
next
  case (3 w)
  let ?p = "sw_current_path w"
  have c: "closing d0 ?p (w\<lparr>sw_stream_open := False\<rparr>)"
    using 3 by (auto simp: closing_def settled_def owns_def created_def)
  have opn: "spec (closing d0 ?p) (on_disk (fs_open_rw ?p)) (\<lambda>_. closing d0 ?p) E" for E
    by (rule spec_on_disk) (auto intro: closing_disk simp: fs_frame)
  have rw: "spec (closing d0 ?p) (rewrite_shard_header hmac ?p g i f n l) (\<lambda>_. closing d0 ?p) (owns d0)" for g i f n l
    by (rule spec_weaken [OF rewrite_shard_header_frame [where I = "closing d0 ?p" and p = ?p]], rule closing_disk)
       (auto simp: closing_def)
  show ?case
    by (intro spec_bindS [where R = "\<lambda>_. closing d0 ?p"] opn rw spec_modifyS spec_guardS)
       (use c in \<open>auto simp: closing_def idle_def owns_def created_def\<close>)
qed

lemma idle_settled: "idle d0 w \<Longrightarrow> settled d0 w"
  by (simp add: idle_def settled_def)

lemma owns_counters [simp]:
  "owns d0 (w\<lparr>sw_current_payload_offset := a, sw_current_chunk_count := b,
     sw_next_expected_chunk_index := c, sw_final_chunk_plaintext_len := e\<rparr>) = owns d0 w"
  "owns d0 (w\<lparr>sw_planned_shard_index := i, sw_planned_payload_offset := j\<rparr>) = owns d0 w"
  "owns d0 (w\<lparr>sw_planned_payload_offset := j, sw_planned_next_chunk_index := k\<rparr>) = owns d0 w"
  "owns d0 (w\<lparr>sw_finished := x\<rparr>) = owns d0 w"
  by (simp_all add: owns_def created_def)

lemma roll_over_owns:
  assumes "settled d0 w"
  shows "spec (\<lambda>s. s = w)
     (if \<not> sw_stream_open w then open_next_shard i
      else if c then bindS (close_current_shard hmac) (\<lambda>_. open_next_shard i) else returnS ())
     (\<lambda>_. owns_open d0) (owns d0)"
proof -
  have "spec (settled d0) (bindS (close_current_shard hmac) (\<lambda>_. open_next_shard i)) (\<lambda>_. owns_open d0) (owns d0)"
    using open_next_shard_owns [of d0 i]
    by (intro spec_bindS [OF close_current_shard_owns]) (simp add: idle_def [abs_def])
  moreover have "spec (\<lambda>s. s = w) (open_next_shard i) (\<lambda>_. owns_open d0) (owns d0)" if "\<not> sw_stream_open w"
    by (rule spec_at [OF open_next_shard_owns]) (use assms that in \<open>simp add: settled_def\<close>)
  ultimately show ?thesis
    using assms by (auto intro: spec_at spec_returnS simp: settled_def owns_open_def)
qed

lemma write_tail_owns:
  "spec (owns_open d0)
     (getS (\<lambda>w. bindS (if c w then close_current_shard hmac else returnS ()) (\<lambda>_. returnS x)))
     (\<lambda>_. settled d0) (owns d0)"
proof (rule spec_getS_inv, rule spec_bindS [where R = "\<lambda>_. settled d0"], goal_cases)
  case (1 w)
  show ?case
    by (intro spec_if spec_returnS spec_weaken [OF close_current_shard_owns])
       (auto intro: owns_open_settled idle_settled)
qed (auto intro: spec_returnS)

lemma write_chunk_frame_owns:
  "spec (settled d0) (write_chunk_frame hmac h hb ct) (\<lambda>_. settled d0) (owns d0)"
  unfolding write_chunk_frame_def Let_def
proof (rule spec_getS, goal_cases)
  case (1 w)
  show ?case
  proof (rule spec_bindS [where R = "\<lambda>_ s. s = w"], goal_cases)
    case 1
    show ?case by (rule spec_liftS) (use \<open>settled d0 w\<close> in \<open>auto simp: settled_def\<close>)
  next
    case (2 n)
    show ?case
      by (rule spec_bindS [OF roll_over_owns [OF \<open>settled d0 w\<close>]], rule spec_getS_inv,
          intro spec_bindS [where R = "\<lambda>_. owns_open d0"] spec_guardS spec_modifyS write_raw_owns write_tail_owns)
         (auto simp: owns_open_def)
  qed
qed

lemma plan_chunk_frame_settled:
  "spec (settled d0) (plan_chunk_frame i pl cl tagl fin) (\<lambda>_. settled d0) (settled d0)"
  unfolding plan_chunk_frame_def Let_def
  by (intro spec_getS_inv spec_bindS [where R = "\<lambda>_. settled d0"] spec_if spec_guardS spec_liftS
        spec_modifyS spec_returnS)
     (auto simp: settled_def)

lemma run_flush_keeps: "spec I (run_flush hook p mode) (\<lambda>_. I) I"
  unfolding run_flush_def
  by (cases hook) (auto intro!: spec_returnS spec_bindS [where R = "\<lambda>_. I"] spec_liftS)

lemma rewrite_finalized_owns:
  "fz_path ` set fzs \<subseteq> ps \<Longrightarrow>
   spec (\<lambda>w. idle d0 w \<and> ps \<subseteq> created w) (rewrite_finalized hmac g hb fzs)
     (\<lambda>_ w. idle d0 w \<and> ps \<subseteq> created w) (owns d0)"
proof (induction fzs)
  case Nil
  show ?case unfolding rewrite_finalized.simps by (rule spec_returnS)
next
  case (Cons fs fzs)
  let ?I = "\<lambda>w. idle d0 w \<and> ps \<subseteq> created w"
  have step: "?I (w\<lparr>sw_disk := d\<rparr>)"
    if "?I w" "\<And>q. q \<noteq> fz_path fs \<Longrightarrow> dk_files d q = dk_files (sw_disk w) q" for w d
    using that Cons.prems owns_disk_step [of d0 w "fz_path fs" d]
    by (auto simp: idle_def created_def)
  have opn: "spec ?I (on_disk (fs_open_rw (fz_path fs))) (\<lambda>_. ?I) (owns d0)"
    by (rule spec_on_disk) (rule step, auto simp: fs_frame)
  have wr: "spec ?I (on_disk (fs_write_at (fz_path fs) 0 hb)) (\<lambda>_. ?I) (owns d0)"
    by (rule spec_on_disk) (rule step, auto simp: fs_frame)
  have rw: "spec ?I (rewrite_shard_header hmac (fz_path fs) g i f n l) (\<lambda>_. ?I) (owns d0)" for i f n l
    by (rule spec_weaken [OF rewrite_shard_header_frame [where I = ?I and p = "fz_path fs"]], rule step)
       (auto simp: idle_def)
  have fl: "spec ?I (run_flush hook p m) (\<lambda>_. ?I) (owns d0)" for hook p m
    by (rule spec_weaken [OF run_flush_keeps [where I = ?I]]) (auto simp: idle_def)
  have IH: "spec ?I (rewrite_finalized hmac g hb fzs) (\<lambda>_. ?I) (owns d0)"
    using Cons by simp
  show ?case
    unfolding rewrite_finalized.simps
    by (intro spec_getS_inv spec_bindS [where R = "\<lambda>_. ?I"] opn wr rw fl IH spec_guardS) (auto simp: idle_def)
qed

lemma finish_owns: "spec (settled d0) (finish hmac) (\<lambda>_. settled d0) (owns d0)"
  unfolding finish_def
proof (rule spec_getS_inv, intro spec_if, goal_cases)
  case (1 w)
  show ?case by (rule spec_returnS)
next
  case (2 w)
  show ?case
  proof (rule spec_bindS [OF close_current_shard_owns], rule spec_getS, goal_cases)
    case (1 _ w)
    let ?ps = "fz_path ` set (sw_finalized_shards w)"
    let ?I = "\<lambda>w. idle d0 w \<and> ?ps \<subseteq> created w"
    have "?I w" using 1 by (auto simp: created_def)
    moreover have "spec ?I (run_flush hook p m) (\<lambda>_. ?I) (owns d0)" for hook p m
      by (rule spec_weaken [OF run_flush_keeps [where I = ?I]]) (auto simp: idle_def)
    ultimately show ?case
      by (intro spec_bindS [where R = "\<lambda>_ s. ?I s"] rewrite_finalized_owns spec_liftS spec_modifyS)
         (auto simp: idle_def settled_def)
  qed
qed

text \<open>The calls a pipeline makes on its writer; the first that throws ends the run.\<close>

datatype writer_call =
    WriteFrame ChunkFrameHeaderV1 bytes bytes
  | PlanFrame u64 u64 u64 u16 bool
  | Finish

fun call_writer :: "(bytes \<Rightarrow> bytes \<Rightarrow> bytes option) \<Rightarrow> writer_call \<Rightarrow> (ShardWriter, unit) op" where
  "call_writer hmac (WriteFrame h hb ct) = bindS (write_chunk_frame hmac h hb ct) (\<lambda>_. returnS ())"
| "call_writer hmac (PlanFrame i pl cl tagl fin) = bindS (plan_chunk_frame i pl cl tagl fin) (\<lambda>_. returnS ())"
| "call_writer hmac Finish = finish hmac"

fun run_calls :: "(bytes \<Rightarrow> bytes \<Rightarrow> bytes option) \<Rightarrow> writer_call list \<Rightarrow> (ShardWriter, unit) op" where
  "run_calls hmac [] = returnS ()"
| "run_calls hmac (c # cs) = bindS (call_writer hmac c) (\<lambda>_. run_calls hmac cs)"

lemma call_writer_owns: "spec (settled d0) (call_writer hmac c) (\<lambda>_. settled d0) (owns d0)"
proof (cases c)
  case (WriteFrame h hb ct)
  show ?thesis
    unfolding WriteFrame call_writer.simps by (rule spec_bindS [OF write_chunk_frame_owns]) (rule spec_returnS)
next
  case (PlanFrame i pl cl tagl fin)
  have "spec (settled d0) (plan_chunk_frame i pl cl tagl fin) (\<lambda>_. settled d0) (owns d0)"
    by (rule spec_weaken [OF plan_chunk_frame_settled]) (auto simp: settled_def)
  then show ?thesis
    unfolding PlanFrame call_writer.simps by (rule spec_bindS) (rule spec_returnS)
next
  case Finish
  show ?thesis unfolding Finish call_writer.simps by (rule finish_owns)
qed

lemma run_calls_owns: "spec (settled d0) (run_calls hmac cs) (\<lambda>_. settled d0) (owns d0)"
proof (induction cs)
  case Nil
  show ?case unfolding run_calls.simps by (rule spec_returnS)
next
  case (Cons c cs)
  then show ?case unfolding run_calls.simps by (rule spec_bindS [OF call_writer_owns])
qed

lemma new_ShardWriter_settled: "new_ShardWriter opts d0 = Inr w \<Longrightarrow> settled d0 w"
  by (auto simp: new_ShardWriter_def validate_and_normalize_options_def Let_def initial_writer_def
      settled_def owns_def created_def bindr_eq_Inr throw_if_eq_Inr fs_create_directories_def split: if_splits)

lemma remove_all_shards_frame: "q \<notin> set ps \<Longrightarrow> dk_files (remove_all_shards ps d) q = dk_files d q"
  by (induction ps arbitrary: d) (simp_all add: fs_frame)

lemma remove_all_shards_gone:
  "\<forall>t\<ge>dk_clock d. dk_fault d t = None \<Longrightarrow> dk_files d q = None \<or> q \<in> set ps
     \<Longrightarrow> dk_files (remove_all_shards ps d) q = None"
proof (induction ps arbitrary: d)
  case (Cons p ps)
  have "dk_files (snd (fs_remove p d)) q = None \<or> q \<in> set ps"
    using Cons.prems by (auto simp: fs_remove_def Let_def)
  moreover have "\<forall>t\<ge>dk_clock (snd (fs_remove p d)). dk_fault (snd (fs_remove p d)) t = None"
    using Cons.prems(1) by (auto simp: fs_static) (auto simp: fs_remove_def Let_def split: if_splits)
  ultimately show ?case using Cons.IH by simp
qed simp

lemma abort_frame:
  assumes "owns d0 w"
  shows "q \<notin> created w \<Longrightarrow> dk_files (sw_disk (abort_and_remove_created_shards_noexcept w)) q = dk_files d0 q"
    "\<forall>t\<ge>dk_clock (sw_disk w). dk_fault (sw_disk w) t = None \<Longrightarrow> q \<in> created w
       \<Longrightarrow> dk_files (sw_disk (abort_and_remove_created_shards_noexcept w)) q = None"
proof -
  let ?d = "if sw_current_path w \<noteq> [] then snd (fs_remove (sw_current_path w) (sw_disk w)) else sw_disk w"
  have a: "sw_disk (abort_and_remove_created_shards_noexcept w) =
      remove_all_shards (map fz_path (sw_finalized_shards w)) ?d"
    by (simp add: abort_and_remove_created_shards_noexcept_def Let_def)
  {
    assume q: "q \<notin> created w"
    have "dk_files ?d q = dk_files (sw_disk w) q" using q by (auto simp: created_def intro!: fs_frame(4))
    then show "dk_files (sw_disk (abort_and_remove_created_shards_noexcept w)) q = dk_files d0 q"
      unfolding a using q assms by (subst remove_all_shards_frame) (auto simp: created_def owns_def)
  }
  {
    assume nf: "\<forall>t\<ge>dk_clock (sw_disk w). dk_fault (sw_disk w) t = None" and q: "q \<in> created w"
    have "\<forall>t\<ge>dk_clock ?d. dk_fault ?d t = None"
      using nf by (simp add: fs_static) (simp add: fs_remove_def Let_def)
    moreover have "dk_files ?d q = None \<or> q \<in> set (map fz_path (sw_finalized_shards w))"
      using q nf by (cases "q \<in> fz_path ` set (sw_finalized_shards w)")
        (auto simp: created_def fs_remove_def Let_def split: if_splits)
    ultimately show "dk_files (sw_disk (abort_and_remove_created_shards_noexcept w)) q = None"
      unfolding a by (rule remove_all_shards_gone)
  }
qed

text \<open>No operation changes the fault schedule of the disk.\<close>

definition keeps_faults :: "(ShardWriter, 'a) op \<Rightarrow> bool" where
  "keeps_faults m \<longleftrightarrow> (\<forall>w. dk_fault (sw_disk (snd (m w))) = dk_fault (sw_disk w))"

lemma keeps_faults_intros:
  "keeps_faults m \<Longrightarrow> (\<And>x. keeps_faults (f x)) \<Longrightarrow> keeps_faults (bindS m f)"
  "(\<And>w. keeps_faults (g w)) \<Longrightarrow> keeps_faults (getS g)"
  "keeps_faults (returnS x)" "keeps_faults (throwS e)" "keeps_faults (liftS r)" "keeps_faults (guardS c e)"
  "keeps_faults m \<Longrightarrow> keeps_faults n \<Longrightarrow> keeps_faults (if c then m else n)"
  "(\<And>d. dk_fault (snd (h d)) = dk_fault d) \<Longrightarrow> keeps_faults (on_disk h)"
  "(\<And>w. sw_disk (k w) = sw_disk w) \<Longrightarrow> keeps_faults (modifyS k)"
  by (auto simp: keeps_faults_def op_defs bindS_def on_disk_def split: prod.splits sum.splits) (metis snd_conv)+

lemma keeps_faults_ops:
  "keeps_faults (write_raw bs)" "keeps_faults (begin_shard p i)" "keeps_faults (open_next_shard i)"
  "keeps_faults (rewrite_shard_header hmac p g j f n l)" "keeps_faults (close_current_shard hmac)"
  "keeps_faults (write_chunk_frame hmac h hb ct)" "keeps_faults (plan_chunk_frame i pl cl tagl fin)"
  "keeps_faults (run_flush hook p mode)" "keeps_faults (rewrite_finalized hmac g hb fzs)"
  "keeps_faults (finish hmac)"
proof -
  show w: "keeps_faults (write_raw bs)" for bs
    unfolding write_raw_def by (intro keeps_faults_intros) (simp_all add: fs_static)
  show b: "keeps_faults (begin_shard p i)" for p i
    unfolding begin_shard_def by (intro keeps_faults_intros w) simp_all
  have "keeps_faults (open_attempts n i)" for n i
    by (induction n) (auto intro!: keeps_faults_intros b simp: fs_static Let_def)
  then show o: "keeps_faults (open_next_shard i)" for i
    unfolding open_next_shard_def by (intro keeps_faults_intros)
  show r: "keeps_faults (rewrite_shard_header hmac p g j f n l)" for p g j f n l
    unfolding rewrite_shard_header_def Let_def by (intro keeps_faults_intros) (simp_all add: fs_static)
  show c: "keeps_faults (close_current_shard hmac)"
    unfolding close_current_shard_def by (intro keeps_faults_intros r) (simp_all add: fs_static)
  show "keeps_faults (write_chunk_frame hmac h hb ct)"
    unfolding write_chunk_frame_def Let_def by (intro keeps_faults_intros w c o) simp_all
  show "keeps_faults (plan_chunk_frame i pl cl tagl fin)"
    unfolding plan_chunk_frame_def Let_def by (intro keeps_faults_intros) simp_all
  show u: "keeps_faults (run_flush hook p mode)" for hook p mode
    unfolding run_flush_def by (cases hook) (auto intro!: keeps_faults_intros)
  show f: "keeps_faults (rewrite_finalized hmac g hb fzs)" for g hb fzs
    by (induction fzs) (auto intro!: keeps_faults_intros r u simp: fs_static)
  show "keeps_faults (finish hmac)"
    unfolding finish_def by (intro keeps_faults_intros c f u) simp_all
qed

lemma run_calls_keeps_faults: "keeps_faults (run_calls hmac cs)"
proof -
  have "keeps_faults (call_writer hmac c)" for c
    by (cases c) (auto intro!: keeps_faults_intros keeps_faults_ops)
  then show ?thesis by (induction cs) (auto intro!: keeps_faults_intros)
qed

text \<open>C15: Whatever calls a pipeline makes on a new \<open>ShardWriter\<close> and wherever the run fails (any fault
  of the file system, any rejected frame, any throwing hook), \<open>abort_and_remove_created_shards_noexcept\<close>
  never changes a file that existed before, and, if the removals themselves succeed, leaves exactly
  the files that were there before the writer was constructed.\<close>
theorem abort_restores_files:
  assumes "new_ShardWriter opts d0 = Inr w0" "run_calls hmac calls w0 = (r, w)"
  shows "(\<forall>q. dk_files d0 q \<noteq> None \<longrightarrow>
           dk_files (sw_disk (abort_and_remove_created_shards_noexcept w)) q = dk_files d0 q)
    \<and> ((\<forall>t\<ge>dk_clock (sw_disk w). dk_fault (sw_disk w) t = None) \<longrightarrow>
         dk_files (sw_disk (abort_and_remove_created_shards_noexcept w)) = dk_files d0)"
proof -
  have "spec (settled d0) (run_calls hmac calls) (\<lambda>_. owns d0) (owns d0)"
    by (rule spec_weaken [OF run_calls_owns]) (auto simp: settled_def)
  then have w: "owns d0 w"
    using spec_snd [of "settled d0" "run_calls hmac calls" "owns d0" w0] new_ShardWriter_settled [OF assms(1)]
      assms(2) by simp
  have c: "dk_files d0 q = None" if "q \<in> created w" for q
    using w that by (simp add: owns_def)
  show ?thesis
  proof (intro conjI allI impI ext)
    fix q assume "dk_files d0 q \<noteq> None"
    then show "dk_files (sw_disk (abort_and_remove_created_shards_noexcept w)) q = dk_files d0 q"
      using abort_frame(1) [OF w, of q] c [of q] by argo
  next
    fix q assume "\<forall>t\<ge>dk_clock (sw_disk w). dk_fault (sw_disk w) t = None"
    then show "dk_files (sw_disk (abort_and_remove_created_shards_noexcept w)) q = dk_files d0 q"
      using abort_frame [OF w, of q] c [of q] by (cases "q \<in> created w") simp_all
  qed
qed

text \<open>A disk that holds one file and fails the fourth operation after five bytes.\<close>

definition sample_disk :: disk where
  "sample_disk = \<lparr>dk_files = [''out/keep'' \<mapsto> [1, 2, 3]], dk_clock = 0,
     dk_fault = [3 \<mapsto> 5], dk_names = (\<lambda>n. replicate (Suc n) (CHR ''a'')), dk_drawn = 0\<rparr>"

definition sample_writer_options :: ShardWriterOptions where
  "sample_writer_options = \<lparr>wo_output_dir = ''out'', wo_max_shard_payload_len = 131184,
     wo_filename_extension = [], wo_global_header = sample_global,
     wo_header_authentication_key = replicate 32 5,
     wo_per_shard_public_header_hashes = [replicate 32 6], wo_durability_mode = DurabilityOff,
     wo_durability_hooks = hooks_noop, wo_before_chunk_write = None\<rparr>"

definition sample_writer :: ShardWriter where
  "sample_writer = initial_writer (sample_writer_options\<lparr>wo_filename_extension := ''.bin''\<rparr>) (sample_disk\<lparr>dk_clock := 1\<rparr>)"

definition sample_frame :: ChunkFrameHeaderV1 where
  "sample_frame = \<lparr>fh_frame_flags = 1, fh_shard_index = 0, fh_global_chunk_index = 0,
     fh_plaintext_len = 1, fh_ciphertext_len = 1, fh_tag_len = 16\<rparr>"

definition sample_run :: ShardWriter where
  "sample_run = snd (run_calls (\<lambda>_ _. Some (replicate 32 0))
     [WriteFrame sample_frame (case serialize_chunk_frame_header_v1 sample_frame of Inr b \<Rightarrow> b) (replicate 17 0)] sample_writer)"

theorem abort_restores_files_witness:
  "file_contents (sw_disk sample_run) ''out/a.bin'' \<noteq> []
     \<and> dk_files (sw_disk (abort_and_remove_created_shards_noexcept sample_run)) = [''out/keep'' \<mapsto> [1, 2, 3]]"
proof -
  let ?call = "WriteFrame sample_frame (case serialize_chunk_frame_header_v1 sample_frame of Inr b \<Rightarrow> b) (replicate 17 0)"
  let ?hmac = "\<lambda>_ _. Some (replicate 32 0)"
  have n: "new_ShardWriter sample_writer_options sample_disk = Inr sample_writer"
    by (simp add: new_ShardWriter_def validate_and_normalize_options_def validate_shard_hash_vector_def
        sample_writer_def sample_writer_options_def sample_global_def all_zero_replicate throw_if_def Let_def
        fs_create_directories_def sample_disk_def)
  have r: "run_calls ?hmac [?call] sample_writer = (fst (run_calls ?hmac [?call] sample_writer), sample_run)"
    by (simp only: sample_run_def prod.collapse)
  have "length (file_contents (sw_disk sample_run) ''out/a.bin'') = 197" by code_simp
  moreover have "dk_clock (sw_disk sample_run) = 4" by code_simp
  moreover have "dk_fault (sw_disk sample_run) = dk_fault sample_disk"
    using run_calls_keeps_faults [of ?hmac "[?call]"]
    by (simp only: keeps_faults_def sample_run_def) (simp add: sample_writer_def initial_writer_def)
  ultimately show ?thesis
    using abort_restores_files [OF n r] by (auto simp: sample_disk_def)
qed

subsection \<open>Planned and written positions\<close>





definition planner :: "ShardWriter \<Rightarrow> ShardWriterOptions \<times> u32 \<times> u64" where
  "planner w = (sw_options w, sw_planned_shard_index w, sw_planned_payload_offset w)"














subsection \<open>What stands on the disk\<close>


























subsection \<open>Sessions\<close>


















end
