(* ===== verification/Shard_Reader.thy ===== *)
theory Shard_Reader
  imports Shard_Frame Path_Sanitizer "HOL-Library.Multiset"
begin

unbundle bit_operations_syntax

text \<open>
  \<^verbatim>\<open>src/io/ShardReader.hpp\<close> and \<^verbatim>\<open>ShardReader.cpp\<close>: finding the shard files of a directory, the checks on
  a set of shards, and reading the chunk frames back in order.  The files are given by a function
  from paths to contents, passed to every operation that opens one: \<open>None\<close> is a file that cannot be
  opened, and nothing forces two operations to see the same contents.  An open stream is the
  contents it reads and the position it has reached.  BLAKE3 and HMAC-SHA256 are parameters.
\<close>

type_synonym file_store = "path \<Rightarrow> bytes option"

record ShardInfo =
  si_path :: path
  si_global_header :: GlobalPublicHeaderV1
  si_shard_header :: ShardPublicHeaderV1
  si_public_header_hash :: bytes
  si_file_size :: u64

definition shard_index :: "ShardInfo \<Rightarrow> u32" where
  "shard_index si = sh_shard_index (si_shard_header si)"

definition first_chunk_index :: "ShardInfo \<Rightarrow> u64" where
  "first_chunk_index si = sh_first_global_chunk_index (si_shard_header si)"

definition chunk_count :: "ShardInfo \<Rightarrow> u64" where
  "chunk_count si = sh_shard_chunk_count (si_shard_header si)"

definition shard_payload_len :: "ShardInfo \<Rightarrow> u64" where
  "shard_payload_len si = sh_shard_payload_len (si_shard_header si)"

record ShardReaderValidation =
  rv_suite_id :: "u16 option"
  rv_archive_id :: "bytes option"
  rv_chunk_plain_size :: "u64 option"
  rv_public_header_hash :: "bytes option"

record ChunkRecord =
  cr_chunk_index :: u64
  cr_shard_index :: u32
  cr_plaintext_size :: u64
  cr_frame_flags :: u16
  cr_frame_header_bytes :: bytes
  cr_ciphertext :: bytes

record ShardReader =
  sr_shards :: "ShardInfo list"
  sr_validation :: ShardReaderValidation
  sr_auth_key :: bytes
  sr_current_shard_pos :: nat
  sr_current_record_in_shard :: u64
  sr_expected_total_chunk_count :: u64
  sr_current_stream :: "(bytes \<times> nat) option"
  sr_seen_chunk_indices :: "u64 set"
  sr_saw_final_chunk :: bool

subsection \<open>One shard file\<close>

text \<open>\<open>path::filename\<close> and \<open>path::extension\<close>: the part of the file name from its last dot, which is
  empty for \<^verbatim>\<open>.\<close>, \<^verbatim>\<open>..\<close> and for a name whose only dot comes first.\<close>

definition path_filename :: "path \<Rightarrow> string" where
  "path_filename p = rev (takeWhile (\<lambda>c. c \<noteq> CHR ''/'') (rev p))"

definition path_extension :: "path \<Rightarrow> string" where
  "path_extension p =
    (let f = path_filename p; stem = dropWhile (\<lambda>c. c \<noteq> CHR ''.'') (rev f) in
     if f = ''..'' \<or> length stem \<le> 1 then [] else drop (length stem - 1) f)"

definition has_bin_extension :: "path \<Rightarrow> bool" where
  "has_bin_extension p \<longleftrightarrow> path_extension p = ''.bin''"

definition read_exact :: "bytes \<times> nat \<Rightarrow> nat \<Rightarrow> string \<Rightarrow> (bytes \<times> (bytes \<times> nat)) result" where
  "read_exact stream cnt message =
    (case stream of (contents, pos) \<Rightarrow>
     throw_if (int cnt > 2 ^ 63 - 1) (InvalidArgument ''read size too large'') (
     throw_if (length (take cnt (drop pos contents)) \<noteq> cnt) (InvalidArgument message)
     (Inr (take cnt (drop pos contents), (contents, pos + cnt)))))"

definition checked_range_end :: "u64 \<Rightarrow> u64 \<Rightarrow> u64 result" where
  "checked_range_end first cnt =
    throw_if (first > u64_max - cnt) (InvalidArgument ''invalid shard chunk range overflow'')
    (Inr (first + cnt))"

definition read_shard_info :: "(bytes \<Rightarrow> bytes) \<Rightarrow> file_store \<Rightarrow> path \<Rightarrow> ShardInfo result" where
  "read_shard_info blake3 files p =
    (case files p of
       None \<Rightarrow> Inl (Error ''failed to open shard file: '')
     | Some contents \<Rightarrow>
       let file_size = (of_nat (length contents) :: u64) in
       bindr (read_exact (contents, 0) kGlobalPublicHeaderV1Size ''truncated global public header'') (\<lambda>(global_bytes, stream).
       bindr (parse_global_public_header global_bytes) (\<lambda>global_header.
       bindr (read_exact stream kShardPublicHeaderV1Size ''truncated shard public header'') (\<lambda>(shard_bytes, stream).
       bindr (parse_shard_public_header shard_bytes) (\<lambda>shard_header.
       throw_if (sh_shard_index shard_header \<ge> gh_shard_count global_header)
         (InvalidArgument ''shard_index >= shard_count'') (
       let expected_file_size = 192 + 80 + sh_shard_payload_len shard_header in
       throw_if (file_size \<noteq> expected_file_size) (InvalidArgument ''file size mismatch'') (
       bindr (compute_public_header_hash blake3 global_header shard_header) (\<lambda>phash.
       Inr \<lparr>si_path = p, si_global_header = global_header, si_shard_header = shard_header,
            si_public_header_hash = phash, si_file_size = file_size\<rparr>))))))))"

subsection \<open>Discovery\<close>

text \<open>A directory: the entries in the order the iterator gives them, with whether each is regular.\<close>

fun read_entries ::
  "(bytes \<Rightarrow> bytes) \<Rightarrow> file_store \<Rightarrow> (path \<times> bool) list \<Rightarrow> ShardInfo list result" where
  "read_entries blake3 files [] = Inr []"
| "read_entries blake3 files ((p, regular) # entries) =
    (if \<not> regular \<or> \<not> has_bin_extension p then read_entries blake3 files entries
     else bindr (read_shard_info blake3 files p) (\<lambda>si.
          bindr (read_entries blake3 files entries) (\<lambda>sis. Inr (si # sis))))"

text \<open>\<open>std::sort\<close> leaves the order of equal indices open; a set with equal indices is rejected later.\<close>

definition discover ::
  "(bytes \<Rightarrow> bytes) \<Rightarrow> file_store \<Rightarrow> (path \<times> bool) list option \<Rightarrow> ShardInfo list result" where
  "discover blake3 files dir =
    (case dir of
       None \<Rightarrow> Inl (InvalidArgument ''input shard directory does not exist: '')
     | Some entries \<Rightarrow>
       bindr (read_entries blake3 files entries) (\<lambda>shards.
       throw_if (shards = []) (InvalidArgument ''no framed .bin shard files found in input directory: '')
       (Inr (sort_key shard_index shards))))"

subsection \<open>Checking a set of shards\<close>

text \<open>The checks on one shard, given the indices seen before it.\<close>

definition check_shard ::
  "(bytes \<Rightarrow> bytes \<Rightarrow> bytes option) \<Rightarrow> bytes \<Rightarrow> ShardReaderValidation \<Rightarrow> nat \<Rightarrow> bytes \<Rightarrow> u32 set \<Rightarrow> ShardInfo
     \<Rightarrow> unit result" where
  "check_shard hmac auth_key v shard_total reference_global_bytes indices shard =
    throw_if (shard_index shard \<in> indices) (InvalidArgument ''duplicate shard index: '') (
    bindr (serialize_global_public_header (si_global_header shard)) (\<lambda>this_global_bytes.
    throw_if (this_global_bytes \<noteq> reference_global_bytes)
      (InvalidArgument ''global header mismatch across shards: '') (
    throw_if (case rv_suite_id v of None \<Rightarrow> False
              | Some x \<Rightarrow> gh_aead_alg_id (si_global_header shard) \<noteq> x)
      (InvalidArgument ''incompatible shard aead_alg_id'') (
    throw_if (case rv_archive_id v of None \<Rightarrow> False
              | Some x \<Rightarrow> gh_archive_id (si_global_header shard) \<noteq> x)
      (InvalidArgument ''archive_id mismatch'') (
    throw_if (case rv_chunk_plain_size v of None \<Rightarrow> False
              | Some x \<Rightarrow> ucast (gh_chunk_plain_size (si_global_header shard)) \<noteq> x)
      (InvalidArgument ''chunk_plain_size mismatch'') (
    throw_if (case rv_public_header_hash v of None \<Rightarrow> False
              | Some x \<Rightarrow> shard_total = 1 \<and> si_public_header_hash shard \<noteq> x)
      (InvalidArgument ''public_header_hash mismatch'') (
    if auth_key = [] then Inr ()
    else bindr (verify_shard_header_mac hmac auth_key (si_global_header shard) (si_shard_header shard)) (\<lambda>ok.
         throw_if (\<not> ok) AuthenticationFailed (Inr ())))))))))"

fun check_shards ::
  "(bytes \<Rightarrow> bytes \<Rightarrow> bytes option) \<Rightarrow> bytes \<Rightarrow> ShardReaderValidation \<Rightarrow> nat \<Rightarrow> bytes \<Rightarrow> u32 set \<Rightarrow> ShardInfo list
     \<Rightarrow> u32 set result" where
  "check_shards hmac auth_key v n ref indices [] = Inr indices"
| "check_shards hmac auth_key v n ref indices (shard # shards) =
    bindr (check_shard hmac auth_key v n ref indices shard) (\<lambda>_.
    check_shards hmac auth_key v n ref (insert (shard_index shard) indices) shards)"

fun check_ranges :: "u64 \<Rightarrow> ShardInfo list \<Rightarrow> u64 result" where
  "check_ranges expected_first_chunk [] = Inr expected_first_chunk"
| "check_ranges expected_first_chunk (shard # shards) =
    bindr (checked_range_end (first_chunk_index shard) (chunk_count shard)) (\<lambda>end_index.
    throw_if (first_chunk_index shard \<noteq> expected_first_chunk)
      (InvalidArgument ''chunk index gap/overlap before shard '')
    (check_ranges end_index shards))"

text \<open>\<open>validate_shards\<close>: the sorted shards and the expected number of chunks.\<close>

definition validate_shards ::
  "(bytes \<Rightarrow> bytes \<Rightarrow> bytes option) \<Rightarrow> bytes \<Rightarrow> ShardReaderValidation \<Rightarrow> ShardInfo list
     \<Rightarrow> (ShardInfo list \<times> u64) result" where
  "validate_shards hmac auth_key v shards =
    throw_if (shards = []) (InvalidArgument ''ShardReader requires at least one shard'') (
    bindr (serialize_global_public_header (si_global_header (hd shards))) (\<lambda>reference_global_bytes.
    bindr (check_shards hmac auth_key v (length shards) reference_global_bytes {} shards) (\<lambda>indices.
    let global = si_global_header (hd shards); cnt = gh_shard_count global in
    throw_if (length shards \<noteq> unat cnt)
      (InvalidArgument ''shard count does not match global_header.shard_count'') (
    throw_if (\<not> list_all (\<lambda>i. of_nat i \<in> indices) [0..<unat cnt])
      (InvalidArgument ''missing shard index: '') (
    let sorted_shards = sort_key shard_index shards in
    bindr (check_ranges 0 sorted_shards) (\<lambda>covered.
    throw_if (covered \<noteq> gh_global_chunk_count global)
      (InvalidArgument ''shard set does not cover global_chunk_count'')
    (Inr (sorted_shards, gh_global_chunk_count global))))))))"

definition new_reader :: "ShardReaderValidation \<Rightarrow> bytes \<Rightarrow> ShardInfo list \<times> u64 \<Rightarrow> ShardReader" where
  "new_reader v key sn =
     \<lparr>sr_shards = fst sn, sr_validation = v, sr_auth_key = key, sr_current_shard_pos = 0,
      sr_current_record_in_shard = 0, sr_expected_total_chunk_count = snd sn,
      sr_current_stream = None, sr_seen_chunk_indices = {}, sr_saw_final_chunk = False\<rparr>"

definition new_ShardReader ::
  "(bytes \<Rightarrow> bytes \<Rightarrow> bytes option) \<Rightarrow> ShardInfo list \<Rightarrow> bytes \<Rightarrow> ShardReaderValidation \<Rightarrow> ShardReader result" where
  "new_ShardReader hmac shards key v =
    throw_if (length key \<noteq> 32 \<or> all_zero key)
      (InvalidArgument ''header_authentication_key must be 32 non-zero bytes'') (
    bindr (validate_shards hmac key v shards) (\<lambda>sn. Inr (new_reader v key sn)))"

subsection \<open>Reading frames\<close>

definition open_current_shard :: "file_store \<Rightarrow> (ShardReader, unit) op" where
  "open_current_shard files =
    getS (\<lambda>r.
    if sr_current_stream r \<noteq> None then returnS ()
    else if sr_current_shard_pos r \<ge> length (sr_shards r) then returnS ()
    else (case files (si_path (sr_shards r ! sr_current_shard_pos r)) of
            None \<Rightarrow> throwS (Error ''failed to open shard for reading: '')
          | Some contents \<Rightarrow>
            modifyS (\<lambda>r. r\<lparr>sr_current_stream := Some (contents, 272), sr_current_record_in_shard := 0\<rparr>)))"

definition close_current_shard_and_check_trailing_garbage :: "(ShardReader, unit) op" where
  "close_current_shard_and_check_trailing_garbage =
    getS (\<lambda>r.
    case sr_current_stream r of
      None \<Rightarrow> returnS ()
    | Some (contents, pos) \<Rightarrow>
      let shard = sr_shards r ! sr_current_shard_pos r; expected_end = 272 + shard_payload_len shard in
      bindS (guardS (of_nat pos \<noteq> expected_end) (InvalidArgument ''shard payload length mismatch: '')) (\<lambda>_.
      bindS (guardS (pos < length contents)
        (InvalidArgument ''trailing garbage after declared chunk frames: '')) (\<lambda>_.
      modifyS (\<lambda>r. r\<lparr>sr_current_stream := None,
         sr_current_shard_pos := sr_current_shard_pos r + 1, sr_current_record_in_shard := 0\<rparr>))))"

text \<open>The checks on a parsed frame header; they record the chunk index and the final marker.\<close>

definition check_frame :: "ShardInfo \<Rightarrow> ChunkFrameHeaderV1 \<Rightarrow> (ShardReader, unit) op" where
  "check_frame shard h =
    bindS (guardS (fh_shard_index h \<noteq> shard_index shard)
      (InvalidArgument ''chunk frame shard_index does not match enclosing shard'')) (\<lambda>_.
    getS (\<lambda>r.
    let expected_chunk_index = first_chunk_index shard + sr_current_record_in_shard r in
    bindS (guardS (fh_global_chunk_index h < expected_chunk_index)
      (InvalidArgument ''duplicate or reordered chunk index'')) (\<lambda>_.
    bindS (guardS (fh_global_chunk_index h \<noteq> expected_chunk_index)
      (InvalidArgument ''missing chunk index'')) (\<lambda>_.
    bindS (guardS (fh_global_chunk_index h \<in> sr_seen_chunk_indices r)
      (InvalidArgument ''duplicate chunk index'')) (\<lambda>_.
    bindS (modifyS (\<lambda>r. r\<lparr>sr_seen_chunk_indices := insert (fh_global_chunk_index h) (sr_seen_chunk_indices r)\<rparr>)) (\<lambda>_.
    bindS (guardS (fh_tag_len h \<noteq> 16) (InvalidArgument ''invalid chunk frame tag length'')) (\<lambda>_.
    bindS (guardS (fh_plaintext_len h > gh_chunk_plain_size (si_global_header shard))
      (InvalidArgument ''invalid chunk frame plaintext_len'')) (\<lambda>_.
    bindS (guardS (fh_ciphertext_len h \<noteq> ucast (fh_plaintext_len h))
      (InvalidArgument ''invalid ciphertext_length'')) (\<lambda>_.
    let is_final = fh_frame_flags h AND kChunkFrameFlagFinalChunk \<noteq> 0;
        should_be_final = sr_expected_total_chunk_count r \<noteq> 0
          \<and> fh_global_chunk_index h = sr_expected_total_chunk_count r - 1 in
    bindS (guardS (is_final \<noteq> should_be_final) (InvalidArgument ''invalid final chunk marker'')) (\<lambda>_.
    if is_final then
      bindS (guardS (sr_saw_final_chunk r) (InvalidArgument ''duplicate final chunk marker'')) (\<lambda>_.
      modifyS (\<lambda>r. r\<lparr>sr_saw_final_chunk := True\<rparr>))
    else guardS (fh_plaintext_len h \<noteq> gh_chunk_plain_size (si_global_header shard))
      (InvalidArgument ''non-final chunk has partial plaintext length'')))))))))))"

definition read_stream :: "nat \<Rightarrow> string \<Rightarrow> (ShardReader, bytes) op" where
  "read_stream cnt message r =
    (case sr_current_stream r of
       None \<Rightarrow> (Inl (InvalidArgument message), r)
     | Some stream \<Rightarrow>
       (case read_exact stream cnt message of
          Inl e \<Rightarrow> (Inl e, r)
        | Inr (bs, stream') \<Rightarrow> (Inr bs, r\<lparr>sr_current_stream := Some stream'\<rparr>)))"

definition stream_pos :: "ShardReader \<Rightarrow> u64" where
  "stream_pos r = (case sr_current_stream r of None \<Rightarrow> 0 | Some (contents, pos) \<Rightarrow> of_nat pos)"

text \<open>The body of the loop for a shard with frames left.\<close>

definition read_frame :: "ShardInfo \<Rightarrow> (ShardReader, ChunkRecord) op" where
  "read_frame shard =
    bindS (read_stream kChunkFrameHeaderV1Size ''truncated frame header'') (\<lambda>header_bytes.
    bindS (liftS (parse_chunk_frame_header_v1 header_bytes)) (\<lambda>h.
    bindS (check_frame shard h) (\<lambda>_.
    bindS (liftS (chunk_frame_v1_encoded_size h)) (\<lambda>encoded_size.
    let body_len = encoded_size - 40; expected_payload_end = 272 + shard_payload_len shard in
    getS (\<lambda>r.
    bindS (guardS (stream_pos r > expected_payload_end \<or> body_len > expected_payload_end - stream_pos r)
      (InvalidArgument ''chunk frame exceeds declared shard payload'')) (\<lambda>_.
    bindS (read_stream (unat body_len) ''truncated ciphertext'') (\<lambda>ciphertext.
    bindS (modifyS (\<lambda>r. r\<lparr>sr_current_record_in_shard := sr_current_record_in_shard r + 1\<rparr>)) (\<lambda>_.
    returnS \<lparr>cr_chunk_index = fh_global_chunk_index h, cr_shard_index = fh_shard_index h,
             cr_plaintext_size = ucast (fh_plaintext_len h), cr_frame_flags = fh_frame_flags h,
             cr_frame_header_bytes = header_bytes, cr_ciphertext = ciphertext\<rparr>))))))))"

definition end_of_archive :: "(ShardReader, ChunkRecord option) op" where
  "end_of_archive =
    getS (\<lambda>r.
    bindS (guardS (of_nat (card (sr_seen_chunk_indices r)) \<noteq> sr_expected_total_chunk_count r)
      (InvalidArgument ''missing chunk index at end of archive'')) (\<lambda>_.
    bindS (guardS (sr_expected_total_chunk_count r \<noteq> 0 \<and> \<not> sr_saw_final_chunk r)
      (InvalidArgument ''missing final chunk marker'')) (\<lambda>_.
    returnS None)))"

text \<open>One round of the loop before the frame is read: the shard is opened, and closed again when all
  its frames have been read, in which case the loop continues.\<close>

definition at_frame :: "file_store \<Rightarrow> (ShardReader, bool) op" where
  "at_frame files =
    getS (\<lambda>r.
    let shard = sr_shards r ! sr_current_shard_pos r in
    bindS (open_current_shard files) (\<lambda>_.
    getS (\<lambda>r.
    if sr_current_record_in_shard r \<ge> chunk_count shard then
      bindS close_current_shard_and_check_trailing_garbage (\<lambda>_. returnS False)
    else returnS True)))"

lemma at_frame_continue:
  assumes "at_frame files r = (Inr False, r')" "sr_current_shard_pos r < length (sr_shards r)"
  shows "sr_current_shard_pos r' = Suc (sr_current_shard_pos r) \<and> sr_shards r' = sr_shards r"
  using assms
  by (auto simp: at_frame_def open_current_shard_def close_current_shard_and_check_trailing_garbage_def
      bindS_Inr op_defs Let_def split: if_splits option.splits prod.splits)

function read_next_chunk_record :: "file_store \<Rightarrow> (ShardReader, ChunkRecord option) op" where
  "read_next_chunk_record files r =
    (if sr_current_shard_pos r < length (sr_shards r) then
       (case at_frame files r of
          (Inl e, r') \<Rightarrow> (Inl e, r')
        | (Inr False, r') \<Rightarrow> read_next_chunk_record files r'
        | (Inr True, r') \<Rightarrow>
            bindS (read_frame (sr_shards r ! sr_current_shard_pos r)) (\<lambda>c. returnS (Some c)) r')
     else end_of_archive r)"
  by pat_completeness auto
termination
  by (relation "measure (\<lambda>(files, r). length (sr_shards r) - sr_current_shard_pos r)")
     (auto dest!: at_frame_continue [OF sym])

definition read_next_cipher_chunk :: "file_store \<Rightarrow> (ShardReader, bytes option) op" where
  "read_next_cipher_chunk files =
    bindS (read_next_chunk_record files) (\<lambda>rec. returnS (map_option cr_ciphertext rec))"

subsection \<open>An accepted set of shards\<close>

lemma check_shard_Inr:
  "check_shard hmac key v n ref idx s = Inr u \<Longrightarrow>
     shard_index s \<notin> idx \<and> serialize_global_public_header (si_global_header s) = Inr ref
     \<and> (key \<noteq> [] \<longrightarrow> verify_shard_header_mac hmac key (si_global_header s) (si_shard_header s) = Inr True)"
  by (auto simp: check_shard_def bindr_eq_Inr throw_if_eq_Inr split: if_splits)

lemma check_shards_Inr:
  "check_shards hmac key v n ref idx shards = Inr idx' \<Longrightarrow>
     distinct (map shard_index shards) \<and> idx \<inter> shard_index ` set shards = {}
     \<and> idx' = idx \<union> shard_index ` set shards
     \<and> (\<forall>s\<in>set shards. serialize_global_public_header (si_global_header s) = Inr ref
         \<and> (key \<noteq> [] \<longrightarrow> verify_shard_header_mac hmac key (si_global_header s) (si_shard_header s) = Inr True))"
proof (induction shards arbitrary: idx)
  case Nil
  then show ?case by simp
next
  case (Cons s shards)
  from Cons.prems obtain u where c: "check_shard hmac key v n ref idx s = Inr u"
    and r: "check_shards hmac key v n ref (insert (shard_index s) idx) shards = Inr idx'"
    by (auto simp: bindr_eq_Inr)
  show ?case using check_shard_Inr [OF c] Cons.IH [OF r] by auto
qed

lemma sorted_indices:
  assumes "distinct (map shard_index shards)" "length shards = n" "\<forall>i<n. of_nat i \<in> shard_index ` set shards"
    "n < 2 ^ 32"
  shows "map shard_index (sort_key shard_index shards) = map of_nat [0..<n]"
proof (rule sorted_distinct_set_unique)
  let ?w = "of_nat :: nat \<Rightarrow> u32"
  have u: "unat (?w i) = i" if "i < n" for i using that assms(4) by (simp add: unat_of_nat_u32)
  have inj: "inj_on ?w {0..<n}" by (rule inj_onI) (metis atLeastLessThan_iff u)
  have "?w ` {0..<n} = set (map shard_index shards)"
  proof (rule card_subset_eq)
    show "card (?w ` {0..<n}) = card (set (map shard_index shards))"
      using inj assms(2) by (simp only: card_image distinct_card [OF assms(1)]) simp
  qed (use assms(3) in auto)
  then show "set (map shard_index (sort_key shard_index shards)) = set (map ?w [0..<n])" by simp
  show "sorted (map shard_index (sort_key shard_index shards))" by simp
  show "distinct (map shard_index (sort_key shard_index shards))"
    using assms(1) by (simp add: distinct_map)
  show "sorted (map ?w [0..<n])" by (simp add: sorted_iff_nth_mono word_le_nat_alt u)
  show "distinct (map ?w [0..<n])" using inj by (simp add: distinct_map)
qed

text \<open>The chunks before a shard, and the shards as a partition of the chunk indices.\<close>

definition chunks_before :: "ShardInfo list \<Rightarrow> nat \<Rightarrow> nat" where
  "chunks_before shards k = (\<Sum>s\<leftarrow>take k shards. unat (chunk_count s))"

lemma chunks_before_Suc:
  "k < length shards \<Longrightarrow> chunks_before shards (Suc k) = chunks_before shards k + unat (chunk_count (shards ! k))"
  by (simp add: chunks_before_def take_Suc_conv_app_nth)

lemma chunks_before_mono: "chunks_before shards k \<le> chunks_before shards (length shards)"
proof -
  have "chunks_before shards (length shards) = chunks_before shards k + (\<Sum>s\<leftarrow>drop k shards. unat (chunk_count s))"
    by (simp add: chunks_before_def flip: sum_list_append map_append)
  then show ?thesis by simp
qed

lemma checked_range_end_Inr:
  "checked_range_end f c = Inr e \<longleftrightarrow> unat f + unat c < 2 ^ 64 \<and> e = f + c"
  by (auto simp: checked_range_end_def throw_if_eq_Inr u64_gt_max_minus)

lemma check_ranges_Inr:
  "check_ranges e shards = Inr t \<Longrightarrow>
     (\<forall>k<length shards. unat (first_chunk_index (shards ! k)) = unat e + chunks_before shards k)
     \<and> unat t = unat e + chunks_before shards (length shards)"
proof (induction shards arbitrary: e)
  case Nil
  then show ?case by (simp add: chunks_before_def)
next
  case (Cons s shards)
  from Cons.prems have c: "unat (first_chunk_index s) + unat (chunk_count s) < 2 ^ 64" "first_chunk_index s = e"
    and r: "check_ranges (first_chunk_index s + chunk_count s) shards = Inr t"
    by (auto simp: bindr_eq_Inr throw_if_eq_Inr checked_range_end_Inr)
  have u: "unat (first_chunk_index s + chunk_count s) = unat e + unat (chunk_count s)"
    using c by (subst unat_plus_no_overflow) simp_all
  show ?case
    using Cons.IH [OF r] c(2) unfolding u by (auto simp: chunks_before_def less_Suc_eq_0_disj)
qed

definition accepted ::
  "(bytes \<Rightarrow> bytes \<Rightarrow> bytes option) \<Rightarrow> bytes \<Rightarrow> ShardInfo list \<Rightarrow> u64 \<Rightarrow> bool" where
  "accepted hmac key shards n_chunks \<longleftrightarrow>
     shards \<noteq> []
     \<and> map shard_index shards = map of_nat [0..<length shards]
     \<and> (\<exists>g. \<forall>s\<in>set shards. serialize_global_public_header (si_global_header s) = Inr g)
     \<and> (\<forall>s\<in>set shards. verify_shard_header_mac hmac key (si_global_header s) (si_shard_header s) = Inr True)
     \<and> (\<forall>k<length shards. unat (first_chunk_index (shards ! k)) = chunks_before shards k)
     \<and> chunks_before shards (length shards) = unat n_chunks"

lemma validate_shards_Inr:
  assumes "validate_shards hmac key v shards = Inr (shards', n_chunks)" "key \<noteq> []"
  shows "accepted hmac key shards' n_chunks \<and> mset shards' = mset shards
    \<and> n_chunks = gh_global_chunk_count (si_global_header (hd shards))
    \<and> length shards = unat (gh_shard_count (si_global_header (hd shards)))"
proof -
  let ?g = "si_global_header (hd shards)"
  from assms(1) obtain ref idx where ne: "shards \<noteq> []"
    and c: "check_shards hmac key v (length shards) ref {} shards = Inr idx"
    and n: "length shards = unat (gh_shard_count ?g)"
    and all: "\<forall>i<length shards. of_nat i \<in> idx"
    and s': "shards' = sort_key shard_index shards"
    and r: "check_ranges 0 (sort_key shard_index shards) = Inr n_chunks"
    and t: "n_chunks = gh_global_chunk_count ?g"
    by (auto simp: validate_shards_def bindr_eq_Inr throw_if_eq_Inr Let_def list_all_iff)
  note cs = check_shards_Inr [OF c]
  have "map shard_index shards' = map of_nat [0..<length shards]"
    unfolding s' by (rule sorted_indices) (use cs all n unat_u32_lt [of "gh_shard_count ?g"] in auto)
  moreover have "set shards' = set shards" "length shards' = length shards" by (simp_all add: s')
  ultimately show ?thesis
    using check_ranges_Inr [OF r] cs assms(2) ne n t by (auto simp: accepted_def s' mset_sort)
qed

subsection \<open>Reading an accepted set\<close>

declare read_next_chunk_record.simps [simp del]

text \<open>The reader has returned \<open>n\<close> chunks; what it remembers agrees with that.\<close>

definition reader_at :: "ShardReader \<Rightarrow> nat \<Rightarrow> bool" where
  "reader_at r n \<longleftrightarrow>
     sr_current_shard_pos r \<le> length (sr_shards r)
     \<and> (sr_current_stream r \<noteq> None \<longrightarrow> sr_current_shard_pos r < length (sr_shards r)
          \<and> sr_current_record_in_shard r \<le> chunk_count (sr_shards r ! sr_current_shard_pos r))
     \<and> (sr_current_stream r = None \<longrightarrow> sr_current_record_in_shard r = 0)
     \<and> n = chunks_before (sr_shards r) (sr_current_shard_pos r) + unat (sr_current_record_in_shard r)
     \<and> sr_seen_chunk_indices r = of_nat ` {..<n}
     \<and> (sr_saw_final_chunk r \<longleftrightarrow> sr_expected_total_chunk_count r \<noteq> 0 \<and> n = unat (sr_expected_total_chunk_count r))"

definition same_archive :: "ShardReader \<Rightarrow> ShardReader \<Rightarrow> bool" where
  "same_archive r r' \<longleftrightarrow> sr_shards r' = sr_shards r
     \<and> sr_expected_total_chunk_count r' = sr_expected_total_chunk_count r"

lemma open_current_shard_Inr:
  assumes "open_current_shard files r = (Inr u, r')" "sr_current_shard_pos r < length (sr_shards r)"
  obtains (same) "sr_current_stream r \<noteq> None" "r' = r"
  | (opened) st where "sr_current_stream r = None"
      "r' = r\<lparr>sr_current_stream := Some st, sr_current_record_in_shard := 0\<rparr>"
  using assms by (cases "sr_current_stream r") (auto simp: open_current_shard_def op_defs split: if_splits option.splits)

lemma close_current_shard_Inr:
  assumes "close_current_shard_and_check_trailing_garbage r = (Inr u, r')" "sr_current_stream r \<noteq> None"
  shows "r' = r\<lparr>sr_current_stream := None, sr_current_shard_pos := sr_current_shard_pos r + 1,
      sr_current_record_in_shard := 0\<rparr>"
  using assms by (auto simp: close_current_shard_and_check_trailing_garbage_def bindS_Inr op_defs Let_def
      split: if_splits)

lemma open_current_shard_reader_at:
  assumes "reader_at r n" "sr_current_shard_pos r < length (sr_shards r)" "open_current_shard files r = (Inr u, r')"
  shows "reader_at r' n \<and> same_archive r r' \<and> sr_current_shard_pos r' = sr_current_shard_pos r
    \<and> sr_current_stream r' \<noteq> None"
  using assms(3,2)
proof (cases rule: open_current_shard_Inr)
  case same
  then show ?thesis using assms(1) by (simp add: same_archive_def)
next
  case (opened st)
  then show ?thesis using assms(1,2) by (simp add: reader_at_def same_archive_def)
qed

lemma close_current_shard_reader_at:
  assumes "reader_at r n" "sr_current_stream r \<noteq> None"
    "chunk_count (sr_shards r ! sr_current_shard_pos r) \<le> sr_current_record_in_shard r"
    "close_current_shard_and_check_trailing_garbage r = (Inr u, r')"
  shows "reader_at r' n \<and> same_archive r r'"
proof -
  have r': "r' = r\<lparr>sr_current_stream := None, sr_current_shard_pos := sr_current_shard_pos r + 1,
      sr_current_record_in_shard := 0\<rparr>" using assms(4,2) by (rule close_current_shard_Inr)
  have pos: "sr_current_shard_pos r < length (sr_shards r)"
    and eq: "sr_current_record_in_shard r = chunk_count (sr_shards r ! sr_current_shard_pos r)"
    using assms(1-3) by (simp_all add: reader_at_def)
  show ?thesis
    using assms(1) pos eq by (simp add: r' reader_at_def same_archive_def chunks_before_Suc)
qed

lemma at_frame_reader_at:
  assumes "reader_at r n" "sr_current_shard_pos r < length (sr_shards r)" "at_frame files r = (Inr b, r')"
  shows "reader_at r' n \<and> same_archive r r'
    \<and> (b \<longrightarrow> sr_current_shard_pos r' = sr_current_shard_pos r
         \<and> sr_current_record_in_shard r' < chunk_count (sr_shards r ! sr_current_shard_pos r))"
proof -
  from assms(3) obtain u r1 where o1: "open_current_shard files r = (Inr u, r1)"
    and c: "if chunk_count (sr_shards r ! sr_current_shard_pos r) \<le> sr_current_record_in_shard r1
      then \<exists>u. close_current_shard_and_check_trailing_garbage r1 = (Inr u, r') \<and> \<not> b else r' = r1 \<and> b"
    by (auto simp: at_frame_def bindS_Inr op_defs Let_def split: if_splits)
  have o2: "reader_at r1 n" "same_archive r r1" "sr_current_shard_pos r1 = sr_current_shard_pos r"
    "sr_current_stream r1 \<noteq> None"
    using open_current_shard_reader_at [OF assms(1,2) o1] by simp_all
  have sh: "sr_shards r1 = sr_shards r" using o2(2) by (simp add: same_archive_def)
  show ?thesis
  proof (cases "chunk_count (sr_shards r ! sr_current_shard_pos r) \<le> sr_current_record_in_shard r1")
    case True
    then obtain u where "close_current_shard_and_check_trailing_garbage r1 = (Inr u, r')" "\<not> b" using c by auto
    then show ?thesis
      using close_current_shard_reader_at [OF o2(1,4)] True o2(2,3) sh by (auto simp: same_archive_def)
  next
    case False
    then show ?thesis using c o2 by (simp add: linorder_not_le)
  qed
qed

lemma read_stream_Inr:
  "read_stream k msg r = (Inr bs, r') \<Longrightarrow>
     length bs = k \<and> sr_current_stream r \<noteq> None \<and> (\<exists>st. r' = r\<lparr>sr_current_stream := Some st\<rparr>)"
  by (auto simp: read_stream_def read_exact_def throw_if_def split: option.splits sum.splits prod.splits if_splits)

lemma check_frame_Inr:
  assumes "check_frame shard h r = (Inr u, r')"
  shows "fh_shard_index h = shard_index shard
    \<and> fh_global_chunk_index h = first_chunk_index shard + sr_current_record_in_shard r
    \<and> fh_plaintext_len h \<le> gh_chunk_plain_size (si_global_header shard)
    \<and> (fh_frame_flags h AND 1 \<noteq> 0 \<longleftrightarrow> sr_expected_total_chunk_count r \<noteq> 0
          \<and> fh_global_chunk_index h = sr_expected_total_chunk_count r - 1)
    \<and> (fh_frame_flags h AND 1 = 0 \<longrightarrow> fh_plaintext_len h = gh_chunk_plain_size (si_global_header shard))
    \<and> r' = r\<lparr>sr_seen_chunk_indices := insert (fh_global_chunk_index h) (sr_seen_chunk_indices r),
             sr_saw_final_chunk := sr_saw_final_chunk r \<or> fh_frame_flags h AND 1 \<noteq> 0\<rparr>"
  using assms
  by (auto simp: check_frame_def bindS_Inr op_defs Let_def linorder_not_less split: if_splits)

text \<open>What the reader promises of the record it returns as number \<open>n\<close>.\<close>

definition record_ok :: "ShardInfo list \<Rightarrow> u64 \<Rightarrow> nat \<Rightarrow> ChunkRecord \<Rightarrow> bool" where
  "record_ok shards n_chunks n c \<longleftrightarrow>
     (\<exists>k<length shards. chunks_before shards k \<le> n \<and> n < chunks_before shards (Suc k)
       \<and> cr_shard_index c = shard_index (shards ! k)
       \<and> cr_plaintext_size c \<le> ucast (gh_chunk_plain_size (si_global_header (shards ! k)))
       \<and> (Suc n < unat n_chunks \<longrightarrow> cr_plaintext_size c = ucast (gh_chunk_plain_size (si_global_header (shards ! k)))))
     \<and> cr_chunk_index c = of_nat n
     \<and> cr_frame_flags c = (if Suc n = unat n_chunks then 1 else 0)
     \<and> length (cr_ciphertext c) = unat (cr_plaintext_size c) + 16
     \<and> cr_frame_header_bytes c = frame_bytes
         \<lparr>fh_frame_flags = cr_frame_flags c, fh_shard_index = cr_shard_index c,
          fh_global_chunk_index = cr_chunk_index c, fh_plaintext_len = ucast (cr_plaintext_size c),
          fh_ciphertext_len = cr_plaintext_size c, fh_tag_len = 16\<rparr>"

definition ranges_ok :: "ShardReader \<Rightarrow> bool" where
  "ranges_ok r \<longleftrightarrow>
     (\<forall>k<length (sr_shards r). unat (first_chunk_index (sr_shards r ! k)) = chunks_before (sr_shards r) k)
     \<and> chunks_before (sr_shards r) (length (sr_shards r)) = unat (sr_expected_total_chunk_count r)"

lemma valid_frame_body:
  assumes "valid_frame h" "chunk_frame_v1_encoded_size h = Inr n"
  shows "unat (n - 40) = unat (fh_plaintext_len h) + 16"
proof -
  have u: "unat n = 40 + unat (fh_ciphertext_len h) + unat (fh_tag_len h)"
    using assms(2) by (auto simp: encoded_size_eq bindr_eq_Inr dest: frame_size_unat)
  then have "(40 :: u64) \<le> n" by (simp add: word_le_nat_alt)
  then have "unat (n - 40) = unat n - 40" by (simp add: unat_sub)
  then show ?thesis using u assms(1) by (simp add: valid_frame_def)
qed

lemma read_frame_Inr:
  assumes "read_frame shard r = (Inr c, r')"
  obtains h st where "valid_frame h" "cr_frame_header_bytes c = frame_bytes h"
    "cr_chunk_index c = fh_global_chunk_index h" "cr_shard_index c = fh_shard_index h"
    "cr_plaintext_size c = ucast (fh_plaintext_len h)" "cr_frame_flags c = fh_frame_flags h"
    "length (cr_ciphertext c) = unat (fh_plaintext_len h) + 16"
    "fh_shard_index h = shard_index shard"
    "fh_global_chunk_index h = first_chunk_index shard + sr_current_record_in_shard r"
    "fh_plaintext_len h \<le> gh_chunk_plain_size (si_global_header shard)"
    "fh_frame_flags h AND 1 \<noteq> 0 \<longleftrightarrow> sr_expected_total_chunk_count r \<noteq> 0
          \<and> fh_global_chunk_index h = sr_expected_total_chunk_count r - 1"
    "fh_frame_flags h AND 1 = 0 \<longrightarrow> fh_plaintext_len h = gh_chunk_plain_size (si_global_header shard)"
    "r' = r\<lparr>sr_current_stream := Some st, sr_current_record_in_shard := sr_current_record_in_shard r + 1,
            sr_seen_chunk_indices := insert (fh_global_chunk_index h) (sr_seen_chunk_indices r),
            sr_saw_final_chunk := sr_saw_final_chunk r \<or> fh_frame_flags h AND 1 \<noteq> 0\<rparr>"
    "sr_current_stream r \<noteq> None"
proof -
  from assms obtain hb r1 h u r2 n ct r3 where hb: "read_stream kChunkFrameHeaderV1Size ''truncated frame header'' r = (Inr hb, r1)"
    and h: "parse_chunk_frame_header_v1 hb = Inr h" and ck: "check_frame shard h r1 = (Inr u, r2)"
    and n: "chunk_frame_v1_encoded_size h = Inr n"
    and ct: "read_stream (unat (n - 40)) ''truncated ciphertext'' r2 = (Inr ct, r3)"
    and r': "r' = r3\<lparr>sr_current_record_in_shard := sr_current_record_in_shard r3 + 1\<rparr>"
    and c: "c = \<lparr>cr_chunk_index = fh_global_chunk_index h, cr_shard_index = fh_shard_index h,
             cr_plaintext_size = ucast (fh_plaintext_len h), cr_frame_flags = fh_frame_flags h,
             cr_frame_header_bytes = hb, cr_ciphertext = ct\<rparr>"
    by (auto simp: read_frame_def bindS_Inr liftS_def getS_def modifyS_def returnS_def guardS_def Let_def
        split: if_splits)
  note s1 = read_stream_Inr [OF hb] and s2 = read_stream_Inr [OF ct] and f = check_frame_Inr [OF ck]
  have v: "valid_frame h" "hb = frame_bytes h" using parse_frame_Inr [OF h] s1 by simp_all
  obtain st1 where r1: "r1 = r\<lparr>sr_current_stream := Some st1\<rparr>" using s1 by blast
  obtain st2 where r3: "r3 = r2\<lparr>sr_current_stream := Some st2\<rparr>" using s2 by blast
  show thesis
    by (rule that [of h st2])
       (use v f s1 s2 valid_frame_body [OF v(1) n] in \<open>simp_all add: c r1 r' r3\<close>)
qed

lemma final_index_iff:
  assumes "n < unat (t :: u64)"
  shows "(t \<noteq> 0 \<and> of_nat n = t - 1) \<longleftrightarrow> Suc n = unat t"
proof -
  have t: "t \<noteq> 0" using assms by auto
  then have "unat (t - 1) = unat t - 1" by (simp add: unat_minus_one)
  moreover have "unat (of_nat n :: u64) = n" using assms unat_u64_lt [of t] by (simp add: unat_of_nat_u64)
  ultimately have "of_nat n = t - 1 \<longleftrightarrow> n = unat t - 1" by (simp add: word_unat_eq_iff)
  then show ?thesis using t assms by auto
qed

lemma chunks_before_le: "k < length shards \<Longrightarrow> chunks_before shards (Suc k) \<le> chunks_before shards (length shards)"
  by (rule chunks_before_mono)

lemma unat_ucast_u32: "unat (ucast (x :: u32) :: u64) = unat x"
  by simp

lemma ucast_u32_u64: "(ucast (ucast (x :: u32) :: u64) :: u32) = x"
proof -
  have "unat (ucast y :: u32) = unat y mod 2 ^ 32" for y :: u64
    by (simp only: unsigned_ucast_eq unsigned_take_bit_eq take_bit_eq_mod) simp
  from this [of "ucast x"] have "unat (ucast (ucast x :: u64) :: u32) = unat x mod 2 ^ 32" by (simp only: unat_ucast_u32)
  then show ?thesis by (simp only: word_unat_eq_iff mod_less unat_u32_lt)
qed

lemma read_frame_reader_at:
  assumes "reader_at r n" "ranges_ok r" "sr_current_shard_pos r < length (sr_shards r)"
    "sr_current_record_in_shard r < chunk_count (sr_shards r ! sr_current_shard_pos r)"
    "read_frame (sr_shards r ! sr_current_shard_pos r) r = (Inr c, r')"
  shows "reader_at r' (Suc n) \<and> same_archive r r'
    \<and> record_ok (sr_shards r) (sr_expected_total_chunk_count r) n c"
proof -
  let ?k = "sr_current_shard_pos r" and ?t = "sr_expected_total_chunk_count r"
  let ?s = "sr_shards r ! ?k" and ?i = "sr_current_record_in_shard r"
  have n: "n = chunks_before (sr_shards r) ?k + unat ?i" using assms(1) by (simp add: reader_at_def)
  have i: "unat ?i < unat (chunk_count ?s)" using assms(4) by (simp add: word_less_nat_alt)
  have lt: "n < chunks_before (sr_shards r) (Suc ?k)" using i assms(3) by (simp add: n chunks_before_Suc)
  have nt: "n < unat ?t"
    using lt chunks_before_le [OF assms(3)] assms(2) by (simp add: ranges_ok_def)
  have idx: "first_chunk_index ?s + ?i = of_nat n"
    using assms(2,3) by (simp add: n ranges_ok_def) (metis of_nat_unat ucast_id)
  have inc: "unat (?i + 1) = unat ?i + 1"
    using i unat_u64_lt [of "chunk_count ?s"] by (subst unat_plus_no_overflow) simp_all
  from assms(5) show ?thesis
  proof (cases rule: read_frame_Inr)
    case (1 h st)
    have fl: "fh_frame_flags h = (if Suc n = unat ?t then 1 else 0)"
      using 1(1,11) final_index_iff [OF nt] by (auto simp: 1(9) idx valid_frame_def)
    have h: "h = \<lparr>fh_frame_flags = fh_frame_flags h, fh_shard_index = fh_shard_index h,
        fh_global_chunk_index = fh_global_chunk_index h, fh_plaintext_len = fh_plaintext_len h,
        fh_ciphertext_len = ucast (fh_plaintext_len h), fh_tag_len = 16\<rparr>"
      using 1(1) by (cases h) (simp add: valid_frame_def word_unat_eq_iff)
    have "reader_at r' (Suc n)"
      using assms(1,3,4) nt fl unfolding 1(13) reader_at_def
      by (auto simp: inc n 1(9) idx word_le_nat_alt word_less_nat_alt lessThan_Suc)
    moreover have "record_ok (sr_shards r) ?t n c"
      unfolding record_ok_def
    proof (intro conjI exI [of _ ?k])
      show "cr_frame_header_bytes c = frame_bytes
         \<lparr>fh_frame_flags = cr_frame_flags c, fh_shard_index = cr_shard_index c,
          fh_global_chunk_index = cr_chunk_index c, fh_plaintext_len = ucast (cr_plaintext_size c),
          fh_ciphertext_len = cr_plaintext_size c, fh_tag_len = 16\<rparr>"
        using 1(2) h unfolding 1(3-6) ucast_u32_u64 by simp
      show "length (cr_ciphertext c) = unat (cr_plaintext_size c) + 16" by (simp add: 1(5,7))
      show "Suc n < unat ?t \<longrightarrow> cr_plaintext_size c = ucast (gh_chunk_plain_size (si_global_header ?s))"
        using 1(12) fl by (simp add: 1(5))
      show "cr_plaintext_size c \<le> ucast (gh_chunk_plain_size (si_global_header ?s))"
        using 1(10) by (simp add: 1(5) word_le_nat_alt)
    qed (use assms(3) n lt fl 1(3,4,6,8,9) idx in simp_all)
    ultimately show ?thesis by (simp add: 1(13) same_archive_def)
  qed
qed

lemma same_archive_trans: "same_archive r r' \<Longrightarrow> same_archive r' r'' \<Longrightarrow> same_archive r r''"
  by (simp add: same_archive_def)

lemma same_archive_ranges: "same_archive r r' \<Longrightarrow> ranges_ok r' = ranges_ok r"
  by (simp add: same_archive_def ranges_ok_def)

lemma end_of_archive_Inr:
  assumes "end_of_archive r = (Inr res, r')" "reader_at r n" "ranges_ok r"
    "\<not> sr_current_shard_pos r < length (sr_shards r)"
  shows "res = None \<and> r' = r \<and> n = unat (sr_expected_total_chunk_count r)"
proof -
  have "sr_current_shard_pos r = length (sr_shards r)" "sr_current_stream r = None"
    using assms(2,4) by (cases "sr_current_stream r"; simp add: reader_at_def)+
  then have "n = unat (sr_expected_total_chunk_count r)"
    using assms(2,3) by (simp add: reader_at_def ranges_ok_def)
  then show ?thesis
    using assms(1) by (auto simp: end_of_archive_def bindS_Inr op_defs split: if_splits)
qed

lemma read_next_Inr:
  "read_next_chunk_record files r = (Inr res, r') \<Longrightarrow> reader_at r n \<Longrightarrow> ranges_ok r \<Longrightarrow>
     same_archive r r' \<and>
     (case res of
        None \<Rightarrow> reader_at r' n \<and> n = unat (sr_expected_total_chunk_count r)
      | Some c \<Rightarrow> reader_at r' (Suc n) \<and> record_ok (sr_shards r) (sr_expected_total_chunk_count r) n c)"
proof (induction files r rule: read_next_chunk_record.induct)
  case (1 files r)
  show ?case
  proof (cases "sr_current_shard_pos r < length (sr_shards r)")
    case False
    have "end_of_archive r = (Inr res, r')" using 1(2) False by (simp add: read_next_chunk_record.simps)
    from end_of_archive_Inr [OF this 1(3,4) False] show ?thesis using 1(3) by (simp add: same_archive_def)
  next
    case True
    obtain b r1 where a: "at_frame files r = (Inr b, r1)"
      using 1(2) True by (auto simp: read_next_chunk_record.simps [of files r] split: prod.splits sum.splits)
    note f = at_frame_reader_at [OF 1(3) True a]
    then have ranges: "ranges_ok r1" using 1(4) same_archive_ranges by blast
    have arch: "sr_shards r1 = sr_shards r" "sr_expected_total_chunk_count r1 = sr_expected_total_chunk_count r"
      using f by (simp_all add: same_archive_def)
    show ?thesis
    proof (cases b)
      case False
      have "read_next_chunk_record files r1 = (Inr res, r')" using 1(2) True a False by (simp add: read_next_chunk_record.simps [of files r])
      then have "same_archive r1 r' \<and>
         (case res of
            None \<Rightarrow> reader_at r' n \<and> n = unat (sr_expected_total_chunk_count r)
          | Some c \<Rightarrow> reader_at r' (Suc n) \<and> record_ok (sr_shards r) (sr_expected_total_chunk_count r) n c)"
        using 1(1) [OF True a [symmetric]] False f ranges by (simp only: arch simp_thms)
      then show ?thesis using f same_archive_trans by blast
    next
      case b: True
      have "bindS (read_frame (sr_shards r ! sr_current_shard_pos r)) (\<lambda>c. returnS (Some c)) r1 = (Inr res, r')"
        using 1(2) True a b by (simp add: read_next_chunk_record.simps [of files r])
      then obtain c where c: "read_frame (sr_shards r1 ! sr_current_shard_pos r1) r1 = (Inr c, r')" "res = Some c"
        using f b arch by (auto simp: bindS_Inr returnS_def)
      show ?thesis
        using read_frame_reader_at [OF _ ranges _ _ c(1)] f b arch c(2) True
        by (auto intro: same_archive_trans)
    qed
  qed
qed

text \<open>The records a reader returns one after the other.  The files may change between two calls.\<close>

inductive reads :: "ShardReader \<Rightarrow> ChunkRecord list \<Rightarrow> ShardReader \<Rightarrow> bool" where
  reads_none: "reads r [] r"
| reads_next: "reads r cs r' \<Longrightarrow> read_next_chunk_record files r' = (Inr (Some c), r'') \<Longrightarrow> reads r (cs @ [c]) r''"

lemma reads_reader_at:
  "reads r cs r' \<Longrightarrow> reader_at r 0 \<Longrightarrow> ranges_ok r \<Longrightarrow>
     reader_at r' (length cs) \<and> same_archive r r'
     \<and> (\<forall>n<length cs. record_ok (sr_shards r) (sr_expected_total_chunk_count r) n (cs ! n))"
proof (induction rule: reads.induct)
  case (reads_none r)
  then show ?case by (simp add: same_archive_def)
next
  case (reads_next r cs r' files c r'')
  then have IH: "reader_at r' (length cs)" "same_archive r r'" "ranges_ok r'"
    and recs: "\<forall>n<length cs. record_ok (sr_shards r) (sr_expected_total_chunk_count r) n (cs ! n)"
    using same_archive_ranges by blast+
  have "sr_shards r' = sr_shards r" "sr_expected_total_chunk_count r' = sr_expected_total_chunk_count r"
    using IH(2) by (simp_all add: same_archive_def)
  then show ?case
    using read_next_Inr [OF reads_next(2) IH(1,3)] IH(2) recs
    by (auto intro: same_archive_trans simp: nth_append less_Suc_eq)
qed

lemma accepted_start:
  "accepted hmac key shards n \<Longrightarrow> reader_at (new_reader v key (shards, n)) 0 \<and> ranges_ok (new_reader v key (shards, n))"
  using unat_eq_zero [of n] by (auto simp: accepted_def new_reader_def reader_at_def ranges_ok_def chunks_before_def)

lemma new_ShardReader_Inr:
  assumes "new_ShardReader hmac shards key v = Inr r"
  shows "accepted hmac key (sr_shards r) (sr_expected_total_chunk_count r) \<and> mset (sr_shards r) = mset shards
    \<and> sr_expected_total_chunk_count r = gh_global_chunk_count (si_global_header (hd shards))
    \<and> length shards = unat (gh_shard_count (si_global_header (hd shards)))
    \<and> reader_at r 0 \<and> ranges_ok r"
proof -
  from assms obtain sn where k: "length key = 32" and v: "validate_shards hmac key v shards = Inr sn"
    and r: "r = new_reader v key sn"
    by (auto simp: new_ShardReader_def bindr_eq_Inr throw_if_eq_Inr)
  obtain s n where sn: "sn = (s, n)" by (cases sn)
  have "key \<noteq> []" using k by auto
  note * = validate_shards_Inr [OF v [unfolded sn] this]
  then have "accepted hmac key s n" by blast
  from accepted_start [OF this, of v] have g: "reader_at r 0 \<and> ranges_ok r" by (simp only: r sn)
  have "sr_shards r = s" "sr_expected_total_chunk_count r = n" by (simp_all add: r sn new_reader_def)
  then show ?thesis using * g by metis
qed

text \<open>C11: A \<open>ShardReader\<close> is constructed only from a complete, consistent and authenticated set of
  shards: their indices are exactly 0 to \<open>shard_count - 1\<close>, they all carry the same global header
  bytes, the HMAC of every shard header verifies under the given key, and their chunk ranges
  partition the chunk indices below \<open>global_chunk_count\<close>, in shard order and without arithmetic
  wrap-around.\<close>
theorem shard_set_accepted:
  assumes "new_ShardReader hmac shards key v = Inr r"
  shows "accepted hmac key (sr_shards r) (gh_global_chunk_count (si_global_header (hd shards)))
    \<and> mset (sr_shards r) = mset shards
    \<and> length shards = unat (gh_shard_count (si_global_header (hd shards)))"
  using new_ShardReader_Inr [OF assms] by metis

text \<open>C10: Whatever the shard files contain, and even if they change while they are read, the records
  a \<open>ShardReader\<close> returns are the chunks 0, 1, 2, ... in order, each from the shard whose declared
  range holds its index, with the canonical 40-byte header of its fields, a body of plaintext size
  plus 16 bytes, a full chunk unless it is the last, and the final-chunk flag on the last chunk of
  the archive only; the end is reported only after all \<open>global_chunk_count\<close> chunks.\<close>
theorem chunks_read_in_order:
  assumes "new_ShardReader hmac shards key v = Inr r" "reads r cs r'"
  shows "(\<forall>n<length cs. record_ok (sr_shards r) (gh_global_chunk_count (si_global_header (hd shards))) n (cs ! n))
    \<and> (read_next_chunk_record files r' = (Inr None, r'') \<longrightarrow>
         length cs = unat (gh_global_chunk_count (si_global_header (hd shards))))"
proof -
  note n = new_ShardReader_Inr [OF assms(1)]
  then have start: "reader_at r 0" "ranges_ok r" by simp_all
  note rs = reads_reader_at [OF assms(2) start]
  then have same: "same_archive r r'" and at': "reader_at r' (length cs)" by simp_all
  then have "ranges_ok r'" using start(2) same_archive_ranges by blast
  from read_next_Inr [OF _ at' this] have "length cs = unat (sr_expected_total_chunk_count r')"
    if "read_next_chunk_record files r' = (Inr None, r'')" using that by force
  then show ?thesis using n rs same by (simp add: same_archive_def)
qed

subsection \<open>Reading what is there\<close>

lemma check_frame_passes:
  assumes "fh_shard_index h = shard_index shard"
    "fh_global_chunk_index h = first_chunk_index shard + sr_current_record_in_shard r"
    "fh_global_chunk_index h \<notin> sr_seen_chunk_indices r" "valid_frame h"
    "fh_plaintext_len h \<le> gh_chunk_plain_size (si_global_header shard)"
    "fh_frame_flags h AND 1 \<noteq> 0 \<longleftrightarrow> sr_expected_total_chunk_count r \<noteq> 0
          \<and> fh_global_chunk_index h = sr_expected_total_chunk_count r - 1"
    "fh_frame_flags h AND 1 \<noteq> 0 \<longrightarrow> \<not> sr_saw_final_chunk r"
    "fh_frame_flags h AND 1 = 0 \<longrightarrow> fh_plaintext_len h = gh_chunk_plain_size (si_global_header shard)"
  shows "check_frame shard h r = (Inr (), r\<lparr>sr_seen_chunk_indices := insert (fh_global_chunk_index h) (sr_seen_chunk_indices r),
             sr_saw_final_chunk := sr_saw_final_chunk r \<or> fh_frame_flags h AND 1 \<noteq> 0\<rparr>)"
proof -
  have c: "fh_ciphertext_len h = ucast (fh_plaintext_len h)" "fh_tag_len h = 16"
    using assms(4) by (simp_all add: valid_frame_def ucast_eq_iff_unat)
  show ?thesis
    using assms c by (cases "fh_frame_flags h AND 1 = 0") (simp_all add: check_frame_def bindS_def op_defs Let_def linorder_not_less)
qed

lemma valid_frame_encoded_size:
  assumes "valid_frame h"
  shows "\<exists>n. chunk_frame_v1_encoded_size h = Inr n \<and> unat (n - 40) = unat (fh_plaintext_len h) + 16"
proof -
  have "unat (fh_plaintext_len h) < 2 ^ 32" by (rule unat_u32_lt)
  then have "chunk_frame_v1_encoded_size_from_params (fh_ciphertext_len h) (fh_tag_len h)
     = Inr (40 + (fh_ciphertext_len h + ucast (fh_tag_len h)))"
    using assms by (subst frame_size_from_params) (simp add: valid_frame_def)
  then have "chunk_frame_v1_encoded_size h = Inr (40 + (fh_ciphertext_len h + ucast (fh_tag_len h)))"
    by (simp add: encoded_size_eq validate_frame_ok [OF assms])
  then show ?thesis using valid_frame_body [OF assms] by blast
qed

lemma read_frame_passes:
  assumes st: "sr_current_stream r = Some (contents, p)"
    and d: "drop p contents = frame_bytes h @ ct @ rest"
    and v: "valid_frame h" and l: "length ct = unat (fh_plaintext_len h) + 16"
    and ck: "check_frame shard h (r\<lparr>sr_current_stream := Some (contents, p + 40)\<rparr>)
          = (Inr (), r\<lparr>sr_current_stream := Some (contents, p + 40), sr_seen_chunk_indices := S, sr_saw_final_chunk := b\<rparr>)"
    and e: "p + 40 + length ct \<le> 272 + unat (shard_payload_len shard)"
      "272 + unat (shard_payload_len shard) < 2 ^ 63"
  shows "read_frame shard r = (Inr \<lparr>cr_chunk_index = fh_global_chunk_index h, cr_shard_index = fh_shard_index h,
             cr_plaintext_size = ucast (fh_plaintext_len h), cr_frame_flags = fh_frame_flags h,
             cr_frame_header_bytes = frame_bytes h, cr_ciphertext = ct\<rparr>,
     r\<lparr>sr_current_stream := Some (contents, p + 40 + length ct),
       sr_current_record_in_shard := sr_current_record_in_shard r + 1,
       sr_seen_chunk_indices := S, sr_saw_final_chunk := b\<rparr>)"
proof -
  obtain n where n: "chunk_frame_v1_encoded_size h = Inr n" "unat (n - 40) = length ct"
    using valid_frame_encoded_size [OF v] l by auto
  have d2: "drop (p + 40) contents = ct @ rest"
    using arg_cong [OF d, of "drop 40"] by (simp add: add.commute)
  have h: "parse_chunk_frame_header_v1 (frame_bytes h) = Inr h" using parse_frame_append [OF v, of "[]"] by simp
  have pe: "unat (272 + shard_payload_len shard) = 272 + unat (shard_payload_len shard)"
    using e(2) by (subst unat_plus_no_overflow) simp_all
  have pp: "unat (of_nat (p + 40) :: u64) = p + 40" using e by (subst unat_of_nat_u64) simp_all
  have g: "\<not> (272 + shard_payload_len shard < of_nat (p + 40)
      \<or> 272 + shard_payload_len shard - of_nat (p + 40) < n - 40)"
  proof -
    have le: "(of_nat (p + 40) :: u64) \<le> 272 + shard_payload_len shard"
      unfolding word_le_nat_alt pe pp using e by simp
    then have "unat (272 + shard_payload_len shard - of_nat (p + 40)) = 272 + unat (shard_payload_len shard) - (p + 40)"
      by (subst unat_sub) (simp_all only: pe pp)
    then have "n - 40 \<le> 272 + shard_payload_len shard - of_nat (p + 40)"
      unfolding word_le_nat_alt n(2) using e by simp
    then show ?thesis using le by (simp only: linorder_not_less de_Morgan_disj simp_thms)
  qed
  have "length ct < 2 ^ 63" using e by simp
  then have rd: "read_exact (contents, p + 40) (length ct) msg = Inr (ct, (contents, p + 40 + length ct))" for msg
    by (simp only: read_exact_def prod.case d2) simp
  have hd: "read_exact (contents, p) 40 msg = Inr (frame_bytes h, (contents, p + 40))" for msg
    by (simp only: read_exact_def prod.case d) simp
  show ?thesis
    unfolding read_frame_def Let_def
    by (simp add: bindS_def read_stream_def st hd rd liftS_def h ck n getS_def guardS_def stream_pos_def g modifyS_def returnS_def
        del: of_nat_add of_nat_numeral)
qed

text \<open>Shard files that hold the given records: a 272-byte header area and the frames, nothing else.\<close>

definition frame_image :: "ChunkRecord \<Rightarrow> bytes" where
  "frame_image c = cr_frame_header_bytes c @ cr_ciphertext c"

definition payload :: "ChunkRecord list \<Rightarrow> bytes" where
  "payload cs = concat (map frame_image cs)"

definition stored_shard :: "file_store \<Rightarrow> ShardInfo \<Rightarrow> ChunkRecord list \<Rightarrow> bool" where
  "stored_shard files shard cs \<longleftrightarrow>
     length cs = unat (chunk_count shard)
     \<and> unat (shard_payload_len shard) = length (payload cs) \<and> 272 + length (payload cs) < 2 ^ 63
     \<and> (\<exists>hdr. length hdr = 272 \<and> files (si_path shard) = Some (hdr @ payload cs))"

definition stored :: "file_store \<Rightarrow> ShardInfo list \<Rightarrow> ChunkRecord list list \<Rightarrow> bool" where
  "stored files shards css \<longleftrightarrow> list_all2 (stored_shard files) shards css"

definition stream_ok :: "file_store \<Rightarrow> ChunkRecord list list \<Rightarrow> ShardReader \<Rightarrow> bool" where
  "stream_ok files css r \<longleftrightarrow>
     (case sr_current_stream r of
        None \<Rightarrow> True
      | Some (c, p) \<Rightarrow> files (si_path (sr_shards r ! sr_current_shard_pos r)) = Some c
          \<and> p = 272 + length (payload (take (unat (sr_current_record_in_shard r)) (css ! sr_current_shard_pos r))))"

lemma stored_nth:
  assumes "stored files shards css" "k < length shards"
  shows "stored_shard files (shards ! k) (css ! k)"
  using assms by (simp add: stored_def list_all2_conv_all_nth)

lemma concat_chunks_before:
  "list_all2 (stored_shard files) shards css \<Longrightarrow> k < length shards \<Longrightarrow> i < length (css ! k)
     \<Longrightarrow> concat css ! (chunks_before shards k + i) = css ! k ! i"
proof (induction arbitrary: k rule: list_all2_induct)
  case Nil
  then show ?case by simp
next
  case (Cons s shards cs css)
  have l: "length cs = unat (chunk_count s)" using Cons(1) by (simp add: stored_shard_def)
  show ?case
  proof (cases k)
    case 0
    then show ?thesis using Cons.prems by (simp add: chunks_before_def nth_append)
  next
    case (Suc j)
    then have "concat css ! (chunks_before shards j + i) = css ! j ! i" using Cons by simp
    then show ?thesis using Suc by (simp add: chunks_before_def nth_append l add.assoc)
  qed
qed

lemma open_current_shard_stored:
  assumes "stream_ok files css r" "stored files (sr_shards r) css" "sr_current_shard_pos r < length (sr_shards r)"
  shows "\<exists>r'. open_current_shard files r = (Inr (), r') \<and> stream_ok files css r'"
proof (cases "sr_current_stream r")
  case None
  obtain c where "files (si_path (sr_shards r ! sr_current_shard_pos r)) = Some c"
    using stored_nth [OF assms(2,3)] by (auto simp: stored_shard_def)
  then show ?thesis
    using None assms by (simp add: open_current_shard_def op_defs stream_ok_def payload_def)
next
  case (Some st)
  then show ?thesis using assms by (simp add: open_current_shard_def op_defs)
qed

lemma close_current_shard_stored:
  assumes "stream_ok files css r" "stored files (sr_shards r) css" "sr_current_shard_pos r < length (sr_shards r)"
    "sr_current_stream r \<noteq> None"
    "sr_current_record_in_shard r = chunk_count (sr_shards r ! sr_current_shard_pos r)"
  shows "\<exists>r'. close_current_shard_and_check_trailing_garbage r = (Inr (), r') \<and> sr_current_stream r' = None"
proof -
  let ?s = "sr_shards r ! sr_current_shard_pos r" and ?cs = "css ! sr_current_shard_pos r"
  obtain c p where st: "sr_current_stream r = Some (c, p)" using assms(4) by auto
  have s: "length ?cs = unat (chunk_count ?s)" "unat (shard_payload_len ?s) = length (payload ?cs)"
    "272 + length (payload ?cs) < 2 ^ 63" and c: "length c = 272 + length (payload ?cs)" "p = length c"
    using stored_nth [OF assms(2,3)] assms(1,5) st by (auto simp: stored_shard_def stream_ok_def)
  have "(of_nat p :: u64) = 272 + shard_payload_len ?s"
    unfolding c s(2) [symmetric] by (simp add: unsigned_of_nat)
  then show ?thesis
    using st c by (simp add: close_current_shard_and_check_trailing_garbage_def bindS_def op_defs Let_def)
qed

lemma at_frame_stored:
  assumes "stream_ok files css r" "stored files (sr_shards r) css" "sr_current_shard_pos r < length (sr_shards r)"
    "reader_at r n"
  shows "\<exists>b r'. at_frame files r = (Inr b, r') \<and> stream_ok files css r' \<and> (b \<longrightarrow> sr_current_stream r' \<noteq> None)"
proof -
  let ?s = "sr_shards r ! sr_current_shard_pos r"
  obtain r1 where o1: "open_current_shard files r = (Inr (), r1)" "stream_ok files css r1"
    using open_current_shard_stored [OF assms(1-3)] by blast
  have o2: "reader_at r1 n" "sr_shards r1 = sr_shards r" "sr_current_shard_pos r1 = sr_current_shard_pos r"
    "sr_current_stream r1 \<noteq> None"
    using open_current_shard_reader_at [OF assms(4,3) o1(1)] by (simp_all add: same_archive_def)
  show ?thesis
  proof (cases "chunk_count ?s \<le> sr_current_record_in_shard r1")
    case True
    have "sr_current_record_in_shard r1 = chunk_count (sr_shards r1 ! sr_current_shard_pos r1)"
      using True o2 by (simp add: reader_at_def)
    with close_current_shard_stored [of files css r1] o1(2) o2 assms(2,3)
    obtain r2 where "close_current_shard_and_check_trailing_garbage r1 = (Inr (), r2)" "sr_current_stream r2 = None"
      by auto
    then show ?thesis using True o1
      by (intro exI [of _ False] exI [of _ r2]) (simp add: at_frame_def getS_def bindS_def returnS_def stream_ok_def)
  next
    case False
    then show ?thesis using o1 o2
      by (intro exI [of _ True] exI [of _ r1]) (simp add: at_frame_def getS_def bindS_def returnS_def)
  qed
qed

text \<open>The frame header of a record, as \<open>record_ok\<close> describes it.\<close>

definition record_frame :: "ChunkRecord \<Rightarrow> ChunkFrameHeaderV1" where
  "record_frame c = \<lparr>fh_frame_flags = cr_frame_flags c, fh_shard_index = cr_shard_index c,
          fh_global_chunk_index = cr_chunk_index c, fh_plaintext_len = ucast (cr_plaintext_size c),
          fh_ciphertext_len = cr_plaintext_size c, fh_tag_len = 16\<rparr>"

lemma ucast_u64_small: "(x :: u64) \<le> ucast (y :: u32) \<Longrightarrow> unat (ucast x :: u32) = unat x"
proof -
  assume "x \<le> ucast y"
  then have "unat x \<le> unat y" by (simp only: word_le_nat_alt unat_ucast_u32)
  then have "unat x < 2 ^ 32" using unat_u32_lt [of y] by (rule le_less_trans)
  then show ?thesis by (simp only: unsigned_ucast_eq unsigned_take_bit_eq take_bit_eq_mod) simp
qed

lemma chunks_before_cases:
  assumes "k < length shards" "j < length shards" "chunks_before shards k \<le> n" "n < chunks_before shards (Suc k)"
    "chunks_before shards j \<le> n" "n < chunks_before shards (Suc j)"
  shows "k = j"
proof -
  have "chunks_before shards a \<le> chunks_before shards b" if "a \<le> b" "b \<le> length shards" for a b
    using that
  proof (induction b rule: dec_induct)
    case (step m)
    then show ?case by (simp add: chunks_before_Suc)
  qed simp
  from this [of "Suc k" j] this [of "Suc j" k] show ?thesis
    using assms by (cases k j rule: linorder_cases) auto
qed

lemma record_ok_shard:
  assumes "record_ok shards n_chunks n c" "k < length shards" "chunks_before shards k \<le> n"
    "n < chunks_before shards (Suc k)"
  shows "cr_shard_index c = shard_index (shards ! k)"
    "cr_plaintext_size c \<le> ucast (gh_chunk_plain_size (si_global_header (shards ! k)))"
    "Suc n < unat n_chunks \<Longrightarrow> cr_plaintext_size c = ucast (gh_chunk_plain_size (si_global_header (shards ! k)))"
    "cr_chunk_index c = of_nat n" "cr_frame_flags c = (if Suc n = unat n_chunks then 1 else 0)"
    "length (cr_ciphertext c) = unat (cr_plaintext_size c) + 16" "cr_frame_header_bytes c = frame_bytes (record_frame c)"
proof -
  from assms(1) obtain j where j: "j < length shards" "chunks_before shards j \<le> n" "n < chunks_before shards (Suc j)"
    and r: "cr_shard_index c = shard_index (shards ! j)"
    "cr_plaintext_size c \<le> ucast (gh_chunk_plain_size (si_global_header (shards ! j)))"
    "Suc n < unat n_chunks \<longrightarrow> cr_plaintext_size c = ucast (gh_chunk_plain_size (si_global_header (shards ! j)))"
    unfolding record_ok_def by blast
  have "j = k" using chunks_before_cases [OF j(1) assms(2) j(2,3) assms(3,4)] .
  then show "cr_shard_index c = shard_index (shards ! k)"
    "cr_plaintext_size c \<le> ucast (gh_chunk_plain_size (si_global_header (shards ! k)))"
    "Suc n < unat n_chunks \<Longrightarrow> cr_plaintext_size c = ucast (gh_chunk_plain_size (si_global_header (shards ! k)))"
    using r by simp_all
qed (use assms(1) in \<open>simp_all add: record_ok_def record_frame_def\<close>)

lemma of_nat_fresh: "n < 2 ^ 64 \<Longrightarrow> (of_nat n :: u64) \<notin> of_nat ` {..<n}"
proof
  assume n: "n < 2 ^ 64" and "(of_nat n :: u64) \<in> of_nat ` {..<n}"
  then obtain m where "m < n" "unat (of_nat n :: u64) = unat (of_nat m :: u64)" by auto
  then show False using n by (simp add: unat_of_nat_u64)
qed

lemma payload_split:
  assumes "i < length cs" "cr_frame_header_bytes (cs ! i) = hb"
  shows "payload cs = payload (take i cs) @ hb @ cr_ciphertext (cs ! i) @ payload (drop (Suc i) cs)"
    "payload (take (Suc i) cs) = payload (take i cs) @ hb @ cr_ciphertext (cs ! i)"
proof -
  have "cs = take i cs @ cs ! i # drop (Suc i) cs" using assms(1) by (simp add: id_take_nth_drop)
  then have "payload cs = payload (take i cs @ cs ! i # drop (Suc i) cs)" by simp
  then show "payload cs = payload (take i cs) @ hb @ cr_ciphertext (cs ! i) @ payload (drop (Suc i) cs)"
    using assms(2) by (simp add: payload_def frame_image_def)
  show "payload (take (Suc i) cs) = payload (take i cs) @ hb @ cr_ciphertext (cs ! i)"
    using assms by (simp add: payload_def frame_image_def take_Suc_conv_app_nth)
qed

text \<open>A reader about to read record \<open>n\<close> from an open shard.\<close>

definition before_record :: "ShardReader \<Rightarrow> nat \<Rightarrow> bool" where
  "before_record r n \<longleftrightarrow> reader_at r n \<and> ranges_ok r \<and> sr_current_shard_pos r < length (sr_shards r)
     \<and> sr_current_record_in_shard r < chunk_count (sr_shards r ! sr_current_shard_pos r)"

lemma before_record_bounds:
  assumes "before_record r n"
  defines "k \<equiv> sr_current_shard_pos r"
  shows "chunks_before (sr_shards r) k \<le> n" "n < chunks_before (sr_shards r) (Suc k)"
    "n < unat (sr_expected_total_chunk_count r)"
    "first_chunk_index (sr_shards r ! k) + sr_current_record_in_shard r = of_nat n"
    "unat (sr_current_record_in_shard r + 1) = unat (sr_current_record_in_shard r) + 1"
proof -
  let ?i = "sr_current_record_in_shard r" and ?s = "sr_shards r ! k"
  have k: "k < length (sr_shards r)" and rg: "ranges_ok r" and n: "n = chunks_before (sr_shards r) k + unat ?i"
    and i: "unat ?i < unat (chunk_count ?s)"
    using assms by (simp_all add: before_record_def reader_at_def word_less_nat_alt)
  show "chunks_before (sr_shards r) k \<le> n" by (simp add: n)
  show lt: "n < chunks_before (sr_shards r) (Suc k)" using i k by (simp add: n chunks_before_Suc)
  show "n < unat (sr_expected_total_chunk_count r)"
    using lt chunks_before_le [OF k] rg by (simp add: ranges_ok_def)
  show "first_chunk_index ?s + ?i = of_nat n"
    using rg k by (simp add: n ranges_ok_def) (metis of_nat_unat ucast_id)
  show "unat (?i + 1) = unat ?i + 1"
    using i unat_u64_lt [of "chunk_count ?s"] by (subst unat_plus_no_overflow) simp_all
qed

lemma record_frame_valid:
  assumes "record_ok shards n_chunks n c"
  shows "valid_frame (record_frame c)" "unat (fh_plaintext_len (record_frame c)) = unat (cr_plaintext_size c)"
    "c = \<lparr>cr_chunk_index = fh_global_chunk_index (record_frame c), cr_shard_index = fh_shard_index (record_frame c),
             cr_plaintext_size = ucast (fh_plaintext_len (record_frame c)), cr_frame_flags = fh_frame_flags (record_frame c),
             cr_frame_header_bytes = frame_bytes (record_frame c), cr_ciphertext = cr_ciphertext c\<rparr>"
proof -
  have ps: "unat (ucast (cr_plaintext_size c) :: u32) = unat (cr_plaintext_size c)"
    using assms ucast_u64_small by (auto simp: record_ok_def)
  show "valid_frame (record_frame c)" "unat (fh_plaintext_len (record_frame c)) = unat (cr_plaintext_size c)"
    using assms ps by (simp_all add: record_ok_def record_frame_def valid_frame_def)
  show "c = \<lparr>cr_chunk_index = fh_global_chunk_index (record_frame c), cr_shard_index = fh_shard_index (record_frame c),
             cr_plaintext_size = ucast (fh_plaintext_len (record_frame c)), cr_frame_flags = fh_frame_flags (record_frame c),
             cr_frame_header_bytes = frame_bytes (record_frame c), cr_ciphertext = cr_ciphertext c\<rparr>"
    using assms ps by (cases c) (simp add: record_ok_def record_frame_def word_unat_eq_iff)
qed

lemma check_frame_record:
  assumes b: "before_record r n" and rec: "record_ok (sr_shards r) (sr_expected_total_chunk_count r) n c"
  shows "check_frame (sr_shards r ! sr_current_shard_pos r) (record_frame c) (r\<lparr>sr_current_stream := st\<rparr>)
    = (Inr (), r\<lparr>sr_current_stream := st, sr_seen_chunk_indices := insert (of_nat n) (sr_seen_chunk_indices r),
        sr_saw_final_chunk := sr_saw_final_chunk r \<or> Suc n = unat (sr_expected_total_chunk_count r)\<rparr>)"
proof -
  let ?k = "sr_current_shard_pos r" and ?t = "sr_expected_total_chunk_count r" and ?h = "record_frame c"
  let ?s = "sr_shards r ! ?k"
  have at: "?k < length (sr_shards r)" "sr_seen_chunk_indices r = of_nat ` {..<n}"
    "sr_saw_final_chunk r \<longleftrightarrow> ?t \<noteq> 0 \<and> n = unat ?t"
    using b by (simp_all add: before_record_def reader_at_def)
  note B = before_record_bounds [OF b]
  note R = record_ok_shard [OF rec at(1) B(1,2)] and F = record_frame_valid [OF rec]
  have h: "fh_shard_index ?h = shard_index ?s" "fh_global_chunk_index ?h = of_nat n"
    "fh_frame_flags ?h = (if Suc n = unat ?t then 1 else 0)"
    using R by (simp_all add: record_frame_def)
  have fresh: "(of_nat n :: u64) \<notin> of_nat ` {..<n}"
    using B(3) unat_u64_lt [of ?t] by (intro of_nat_fresh) (rule less_trans)
  have le: "fh_plaintext_len ?h \<le> gh_chunk_plain_size (si_global_header ?s)"
    using R(2) F(2) by (simp add: word_le_nat_alt)
  have full: "fh_plaintext_len ?h = gh_chunk_plain_size (si_global_header ?s)" if "Suc n \<noteq> unat ?t"
    using R(3) B(3) that by (simp add: record_frame_def ucast_u32_u64)
  show ?thesis
    by (subst check_frame_passes)
       (use h F(1) B(3,4) fresh le full at final_index_iff [OF B(3)] in \<open>auto split: if_splits\<close>)
qed

lemma read_frame_stored:
  assumes b: "before_record r n" and st: "stored files (sr_shards r) css"
    and ok: "stream_ok files css r" and s: "sr_current_stream r \<noteq> None"
    and rec: "record_ok (sr_shards r) (sr_expected_total_chunk_count r) n (concat css ! n)"
  shows "\<exists>r'. read_frame (sr_shards r ! sr_current_shard_pos r) r = (Inr (concat css ! n), r') \<and> stream_ok files css r'"
proof -
  let ?k = "sr_current_shard_pos r" and ?i = "unat (sr_current_record_in_shard r)"
  let ?s = "sr_shards r ! ?k" and ?cs = "css ! ?k" and ?c = "concat css ! n"
  let ?p = "272 + length (payload (take ?i ?cs))"
  have k: "?k < length (sr_shards r)" and n: "n = chunks_before (sr_shards r) ?k + ?i"
    and i: "?i < unat (chunk_count ?s)"
    using b by (simp_all add: before_record_def reader_at_def word_less_nat_alt)
  have sh: "?i < length ?cs" "unat (shard_payload_len ?s) = length (payload ?cs)" "272 + length (payload ?cs) < 2 ^ 63"
    using stored_nth [OF st k] i by (simp_all add: stored_shard_def)
  have c: "?c = ?cs ! ?i" using concat_chunks_before [OF st [unfolded stored_def] k sh(1)] n by simp
  note B = before_record_bounds [OF b]
  note R = record_ok_shard [OF rec k B(1,2)] and F = record_frame_valid [OF rec]
  note split = payload_split [OF sh(1) R(7) [unfolded c], folded c]
  obtain hdr where st': "sr_current_stream r = Some (hdr @ payload ?cs, ?p)" and hl: "length hdr = 272"
    using stored_nth [OF st k] ok s by (auto simp: stored_shard_def stream_ok_def)
  have "drop ?p (hdr @ payload ?cs) = frame_bytes (record_frame ?c) @ cr_ciphertext ?c @ payload (drop (Suc ?i) ?cs)"
    by (subst split(1)) (simp add: hl)
  moreover have "length (cr_ciphertext ?c) = unat (fh_plaintext_len (record_frame ?c)) + 16" by (simp only: R(6) F(2))
  moreover have "?p + 40 + length (cr_ciphertext ?c) \<le> 272 + unat (shard_payload_len ?s)"
    using arg_cong [OF split(1), of length] sh(2) by simp
  moreover have "272 + unat (shard_payload_len ?s) < 2 ^ 63" using sh by simp
  ultimately have read: "read_frame ?s r = (Inr ?c, r\<lparr>sr_current_stream := Some (hdr @ payload ?cs, ?p + 40 + length (cr_ciphertext ?c)),
       sr_current_record_in_shard := sr_current_record_in_shard r + 1,
       sr_seen_chunk_indices := insert (of_nat n) (sr_seen_chunk_indices r),
       sr_saw_final_chunk := sr_saw_final_chunk r \<or> Suc n = unat (sr_expected_total_chunk_count r)\<rparr>)" (is "_ = (_, ?r')")
    using read_frame_passes [OF st' _ F(1) _ check_frame_record [OF b rec]] F(3) by simp
  have "stream_ok files css ?r'"
    using ok st' arg_cong [OF split(2), of length] by (simp add: stream_ok_def B(5))
  then show ?thesis using read by blast
qed

lemma read_next_stored:
  "reader_at r n \<Longrightarrow> ranges_ok r \<Longrightarrow> stored files (sr_shards r) css \<Longrightarrow> stream_ok files css r
     \<Longrightarrow> n < unat (sr_expected_total_chunk_count r)
     \<Longrightarrow> record_ok (sr_shards r) (sr_expected_total_chunk_count r) n (concat css ! n)
     \<Longrightarrow> \<exists>r'. read_next_chunk_record files r = (Inr (Some (concat css ! n)), r') \<and> stream_ok files css r'"
proof (induction files r rule: read_next_chunk_record.induct)
  case (1 files r)
  have pos: "sr_current_shard_pos r < length (sr_shards r)"
  proof (rule ccontr)
    assume "\<not> sr_current_shard_pos r < length (sr_shards r)"
    then have "n = unat (sr_expected_total_chunk_count r)"
      using 1(2,3) by (cases "sr_current_stream r") (auto simp: reader_at_def ranges_ok_def)
    then show False using 1(6) by simp
  qed
  obtain b r1 where a: "at_frame files r = (Inr b, r1)" "stream_ok files css r1" "b \<longrightarrow> sr_current_stream r1 \<noteq> None"
    using at_frame_stored [OF 1(5,4) pos 1(2)] by blast
  note f = at_frame_reader_at [OF 1(2) pos a(1)]
  then have arch: "sr_shards r1 = sr_shards r" "sr_expected_total_chunk_count r1 = sr_expected_total_chunk_count r"
    by (simp_all add: same_archive_def)
  then have ranges: "ranges_ok r1" using 1(3) by (simp add: ranges_ok_def)
  show ?case
  proof (cases b)
    case False
    have "\<exists>r'. read_next_chunk_record files r1 = (Inr (Some (concat css ! n)), r') \<and> stream_ok files css r'"
      using 1(1) [OF pos a(1) [symmetric] refl] False f ranges 1(4,6,7) a(2) by (simp only: arch simp_thms)
    then show ?thesis using pos a(1) False by (simp add: read_next_chunk_record.simps [of files r])
  next
    case True
    have "before_record r1 n" using f ranges arch True pos by (simp add: before_record_def)
    then have "\<exists>r'. read_frame (sr_shards r1 ! sr_current_shard_pos r1) r1 = (Inr (concat css ! n), r') \<and> stream_ok files css r'"
      by (rule read_frame_stored) (use 1(4,7) a True arch in simp_all)
    then show ?thesis
      using pos a(1) True f arch by (auto simp: read_next_chunk_record.simps [of files r] bindS_def returnS_def)
  qed
qed

lemma read_end_stored:
  "reader_at r (unat (sr_expected_total_chunk_count r)) \<Longrightarrow> ranges_ok r \<Longrightarrow> stored files (sr_shards r) css
     \<Longrightarrow> stream_ok files css r \<Longrightarrow> \<exists>r'. read_next_chunk_record files r = (Inr None, r')"
proof (induction files r rule: read_next_chunk_record.induct)
  case (1 files r)
  let ?t = "sr_expected_total_chunk_count r"
  show ?case
  proof (cases "sr_current_shard_pos r < length (sr_shards r)")
    case True
    obtain b r1 where a: "at_frame files r = (Inr b, r1)" "stream_ok files css r1"
      using at_frame_stored [OF 1(5,4) True 1(2)] by blast
    note f = at_frame_reader_at [OF 1(2) True a(1)]
    then have arch: "sr_shards r1 = sr_shards r" "sr_expected_total_chunk_count r1 = ?t"
      by (simp_all add: same_archive_def)
    then have ranges: "ranges_ok r1" using 1(3) by (simp add: ranges_ok_def)
    have "\<not> b"
    proof
      assume b
      then have "before_record r1 (unat ?t)" using f ranges arch True by (simp add: before_record_def)
      from before_record_bounds(3) [OF this] show False by (simp add: arch)
    qed
    moreover have "\<exists>r'. read_next_chunk_record files r1 = (Inr None, r')"
      using 1(1) [OF True a(1) [symmetric] refl] \<open>\<not> b\<close> f ranges 1(4) a(2) by (simp only: arch simp_thms)
    ultimately show ?thesis using True a(1) by (simp add: read_next_chunk_record.simps [of files r])
  next
    case False
    have "card (sr_seen_chunk_indices r) = unat ?t" "?t = 0 \<or> sr_saw_final_chunk r"
    proof -
      have "inj_on (of_nat :: nat \<Rightarrow> u64) {..<unat ?t}"
        using unat_u64_lt [of ?t] by (intro inj_onI) (metis less_trans lessThan_iff unat_of_nat_u64)
      then show "card (sr_seen_chunk_indices r) = unat ?t"
        using 1(2) by (simp add: reader_at_def card_image)
    qed (use 1(2) in \<open>simp add: reader_at_def\<close>)
    then show ?thesis
      using False by (simp add: read_next_chunk_record.simps [of files r] end_of_archive_def bindS_def op_defs)
  qed
qed

text \<open>Reading until the end of the archive is reported, in at most \<open>n\<close> calls.\<close>

fun read_chunks :: "file_store \<Rightarrow> nat \<Rightarrow> (ShardReader, ChunkRecord list) op" where
  "read_chunks files 0 = throwS (Error ''more records'')"
| "read_chunks files (Suc n) =
    bindS (read_next_chunk_record files) (\<lambda>record.
    case record of
      None \<Rightarrow> returnS []
    | Some c \<Rightarrow> bindS (read_chunks files n) (\<lambda>cs. returnS (c # cs)))"

lemma read_chunks_stored:
  assumes "reader_at r 0" "ranges_ok r" "stored files (sr_shards r) css"
    "\<forall>n<unat (sr_expected_total_chunk_count r). record_ok (sr_shards r) (sr_expected_total_chunk_count r) n (concat css ! n)"
    "length (concat css) = unat (sr_expected_total_chunk_count r)"
  shows "reads r (take k (concat css)) r1 \<Longrightarrow> stream_ok files css r1 \<Longrightarrow> k \<le> length (concat css)
     \<Longrightarrow> length (concat css) - k < m \<Longrightarrow> fst (read_chunks files m r1) = Inr (drop k (concat css))"
proof (induction "length (concat css) - k" arbitrary: k r1 m)
  case 0
  then have k: "k = length (concat css)" by simp
  have "reads r (concat css) r1" using 0(2) by (simp add: k)
  note R = reads_reader_at [OF this assms(1,2)]
  then have "sr_shards r1 = sr_shards r" "ranges_ok r1" "reader_at r1 (unat (sr_expected_total_chunk_count r1))"
    using assms(2,5) by (simp_all add: same_archive_def ranges_ok_def)
  then obtain r2 where "read_next_chunk_record files r1 = (Inr None, r2)"
    using read_end_stored [of r1 files css] 0(3) assms(3) by auto
  then show ?case using 0(5) by (cases m) (simp_all add: bindS_def returnS_def k)
next
  case (Suc d)
  then have k: "k < length (concat css)" by simp
  note R = reads_reader_at [OF Suc.prems(1) assms(1,2)]
  then have arch: "sr_shards r1 = sr_shards r" "sr_expected_total_chunk_count r1 = sr_expected_total_chunk_count r"
    "ranges_ok r1" "reader_at r1 k"
    using k assms(2) by (simp_all add: same_archive_def ranges_ok_def min_def)
  obtain r2 where r2: "read_next_chunk_record files r1 = (Inr (Some (concat css ! k)), r2)" "stream_ok files css r2"
    using read_next_stored [OF arch(4,3), of files css] Suc.prems(2) assms(3-5) k arch(1,2) by auto
  have reads: "reads r (take (Suc k) (concat css)) r2"
    using reads_next [OF Suc.prems(1) r2(1)] k by (simp add: take_Suc_conv_app_nth)
  obtain m' where m: "m = Suc m'" using Suc.prems(4) by (cases m) auto
  have "fst (read_chunks files m' r2) = Inr (drop (Suc k) (concat css))"
    by (rule Suc.hyps(1) [OF _ reads r2(2)]) (use Suc.hyps(2) Suc.prems(4) k m in auto)
  then show ?case
    using r2(1) k m Cons_nth_drop_Suc [OF k]
    by (cases "read_chunks files m' r2") (simp add: bindS_def returnS_def)
qed

lemma stored_length:
  "list_all2 (stored_shard files) shards css \<Longrightarrow> length (concat css) = chunks_before shards (length shards)"
  by (induction rule: list_all2_induct) (simp_all add: chunks_before_def stored_shard_def)

text \<open>C8: Nothing is lost in reading: if the files of an accepted set of shards hold well-formed
  chunk records, frame after frame behind the two headers and nothing else, then reading these files
  until the end of the archive is reported gives exactly these records, in as many calls as there are
  records and one more for the end.\<close>
theorem stored_chunks_read_back:
  assumes "new_ShardReader hmac shards key v = Inr r" "stored files (sr_shards r) css"
    "\<forall>n<length (concat css). record_ok (sr_shards r) (gh_global_chunk_count (si_global_header (hd shards))) n (concat css ! n)"
    "length (concat css) < m"
  shows "fst (read_chunks files m r) = Inr (concat css)"
proof -
  let ?t = "sr_expected_total_chunk_count r"
  note n = new_ShardReader_Inr [OF assms(1)]
  have l: "length (concat css) = unat ?t"
    using stored_length [OF assms(2) [unfolded stored_def]] n by (simp add: ranges_ok_def)
  have t: "gh_global_chunk_count (si_global_header (hd shards)) = ?t" using n by simp
  have "sr_current_stream r = None"
    using assms(1) by (auto simp: new_ShardReader_def bindr_eq_Inr throw_if_eq_Inr new_reader_def)
  then have s: "stream_ok files css r" by (simp add: stream_ok_def)
  have start: "reader_at r 0" "ranges_ok r" using n by simp_all
  have "fst (read_chunks files m r) = Inr (drop 0 (concat css))"
    by (rule read_chunks_stored [OF start assms(2) _ l _ s])
       (use assms(3,4) l t in \<open>simp_all add: reads_none\<close>)
  then show ?thesis by simp
qed

subsection \<open>A concrete shard file\<close>

text \<open>An archive of one shard that holds one chunk of one byte.\<close>

definition tiny_global :: GlobalPublicHeaderV1 where
  "tiny_global = sample_global\<lparr>gh_global_chunk_count := 1, gh_padded_plaintext_size := 1,
     gh_final_plaintext_chunk_len := 1, gh_padding_policy_id := 0\<rparr>"

definition tiny_shard :: ShardPublicHeaderV1 where
  "tiny_shard = sample_shard\<lparr>sh_shard_chunk_count := 1, sh_shard_payload_len := 57\<rparr>"

definition tiny_record :: ChunkRecord where
  "tiny_record = \<lparr>cr_chunk_index = 0, cr_shard_index = 0, cr_plaintext_size = 1, cr_frame_flags = 1,
     cr_frame_header_bytes = frame_bytes \<lparr>fh_frame_flags = 1, fh_shard_index = 0,
       fh_global_chunk_index = 0, fh_plaintext_len = 1, fh_ciphertext_len = 1, fh_tag_len = 16\<rparr>,
     cr_ciphertext = replicate 17 3\<rparr>"

definition tiny_files :: file_store where
  "tiny_files p = (if p = ''in/a.bin''
     then Some (global_bytes tiny_global @ shard_bytes tiny_shard @ frame_image tiny_record) else None)"

definition tiny_info :: ShardInfo where
  "tiny_info = \<lparr>si_path = ''in/a.bin'', si_global_header = tiny_global, si_shard_header = tiny_shard,
     si_public_header_hash = replicate 32 8, si_file_size = 329\<rparr>"

definition tiny_validation :: ShardReaderValidation where
  "tiny_validation = \<lparr>rv_suite_id = Some 1, rv_archive_id = None, rv_chunk_plain_size = None, rv_public_header_hash = None\<rparr>"

definition tiny_reader :: ShardReader where
  "tiny_reader = new_reader tiny_validation (replicate 32 5) ([tiny_info], 1)"

lemma tiny_discover:
  "discover (\<lambda>_. replicate 32 8) tiny_files (Some [(''in/notes.txt'', True), (''in/a.bin'', True)]) = Inr [tiny_info]"
  by code_simp

lemma tiny_accepted:
  "new_ShardReader (\<lambda>_ _. Some (replicate 32 0)) [tiny_info] (replicate 32 5) tiny_validation = Inr tiny_reader"
  by code_simp

lemma tiny_read: "fst (read_next_chunk_record tiny_files tiny_reader) = Inr (Some tiny_record)"
  by code_simp

theorem shard_set_accepted_witness:
  "accepted (\<lambda>_ _. Some (replicate 32 0)) (replicate 32 5) (sr_shards tiny_reader) 1"
proof -
  have "gh_global_chunk_count (si_global_header (hd [tiny_info])) = 1" by (simp add: tiny_info_def tiny_global_def)
  then show ?thesis using shard_set_accepted [OF tiny_accepted] by metis
qed

lemma tiny_reads: "reads tiny_reader [tiny_record] (snd (read_next_chunk_record tiny_files tiny_reader))"
proof -
  have "read_next_chunk_record tiny_files tiny_reader
      = (Inr (Some tiny_record), snd (read_next_chunk_record tiny_files tiny_reader))"
    using tiny_read by (metis prod.collapse)
  then show ?thesis using reads_next [OF reads_none] by fastforce
qed

theorem chunks_read_in_order_witness:
  "record_ok (sr_shards tiny_reader) 1 0 tiny_record"
  using chunks_read_in_order [OF tiny_accepted tiny_reads] by (simp add: tiny_info_def tiny_global_def)

lemma tiny_record_ok: "record_ok (sr_shards tiny_reader) 1 0 tiny_record"
  by (simp add: record_ok_def tiny_reader_def new_reader_def tiny_record_def chunks_before_def tiny_info_def
      tiny_shard_def tiny_global_def sample_shard_def sample_global_def chunk_count_def shard_index_def)

lemma tiny_stored: "stored tiny_files (sr_shards tiny_reader) [[tiny_record]]"
proof -
  have "length (global_bytes tiny_global @ shard_bytes tiny_shard) = 272" by code_simp
  moreover have "length (payload [tiny_record]) = 57" by code_simp
  ultimately show ?thesis
    by (auto simp: stored_def stored_shard_def tiny_reader_def new_reader_def tiny_info_def tiny_shard_def
        sample_shard_def chunk_count_def shard_payload_len_def tiny_files_def payload_def simp del: length_append
        intro!: exI [of _ "global_bytes tiny_global @ shard_bytes tiny_shard"])
qed

theorem stored_chunks_read_back_witness: "fst (read_chunks tiny_files 2 tiny_reader) = Inr [tiny_record]"
  using stored_chunks_read_back [OF tiny_accepted tiny_stored, of 2] tiny_record_ok
  by (simp add: tiny_info_def tiny_global_def)

end
