(* ===== verification/Stdout_Shard_Writer.thy ===== *)
theory Stdout_Shard_Writer
  imports Shard_Writer
begin

unbundle bit_operations_syntax

text \<open>
  \<^verbatim>\<open>src/io/StdoutShardWriter.hpp\<close> and \<^verbatim>\<open>StdoutShardWriter.cpp\<close>: the writer that holds one whole shard
  in memory and writes it to an output stream at the end.  The stream is the bytes that have
  reached it, its state, and a schedule: the number of bytes a call still passes on before it
  fails.  A stream that has failed ignores all further calls.
\<close>

record ostream =
  os_written :: bytes
  os_good :: bool
  os_clock :: nat
  os_fault :: "nat \<Rightarrow> nat option"

definition os_write :: "bytes \<Rightarrow> ostream \<Rightarrow> ostream" where
  "os_write bs s =
    (if \<not> os_good s then s
     else (case os_fault s (os_clock s) of
             None \<Rightarrow> s\<lparr>os_written := os_written s @ bs, os_clock := Suc (os_clock s)\<rparr>
           | Some n \<Rightarrow> s\<lparr>os_written := os_written s @ take n bs, os_good := False, os_clock := Suc (os_clock s)\<rparr>))"

definition os_flush :: "ostream \<Rightarrow> ostream" where
  "os_flush s =
    (if \<not> os_good s then s
     else s\<lparr>os_good := os_fault s (os_clock s) = None, os_clock := Suc (os_clock s)\<rparr>)"

record StdoutShardWriterOptions =
  oo_global_header :: GlobalPublicHeaderV1
  oo_header_authentication_key :: bytes
  oo_per_shard_public_header_hashes :: "bytes list"

record StdoutShardWriter =
  sd_options :: StdoutShardWriterOptions
  sd_out :: ostream
  sd_buffer :: bytes
  sd_payload_offset :: u64
  sd_chunk_count :: u64
  sd_next_expected_chunk_index :: u64
  sd_final_chunk_plaintext_len :: u64
  sd_planned_payload_offset :: u64
  sd_planned_next_chunk_index :: u64
  sd_finished :: bool
  sd_aborted :: bool

subsection \<open>Construction\<close>

definition validate_stdout_options :: "StdoutShardWriterOptions \<Rightarrow> ostream option \<Rightarrow> ostream result" where
  "validate_stdout_options opts out =
    (case out of
       None \<Rightarrow> Inl (InvalidArgument ''StdoutShardWriter: output stream is null'')
     | Some stream \<Rightarrow>
       throw_if (gh_chunk_plain_size (oo_global_header opts) = 0)
         (InvalidArgument ''StdoutShardWriter: global_header.chunk_plain_size is missing'') (
       throw_if (all_zero (oo_header_authentication_key opts))
         (InvalidArgument ''StdoutShardWriter: header_authentication_key is missing'') (
       let hashes = oo_per_shard_public_header_hashes opts in
       throw_if (length hashes \<noteq> 1)
         (InvalidArgument ''StdoutShardWriter: per_shard_public_header_hashes must have exactly one entry'') (
       throw_if (all_zero (hashes ! 0))
         (InvalidArgument ''StdoutShardWriter: per_shard_public_header_hashes[0] is all-zero'')
       (Inr stream)))))"

definition new_StdoutShardWriter :: "StdoutShardWriterOptions \<Rightarrow> ostream option \<Rightarrow> StdoutShardWriter result" where
  "new_StdoutShardWriter opts out =
    bindr (validate_stdout_options opts out) (\<lambda>stream.
    Inr \<lparr>sd_options = opts, sd_out = stream,
         sd_buffer = replicate (kGlobalPublicHeaderV1Size + kShardPublicHeaderV1Size) 0,
         sd_payload_offset = 0, sd_chunk_count = 0, sd_next_expected_chunk_index = 0,
         sd_final_chunk_plaintext_len = 0, sd_planned_payload_offset = 0, sd_planned_next_chunk_index = 0,
         sd_finished = False, sd_aborted = False\<rparr>)"

subsection \<open>Frames\<close>

definition stdout_plan_chunk_frame ::
  "u64 \<Rightarrow> u64 \<Rightarrow> u64 \<Rightarrow> u16 \<Rightarrow> bool \<Rightarrow> (StdoutShardWriter, PlannedChunkFrame) op" where
  "stdout_plan_chunk_frame chunk_index plaintext_len ciphertext_len tag_len final_chunk =
    getS (\<lambda>w.
    bindS (guardS (sd_finished w) (Error ''cannot plan frame for finalized StdoutShardWriter'')) (\<lambda>_.
    bindS (guardS (chunk_index \<noteq> sd_planned_next_chunk_index w)
      (InvalidArgument ''StdoutShardWriter frame planner requires contiguous ascending chunk indexes'')) (\<lambda>_.
    bindS (guardS (plaintext_len > ucast (gh_chunk_plain_size (oo_global_header (sd_options w))))
      (InvalidArgument ''chunk plaintext_len exceeds archive chunk_plain_size'')) (\<lambda>_.
    bindS (guardS (plaintext_len > ucast u32_max)
      (InvalidArgument ''chunk plaintext_len does not fit ChunkFrameHeaderV1'')) (\<lambda>_.
    let header = \<lparr>fh_frame_flags = (if final_chunk then kChunkFrameFlagFinalChunk else 0),
                  fh_shard_index = 0, fh_global_chunk_index = chunk_index,
                  fh_plaintext_len = ucast plaintext_len, fh_ciphertext_len = ciphertext_len,
                  fh_tag_len = tag_len\<rparr> in
    bindS (liftS (chunk_frame_v1_encoded_size header)) (\<lambda>frame_size.
    bindS (liftS (serialize_chunk_frame_header_v1 header)) (\<lambda>header_bytes.
    let planned = \<lparr>pf_position = \<lparr>wp_shard_index = 0, wp_record_offset = sd_planned_payload_offset w,
                                  wp_chunk_index = chunk_index\<rparr>,
                   pf_header = header, pf_header_bytes = header_bytes\<rparr> in
    bindS (modifyS (\<lambda>w. w\<lparr>sd_planned_payload_offset := sd_planned_payload_offset w + frame_size,
        sd_planned_next_chunk_index := sd_planned_next_chunk_index w + 1\<rparr>)) (\<lambda>_.
    returnS planned))))))))"

definition stdout_write_checks ::
  "StdoutShardWriter \<Rightarrow> ChunkFrameHeaderV1 \<Rightarrow> bytes \<Rightarrow> bytes \<Rightarrow> u64 result" where
  "stdout_write_checks w header header_bytes ciphertext_and_tag =
    throw_if (sd_finished w) (Error ''cannot write to finalized StdoutShardWriter'') (
    throw_if (fh_global_chunk_index header \<noteq> sd_next_expected_chunk_index w)
      (InvalidArgument ''StdoutShardWriter requires contiguous ascending frame chunk indexes'') (
    throw_if (fh_plaintext_len header > gh_chunk_plain_size (oo_global_header (sd_options w)))
      (InvalidArgument ''chunk plaintext_len exceeds archive chunk_plain_size'') (
    throw_if (fh_shard_index header \<noteq> 0)
      (InvalidArgument ''StdoutShardWriter only handles shard_index 0'') (
    bindr (serialize_chunk_frame_header_v1 header) (\<lambda>expected_header_bytes.
    throw_if (header_bytes \<noteq> expected_header_bytes)
      (InvalidArgument ''ChunkFrameHeaderV1 bytes do not match supplied header'') (
    bindr (chunk_frame_v1_encoded_size header) (\<lambda>frame_size.
    let body_size = frame_size - 40 in
    throw_if (of_nat (length ciphertext_and_tag) \<noteq> body_size)
      (InvalidArgument ''ciphertext length does not match ChunkFrameHeaderV1'')
    (Inr frame_size))))))))"

definition stdout_write_chunk_frame ::
  "ChunkFrameHeaderV1 \<Rightarrow> bytes \<Rightarrow> bytes \<Rightarrow> (StdoutShardWriter, ShardWritePosition) op" where
  "stdout_write_chunk_frame header header_bytes ciphertext_and_tag =
    getS (\<lambda>w.
    bindS (liftS (stdout_write_checks w header header_bytes ciphertext_and_tag)) (\<lambda>frame_size.
    let position = \<lparr>wp_shard_index = 0, wp_record_offset = sd_payload_offset w,
                    wp_chunk_index = fh_global_chunk_index header\<rparr> in
    bindS (modifyS (\<lambda>w. w\<lparr>
        sd_buffer := sd_buffer w @ header_bytes @ ciphertext_and_tag,
        sd_payload_offset := sd_payload_offset w + frame_size,
        sd_chunk_count := sd_chunk_count w + 1,
        sd_next_expected_chunk_index := sd_next_expected_chunk_index w + 1,
        sd_final_chunk_plaintext_len :=
          (if fh_frame_flags header AND kChunkFrameFlagFinalChunk \<noteq> 0
           then ucast (fh_plaintext_len header) else sd_final_chunk_plaintext_len w)\<rparr>)) (\<lambda>_.
    returnS position)))"

subsection \<open>Completion\<close>

definition stdout_global_header :: "StdoutShardWriter \<Rightarrow> GlobalPublicHeaderV1 result" where
  "stdout_global_header w =
    (let total_chunks = sd_next_expected_chunk_index w;
         final_global = (oo_global_header (sd_options w))\<lparr>gh_global_chunk_count := total_chunks, gh_shard_count := 1\<rparr> in
     if total_chunks > 0 \<and> sd_final_chunk_plaintext_len w > 0 then
       bindr (checked_mul_u64 (total_chunks - 1) (ucast (gh_chunk_plain_size final_global))
                ''StdoutShardWriter: padded plaintext size'') (\<lambda>full.
       bindr (checked_add_u64 full (sd_final_chunk_plaintext_len w)
                ''StdoutShardWriter: padded plaintext size'') (\<lambda>padded.
       Inr (final_global\<lparr>gh_final_plaintext_chunk_len := ucast (sd_final_chunk_plaintext_len w),
              gh_padded_plaintext_size := padded\<rparr>)))
     else Inr final_global)"

definition stdout_shard_header :: "StdoutShardWriter \<Rightarrow> ShardPublicHeaderV1" where
  "stdout_shard_header w =
     \<lparr>sh_shard_magic = kShardHeaderV1Magic, sh_shard_header_len = 80, sh_shard_index = 0,
      sh_first_global_chunk_index = 0, sh_shard_chunk_count = sd_next_expected_chunk_index w,
      sh_shard_payload_len = sd_payload_offset w, sh_header_mac = replicate 32 0, sh_reserved0 = 0\<rparr>"

text \<open>
  The images of the two headers go over the placeholders at the front of the buffer, which is there
  unless the writer has been aborted.
\<close>

definition stdout_finish :: "(bytes \<Rightarrow> bytes \<Rightarrow> bytes option) \<Rightarrow> (StdoutShardWriter, unit) op" where
  "stdout_finish hmac =
    getS (\<lambda>w.
    if sd_finished w then returnS ()
    else
      bindS (liftS (stdout_global_header w)) (\<lambda>final_global.
      bindS (liftS (serialize_global_public_header final_global)) (\<lambda>global_bytes.
      let sh = stdout_shard_header w in
      bindS (liftS (compute_shard_header_mac hmac (oo_header_authentication_key (sd_options w)) final_global sh)) (\<lambda>mac.
      bindS (liftS (serialize_shard_public_header (sh\<lparr>sh_header_mac := mac\<rparr>))) (\<lambda>shard_bytes.
      bindS (modifyS (\<lambda>w. w\<lparr>sd_buffer := global_bytes @ shard_bytes
          @ drop (length global_bytes + length shard_bytes) (sd_buffer w)\<rparr>)) (\<lambda>_.
      bindS (modifyS (\<lambda>w. w\<lparr>sd_out := os_write (sd_buffer w) (sd_out w)\<rparr>)) (\<lambda>_.
      getS (\<lambda>w.
      bindS (guardS (\<not> os_good (sd_out w)) (Error ''StdoutShardWriter: failed to write shard to output stream'')) (\<lambda>_.
      bindS (modifyS (\<lambda>w. w\<lparr>sd_out := os_flush (sd_out w)\<rparr>)) (\<lambda>_.
      getS (\<lambda>w.
      bindS (guardS (\<not> os_good (sd_out w)) (Error ''StdoutShardWriter: failed to flush output stream'')) (\<lambda>_.
      modifyS (\<lambda>w. w\<lparr>sd_buffer := [], sd_finished := True\<rparr>)))))))))))))"

definition stdout_abort_and_remove_created_shards_noexcept :: "StdoutShardWriter \<Rightarrow> StdoutShardWriter" where
  "stdout_abort_and_remove_created_shards_noexcept w = w\<lparr>sd_aborted := True, sd_buffer := []\<rparr>"

text \<open>The destructor completes the shard unless that has been done or the writer has been aborted.\<close>

definition destroy_StdoutShardWriter :: "(bytes \<Rightarrow> bytes \<Rightarrow> bytes option) \<Rightarrow> StdoutShardWriter \<Rightarrow> StdoutShardWriter" where
  "destroy_StdoutShardWriter hmac w =
     (if \<not> sd_finished w \<and> \<not> sd_aborted w then snd (stdout_finish hmac w) else w)"

subsection \<open>What a completed stream holds\<close>

lemma shard_header_mac_length:
  "compute_shard_header_mac hmac key g sh = Inr mac \<Longrightarrow> length mac = 32"
  by (auto simp: compute_shard_header_mac_def bindr_eq_Inr split: option.splits)

definition completed_shard :: "bytes \<Rightarrow> StdoutShardWriter \<Rightarrow> ShardPublicHeaderV1" where
  "completed_shard mac w = (stdout_shard_header w)\<lparr>sh_header_mac := mac\<rparr>"

definition shard_image :: "GlobalPublicHeaderV1 \<Rightarrow> bytes \<Rightarrow> StdoutShardWriter \<Rightarrow> bytes" where
  "shard_image g mac w = global_bytes g @ shard_bytes (completed_shard mac w) @ drop 272 (sd_buffer w)"

lemma completed_shard_arrays: "length mac = 32 \<Longrightarrow> shard_arrays (completed_shard mac w)"
  by (simp add: shard_arrays_def completed_shard_def stdout_shard_header_def kShardHeaderV1Magic_def ascii_def)

lemma stdout_finish_Inr:
  assumes "stdout_finish hmac w = (Inr (), w')" "\<not> sd_finished w"
    "stdout_global_header w = Inr g" "global_arrays g"
  obtains mac where "compute_shard_header_mac hmac (oo_header_authentication_key (sd_options w)) g (stdout_shard_header w) = Inr mac"
    "os_written (sd_out w') = os_written (sd_out w) @ shard_image g mac w" "sd_finished w'"
proof -
  obtain mac where mac: "compute_shard_header_mac hmac (oo_header_authentication_key (sd_options w)) g (stdout_shard_header w) = Inr mac"
    using assms by (auto simp: stdout_finish_def getS_def bindS_Inr liftS_def Let_def)
  note l = shard_header_mac_length [OF mac]
  have sh: "serialize_shard_public_header ((stdout_shard_header w)\<lparr>sh_header_mac := mac\<rparr>) = Inr (shard_bytes (completed_shard mac w))"
    using serialize_shard_eq [OF completed_shard_arrays [OF l]] by (simp add: completed_shard_def)
  have len: "length (global_bytes g) = 192" "length (shard_bytes (completed_shard mac w)) = 80"
    using length_global_bytes assms(4) length_shard_bytes completed_shard_arrays [OF l] by auto
  have good: "os_good (os_write (shard_image g mac w) (sd_out w))"
    "w' = w\<lparr>sd_buffer := [], sd_out := os_flush (os_write (shard_image g mac w) (sd_out w)), sd_finished := True\<rparr>"
    using assms mac sh len
    by (auto simp: stdout_finish_def getS_def bindS_Inr liftS_def Let_def serialize_global_eq modifyS_def guardS_def
        shard_image_def split: if_splits)
  then have "os_written (sd_out w') = os_written (sd_out w) @ shard_image g mac w"
    by (auto simp: os_write_def os_flush_def split: if_splits option.splits)
  then show thesis using mac good(2) by (intro that) auto
qed

lemma stdout_finish_ok:
  assumes "\<not> sd_finished w" "stdout_global_header w = Inr g" "global_arrays g"
    "compute_shard_header_mac hmac (oo_header_authentication_key (sd_options w)) g (stdout_shard_header w) = Inr mac"
    "os_good (sd_out w)" "\<And>n. os_fault (sd_out w) n = None"
  shows "\<exists>w'. stdout_finish hmac w = (Inr (), w')"
proof -
  note l = shard_header_mac_length [OF assms(4)]
  have sh: "serialize_shard_public_header ((stdout_shard_header w)\<lparr>sh_header_mac := mac\<rparr>) = Inr (shard_bytes (completed_shard mac w))"
    using serialize_shard_eq [OF completed_shard_arrays [OF l]] by (simp add: completed_shard_def)
  then show ?thesis using assms
    by (simp add: stdout_finish_def getS_def bindS_def liftS_def Let_def serialize_global_eq modifyS_def guardS_def
        os_write_def os_flush_def)
qed

end
