(* ===== verification/Any_Shard_Writer.thy ===== *)
theory Any_Shard_Writer
  imports Stdout_Shard_Writer
begin

text \<open>\<^verbatim>\<open>src/io/AnyShardWriter.hpp\<close>: the variant, and the four methods on it.\<close>

datatype AnyShardWriter = FileWriter ShardWriter | StreamWriter StdoutShardWriter

definition on_file_writer :: "(ShardWriter, 'a) op \<Rightarrow> ShardWriter \<Rightarrow> 'a result \<times> AnyShardWriter" where
  "on_file_writer m w = (case m w of (r, w') \<Rightarrow> (r, FileWriter w'))"

definition on_stream_writer :: "(StdoutShardWriter, 'a) op \<Rightarrow> StdoutShardWriter \<Rightarrow> 'a result \<times> AnyShardWriter" where
  "on_stream_writer m w = (case m w of (r, w') \<Rightarrow> (r, StreamWriter w'))"

fun any_plan_chunk_frame :: "u64 \<Rightarrow> u64 \<Rightarrow> u64 \<Rightarrow> u16 \<Rightarrow> bool \<Rightarrow> (AnyShardWriter, PlannedChunkFrame) op" where
  "any_plan_chunk_frame i p c t f (FileWriter w) = on_file_writer (plan_chunk_frame i p c t f) w"
| "any_plan_chunk_frame i p c t f (StreamWriter w) = on_stream_writer (stdout_plan_chunk_frame i p c t f) w"

fun any_write_chunk_frame ::
  "(bytes \<Rightarrow> bytes \<Rightarrow> bytes option) \<Rightarrow> ChunkFrameHeaderV1 \<Rightarrow> bytes \<Rightarrow> bytes \<Rightarrow> (AnyShardWriter, ShardWritePosition) op" where
  "any_write_chunk_frame hmac h hb c (FileWriter w) = on_file_writer (write_chunk_frame hmac h hb c) w"
| "any_write_chunk_frame hmac h hb c (StreamWriter w) = on_stream_writer (stdout_write_chunk_frame h hb c) w"

fun any_finish :: "(bytes \<Rightarrow> bytes \<Rightarrow> bytes option) \<Rightarrow> (AnyShardWriter, unit) op" where
  "any_finish hmac (FileWriter w) = on_file_writer (Shard_Writer.finish hmac) w"
| "any_finish hmac (StreamWriter w) = on_stream_writer (stdout_finish hmac) w"

fun any_abort :: "AnyShardWriter \<Rightarrow> AnyShardWriter" where
  "any_abort (FileWriter w) = FileWriter (abort_and_remove_created_shards_noexcept w)"
| "any_abort (StreamWriter w) = StreamWriter (stdout_abort_and_remove_created_shards_noexcept w)"

subsection \<open>The contract of a shard writer\<close>

text \<open>The header of a planned frame; the planner chooses only the shard.\<close>

definition frame_for :: "u64 \<Rightarrow> u64 \<Rightarrow> u64 \<Rightarrow> u16 \<Rightarrow> bool \<Rightarrow> ChunkFrameHeaderV1 \<Rightarrow> bool" where
  "frame_for i p c t f h \<longleftrightarrow>
     h = \<lparr>fh_frame_flags = (if f then 1 else 0), fh_shard_index = fh_shard_index h, fh_global_chunk_index = i,
          fh_plaintext_len = ucast p, fh_ciphertext_len = c, fh_tag_len = t\<rparr>
     \<and> unat p < 2 ^ 32 \<and> t \<noteq> 0"

locale frame_writer =
  fixes plan :: "u64 \<Rightarrow> u64 \<Rightarrow> u64 \<Rightarrow> u16 \<Rightarrow> bool \<Rightarrow> ('w, PlannedChunkFrame) op"
    and put :: "ChunkFrameHeaderV1 \<Rightarrow> bytes \<Rightarrow> bytes \<Rightarrow> ('w, ShardWritePosition) op"
    and planned :: "'w \<Rightarrow> u64"
    and expected :: "'w \<Rightarrow> u64"
  assumes plan_frame: "plan i p c t f w = (Inr pf, w') \<Longrightarrow> frame_for i p c t f (pf_header pf)
      \<and> pf_header_bytes pf = frame_bytes (pf_header pf) \<and> planned w = i \<and> planned w' = i + 1 \<and> expected w' = expected w"
    and write_frame: "put h hb ct w = (Inr pos, w') \<Longrightarrow> hb = frame_bytes h
      \<and> expected w = fh_global_chunk_index h \<and> expected w' = expected w + 1 \<and> planned w' = planned w"
begin

fun write_frames :: "(ChunkFrameHeaderV1 \<times> bytes \<times> bytes) list \<Rightarrow> ('w, unit) op" where
  "write_frames [] = returnS ()"
| "write_frames ((h, hb, ct) # fs) = bindS (put h hb ct) (\<lambda>_. write_frames fs)"

text \<open>The frames that can be written one after the other are numbered consecutively.\<close>

lemma written_consecutively:
  "write_frames fs w = (Inr (), w') \<Longrightarrow>
     (\<forall>k<length fs. fh_global_chunk_index (fst (fs ! k)) = expected w + of_nat k)
     \<and> expected w' = expected w + of_nat (length fs)"
proof (induction fs arbitrary: w)
  case (Cons f fs)
  obtain h hb ct where f: "f = (h, hb, ct)" by (cases f)
  with Cons.prems obtain pos w1 where w1: "put h hb ct w = (Inr pos, w1)" "write_frames fs w1 = (Inr (), w')"
    by (auto simp: bindS_Inr)
  note e = write_frame [OF w1(1)] and ih = Cons.IH [OF w1(2)]
  have "fh_global_chunk_index (fst ((f # fs) ! k)) = expected w + of_nat k" if "k < length (f # fs)" for k
    using that e ih f by (cases k) (auto simp: algebra_simps)
  then show ?case using e ih by (simp add: algebra_simps)
qed (simp add: returnS_def)

end

lemma frame_size_Inr:
  "chunk_frame_v1_encoded_size h = Inr n \<Longrightarrow> fh_tag_len h \<noteq> 0"
  by (auto simp: chunk_frame_v1_encoded_size_def bindr_eq_Inr validate_frame_iff)

lemma ucast_u32_max: "p \<le> ucast u32_max \<Longrightarrow> unat (p :: u64) < 4294967296"
  by (simp add: word_le_nat_alt unsigned_minus_1_eq_mask mask_eq_exp_minus_1)

lemma stdout_plan_frame:
  assumes "stdout_plan_chunk_frame i p c t f w = (Inr pf, w')"
  shows "frame_for i p c t f (pf_header pf) \<and> pf_header_bytes pf = frame_bytes (pf_header pf)
    \<and> sd_planned_next_chunk_index w = i \<and> sd_planned_next_chunk_index w' = i + 1
    \<and> sd_next_expected_chunk_index w' = sd_next_expected_chunk_index w"
  using assms
  by (auto simp: stdout_plan_chunk_frame_def bindS_Inr op_defs Let_def frame_for_def serialize_frame_Inr
      ucast_u32_max linorder_not_less split: if_splits)

lemma stdout_write_frame:
  assumes "stdout_write_chunk_frame h hb ct w = (Inr pos, w')"
  shows "hb = frame_bytes h \<and> sd_next_expected_chunk_index w = fh_global_chunk_index h
    \<and> sd_next_expected_chunk_index w' = sd_next_expected_chunk_index w + 1
    \<and> sd_planned_next_chunk_index w' = sd_planned_next_chunk_index w"
  using assms
  by (auto simp: stdout_write_chunk_frame_def stdout_write_checks_def bindS_Inr op_defs Let_def bindr_eq_Inr
      serialize_frame_Inr split: if_splits)

interpretation stream_frames: frame_writer stdout_plan_chunk_frame stdout_write_chunk_frame
    sd_planned_next_chunk_index sd_next_expected_chunk_index
  by unfold_locales (use stdout_plan_frame stdout_write_frame in blast)+

text \<open>The writer of files.\<close>

lemma file_plan_frame:
  assumes "plan_chunk_frame i p c t f w = (Inr pf, w')"
  shows "frame_for i p c t f (pf_header pf) \<and> pf_header_bytes pf = frame_bytes (pf_header pf)
    \<and> sw_planned_next_chunk_index w = i \<and> sw_planned_next_chunk_index w' = i + 1
    \<and> sw_next_expected_chunk_index w' = sw_next_expected_chunk_index w"
  using assms
  by (auto simp: plan_chunk_frame_def bindS_Inr op_defs Let_def frame_for_def serialize_frame_Inr
      ucast_u32_max linorder_not_less split: if_splits)

definition chunk_numbers :: "ShardWriter \<Rightarrow> u64 \<times> u64" where
  "chunk_numbers w = (sw_planned_next_chunk_index w, sw_next_expected_chunk_index w)"

lemma preserves_on_disk: "preserves chunk_numbers (on_disk f)"
  by (simp add: preserves_def on_disk_def chunk_numbers_def split: prod.splits)

lemmas keeps_numbers = preserves_intros preserves_on_disk

lemma write_raw_numbers: "preserves chunk_numbers (write_raw bs)"
  unfolding write_raw_def by (intro keeps_numbers preserves_modifyS) (simp add: chunk_numbers_def)

lemma open_attempts_numbers: "preserves chunk_numbers (open_attempts n i)"
proof (induction n)
  case (Suc n)
  show ?case unfolding open_attempts.simps begin_shard_def Let_def
    by (intro keeps_numbers preserves_modifyS write_raw_numbers Suc) (simp add: chunk_numbers_def)
qed (simp add: keeps_numbers)

lemma close_current_shard_numbers: "preserves chunk_numbers (close_current_shard hmac)"
  unfolding close_current_shard_def rewrite_shard_header_def Let_def
  by (intro keeps_numbers preserves_modifyS) (simp_all add: chunk_numbers_def)

lemma spec_numbers: "preserves chunk_numbers m \<Longrightarrow> spec (\<lambda>w. chunk_numbers w = v) m (\<lambda>_ w. chunk_numbers w = v) (\<lambda>_. True)"
  by (auto simp: spec_def preserves_def split: prod.splits sum.splits) (metis snd_conv)+

lemma write_chunk_frame_numbers:
  "spec (\<lambda>w. chunk_numbers w = (p, e)) (write_chunk_frame hmac h hb ct) (\<lambda>_ w. chunk_numbers w = (p, e + 1)) (\<lambda>_. True)"
proof -
  have op: "preserves chunk_numbers (open_next_shard i)" for i
    unfolding open_next_shard_def by (intro keeps_numbers open_attempts_numbers)
  note same = spec_numbers [where v = "(p, e)"] and counted = spec_numbers [where v = "(p, e + 1)"]
  show ?thesis unfolding write_chunk_frame_def Let_def
    apply (rule spec_getS_inv)
    apply (rule spec_bindS [where R = "\<lambda>_ w. chunk_numbers w = (p, e)"], rule same, rule preserves_basic)
    apply (rule spec_bindS [where R = "\<lambda>_ w. chunk_numbers w = (p, e)"])
     apply (rule same, intro keeps_numbers op close_current_shard_numbers)
    apply (rule spec_getS_inv)
    apply (rule spec_bindS [where R = "\<lambda>_ w. chunk_numbers w = (p, e)"], rule same, rule preserves_basic)
    apply (rule spec_bindS [where R = "\<lambda>_ w. chunk_numbers w = (p, e)"], rule same, rule write_raw_numbers)
    apply (rule spec_bindS [where R = "\<lambda>_ w. chunk_numbers w = (p, e)"], rule same, rule write_raw_numbers)
    apply (rule spec_bindS [where R = "\<lambda>_ w. chunk_numbers w = (p, e + 1)"])
     apply (rule spec_modifyS, simp add: chunk_numbers_def)
    apply (rule counted, intro keeps_numbers close_current_shard_numbers)
    done
qed

lemma file_write_frame:
  assumes "write_chunk_frame hmac h hb ct w = (Inr pos, w')"
  shows "hb = frame_bytes h \<and> sw_next_expected_chunk_index w = fh_global_chunk_index h
    \<and> sw_next_expected_chunk_index w' = sw_next_expected_chunk_index w + 1
    \<and> sw_planned_next_chunk_index w' = sw_planned_next_chunk_index w"
proof -
  have "write_checks w h hb ct \<noteq> Inl e" for e
    using assms by (auto simp: write_chunk_frame_def getS_def bindS_def [of "liftS r" for r] liftS_def)
  then obtain n where "write_checks w h hb ct = Inr n" by (cases "write_checks w h hb ct") auto
  moreover have "chunk_numbers w' = (sw_planned_next_chunk_index w, sw_next_expected_chunk_index w + 1)"
    using write_chunk_frame_numbers [of "sw_planned_next_chunk_index w" "sw_next_expected_chunk_index w" hmac h hb ct] assms
    by (fastforce simp: spec_def chunk_numbers_def)
  ultimately show ?thesis
    by (auto simp: chunk_numbers_def write_checks_def bindr_eq_Inr serialize_frame_Inr Let_def)
qed

interpretation file_frames: frame_writer plan_chunk_frame "write_chunk_frame hmac"
    sw_planned_next_chunk_index sw_next_expected_chunk_index
  for hmac
  by unfold_locales (use file_plan_frame file_write_frame in blast)+

text \<open>The variant.\<close>

fun any_planned :: "AnyShardWriter \<Rightarrow> u64" where
  "any_planned (FileWriter w) = sw_planned_next_chunk_index w"
| "any_planned (StreamWriter w) = sd_planned_next_chunk_index w"

fun any_expected :: "AnyShardWriter \<Rightarrow> u64" where
  "any_expected (FileWriter w) = sw_next_expected_chunk_index w"
| "any_expected (StreamWriter w) = sd_next_expected_chunk_index w"

lemma on_file_writer_Inr: "on_file_writer m w = (Inr x, w') \<longleftrightarrow> (\<exists>v. m w = (Inr x, v) \<and> w' = FileWriter v)"
  by (auto simp: on_file_writer_def split: prod.splits)

lemma on_stream_writer_Inr: "on_stream_writer m w = (Inr x, w') \<longleftrightarrow> (\<exists>v. m w = (Inr x, v) \<and> w' = StreamWriter v)"
  by (auto simp: on_stream_writer_def split: prod.splits)

interpretation any_frames: frame_writer any_plan_chunk_frame "any_write_chunk_frame hmac" any_planned any_expected
  for hmac
proof
  show "frame_for i p c t f (pf_header pf) \<and> pf_header_bytes pf = frame_bytes (pf_header pf)
      \<and> any_planned w = i \<and> any_planned w' = i + 1 \<and> any_expected w' = any_expected w"
    if "any_plan_chunk_frame i p c t f w = (Inr pf, w')" for i p c t f w pf w'
    using that file_frames.plan_frame stream_frames.plan_frame
    by (cases w) (auto simp: on_file_writer_Inr on_stream_writer_Inr)
  show "hb = frame_bytes h \<and> any_expected w = fh_global_chunk_index h
      \<and> any_expected w' = any_expected w + 1 \<and> any_planned w' = any_planned w"
    if "any_write_chunk_frame hmac h hb ct w = (Inr pos, w')" for h hb ct w pos w'
    using that file_frames.write_frame stream_frames.write_frame
    by (cases w) (auto simp: on_file_writer_Inr on_stream_writer_Inr)
qed

subsection \<open>The two ends of a writer\<close>

text \<open>
  The thread that plans and the thread that writes share the writer without a lock.  They work on
  different members: planning reads and changes the planner's members only, beside the options and
  \<open>finished_\<close>, and writing and completing neither reads nor changes them.
\<close>

definition with_plan :: "ShardWriter \<Rightarrow> ShardWriter \<Rightarrow> ShardWriter" where
  "with_plan v w = w\<lparr>sw_planned_shard_index := sw_planned_shard_index v,
     sw_planned_payload_offset := sw_planned_payload_offset v,
     sw_planned_next_chunk_index := sw_planned_next_chunk_index v\<rparr>"

lemma with_plan_sel [simp]:
  "sw_options (with_plan v w) = sw_options w" "sw_stream_open (with_plan v w) = sw_stream_open w"
  "sw_stream_good (with_plan v w) = sw_stream_good w" "sw_current_path (with_plan v w) = sw_current_path w"
  "sw_current_shard_index (with_plan v w) = sw_current_shard_index w" "sw_next_shard_index (with_plan v w) = sw_next_shard_index w"
  "sw_current_payload_offset (with_plan v w) = sw_current_payload_offset w"
  "sw_current_first_chunk_index (with_plan v w) = sw_current_first_chunk_index w"
  "sw_current_chunk_count (with_plan v w) = sw_current_chunk_count w"
  "sw_next_expected_chunk_index (with_plan v w) = sw_next_expected_chunk_index w"
  "sw_final_chunk_plaintext_len (with_plan v w) = sw_final_chunk_plaintext_len w"
  "sw_finalized_shards (with_plan v w) = sw_finalized_shards w" "sw_finished (with_plan v w) = sw_finished w"
  "sw_disk (with_plan v w) = sw_disk w"
  by (simp_all add: with_plan_def)

definition ignores_plan :: "(ShardWriter, 'a) op \<Rightarrow> bool" where
  "ignores_plan m \<longleftrightarrow> (\<forall>v w. m (with_plan v w) = (case m w of (r, w') \<Rightarrow> (r, with_plan v w')))"

lemma ignores_plan_intros:
  "ignores_plan m \<Longrightarrow> (\<And>x. ignores_plan (f x)) \<Longrightarrow> ignores_plan (bindS m f)"
  "(\<And>v w. g (with_plan v w) = g w) \<Longrightarrow> (\<And>w. ignores_plan (g w)) \<Longrightarrow> ignores_plan (getS g)"
  "ignores_plan (returnS x)" "ignores_plan (throwS e)" "ignores_plan (liftS r)" "ignores_plan (guardS c e)"
  "ignores_plan m \<Longrightarrow> ignores_plan n \<Longrightarrow> ignores_plan (if c then m else n)"
  "(\<And>v w. k (with_plan v w) = with_plan v (k w)) \<Longrightarrow> ignores_plan (modifyS k)"
  "ignores_plan (on_disk h)"
  by (auto simp: ignores_plan_def bindS_def op_defs on_disk_def with_plan_def split: prod.splits sum.splits)

lemma write_raw_ignores_plan: "ignores_plan (write_raw bs)"
  unfolding write_raw_def by (intro ignores_plan_intros) (simp_all add: with_plan_def)

lemma open_attempts_ignores_plan: "ignores_plan (open_attempts n i)"
proof (induction n)
  case (Suc n)
  show ?case unfolding open_attempts.simps begin_shard_def Let_def
    by (intro ignores_plan_intros write_raw_ignores_plan Suc) (simp_all add: with_plan_def)
qed (simp add: ignores_plan_intros)

lemma rewrite_shard_header_ignores_plan: "ignores_plan (rewrite_shard_header hmac p g i f c l)"
  unfolding rewrite_shard_header_def Let_def by (intro ignores_plan_intros) simp_all

lemma close_current_shard_ignores_plan: "ignores_plan (close_current_shard hmac)"
  unfolding close_current_shard_def
  by (intro ignores_plan_intros rewrite_shard_header_ignores_plan) (simp_all add: with_plan_def)

lemma run_flush_ignores_plan: "ignores_plan (run_flush hook p mode)"
  unfolding run_flush_def by (cases hook) (simp_all add: ignores_plan_intros)

lemma rewrite_finalized_ignores_plan: "ignores_plan (rewrite_finalized hmac g bs fzs)"
proof (induction fzs)
  case (Cons fz fzs)
  show ?case unfolding rewrite_finalized.simps
    by (intro ignores_plan_intros rewrite_shard_header_ignores_plan run_flush_ignores_plan Cons) simp_all
qed (simp add: ignores_plan_intros)

lemma write_ignores_plan:
  "ignores_plan (write_chunk_frame hmac h hb ct)" "ignores_plan (Shard_Writer.finish hmac)"
proof -
  have c: "write_checks (with_plan v w) h hb ct = write_checks w h hb ct" for v w
    by (simp only: write_checks_def with_plan_sel)
  have f: "final_global_header (with_plan v w) = final_global_header w" for v w
    by (simp only: final_global_header_def with_plan_sel)
  have o: "ignores_plan (open_next_shard i)" for i
    unfolding open_next_shard_def by (intro ignores_plan_intros open_attempts_ignores_plan) simp_all
  show "ignores_plan (write_chunk_frame hmac h hb ct)"
    unfolding write_chunk_frame_def Let_def
    by (intro ignores_plan_intros o close_current_shard_ignores_plan write_raw_ignores_plan)
       ((simp only: c with_plan_sel; fail) | (simp add: with_plan_def; fail))+
  show "ignores_plan (Shard_Writer.finish hmac)"
    unfolding Shard_Writer.finish_def
    by (intro ignores_plan_intros close_current_shard_ignores_plan rewrite_finalized_ignores_plan run_flush_ignores_plan)
       ((simp only: f with_plan_sel; fail) | (simp add: with_plan_def; fail))+
qed

text \<open>Planning, with the other members as they are at another time.\<close>

lemma plan_frame_apart:
  assumes "sw_options v = sw_options w" "sw_finished v = sw_finished w"
  shows "plan_chunk_frame i p c t f (with_plan v w) =
    (case plan_chunk_frame i p c t f v of (r, v') \<Rightarrow> (r, with_plan v' w))"
  using assms
  by (simp add: plan_chunk_frame_def bindS_def op_defs Let_def with_plan_def split: sum.splits)

end
