(* ===== verification/Work_Queue.thy ===== *)
theory Work_Queue
  imports Prelude
begin

text \<open>
  \<^verbatim>\<open>src/pipeline/WorkQueue.hpp\<close>: the bounded blocking queue between the threads of a pipeline.  A call
  that has to wait is not taken: \<open>push_ready\<close> and \<open>pop_ready\<close> are the predicates of the two condition
  variables, and \<open>push\<close> and \<open>pop\<close> are what the calls do under the mutex once they hold.
\<close>

record 'a work_queue =
  wq_capacity :: nat
  wq_closed :: bool
  wq_queue :: "'a list"

definition new_WorkQueue :: "nat \<Rightarrow> 'a work_queue" where
  "new_WorkQueue capacity =
     \<lparr>wq_capacity = (if capacity = 0 then 1 else capacity), wq_closed = False, wq_queue = []\<rparr>"

definition push_ready :: "'a work_queue \<Rightarrow> bool" where
  "push_ready q \<longleftrightarrow> wq_closed q \<or> length (wq_queue q) < wq_capacity q"

definition push :: "'a \<Rightarrow> 'a work_queue \<Rightarrow> bool \<times> 'a work_queue" where
  "push value q = (if wq_closed q then (False, q) else (True, q\<lparr>wq_queue := wq_queue q @ [value]\<rparr>))"

definition pop_ready :: "'a work_queue \<Rightarrow> bool" where
  "pop_ready q \<longleftrightarrow> wq_closed q \<or> wq_queue q \<noteq> []"

definition pop :: "'a work_queue \<Rightarrow> 'a option \<times> 'a work_queue" where
  "pop q = (case wq_queue q of [] \<Rightarrow> (None, q) | value # rest \<Rightarrow> (Some value, q\<lparr>wq_queue := rest\<rparr>))"

definition close_queue :: "'a work_queue \<Rightarrow> 'a work_queue" where
  "close_queue q = (if wq_closed q then q else q\<lparr>wq_closed := True\<rparr>)"

subsection \<open>The contract of a bounded queue\<close>

text \<open>The contract in the comment of the class, with the contents as a list.\<close>

locale bounded_queue =
  fixes contents :: "'q \<Rightarrow> 'a list" and capacity :: "'q \<Rightarrow> nat" and closed :: "'q \<Rightarrow> bool"
    and can_push :: "'q \<Rightarrow> bool" and enqueue :: "'a \<Rightarrow> 'q \<Rightarrow> bool \<times> 'q"
    and can_pop :: "'q \<Rightarrow> bool" and dequeue :: "'q \<Rightarrow> 'a option \<times> 'q" and shut :: "'q \<Rightarrow> 'q"
  assumes push_blocks: "\<not> closed q \<Longrightarrow> can_push q \<longleftrightarrow> length (contents q) < capacity q"
    and pop_blocks: "\<not> closed q \<Longrightarrow> can_pop q \<longleftrightarrow> contents q \<noteq> []"
    and closed_wakes: "closed q \<Longrightarrow> can_push q \<and> can_pop q"
    and push_open: "\<not> closed q \<Longrightarrow> enqueue x q = (True, q') \<Longrightarrow> contents q' = contents q @ [x] \<and> \<not> closed q'"
    and push_open_succeeds: "\<not> closed q \<Longrightarrow> fst (enqueue x q)"
    and push_closed: "closed q \<Longrightarrow> enqueue x q = (False, q)"
    and pop_some: "contents q = x # xs \<Longrightarrow> fst (dequeue q) = Some x \<and> contents (snd (dequeue q)) = xs"
    and pop_none: "contents q = [] \<Longrightarrow> dequeue q = (None, q)"
    and pop_closed: "closed (snd (dequeue q)) = closed q"
    and shut_closed: "closed (shut q)" "contents (shut q) = contents q"
    and capacity_fixed: "capacity (snd (enqueue x q)) = capacity q" "capacity (snd (dequeue q)) = capacity q"
      "capacity (shut q) = capacity q"
begin

text \<open>The accepted pushes and the values popped, over any sequence of completed calls.\<close>

inductive transfers :: "'q \<Rightarrow> 'a list \<Rightarrow> 'a list \<Rightarrow> 'q \<Rightarrow> bool" where
  transfers_start: "transfers q [] [] q"
| transfers_push: "transfers q ins outs q1 \<Longrightarrow> can_push q1 \<Longrightarrow> enqueue x q1 = (ok, q2)
    \<Longrightarrow> transfers q (if ok then ins @ [x] else ins) outs q2"
| transfers_pop: "transfers q ins outs q1 \<Longrightarrow> can_pop q1 \<Longrightarrow> dequeue q1 = (r, q2)
    \<Longrightarrow> transfers q ins (case r of None \<Rightarrow> outs | Some x \<Rightarrow> outs @ [x]) q2"
| transfers_shut: "transfers q ins outs q1 \<Longrightarrow> transfers q ins outs (shut q1)"

lemma transfers_fifo:
  "transfers q ins outs q' \<Longrightarrow> outs @ contents q' = contents q @ ins \<and> capacity q' = capacity q
     \<and> (length (contents q) \<le> capacity q \<longrightarrow> length (contents q') \<le> capacity q)"
proof (induction rule: transfers.induct)
  case (transfers_start q)
  then show ?case by simp
next
  case (transfers_push q ins outs q1 x ok q2)
  show ?case
  proof (cases "closed q1")
    case True
    then show ?thesis using transfers_push push_closed [of q1 x] by simp
  next
    case False
    then have ok: "ok" using push_open_succeeds [of q1 x] transfers_push.hyps by simp
    have c: "capacity q2 = capacity q1" using capacity_fixed(1) [of x q1] transfers_push.hyps by simp
    show ?thesis
      using push_open [OF False, of x q2] push_blocks [OF False] transfers_push.hyps transfers_push.IH ok c
      by auto
  qed
next
  case (transfers_pop q ins outs q1 r q2)
  show ?case
  proof (cases "contents q1")
    case Nil
    then show ?thesis using pop_none [of q1] transfers_pop by auto
  next
    case (Cons x xs)
    have c: "capacity q2 = capacity q1" using capacity_fixed(2) [of q1] transfers_pop.hyps by simp
    show ?thesis using pop_some [OF Cons] transfers_pop.hyps transfers_pop.IH Cons c by auto
  qed
next
  case (transfers_shut q ins outs q1)
  then show ?case by (simp add: shut_closed capacity_fixed)
qed

end

interpretation wq: bounded_queue wq_queue wq_capacity wq_closed push_ready push pop_ready pop close_queue
  by unfold_locales
     (auto simp: push_ready_def push_def pop_ready_def pop_def close_queue_def split: list.splits)

text \<open>
  The calls that completed on a queue, in the order in which they held the mutex, with what they
  returned.  A call that would have to wait does not complete.
\<close>

datatype 'a queue_call = Push 'a | Pop | Close
datatype 'a queue_answer = Pushed bool | Popped "'a option" | Closed

fun queue_calls :: "'a queue_call list \<Rightarrow> 'a work_queue \<Rightarrow> ('a queue_answer list \<times> 'a work_queue) option" where
  "queue_calls [] q = Some ([], q)"
| "queue_calls (Push x # cs) q =
    (if \<not> push_ready q then None
     else case push x q of (ok, q1) \<Rightarrow>
       (case queue_calls cs q1 of None \<Rightarrow> None | Some (rs, q2) \<Rightarrow> Some (Pushed ok # rs, q2)))"
| "queue_calls (Pop # cs) q =
    (if \<not> pop_ready q then None
     else case pop q of (v, q1) \<Rightarrow>
       (case queue_calls cs q1 of None \<Rightarrow> None | Some (rs, q2) \<Rightarrow> Some (Popped v # rs, q2)))"
| "queue_calls (Close # cs) q =
    (case queue_calls cs (close_queue q) of None \<Rightarrow> None | Some (rs, q2) \<Rightarrow> Some (Closed # rs, q2))"

fun pushed_values :: "'a queue_call list \<Rightarrow> 'a queue_answer list \<Rightarrow> 'a list" where
  "pushed_values (Push x # cs) (Pushed True # rs) = x # pushed_values cs rs"
| "pushed_values (c # cs) (r # rs) = pushed_values cs rs"
| "pushed_values cs rs = []"

fun popped_values :: "'a queue_answer list \<Rightarrow> 'a list" where
  "popped_values (Popped (Some x) # rs) = x # popped_values rs"
| "popped_values (r # rs) = popped_values rs"
| "popped_values [] = []"

lemma queue_calls_transfers:
  "queue_calls cs q = Some (rs, q') \<Longrightarrow> wq.transfers q0 ins0 outs0 q
     \<Longrightarrow> wq.transfers q0 (ins0 @ pushed_values cs rs) (outs0 @ popped_values rs) q'"
proof (induction cs q arbitrary: rs ins0 outs0 rule: queue_calls.induct)
  case (1 q)
  then show ?case by simp
next
  case (2 x cs q)
  then obtain ok q1 rs1 where p: "push_ready q" "push x q = (ok, q1)" "queue_calls cs q1 = Some (rs1, q')" "rs = Pushed ok # rs1"
    by (auto split: if_splits option.splits prod.splits)
  from wq.transfers_push [OF 2(3) p(1,2)]
  show ?case using 2(1) [OF _ p(2) [symmetric] p(3)] p(1,4) by (cases ok) force+
next
  case (3 cs q)
  then obtain v q1 rs1 where p: "pop_ready q" "pop q = (v, q1)" "queue_calls cs q1 = Some (rs1, q')" "rs = Popped v # rs1"
    by (auto split: if_splits option.splits prod.splits)
  from wq.transfers_pop [OF 3(3) p(1,2)]
  show ?case using 3(1) [OF _ p(2) [symmetric] p(3)] p(1,4) by (cases v) force+
next
  case (4 cs q)
  then obtain rs1 where p: "queue_calls cs (close_queue q) = Some (rs1, q')" "rs = Closed # rs1"
    by (auto split: option.splits)
  show ?case using 4(1) [OF p(1) wq.transfers_shut [OF 4(3)]] p(2) by simp
qed

lemma queue_calls_fifo:
  assumes "queue_calls cs (new_WorkQueue capacity) = Some (rs, q)"
  shows "pushed_values cs rs = popped_values rs @ wq_queue q \<and> length (wq_queue q) \<le> max 1 capacity"
proof -
  have "wq.transfers (new_WorkQueue capacity) ([] @ pushed_values cs rs) ([] @ popped_values rs) q"
    using assms wq.transfers_start by (rule queue_calls_transfers)
  from wq.transfers_fifo [OF this] show ?thesis by (auto simp: new_WorkQueue_def split: if_splits)
qed

lemma queue_calls_length: "queue_calls cs q = Some (rs, q') \<Longrightarrow> length rs = length cs"
  by (induction cs q arbitrary: rs rule: queue_calls.induct) (auto split: if_splits option.splits prod.splits)

lemma queue_calls_closed: "queue_calls cs q = Some (rs, q') \<Longrightarrow> wq_closed q' \<longleftrightarrow> wq_closed q \<or> Close \<in> set cs"
  by (induction cs q arbitrary: rs rule: queue_calls.induct)
    (auto simp: push_def pop_def close_queue_def split: if_splits option.splits prod.splits list.splits)

lemma queue_calls_append:
  "queue_calls (cs @ ds) q = Some (rs, q') \<Longrightarrow>
     \<exists>rs1 q1 rs2. queue_calls cs q = Some (rs1, q1) \<and> queue_calls ds q1 = Some (rs2, q') \<and> rs = rs1 @ rs2"
  by (induction cs q arbitrary: rs rule: queue_calls.induct) (fastforce split: if_splits option.splits prod.splits)+

text \<open>C36: A \<open>WorkQueue\<close> is a bounded FIFO.  Over any sequence of completed calls, the values popped are
  the values accepted by \<open>push\<close>, in that order, the rest is still queued, and the queue never holds
  more than its capacity.  A \<open>push\<close> is refused exactly if the queue has been closed before, and a
  \<open>pop\<close> reports the end only on a closed queue from which every accepted value has been popped.\<close>
theorem work_queue_fifo:
  assumes "queue_calls cs (new_WorkQueue capacity) = Some (rs, q)"
  shows "pushed_values cs rs = popped_values rs @ wq_queue q \<and> length (wq_queue q) \<le> max 1 capacity
    \<and> (\<forall>i<length cs. \<forall>x. cs ! i = Push x \<longrightarrow> rs ! i = Pushed (Close \<notin> set (take i cs)))
    \<and> (\<forall>i<length cs. cs ! i = Pop \<longrightarrow> rs ! i = Popped None \<longrightarrow>
         Close \<in> set (take i cs) \<and> pushed_values (take i cs) (take i rs) = popped_values (take i rs))"
proof -
  let ?q = "new_WorkQueue capacity :: 'a work_queue"
  have step: "\<exists>q1 rs2. queue_calls (take i cs) ?q = Some (take i rs, q1)
      \<and> queue_calls (cs ! i # drop (Suc i) cs) q1 = Some (rs ! i # rs2, q)" if i: "i < length cs" for i
  proof -
    have "queue_calls (take i cs @ cs ! i # drop (Suc i) cs) ?q = Some (rs, q)"
      using assms id_take_nth_drop [OF i] by simp
    then obtain rs1 q1 rs2 where r: "queue_calls (take i cs) ?q = Some (rs1, q1)"
      "queue_calls (cs ! i # drop (Suc i) cs) q1 = Some (rs2, q)" "rs = rs1 @ rs2"
      using queue_calls_append by blast
    have "length rs1 = i" using queue_calls_length [OF r(1)] i by simp
    moreover have "rs2 \<noteq> []" using queue_calls_length [OF r(2)] by auto
    ultimately have "rs1 = take i rs" "rs2 = rs ! i # tl rs2" using r(3) by (auto simp: nth_append hd_conv_nth [symmetric])
    then show ?thesis using r by metis
  qed
  have push_answer: "rs ! i = Pushed (Close \<notin> set (take i cs))" if i: "i < length cs" and x: "cs ! i = Push x" for i x
  proof -
    obtain q1 rs2 where "queue_calls (take i cs) ?q = Some (take i rs, q1)"
      "queue_calls (cs ! i # drop (Suc i) cs) q1 = Some (rs ! i # rs2, q)" using step [OF i] by blast
    then show ?thesis using x queue_calls_closed [of "take i cs" ?q]
      by (auto simp: push_def new_WorkQueue_def split: if_splits option.splits)
  qed
  have pop_answer: "Close \<in> set (take i cs) \<and> pushed_values (take i cs) (take i rs) = popped_values (take i rs)"
    if i: "i < length cs" and p: "cs ! i = Pop" "rs ! i = Popped None" for i
  proof -
    obtain q1 rs2 where s: "queue_calls (take i cs) ?q = Some (take i rs, q1)"
      "queue_calls (cs ! i # drop (Suc i) cs) q1 = Some (rs ! i # rs2, q)" using step [OF i] by blast
    then have "wq_queue q1 = []" "wq_closed q1"
      using p by (auto simp: pop_def pop_ready_def split: if_splits option.splits list.splits)
    then show ?thesis using queue_calls_closed [OF s(1)] queue_calls_fifo [OF s(1)] by (simp add: new_WorkQueue_def)
  qed
  show ?thesis using queue_calls_fifo [OF assms] push_answer pop_answer by blast
qed

theorem work_queue_fifo_witness:
  "\<exists>rs q. queue_calls [Push 1, Push 2, Pop, Close, Push 3, Pop, Pop] (new_WorkQueue 2) = Some (rs, q)
     \<and> rs = [Pushed True, Pushed True, Popped (Some 1), Closed, Pushed False, Popped (Some (2 :: nat)), Popped None]
     \<and> pushed_values [Push 1, Push 2, Pop, Close, Push 3, Pop, Pop] rs = popped_values rs @ wq_queue q"
proof -
  have c: "queue_calls [Push 1, Push 2, Pop, Close, Push 3, Pop, Pop] (new_WorkQueue 2) =
     Some ([Pushed True, Pushed True, Popped (Some 1), Closed, Pushed False, Popped (Some (2 :: nat)), Popped None],
       \<lparr>wq_capacity = 2, wq_closed = True, wq_queue = []\<rparr>)"
    by code_simp
  show ?thesis using c work_queue_fifo [OF c] by blast
qed

end
