(* ===== verification/Pipeline.thy ===== *)
theory Pipeline
  imports Work_Queue
begin

text \<open>
  The thread structure that \<^verbatim>\<open>EncryptPipeline::run\<close> and \<^verbatim>\<open>DecryptPipeline::run\<close> share, with
  \<^verbatim>\<open>src/pipeline/PipelineCommon.hpp\<close>: one producer feeds a bounded queue of jobs, a number of workers
  turn jobs into results on a second bounded queue, a joiner closes that queue when all workers
  are done, and the calling thread puts the results into the sink in the order of their indices.
  The state of every thread is a program counter with its local variables; a step is one call on
  a shared object with the computation that follows it up to the next such call.  What the
  threads compute is a record of functions, given by the two pipelines.
\<close>

definition resolve_worker_count :: "u32 \<Rightarrow> u32 \<Rightarrow> u32" where
  "resolve_worker_count hardware_concurrency requested =
     (if requested \<noteq> 0 then requested
      else if hardware_concurrency = 0 then 1 else hardware_concurrency)"

lemma resolve_worker_count_pos: "0 < unat (resolve_worker_count hw requested)"
  using unat_gt_0 [of "resolve_worker_count hw requested"] by (simp add: resolve_worker_count_def)

definition resolve_queue_depth :: "nat \<Rightarrow> nat \<Rightarrow> nat" where
  "resolve_queue_depth requested worker_count =
     (if requested \<noteq> 0 then requested else max 2 (worker_count * 2))"

definition checked_chunk_size :: "u64 \<Rightarrow> nat result" where
  "checked_chunk_size chunk_plain_size =
    throw_if (chunk_plain_size = 0) (InvalidArgument ''chunk_plain_size must be greater than zero'')
    (Inr (unat chunk_plain_size))"

text \<open>\<open>FailureState\<close>: the first recorded exception, if any.\<close>

type_synonym failure_state = "bseal_error option"

definition record_failure :: "bseal_error \<Rightarrow> failure_state \<Rightarrow> failure_state" where
  "record_failure e f = (case f of None \<Rightarrow> Some e | Some e' \<Rightarrow> Some e')"

text \<open>
  What the threads compute: whether the producer looks at \<open>failed()\<close> before its next step, its next
  job, whether it goes on after a refused push, the work on a job, the index of a result, and the
  two operations on the sink, and the messages of the three errors of the ordering.
\<close>

record ('src, 'job, 'res, 'snk) pipe_code =
  pc_check :: "'src \<Rightarrow> bool"
  pc_next :: "('src, 'job option) op"
  pc_ignores_refusal :: "'src \<Rightarrow> bool"
  pc_work :: "'job \<Rightarrow> 'res result"
  pc_index :: "'res \<Rightarrow> u64"
  pc_put :: "'res \<Rightarrow> ('snk, unit) op"
  pc_end :: "('snk, unit) op"
  pc_stale :: string
  pc_duplicate :: string
  pc_missing :: string

datatype 'job producer_pc = ProducerLoop | ProducerPush 'job | ProducerDone
datatype ('job, 'res) worker_pc = WorkerLoop | WorkerPop | WorkerJob 'job | WorkerPush 'res | WorkerDone
datatype sink_pc = SinkPop | SinkDone

record ('src, 'job, 'res, 'snk) pipe_state =
  ps_src :: 'src
  ps_producer :: "'job producer_pc"
  ps_jobs :: "'job work_queue"
  ps_workers :: "('job, 'res) worker_pc list"
  ps_results :: "'res work_queue"
  ps_joined :: bool
  ps_sink :: sink_pc
  ps_pending :: "(u64 \<times> 'res) list"
  ps_next_expected_index :: u64
  ps_snk :: 'snk
  ps_failure :: failure_state

definition start_pipeline :: "nat \<Rightarrow> nat \<Rightarrow> 'src \<Rightarrow> 'snk \<Rightarrow> ('src, 'job, 'res, 'snk) pipe_state" where
  "start_pipeline worker_count queue_depth src snk =
     \<lparr>ps_src = src, ps_producer = ProducerLoop, ps_jobs = new_WorkQueue queue_depth,
      ps_workers = replicate worker_count WorkerLoop, ps_results = new_WorkQueue queue_depth,
      ps_joined = False, ps_sink = SinkPop, ps_pending = [], ps_next_expected_index = 0,
      ps_snk = snk, ps_failure = None\<rparr>"

text \<open>The producer.  \<open>None\<close>: the thread has ended or has to wait.\<close>

definition producer_ends :: "('src, 'job, 'res, 'snk) pipe_state \<Rightarrow> ('src, 'job, 'res, 'snk) pipe_state" where
  "producer_ends s = s\<lparr>ps_jobs := close_queue (ps_jobs s), ps_producer := ProducerDone\<rparr>"

definition producer_step ::
  "('src, 'job, 'res, 'snk) pipe_code \<Rightarrow> ('src, 'job, 'res, 'snk) pipe_state
     \<Rightarrow> ('src, 'job, 'res, 'snk) pipe_state option" where
  "producer_step code s =
    (case ps_producer s of
       ProducerDone \<Rightarrow> None
     | ProducerLoop \<Rightarrow>
         if pc_check code (ps_src s) \<and> ps_failure s \<noteq> None then Some (producer_ends s)
         else (case pc_next code (ps_src s) of
                 (Inr (Some job), src) \<Rightarrow> Some (s\<lparr>ps_src := src, ps_producer := ProducerPush job\<rparr>)
               | (Inr None, src) \<Rightarrow> Some (producer_ends (s\<lparr>ps_src := src\<rparr>))
               | (Inl e, src) \<Rightarrow>
                   Some (producer_ends (s\<lparr>ps_src := src, ps_failure := record_failure e (ps_failure s)\<rparr>)))
     | ProducerPush job \<Rightarrow>
         if \<not> push_ready (ps_jobs s) then None
         else (case push job (ps_jobs s) of (ok, q) \<Rightarrow>
           let s' = s\<lparr>ps_jobs := q, ps_producer := ProducerLoop\<rparr> in
           if ok \<or> pc_ignores_refusal code (ps_src s) then Some s' else Some (producer_ends s')))"

text \<open>A worker.\<close>

definition set_worker ::
  "nat \<Rightarrow> ('job, 'res) worker_pc \<Rightarrow> ('src, 'job, 'res, 'snk) pipe_state \<Rightarrow> ('src, 'job, 'res, 'snk) pipe_state" where
  "set_worker i pc s = s\<lparr>ps_workers := (ps_workers s)[i := pc]\<rparr>"

definition worker_step ::
  "('src, 'job, 'res, 'snk) pipe_code \<Rightarrow> nat \<Rightarrow> ('src, 'job, 'res, 'snk) pipe_state
     \<Rightarrow> ('src, 'job, 'res, 'snk) pipe_state option" where
  "worker_step code i s =
    (if i \<ge> length (ps_workers s) then None
     else case ps_workers s ! i of
       WorkerDone \<Rightarrow> None
     | WorkerLoop \<Rightarrow> Some (set_worker i (if ps_failure s \<noteq> None then WorkerDone else WorkerPop) s)
     | WorkerPop \<Rightarrow>
         if \<not> pop_ready (ps_jobs s) then None
         else (case pop (ps_jobs s) of
                 (None, q) \<Rightarrow> Some (set_worker i WorkerDone s)
               | (Some job, q) \<Rightarrow> Some (set_worker i (WorkerJob job) (s\<lparr>ps_jobs := q\<rparr>)))
     | WorkerJob job \<Rightarrow>
         (case pc_work code job of
            Inr r \<Rightarrow> Some (set_worker i (WorkerPush r) s)
          | Inl e \<Rightarrow> Some (set_worker i WorkerDone (s\<lparr>ps_failure := record_failure e (ps_failure s),
                ps_jobs := close_queue (ps_jobs s), ps_results := close_queue (ps_results s)\<rparr>)))
     | WorkerPush r \<Rightarrow>
         if \<not> push_ready (ps_results s) then None
         else (case push r (ps_results s) of (ok, q) \<Rightarrow>
           Some (set_worker i (if ok then WorkerLoop else WorkerDone) (s\<lparr>ps_results := q\<rparr>))))"

text \<open>The joiner.\<close>

definition joiner_step :: "('src, 'job, 'res, 'snk) pipe_state \<Rightarrow> ('src, 'job, 'res, 'snk) pipe_state option" where
  "joiner_step s =
    (if ps_joined s \<or> \<not> list_all (\<lambda>w. w = WorkerDone) (ps_workers s) then None
     else Some (s\<lparr>ps_results := close_queue (ps_results s), ps_joined := True\<rparr>))"

text \<open>The sink: results that are next in order leave the map of pending results.\<close>

function drain ::
  "('res \<Rightarrow> ('snk, unit) op) \<Rightarrow> (u64 \<times> 'res) list \<Rightarrow> u64 \<Rightarrow> 'snk
     \<Rightarrow> unit result \<times> (u64 \<times> 'res) list \<times> u64 \<times> 'snk" where
  "drain put pending next_index snk =
    (case map_of pending next_index of
       None \<Rightarrow> (Inr (), pending, next_index, snk)
     | Some r \<Rightarrow>
         (case put r snk of
            (Inl e, snk') \<Rightarrow> (Inl e, pending, next_index, snk')
          | (Inr _, snk') \<Rightarrow>
              drain put (filter (\<lambda>(i, _). i \<noteq> next_index) pending) (next_index + 1) snk'))"
  by pat_completeness auto
termination
proof (relation "measure (\<lambda>(put, pending, n, snk). length pending)", goal_cases)
  case (2 put pending next_index snk r y z u)
  then have "(next_index, r) \<in> set pending" by (auto dest: map_of_SomeD)
  then show ?case by (auto intro!: length_filter_less)
qed simp

definition sink_fails ::
  "bseal_error \<Rightarrow> ('src, 'job, 'res, 'snk) pipe_state \<Rightarrow> ('src, 'job, 'res, 'snk) pipe_state" where
  "sink_fails e s = s\<lparr>ps_failure := record_failure e (ps_failure s),
     ps_results := close_queue (ps_results s), ps_sink := SinkDone\<rparr>"

definition sink_item ::
  "('src, 'job, 'res, 'snk) pipe_code \<Rightarrow> 'res \<Rightarrow> ('src, 'job, 'res, 'snk) pipe_state
     \<Rightarrow> ('src, 'job, 'res, 'snk) pipe_state" where
  "sink_item code r s =
    (if pc_index code r < ps_next_expected_index s then sink_fails (Error (pc_stale code)) s
     else if map_of (ps_pending s) (pc_index code r) \<noteq> None then
       sink_fails (Error (pc_duplicate code)) s
     else (case drain (pc_put code) ((pc_index code r, r) # ps_pending s) (ps_next_expected_index s) (ps_snk s) of
             (res, pending, next_index, snk) \<Rightarrow>
               let s' = s\<lparr>ps_pending := pending, ps_next_expected_index := next_index, ps_snk := snk\<rparr> in
               (case res of Inl e \<Rightarrow> sink_fails e s' | Inr _ \<Rightarrow> s')))"

definition sink_end ::
  "('src, 'job, 'res, 'snk) pipe_code \<Rightarrow> ('src, 'job, 'res, 'snk) pipe_state \<Rightarrow> ('src, 'job, 'res, 'snk) pipe_state" where
  "sink_end code s =
    (if ps_failure s \<noteq> None then s\<lparr>ps_sink := SinkDone\<rparr>
     else if ps_pending s \<noteq> [] then sink_fails (Error (pc_missing code)) s
     else (case pc_end code (ps_snk s) of
             (Inl e, snk) \<Rightarrow> sink_fails e (s\<lparr>ps_snk := snk\<rparr>)
           | (Inr _, snk) \<Rightarrow> s\<lparr>ps_snk := snk, ps_sink := SinkDone\<rparr>))"

definition sink_step ::
  "('src, 'job, 'res, 'snk) pipe_code \<Rightarrow> ('src, 'job, 'res, 'snk) pipe_state
     \<Rightarrow> ('src, 'job, 'res, 'snk) pipe_state option" where
  "sink_step code s =
    (if ps_sink s = SinkDone \<or> \<not> pop_ready (ps_results s) then None
     else (case pop (ps_results s) of
             (None, q) \<Rightarrow> Some (sink_end code s)
           | (Some r, q) \<Rightarrow> Some (sink_item code r (s\<lparr>ps_results := q\<rparr>))))"

datatype thread = Producer | Worker nat | Joiner | Sink

fun thread_step ::
  "('src, 'job, 'res, 'snk) pipe_code \<Rightarrow> thread \<Rightarrow> ('src, 'job, 'res, 'snk) pipe_state
     \<Rightarrow> ('src, 'job, 'res, 'snk) pipe_state option" where
  "thread_step code Producer s = producer_step code s"
| "thread_step code (Worker i) s = worker_step code i s"
| "thread_step code Joiner s = joiner_step s"
| "thread_step code Sink s = sink_step code s"

fun run_schedule ::
  "('src, 'job, 'res, 'snk) pipe_code \<Rightarrow> thread list \<Rightarrow> ('src, 'job, 'res, 'snk) pipe_state
     \<Rightarrow> ('src, 'job, 'res, 'snk) pipe_state option" where
  "run_schedule code [] s = Some s"
| "run_schedule code (t # ts) s =
    (case thread_step code t s of None \<Rightarrow> None | Some s' \<Rightarrow> run_schedule code ts s')"

lemma run_schedule_append:
  "run_schedule code (ts @ us) s = (case run_schedule code ts s of None \<Rightarrow> None | Some s' \<Rightarrow> run_schedule code us s')"
  by (induction code ts s rule: run_schedule.induct) (auto split: option.splits)

text \<open>All threads have ended; \<open>run\<close> then rethrows the first recorded exception.\<close>

definition all_done :: "('src, 'job, 'res, 'snk) pipe_state \<Rightarrow> bool" where
  "all_done s \<longleftrightarrow> ps_producer s = ProducerDone \<and> list_all (\<lambda>w. w = WorkerDone) (ps_workers s)
     \<and> ps_joined s \<and> ps_sink s = SinkDone"

definition pipeline_result :: "('src, 'job, 'res, 'snk) pipe_state \<Rightarrow> unit result" where
  "pipeline_result s = (case ps_failure s of None \<Rightarrow> Inr () | Some e \<Rightarrow> Inl e)"

subsection \<open>Invariants of the threads\<close>

declare drain.simps [simp del]

text \<open>As long as no failure is recorded, a queue is closed only by the thread that owns its end.\<close>

definition queues_ok :: "('src, 'job, 'res, 'snk) pipe_state \<Rightarrow> bool" where
  "queues_ok s \<longleftrightarrow>
     0 < wq_capacity (ps_jobs s) \<and> 0 < wq_capacity (ps_results s)
     \<and> (ps_producer s = ProducerDone \<longrightarrow> wq_closed (ps_jobs s))
     \<and> (ps_joined s \<longrightarrow> wq_closed (ps_results s) \<and> (\<forall>w\<in>set (ps_workers s). w = WorkerDone))
     \<and> (ps_failure s = None \<longrightarrow>
          (wq_closed (ps_jobs s) \<longrightarrow> ps_producer s = ProducerDone)
          \<and> (wq_closed (ps_results s) \<longrightarrow> ps_joined s)
          \<and> (WorkerDone \<in> set (ps_workers s) \<longrightarrow> wq_closed (ps_jobs s) \<and> wq_queue (ps_jobs s) = [])
          \<and> (ps_sink s = SinkDone \<longrightarrow> wq_closed (ps_results s) \<and> wq_queue (ps_results s) = []))"

lemma queue_ops [simp]:
  "wq_capacity (close_queue q) = wq_capacity q" "wq_queue (close_queue q) = wq_queue q" "wq_closed (close_queue q)"
  by (simp_all add: close_queue_def)

lemma pop_cases:
  assumes "pop q = (v, q')"
  obtains "v = None" "wq_queue q = []" "q' = q"
  | x xs where "v = Some x" "wq_queue q = x # xs" "q' = q\<lparr>wq_queue := xs\<rparr>"
  using assms by (auto simp: pop_def split: list.splits)

lemma record_failure_not_None [simp]: "record_failure e f \<noteq> None"
  by (simp add: record_failure_def split: option.splits)

lemma producer_step_queues: "producer_step code s = Some s' \<Longrightarrow> queues_ok s \<Longrightarrow> queues_ok s'"
  by (auto simp: producer_step_def producer_ends_def queues_ok_def push_def push_ready_def Let_def
      split: producer_pc.splits if_splits prod.splits sum.splits option.splits)

lemma set_list_update_cases: "x \<in> set (xs[i := y]) \<Longrightarrow> x = y \<or> x \<in> set xs"
  by (meson insertE set_update_subset_insert subset_iff)

lemma worker_step_queues:
  assumes "worker_step code i s = Some s'" "queues_ok s"
  shows "queues_ok s'"
proof -
  have i: "i < length (ps_workers s)" "ps_workers s ! i \<in> set (ps_workers s)"
    using assms(1) by (auto simp: worker_step_def split: if_splits)
  show ?thesis
  proof (cases "ps_workers s ! i")
    case WorkerLoop
    then show ?thesis
      using assms i by (auto simp: worker_step_def set_worker_def queues_ok_def split: if_splits dest!: set_list_update_cases)
  next
    case WorkerPop
    then show ?thesis
      using assms i by (auto simp: worker_step_def set_worker_def queues_ok_def pop_ready_def split: if_splits prod.splits option.splits
          elim!: pop_cases dest!: set_list_update_cases)
  next
    case (WorkerJob j)
    then show ?thesis
      using assms i by (auto simp: worker_step_def set_worker_def queues_ok_def split: sum.splits if_splits dest!: set_list_update_cases)
  next
    case (WorkerPush r)
    then show ?thesis
      using assms i by (auto simp: worker_step_def set_worker_def queues_ok_def push_def push_ready_def split: if_splits prod.splits
          dest!: set_list_update_cases)
  next
    case WorkerDone
    then show ?thesis using assms i by (simp add: worker_step_def)
  qed
qed

lemma joiner_step_queues: "joiner_step s = Some s' \<Longrightarrow> queues_ok s \<Longrightarrow> queues_ok s'"
  by (auto simp: joiner_step_def queues_ok_def list_all_iff split: if_splits)

lemma sink_item_cases:
  obtains (fails) e p n k where "sink_item code r s = sink_fails e (s\<lparr>ps_pending := p, ps_next_expected_index := n, ps_snk := k\<rparr>)"
  | (puts) p n k where "sink_item code r s = s\<lparr>ps_pending := p, ps_next_expected_index := n, ps_snk := k\<rparr>"
proof -
  obtain res p n k where d: "drain (pc_put code) ((pc_index code r, r) # ps_pending s) (ps_next_expected_index s) (ps_snk s) = (res, p, n, k)"
    by (cases "drain (pc_put code) ((pc_index code r, r) # ps_pending s) (ps_next_expected_index s) (ps_snk s)") auto
  let ?same = "s\<lparr>ps_pending := ps_pending s, ps_next_expected_index := ps_next_expected_index s, ps_snk := ps_snk s\<rparr>"
  consider "pc_index code r < ps_next_expected_index s"
    | "\<not> pc_index code r < ps_next_expected_index s" "map_of (ps_pending s) (pc_index code r) \<noteq> None"
    | "\<not> pc_index code r < ps_next_expected_index s" "map_of (ps_pending s) (pc_index code r) = None" by blast
  then show thesis
  proof cases
    case 1
    then have "sink_item code r s = sink_fails (Error (pc_stale code)) ?same"
      by (simp add: sink_item_def)
    then show thesis by (rule fails)
  next
    case 2
    then have "sink_item code r s = sink_fails (Error (pc_duplicate code)) ?same"
      by (simp only: sink_item_def if_False if_True simp_thms) simp
    then show thesis by (rule fails)
  next
    case 3
    then have eq: "sink_item code r s = (let s' = s\<lparr>ps_pending := p, ps_next_expected_index := n, ps_snk := k\<rparr> in
        (case res of Inl e \<Rightarrow> sink_fails e s' | Inr _ \<Rightarrow> s'))"
      by (simp only: sink_item_def if_False simp_thms d prod.case)
    show thesis
    proof (cases res)
      case (Inl e)
      show thesis by (rule fails [where e = e and p = p and n = n and k = k]) (simp only: eq Inl Let_def sum.case)
    next
      case (Inr x)
      show thesis by (rule puts [where p = p and n = n and k = k]) (simp only: eq Inr Let_def sum.case)
    qed
  qed
qed

lemma sink_fails_queues: "queues_ok s \<Longrightarrow> queues_ok (sink_fails e s)"
  by (auto simp: queues_ok_def sink_fails_def)

lemma sink_item_queues: "queues_ok s \<Longrightarrow> queues_ok (sink_item code r s)"
proof (cases rule: sink_item_cases [of code r s])
  case (fails e p n k)
  assume "queues_ok s"
  then have "queues_ok (s\<lparr>ps_pending := p, ps_next_expected_index := n, ps_snk := k\<rparr>)" by (simp add: queues_ok_def)
  then show ?thesis unfolding fails by (rule sink_fails_queues)
next
  case (puts p n k)
  assume "queues_ok s"
  then show ?thesis unfolding puts by (simp add: queues_ok_def)
qed

lemma sink_end_cases:
  obtains (fails) e k where "sink_end code s = sink_fails e (s\<lparr>ps_snk := k\<rparr>)"
  | (ends) k where "sink_end code s = s\<lparr>ps_snk := k, ps_sink := SinkDone\<rparr>"
proof (cases "ps_failure s = None \<and> ps_pending s = []")
  case True
  obtain res k where p: "pc_end code (ps_snk s) = (res, k)" by (cases "pc_end code (ps_snk s)")
  show thesis
  proof (cases res)
    case (Inl e)
    show thesis by (rule fails [where e = e and k = k]) (simp add: sink_end_def True p Inl)
  next
    case (Inr x)
    show thesis by (rule ends [where k = k]) (simp add: sink_end_def True p Inr)
  qed
next
  case False
  show thesis
  proof (cases "ps_failure s")
    case None
    then have "sink_end code s = sink_fails (Error (pc_missing code)) (s\<lparr>ps_snk := ps_snk s\<rparr>)"
      using False by (simp add: sink_end_def)
    then show thesis by (rule fails)
  next
    case (Some e)
    then have "sink_end code s = s\<lparr>ps_snk := ps_snk s, ps_sink := SinkDone\<rparr>" by (simp add: sink_end_def)
    then show thesis by (rule ends)
  qed
qed

lemma sink_end_queues:
  assumes "queues_ok s" "wq_queue (ps_results s) = []" "wq_closed (ps_results s)"
  shows "queues_ok (sink_end code s)"
proof (cases rule: sink_end_cases [of code s])
  case (fails e k)
  have "queues_ok (s\<lparr>ps_snk := k\<rparr>)" using assms(1) by (simp add: queues_ok_def)
  then show ?thesis unfolding fails by (rule sink_fails_queues)
next
  case (ends k)
  then show ?thesis using assms by (simp add: queues_ok_def)
qed

lemma sink_step_cases:
  assumes "sink_step code s = Some s'"
  obtains (ended) "wq_queue (ps_results s) = []" "wq_closed (ps_results s)" "s' = sink_end code s"
  | (item) r rs where "wq_queue (ps_results s) = r # rs"
      "s' = sink_item code r (s\<lparr>ps_results := ps_results s\<lparr>wq_queue := rs\<rparr>\<rparr>)"
  using assms by (cases "wq_queue (ps_results s)") (auto simp: sink_step_def pop_def pop_ready_def split: if_splits)

lemma sink_step_queues:
  assumes "sink_step code s = Some s'" "queues_ok s"
  shows "queues_ok s'"
  using assms(1)
proof (cases rule: sink_step_cases)
  case ended
  then show ?thesis using assms(2) by (simp add: sink_end_queues)
next
  case (item r rs)
  have "ps_sink s \<noteq> SinkDone" using assms(1) by (auto simp: sink_step_def)
  then have "queues_ok (s\<lparr>ps_results := ps_results s\<lparr>wq_queue := rs\<rparr>\<rparr>)"
    using assms(2) by (auto simp: queues_ok_def)
  then show ?thesis by (simp add: item sink_item_queues)
qed

lemma thread_step_queues: "thread_step code t s = Some s' \<Longrightarrow> queues_ok s \<Longrightarrow> queues_ok s'"
  by (cases t) (auto intro: producer_step_queues worker_step_queues joiner_step_queues sink_step_queues)

lemma run_schedule_queues: "run_schedule code ts s = Some s' \<Longrightarrow> queues_ok s \<Longrightarrow> queues_ok s'"
  by (induction code ts s rule: run_schedule.induct) (auto split: option.splits intro: thread_step_queues)

lemma start_queues: "queues_ok (start_pipeline n d src snk)"
  by (auto simp: queues_ok_def start_pipeline_def new_WorkQueue_def)

subsection \<open>Progress without failures\<close>

lemma worker_ready:
  assumes "i < length (ps_workers s)" "worker_step code i s = None"
  shows "ps_workers s ! i = WorkerDone
    \<or> ps_workers s ! i = WorkerPop \<and> \<not> pop_ready (ps_jobs s)
    \<or> (\<exists>r. ps_workers s ! i = WorkerPush r) \<and> \<not> push_ready (ps_results s)"
  using assms by (auto simp: worker_step_def split: worker_pc.splits if_splits prod.splits option.splits sum.splits)

lemma producer_ready:
  "producer_step code s = None \<Longrightarrow> ps_producer s = ProducerDone \<or> \<not> push_ready (ps_jobs s)"
  by (auto simp: producer_step_def Let_def split: producer_pc.splits if_splits prod.splits option.splits sum.splits)

lemma sink_ready: "sink_step code s = None \<Longrightarrow> ps_sink s = SinkDone \<or> \<not> pop_ready (ps_results s)"
  by (auto simp: sink_step_def split: if_splits prod.splits option.splits)

lemma queues_ok_progress:
  assumes inv: "queues_ok s" and nf: "ps_failure s = None" and w: "ps_workers s \<noteq> []"
    and stuck: "\<And>t. thread_step code t s = None"
  shows "all_done s"
proof -
  have cap: "0 < wq_capacity (ps_jobs s)" "0 < wq_capacity (ps_results s)"
    and jobs_closed: "wq_closed (ps_jobs s) \<longrightarrow> ps_producer s = ProducerDone"
    and res_closed: "wq_closed (ps_results s) \<longrightarrow> ps_joined s"
    and joined: "ps_joined s \<longrightarrow> wq_closed (ps_results s) \<and> (\<forall>w\<in>set (ps_workers s). w = WorkerDone)"
    and done_jobs: "WorkerDone \<in> set (ps_workers s) \<longrightarrow> wq_closed (ps_jobs s) \<and> wq_queue (ps_jobs s) = []"
    and sink_done: "ps_sink s = SinkDone \<longrightarrow> wq_closed (ps_results s)"
    using inv nf by (auto simp: queues_ok_def)
  have closed: "ps_joined s"
  proof (rule ccontr)
    assume nj: "\<not> ps_joined s"
    then have no: "\<not> wq_closed (ps_results s)" using res_closed by blast
    then have sink: "wq_queue (ps_results s) = []"
      using stuck [of Sink] sink_ready [of code s] sink_done by (auto simp: pop_ready_def)
    have worker: "ps_workers s ! i = WorkerDone \<or> ps_workers s ! i = WorkerPop \<and> \<not> pop_ready (ps_jobs s)"
      if "i < length (ps_workers s)" for i
      using worker_ready [OF that, of code] stuck [of "Worker i"] sink cap(2) by (auto simp: push_ready_def)
    have "\<not> list_all (\<lambda>w. w = WorkerDone) (ps_workers s)"
      using stuck [of Joiner] nj by (auto simp: joiner_step_def split: if_splits)
    then obtain i where i: "i < length (ps_workers s)" "ps_workers s ! i \<noteq> WorkerDone"
      by (auto simp: list_all_iff in_set_conv_nth)
    then have empty: "\<not> wq_closed (ps_jobs s)" "wq_queue (ps_jobs s) = []"
      using worker by (auto simp: pop_ready_def)
    then have "ps_producer s \<noteq> ProducerDone" using inv by (auto simp: queues_ok_def)
    then show False using stuck [of Producer] producer_ready [of code s] empty cap(1) by (auto simp: push_ready_def)
  qed
  then have all: "\<forall>w\<in>set (ps_workers s). w = WorkerDone" and rc: "wq_closed (ps_results s)" using joined by blast+
  then have "WorkerDone \<in> set (ps_workers s)" using w by (cases "ps_workers s") auto
  then have "ps_producer s = ProducerDone" using done_jobs jobs_closed by blast
  moreover have "ps_sink s = SinkDone"
    using stuck [of Sink] sink_ready [of code s] rc by (auto simp: pop_ready_def)
  ultimately show ?thesis using all closed by (simp add: all_done_def list_all_iff)
qed

lemma thread_step_workers:
  assumes "thread_step code t s = Some s'"
  shows "length (ps_workers s') = length (ps_workers s)"
proof (cases t)
  case Producer
  then show ?thesis
    using assms by (auto simp: producer_step_def producer_ends_def Let_def
        split: producer_pc.splits if_splits prod.splits option.splits sum.splits)
next
  case (Worker i)
  then show ?thesis
    using assms by (auto simp: worker_step_def set_worker_def
        split: worker_pc.splits if_splits prod.splits option.splits sum.splits)
next
  case Joiner
  then show ?thesis using assms by (auto simp: joiner_step_def split: if_splits)
next
  case Sink
  then have "sink_step code s = Some s'" using assms by simp
  then show ?thesis
  proof (cases rule: sink_step_cases)
    case ended
    show ?thesis unfolding ended(3) by (cases rule: sink_end_cases [of code s]) (simp_all add: sink_fails_def)
  next
    case (item r rs)
    show ?thesis unfolding item(2)
      by (cases rule: sink_item_cases [of code r "s\<lparr>ps_results := ps_results s\<lparr>wq_queue := rs\<rparr>\<rparr>"]) (simp_all add: sink_fails_def)
  qed
qed

lemma run_schedule_workers: "run_schedule code ts s = Some s' \<Longrightarrow> length (ps_workers s') = length (ps_workers s)"
  by (induction code ts s rule: run_schedule.induct) (auto split: option.splits dest: thread_step_workers)

text \<open>C22: As long as no failure is recorded, the threads of a pipeline never block each other: in every
  state that any schedule reaches, some thread can take a step unless all threads have ended.\<close>
theorem pipeline_progress:
  assumes "run_schedule code ts (start_pipeline worker_count queue_depth src snk) = Some s"
    "0 < worker_count" "ps_failure s = None" "\<not> all_done s"
  shows "\<exists>t s'. thread_step code t s = Some s'"
proof (rule ccontr)
  assume "\<nexists>t s'. thread_step code t s = Some s'"
  then have "thread_step code t s = None" for t by (cases "thread_step code t s") auto
  moreover have "queues_ok s" using run_schedule_queues [OF assms(1) start_queues] .
  moreover have "ps_workers s \<noteq> []"
    using run_schedule_workers [OF assms(1)] assms(2) by (auto simp: start_pipeline_def)
  ultimately show False using queues_ok_progress [of s code] assms(3,4) by blast
qed

subsection \<open>Failures of the sink\<close>

text \<open>A producer of numbers, workers that pass them on, and a sink that throws at the first number.\<close>

definition failing_sink :: "(nat, nat, nat, nat list) pipe_code" where
  "failing_sink =
     \<lparr>pc_check = (\<lambda>_. True), pc_next = (\<lambda>n. (Inr (if n < 6 then Some n else None), n + 1)),
      pc_ignores_refusal = (\<lambda>_. False), pc_work = Inr, pc_index = of_nat,
      pc_put = (\<lambda>r s. (Inl (InvalidArgument ''sink failed''), s)), pc_end = (\<lambda>s. (Inr (), s)),
      pc_stale = ''stale'', pc_duplicate = ''duplicate'', pc_missing = ''missing''\<rparr>"

definition blocking_schedule :: "thread list" where
  "blocking_schedule =
     replicate 4 Producer @ replicate 2 (Worker 0) @ replicate 3 Producer
     @ replicate 4 (Worker 0) @ replicate 2 Producer @ [Worker 0, Sink, Worker 0, Joiner]"

definition blocked_state :: "(nat, nat, nat, nat list) pipe_state" where
  "blocked_state =
     \<lparr>ps_src = 5, ps_producer = ProducerPush 4,
      ps_jobs = \<lparr>wq_capacity = 2, wq_closed = False, wq_queue = [2, 3]\<rparr>, ps_workers = [WorkerDone],
      ps_results = \<lparr>wq_capacity = 2, wq_closed = True, wq_queue = []\<rparr>, ps_joined = True,
      ps_sink = SinkDone, ps_pending = [(0, 0)], ps_next_expected_index = 0, ps_snk = [],
      ps_failure = Some (InvalidArgument ''sink failed'')\<rparr>"

text \<open>C38: A failure of the sink can block the pipeline for good.  With one worker and the default queue
  depth, a schedule leads to a state in which the sink has recorded its failure and closed the
  result queue, the worker has left its loop because its push was refused, and the producer waits
  for room in the job queue that nobody empties or closes any more: no thread can take a step,
  the producer has not ended, and \<open>run\<close> never returns to report the failure.\<close>
theorem sink_failure_blocks:
  "\<exists>s. run_schedule failing_sink blocking_schedule (start_pipeline 1 (resolve_queue_depth 0 1) 0 []) = Some s
     \<and> ps_failure s = Some (InvalidArgument ''sink failed'') \<and> \<not> all_done s
     \<and> (\<forall>t. thread_step failing_sink t s = None)"
proof (intro exI [of _ blocked_state] conjI allI)
  show "run_schedule failing_sink blocking_schedule (start_pipeline 1 (resolve_queue_depth 0 1) 0 []) = Some blocked_state"
    by code_simp
  show "thread_step failing_sink t blocked_state = None" for t
  proof (cases t)
    case (Worker i)
    then show ?thesis by (cases i) (simp_all add: blocked_state_def worker_step_def)
  qed (simp_all add: blocked_state_def producer_step_def joiner_step_def sink_step_def push_ready_def)
qed (simp_all add: blocked_state_def all_done_def)

subsection \<open>What reaches the sink\<close>

text \<open>The jobs a producer gives one after the other, and results put into a sink until one throws.\<close>

inductive yields :: "('src, 'job, 'res, 'snk) pipe_code \<Rightarrow> 'src \<Rightarrow> 'job list \<Rightarrow> 'src \<Rightarrow> bool"
  for code src0 where
  yields_none: "yields code src0 [] src0"
| yields_next: "yields code src0 js src \<Longrightarrow> pc_next code src = (Inr (Some j), src') \<Longrightarrow> yields code src0 (js @ [j]) src'"

fun put_all :: "('src, 'job, 'res, 'snk) pipe_code \<Rightarrow> 'res list \<Rightarrow> ('snk, unit) op" where
  "put_all code [] = returnS ()"
| "put_all code (r # rs) = bindS (pc_put code r) (\<lambda>_. put_all code rs)"

lemma put_all_append: "put_all code (rs @ rs') = bindS (put_all code rs) (\<lambda>_. put_all code rs')"
  by (induction rs) (auto simp: bindS_def returnS_def fun_eq_iff split: prod.splits sum.splits)

lemma put_all_snoc:
  "put_all code rs snk = (Inr (), snk1) \<Longrightarrow> put_all code (rs @ [r]) snk = (case pc_put code r snk1 of (Inl e, s) \<Rightarrow> (Inl e, s) | (Inr _, s) \<Rightarrow> (Inr (), s))"
  by (simp add: put_all_append bindS_def returnS_def split: prod.splits sum.splits)

text \<open>The results of the first jobs, in order.\<close>

definition results_of :: "('src, 'job, 'res, 'snk) pipe_code \<Rightarrow> 'job list \<Rightarrow> 'res list \<Rightarrow> bool" where
  "results_of code js rs \<longleftrightarrow> length rs \<le> length js \<and> (\<forall>k<length rs. pc_work code (js ! k) = Inr (rs ! k))"

definition result_of :: "('src, 'job, 'res, 'snk) pipe_code \<Rightarrow> 'job list \<Rightarrow> 'res \<Rightarrow> bool" where
  "result_of code js r \<longleftrightarrow> (\<exists>j\<in>set js. pc_work code j = Inr r)"

text \<open>The index of a result is the position of its job.\<close>

definition indexed :: "('src, 'job, 'res, 'snk) pipe_code \<Rightarrow> 'src \<Rightarrow> bool" where
  "indexed code src0 \<longleftrightarrow> (\<forall>js src. yields code src0 js src \<longrightarrow> length js < 2 ^ 64 \<and>
     (\<forall>k<length js. \<forall>r. pc_work code (js ! k) = Inr r \<longrightarrow> unat (pc_index code r) = k))"

definition jobs_in :: "('src, 'job, 'res, 'snk) pipe_state \<Rightarrow> 'job set" where
  "jobs_in s = set (wq_queue (ps_jobs s)) \<union> {j. ps_producer s = ProducerPush j} \<union> {j. WorkerJob j \<in> set (ps_workers s)}"

definition results_in :: "('src, 'job, 'res, 'snk) pipe_state \<Rightarrow> 'res set" where
  "results_in s = set (wq_queue (ps_results s)) \<union> {r. WorkerPush r \<in> set (ps_workers s)}"

definition held :: "('job, 'res) worker_pc \<Rightarrow> nat" where
  "held w = (case w of WorkerJob _ \<Rightarrow> 1 | WorkerPush _ \<Rightarrow> 1 | _ \<Rightarrow> 0)"

definition in_flight :: "('src, 'job, 'res, 'snk) pipe_state \<Rightarrow> nat" where
  "in_flight s = (case ps_producer s of ProducerPush _ \<Rightarrow> 1 | _ \<Rightarrow> 0) + length (wq_queue (ps_jobs s))
     + sum_list (map held (ps_workers s)) + length (wq_queue (ps_results s)) + length (ps_pending s)"

definition pending_ok :: "('src, 'job, 'res, 'snk) pipe_code \<Rightarrow> 'job list \<Rightarrow> (u64 \<times> 'res) list \<Rightarrow> bool" where
  "pending_ok code js p \<longleftrightarrow> distinct (map fst p) \<and> (\<forall>(i, r)\<in>set p. i = pc_index code r \<and> result_of code js r)"

text \<open>The state of the sink: it has taken the results of the first jobs; the count of what is in
  flight is exact until a failure; the end has been signalled only after all of it was taken.\<close>

definition all_given :: "('src, 'job, 'res, 'snk) pipe_code \<Rightarrow> 'src \<Rightarrow> 'job list \<Rightarrow> bool" where
  "all_given code src0 js \<longleftrightarrow> (\<exists>src. yields code src0 js src \<and> fst (pc_next code src) = Inr None)"

definition delivered ::
  "('src, 'job, 'res, 'snk) pipe_code \<Rightarrow> 'src \<Rightarrow> 'snk \<Rightarrow> 'job list \<Rightarrow> ('src, 'job, 'res, 'snk) pipe_state \<Rightarrow> bool" where
  "delivered code src0 snk0 js s \<longleftrightarrow> (\<exists>rs. results_of code js rs \<and>
     (if ps_sink s = SinkPop then
        put_all code rs snk0 = (Inr (), ps_snk s) \<and> unat (ps_next_expected_index s) = length rs
        \<and> pending_ok code js (ps_pending s)
        \<and> (ps_failure s = None \<longrightarrow> length js = length rs + in_flight s)
      else if ps_failure s = None then
        length rs = length js \<and> bindS (put_all code rs) (\<lambda>_. pc_end code) snk0 = (Inr (), ps_snk s)
      else ps_snk s = snd (put_all code rs snk0)
        \<or> length rs = length js \<and> ps_producer s = ProducerDone \<and> all_given code src0 js
          \<and> ps_snk s = snd (bindS (put_all code rs) (\<lambda>_. pc_end code) snk0)))"

definition pipe_inv ::
  "('src, 'job, 'res, 'snk) pipe_code \<Rightarrow> 'src \<Rightarrow> 'snk \<Rightarrow> ('src, 'job, 'res, 'snk) pipe_state \<Rightarrow> bool" where
  "pipe_inv code src0 snk0 s \<longleftrightarrow> queues_ok s \<and> ps_workers s \<noteq> [] \<and> (\<exists>js src. yields code src0 js src
     \<and> (ps_producer s \<noteq> ProducerDone \<longrightarrow> src = ps_src s)
     \<and> (ps_producer s = ProducerDone \<and> ps_failure s = None \<longrightarrow> fst (pc_next code src) = Inr None)
     \<and> jobs_in s \<subseteq> set js \<and> (\<forall>r\<in>results_in s. result_of code js r)
     \<and> delivered code src0 snk0 js s)"

lemma results_of_mono: "results_of code js rs \<Longrightarrow> results_of code (js @ js') rs"
  by (auto simp: results_of_def nth_append)

lemma result_of_mono: "result_of code js r \<Longrightarrow> result_of code (js @ js') r"
  by (auto simp: result_of_def)

lemma pending_ok_mono: "pending_ok code js p \<Longrightarrow> pending_ok code (js @ js') p"
  by (auto simp: pending_ok_def intro: result_of_mono)

lemma length_filter_key:
  "distinct (map fst p) \<Longrightarrow> (n, r) \<in> set p \<Longrightarrow> Suc (length (filter (\<lambda>(i, _). i \<noteq> n) p)) = length p"
proof (induction p)
  case (Cons a p)
  show ?case
  proof (cases "fst a = n")
    case True
    then have "n \<notin> fst ` set p" using Cons.prems(1) by simp
    then have "\<forall>x\<in>set p. fst x \<noteq> n" by (metis imageI)
    then have "filter (\<lambda>(i, _). i \<noteq> n) p = p" by (intro filter_True) auto
    then show ?thesis using True by (cases a) simp
  next
    case False
    then show ?thesis using Cons by (auto split: prod.splits)
  qed
qed simp

lemma next_result:
  assumes "indexed code src0" "yields code src0 js src" "result_of code js r" "unat (pc_index code r) = length rs"
    "results_of code js rs"
  shows "results_of code js (rs @ [r])" "unat (pc_index code r + 1) = Suc (length rs)"
proof -
  obtain k where k: "k < length js" "pc_work code (js ! k) = Inr r"
    using assms(3) by (auto simp: result_of_def in_set_conv_nth)
  then have "k = length rs" and l: "length js < 2 ^ 64"
    using assms(1,2,4) by (auto simp: indexed_def)
  then show "results_of code js (rs @ [r])"
    using assms(5) k by (auto simp: results_of_def nth_append less_Suc_eq)
  show "unat (pc_index code r + 1) = Suc (length rs)"
    using k(1) l \<open>k = length rs\<close> assms(4) by (subst unat_plus_no_overflow) simp_all
qed

lemma drain_delivers:
  assumes "indexed code src0" "yields code src0 js src"
  shows "drain (pc_put code) p n snk = (res, p', n', snk') \<Longrightarrow> pending_ok code js p \<Longrightarrow> results_of code js rs0
     \<Longrightarrow> put_all code rs0 snk0 = (Inr (), snk) \<Longrightarrow> unat n = length rs0 \<Longrightarrow>
   \<exists>rs. results_of code js rs \<and>
     (case res of
        Inr _ \<Rightarrow> put_all code rs snk0 = (Inr (), snk') \<and> unat n' = length rs \<and> pending_ok code js p'
          \<and> length rs + length p' = length rs0 + length p
      | Inl _ \<Rightarrow> snk' = snd (put_all code rs snk0))"
proof (induction "pc_put code" p n snk arbitrary: rs0 rule: drain.induct)
  case (1 p n snk)
  show ?case
  proof (cases "map_of p n")
    case None
    then show ?thesis
      using 1 by (intro exI [of _ rs0]) (auto simp: drain.simps [of _ p])
  next
    case (Some r)
    then have r: "(n, r) \<in> set p" by (rule map_of_SomeD)
    then have n: "n = pc_index code r" "result_of code js r" using 1(3) by (auto simp: pending_ok_def)
    have rs: "results_of code js (rs0 @ [r])" "unat (n + 1) = length (rs0 @ [r])"
      using next_result [OF assms n(2) _ 1(4)] 1(6) n(1) by simp_all
    obtain x snk1 where put: "pc_put code r snk = (x, snk1)" by (cases "pc_put code r snk")
    show ?thesis
    proof (cases x)
      case (Inl e)
      then have "res = Inl e" "snk' = snk1" using 1(2) Some put by (simp_all add: drain.simps [of _ p])
      then show ?thesis
        using rs(1) put_all_snoc [OF 1(5), of r] put Inl by (intro exI [of _ "rs0 @ [r]"]) simp
    next
      case (Inr u)
      let ?p = "filter (\<lambda>(i, _). i \<noteq> n) p"
      have d: "drain (pc_put code) ?p (n + 1) snk1 = (res, p', n', snk')"
        using 1(2) Some put Inr by (simp add: drain.simps [of _ p])
      have ok: "pending_ok code js ?p"
        using 1(3) by (auto simp: pending_ok_def distinct_map_filter)
      have pa: "put_all code (rs0 @ [r]) snk0 = (Inr (), snk1)"
        using put_all_snoc [OF 1(5), of r] put Inr by simp
      have "Suc (length ?p) = length p"
        using 1(3) r by (intro length_filter_key) (auto simp: pending_ok_def)
      then have "length (rs0 @ [r]) + length ?p = length rs0 + length p" by simp
      then show ?thesis
        using 1(1) [OF Some put [symmetric] Inr d ok rs(1) pa rs(2)] by (simp only:)
    qed
  qed
qed

lemma sum_list_update_add:
  fixes f :: "'a \<Rightarrow> 'b :: comm_monoid_add"
  shows "i < length ws \<Longrightarrow> sum_list (map f (ws[i := w])) + f (ws ! i) = sum_list (map f ws) + f w"
proof (induction ws arbitrary: i)
  case (Cons v ws)
  show ?case
  proof (cases i)
    case 0
    then show ?thesis by (simp add: ac_simps)
  next
    case (Suc k)
    then have "sum_list (map f (ws[k := w])) + f (ws ! k) = sum_list (map f ws) + f w" using Cons by simp
    then show ?thesis using Suc by (simp add: add.assoc)
  qed
qed simp

text \<open>Nothing is left to do once the sink has ended without a failure.\<close>

lemma sink_done_all_done:
  assumes "queues_ok s" "ps_workers s \<noteq> []" "ps_failure s = None"
    "ps_sink s = SinkDone \<or> wq_closed (ps_results s)"
  shows "ps_producer s = ProducerDone" "\<forall>w\<in>set (ps_workers s). w = WorkerDone" "ps_joined s"
    "wq_queue (ps_jobs s) = []"
proof -
  show j: "ps_joined s" using assms by (auto simp: queues_ok_def)
  then show w: "\<forall>w\<in>set (ps_workers s). w = WorkerDone" using assms(1) by (simp add: queues_ok_def)
  then have "WorkerDone \<in> set (ps_workers s)" using assms(2) by (cases "ps_workers s") auto
  then show "ps_producer s = ProducerDone" "wq_queue (ps_jobs s) = []"
    using assms(1,3) by (auto simp: queues_ok_def)
qed

text \<open>A step of another thread than the sink.\<close>

lemma delivered_step:
  assumes d: "delivered code src0 snk0 js s" and sp: "ps_failure s = None \<Longrightarrow> ps_sink s = SinkPop"
    and same: "ps_sink s' = ps_sink s" "ps_snk s' = ps_snk s" "ps_pending s' = ps_pending s"
      "ps_next_expected_index s' = ps_next_expected_index s"
    and pd: "ps_producer s = ProducerDone \<Longrightarrow> ext = [] \<and> ps_producer s' = ProducerDone"
    and cnt: "ps_failure s' = None \<Longrightarrow> ps_failure s = None \<and> in_flight s' = in_flight s + length ext"
  shows "delivered code src0 snk0 (js @ ext) s'"
proof -
  from d obtain rs where rs: "results_of code js rs" and
    c: "if ps_sink s = SinkPop then
        put_all code rs snk0 = (Inr (), ps_snk s) \<and> unat (ps_next_expected_index s) = length rs
        \<and> pending_ok code js (ps_pending s)
        \<and> (ps_failure s = None \<longrightarrow> length js = length rs + in_flight s)
      else if ps_failure s = None then
        length rs = length js \<and> bindS (put_all code rs) (\<lambda>_. pc_end code) snk0 = (Inr (), ps_snk s)
      else ps_snk s = snd (put_all code rs snk0)
        \<or> length rs = length js \<and> ps_producer s = ProducerDone \<and> all_given code src0 js
          \<and> ps_snk s = snd (bindS (put_all code rs) (\<lambda>_. pc_end code) snk0)"
    unfolding delivered_def by blast
  have rs': "results_of code (js @ ext) rs" using rs by (rule results_of_mono)
  show ?thesis
  proof (cases "ps_sink s = SinkPop")
    case True
    then have "ps_failure s' = None \<longrightarrow> length (js @ ext) = length rs + in_flight s'" using c cnt by simp
    then show ?thesis unfolding delivered_def
      using c True same rs' by (intro exI [of _ rs]) (simp add: pending_ok_mono)
  next
    case False
    then have f: "ps_failure s \<noteq> None" using sp by blast
    then have f': "ps_failure s' \<noteq> None" using cnt by metis
    have c': "ps_snk s = snd (put_all code rs snk0)
        \<or> length rs = length js \<and> ps_producer s = ProducerDone \<and> all_given code src0 js
          \<and> ps_snk s = snd (bindS (put_all code rs) (\<lambda>_. pc_end code) snk0)" using c False f by simp
    have "ps_snk s' = snd (put_all code rs snk0)
        \<or> length rs = length (js @ ext) \<and> ps_producer s' = ProducerDone \<and> all_given code src0 (js @ ext)
          \<and> ps_snk s' = snd (bindS (put_all code rs) (\<lambda>_. pc_end code) snk0)"
      using c' pd same(2) by (cases "ps_producer s = ProducerDone") simp_all
    then show ?thesis unfolding delivered_def
      using False f' same(1) rs' by (intro exI [of _ rs]) (simp only: if_False simp_thms)
  qed
qed

lemma producer_step_inv:
  assumes step: "producer_step code s = Some s'" and inv: "pipe_inv code src0 snk0 s"
  shows "pipe_inv code src0 snk0 s'"
proof -
  from inv obtain js src where q: "queues_ok s" and w: "ps_workers s \<noteq> []" and y: "yields code src0 js src"
    and src: "ps_producer s \<noteq> ProducerDone \<longrightarrow> src = ps_src s"
    and j: "jobs_in s \<subseteq> set js" and r: "\<forall>r\<in>results_in s. result_of code js r" and d: "delivered code src0 snk0 js s"
    unfolding pipe_inv_def by blast
  have q': "queues_ok s'" using step q by (rule producer_step_queues)
  have nd: "ps_producer s \<noteq> ProducerDone" using step by (auto simp: producer_step_def)
  then have src: "src = ps_src s" using src by simp
  have sp: "ps_failure s = None \<Longrightarrow> ps_sink s = SinkPop"
    using sink_done_all_done(1) [OF q w] nd by (cases "ps_sink s") auto
  have keep: "ps_workers s' = ps_workers s" "ps_results s' = ps_results s" "ps_sink s' = ps_sink s"
    "ps_snk s' = ps_snk s" "ps_pending s' = ps_pending s" "ps_next_expected_index s' = ps_next_expected_index s"
    using step by (auto simp: producer_step_def producer_ends_def Let_def
        split: producer_pc.splits if_splits prod.splits option.splits sum.splits)
  define ext where "ext = (case (ps_producer s, ps_producer s') of (ProducerLoop, ProducerPush j) \<Rightarrow> [j] | _ \<Rightarrow> [])"
  have "jobs_in s' \<subseteq> set (js @ ext) \<and> (\<exists>src'. yields code src0 (js @ ext) src' \<and> (ps_producer s' \<noteq> ProducerDone \<longrightarrow> src' = ps_src s')
       \<and> (ps_producer s' = ProducerDone \<and> ps_failure s' = None \<longrightarrow> fst (pc_next code src') = Inr None))
     \<and> (ps_failure s' = None \<longrightarrow> ps_failure s = None \<and> in_flight s' = in_flight s + length ext)"
  proof (cases "ps_producer s")
    case ProducerDone
    then show ?thesis using nd by simp
  next
    case (ProducerPush job)
    have "ps_failure s \<noteq> None" if "wq_closed (ps_jobs s)" using that q nd by (auto simp: queues_ok_def)
    then show ?thesis
      using step ProducerPush j y src keep
      by (auto simp: producer_step_def producer_ends_def Let_def push_def ext_def in_flight_def jobs_in_def
          split: if_splits)
  next
    case ProducerLoop
    obtain res src' where n: "pc_next code (ps_src s) = (res, src')" by (cases "pc_next code (ps_src s)")
    consider "pc_check code (ps_src s) \<and> ps_failure s \<noteq> None" | e where "res = Inl e" "\<not> (pc_check code (ps_src s) \<and> ps_failure s \<noteq> None)"
      | "res = Inr None" "\<not> (pc_check code (ps_src s) \<and> ps_failure s \<noteq> None)"
      | job where "res = Inr (Some job)" "\<not> (pc_check code (ps_src s) \<and> ps_failure s \<noteq> None)"
      by (metis option.exhaust sum.exhaust)
    then show ?thesis
    proof cases
      case 1
      then show ?thesis using step ProducerLoop j y by (auto simp: producer_step_def producer_ends_def ext_def jobs_in_def)
    next
      case (2 e)
      then have "s' = producer_ends (s\<lparr>ps_src := src', ps_failure := record_failure e (ps_failure s)\<rparr>)"
        using step ProducerLoop n by (auto simp: producer_step_def split: if_splits)
      then show ?thesis using ProducerLoop j y by (auto simp: producer_ends_def ext_def jobs_in_def)
    next
      case 3
      then have "s' = producer_ends (s\<lparr>ps_src := src'\<rparr>)" using step ProducerLoop n by (auto simp: producer_step_def)
      then show ?thesis
        using ProducerLoop j y 3 n src by (auto simp: producer_ends_def ext_def jobs_in_def in_flight_def)
    next
      case (4 job)
      then have s': "s' = s\<lparr>ps_src := src', ps_producer := ProducerPush job\<rparr>"
        using step ProducerLoop n by (auto simp: producer_step_def)
      have "yields code src0 (js @ [job]) src'" using y n 4 src by (auto intro: yields_next)
      then show ?thesis
        using ProducerLoop j by (auto simp: s' ext_def jobs_in_def in_flight_def)
    qed
  qed
  then obtain src' where J: "jobs_in s' \<subseteq> set (js @ ext)" "yields code src0 (js @ ext) src'"
    "ps_producer s' \<noteq> ProducerDone \<longrightarrow> src' = ps_src s'"
    "ps_producer s' = ProducerDone \<and> ps_failure s' = None \<longrightarrow> fst (pc_next code src') = Inr None"
    and c: "ps_failure s' = None \<longrightarrow> ps_failure s = None \<and> in_flight s' = in_flight s + length ext" by metis
  have "delivered code src0 snk0 (js @ ext) s'"
    by (rule delivered_step [OF d sp]) (use keep nd c in auto)
  moreover have "results_in s' = results_in s" using keep by (simp add: results_in_def)
  ultimately show ?thesis
    unfolding pipe_inv_def using q' w keep(1) J r
    by (intro conjI exI [of _ "js @ ext"] exI [of _ src']) (simp_all add: result_of_mono)
qed

lemma in_worker_update:
  "i < length ws \<Longrightarrow> v \<in> set (ws[i := w]) \<Longrightarrow> v = w \<or> v \<in> set ws"
  by (metis insertE set_update_subset_insert subsetD)

lemma worker_step_inv:
  assumes step: "worker_step code i s = Some s'" and inv: "pipe_inv code src0 snk0 s"
  shows "pipe_inv code src0 snk0 s'"
proof -
  from inv obtain js src where q: "queues_ok s" and w: "ps_workers s \<noteq> []" and y: "yields code src0 js src"
    and src: "ps_producer s \<noteq> ProducerDone \<longrightarrow> src = ps_src s"
    and fin: "ps_producer s = ProducerDone \<and> ps_failure s = None \<longrightarrow> fst (pc_next code src) = Inr None"
    and j: "jobs_in s \<subseteq> set js" and r: "\<forall>r\<in>results_in s. result_of code js r" and d: "delivered code src0 snk0 js s"
    unfolding pipe_inv_def by blast
  have q': "queues_ok s'" using step q by (rule worker_step_queues)
  have i: "i < length (ps_workers s)" and nd: "ps_workers s ! i \<noteq> WorkerDone"
    using step by (auto simp: worker_step_def split: if_splits)
  have sp: "ps_failure s = None \<Longrightarrow> ps_sink s = SinkPop"
    using sink_done_all_done(2) [OF q w] nd i nth_mem by (cases "ps_sink s") blast+
  have keep: "ps_src s' = ps_src s" "ps_producer s' = ps_producer s" "ps_sink s' = ps_sink s"
    "ps_snk s' = ps_snk s" "ps_pending s' = ps_pending s" "ps_next_expected_index s' = ps_next_expected_index s"
    "length (ps_workers s') = length (ps_workers s)"
    using step by (auto simp: worker_step_def set_worker_def
        split: worker_pc.splits if_splits prod.splits option.splits sum.splits)
  note upd = sum_list_update_add [OF i, where f = held] and mem = in_worker_update [OF i]
  have "jobs_in s' \<subseteq> set js \<and> (\<forall>r\<in>results_in s'. result_of code js r)
     \<and> (ps_failure s' = None \<longrightarrow> ps_failure s = None \<and> in_flight s' = in_flight s)"
  proof (cases "ps_workers s ! i")
    case WorkerDone
    then show ?thesis using nd by simp
  next
    case WorkerLoop
    then have "s' = set_worker i (if ps_failure s \<noteq> None then WorkerDone else WorkerPop) s"
      using step i by (simp add: worker_step_def)
    then show ?thesis
      using j r upd [of WorkerPop] WorkerLoop
      by (auto simp: set_worker_def jobs_in_def results_in_def in_flight_def held_def dest!: mem)
  next
    case WorkerPop
    then show ?thesis
      using step j r i upd [of WorkerDone] upd [of "WorkerJob (hd (wq_queue (ps_jobs s)))"]
      by (auto simp: worker_step_def set_worker_def jobs_in_def results_in_def in_flight_def held_def
          split: if_splits prod.splits option.splits elim!: pop_cases dest!: mem)
  next
    case (WorkerJob job)
    have "WorkerJob job \<in> set (ps_workers s)" using nth_mem [OF i] WorkerJob by simp
    then have jj: "job \<in> set js" using j by (auto simp: jobs_in_def)
    show ?thesis
    proof (cases "pc_work code job")
      case (Inl e)
      then have "s' = set_worker i WorkerDone (s\<lparr>ps_failure := record_failure e (ps_failure s),
                ps_jobs := close_queue (ps_jobs s), ps_results := close_queue (ps_results s)\<rparr>)"
        using step i WorkerJob by (simp add: worker_step_def)
      then show ?thesis using j r by (auto simp: set_worker_def jobs_in_def results_in_def dest!: mem)
    next
      case (Inr x)
      then have "s' = set_worker i (WorkerPush x) s" using step i WorkerJob by (simp add: worker_step_def)
      moreover have "result_of code js x" using Inr jj by (auto simp: result_of_def)
      ultimately show ?thesis
        using j r upd [of "WorkerPush x"] WorkerJob
        by (auto simp: set_worker_def jobs_in_def results_in_def in_flight_def held_def dest!: mem)
    qed
  next
    case (WorkerPush x)
    have "ps_failure s \<noteq> None" if "wq_closed (ps_results s)"
      using sink_done_all_done(2) [OF q w _ disjI2 [OF that]] nd i nth_mem by blast
    moreover have "WorkerPush x \<in> set (ps_workers s)" using nth_mem [OF i] WorkerPush by simp
    then have "result_of code js x" using r by (auto simp: results_in_def)
    ultimately show ?thesis
      using step j r i upd [of WorkerLoop] WorkerPush
      by (auto simp: worker_step_def set_worker_def jobs_in_def results_in_def in_flight_def held_def push_def
          split: if_splits dest!: mem)
  qed
  then have J: "jobs_in s' \<subseteq> set js" "\<forall>r\<in>results_in s'. result_of code js r"
    and c: "ps_failure s' = None \<Longrightarrow> ps_failure s = None \<and> in_flight s' = in_flight s + length []" by auto
  have "delivered code src0 snk0 (js @ []) s'"
    by (rule delivered_step [OF d sp]) (use keep c in auto)
  moreover have "ps_workers s' \<noteq> []" using w keep(7) by auto
  ultimately show ?thesis
    unfolding pipe_inv_def using q' y src fin J c keep(1,2) by (metis append_Nil2)
qed

lemma joiner_step_inv:
  assumes step: "joiner_step s = Some s'" and inv: "pipe_inv code src0 snk0 s"
  shows "pipe_inv code src0 snk0 s'"
proof -
  have s': "s' = s\<lparr>ps_results := close_queue (ps_results s), ps_joined := True\<rparr>"
    using step by (auto simp: joiner_step_def split: if_splits)
  have q': "queues_ok s'" using joiner_step_queues [OF step] inv by (simp add: pipe_inv_def)
  have same: "jobs_in s' = jobs_in s" "results_in s' = results_in s" "in_flight s' = in_flight s"
    "ps_workers s' = ps_workers s" "ps_sink s' = ps_sink s" "ps_snk s' = ps_snk s" "ps_pending s' = ps_pending s"
    "ps_next_expected_index s' = ps_next_expected_index s" "ps_failure s' = ps_failure s"
    "ps_producer s' = ps_producer s" "ps_src s' = ps_src s"
    by (simp_all add: s' jobs_in_def results_in_def in_flight_def)
  then have "delivered code src0 snk0 js s' = delivered code src0 snk0 js s" for js
    unfolding delivered_def by (simp only:)
  then show ?thesis
    using inv q' unfolding pipe_inv_def by (simp only: same simp_thms)
qed

text \<open>What one popped result does to the deliveries.\<close>

lemma sink_item_delivered:
  assumes idx: "indexed code src0" and y: "yields code src0 js src" and sp: "ps_sink s = SinkPop"
    and r: "result_of code js r" and d: "delivered code src0 snk0 js s"
    and fl: "in_flight s = in_flight s1 + 1" "ps_failure s1 = ps_failure s" "ps_pending s1 = ps_pending s"
      "ps_next_expected_index s1 = ps_next_expected_index s" "ps_snk s1 = ps_snk s" "ps_sink s1 = SinkPop"
  shows "delivered code src0 snk0 js (sink_item code r s1)"
proof -
  from d sp obtain rs where rs: "results_of code js rs" "put_all code rs snk0 = (Inr (), ps_snk s)"
    "unat (ps_next_expected_index s) = length rs" "pending_ok code js (ps_pending s)"
    and cnt: "ps_failure s = None \<longrightarrow> length js = length rs + in_flight s"
    unfolding delivered_def by auto
  have fails: "delivered code src0 snk0 js (sink_fails e (s1\<lparr>ps_pending := p, ps_next_expected_index := n, ps_snk := snd (put_all code rs' snk0)\<rparr>))"
    if "results_of code js rs'" for e p n rs'
    unfolding delivered_def using that by (intro exI [of _ rs']) (simp add: sink_fails_def)
  have same: "s1 = s1\<lparr>ps_pending := ps_pending s1, ps_next_expected_index := ps_next_expected_index s1, ps_snk := snd (put_all code rs snk0)\<rparr>"
    using rs(2) fl(5) by simp
  show ?thesis
  proof (cases "pc_index code r < ps_next_expected_index s1 \<or> map_of (ps_pending s1) (pc_index code r) \<noteq> None")
    case True
    then have "\<exists>e. sink_item code r s1 = sink_fails e s1" by (auto simp: sink_item_def)
    then show ?thesis using fails [OF rs(1)] same by metis
  next
    case False
    obtain res p n k where dr: "drain (pc_put code) ((pc_index code r, r) # ps_pending s1) (ps_next_expected_index s1) (ps_snk s1) = (res, p, n, k)"
      by (cases "drain (pc_put code) ((pc_index code r, r) # ps_pending s1) (ps_next_expected_index s1) (ps_snk s1)") auto
    have "pending_ok code js ((pc_index code r, r) # ps_pending s)"
      using rs(4) r False fl(3) by (auto simp: pending_ok_def map_of_eq_None_iff)
    with drain_delivers [OF idx y dr [unfolded fl(3-5)] _ rs(1,2,3)] obtain rs' where
      rs': "results_of code js rs'" and c: "case res of
        Inr _ \<Rightarrow> put_all code rs' snk0 = (Inr (), k) \<and> unat n = length rs' \<and> pending_ok code js p
          \<and> length rs' + length p = length rs + length ((pc_index code r, r) # ps_pending s)
      | Inl _ \<Rightarrow> k = snd (put_all code rs' snk0)" by blast
    have item: "sink_item code r s1 = (let s' = s1\<lparr>ps_pending := p, ps_next_expected_index := n, ps_snk := k\<rparr> in
               (case res of Inl e \<Rightarrow> sink_fails e s' | Inr _ \<Rightarrow> s'))"
      using False by (simp add: sink_item_def dr)
    show ?thesis
    proof (cases res)
      case (Inl e)
      then have "k = snd (put_all code rs' snk0)" using c by simp
      then have "sink_item code r s1 = sink_fails e (s1\<lparr>ps_pending := p, ps_next_expected_index := n, ps_snk := snd (put_all code rs' snk0)\<rparr>)"
        by (simp only: item Inl Let_def sum.case)
      then show ?thesis using fails [OF rs'] by (simp only:)
    next
      case (Inr x)
      have "ps_failure s1 = None \<longrightarrow> length js = length rs' + in_flight (s1\<lparr>ps_pending := p, ps_next_expected_index := n, ps_snk := k\<rparr>)"
        using cnt c fl Inr by (simp add: in_flight_def)
      then show ?thesis unfolding delivered_def item
        using rs' c Inr fl(6) by (intro exI [of _ rs']) (simp add: Let_def)
    qed
  qed
qed

lemma sink_end_delivered:
  assumes q: "queues_ok s" and w: "ps_workers s \<noteq> []" and sp: "ps_sink s = SinkPop"
    and all: "ps_producer s = ProducerDone \<and> ps_failure s = None \<longrightarrow> all_given code src0 js"
    and e: "wq_queue (ps_results s) = []" "wq_closed (ps_results s)" and d: "delivered code src0 snk0 js s"
  shows "delivered code src0 snk0 js (sink_end code s)"
proof -
  from d sp obtain rs where rs: "results_of code js rs" "put_all code rs snk0 = (Inr (), ps_snk s)"
    "unat (ps_next_expected_index s) = length rs" "pending_ok code js (ps_pending s)"
    and cnt: "ps_failure s = None \<longrightarrow> length js = length rs + in_flight s"
    unfolding delivered_def by auto
  show ?thesis
  proof (cases "ps_failure s = None \<and> ps_pending s = []")
    case False
    then have "ps_snk (sink_end code s) = ps_snk s \<and> ps_sink (sink_end code s) = SinkDone \<and> ps_failure (sink_end code s) \<noteq> None"
      by (cases "ps_failure s") (auto simp: sink_end_def sink_fails_def)
    then show ?thesis unfolding delivered_def using rs by (intro exI [of _ rs]) auto
  next
    case True
    note dn = sink_done_all_done [OF q w _ disjI2 [OF e(2)]]
    have "\<forall>w\<in>set (ps_workers s). held w = 0" using dn(2) True by (auto simp: held_def)
    then have "in_flight s = 0" using dn(1,4) True e(1) by (simp add: in_flight_def)
    then have l: "length js = length rs" using cnt True by simp
    obtain res k where p: "pc_end code (ps_snk s) = (res, k)" by (cases "pc_end code (ps_snk s)")
    then have b: "bindS (put_all code rs) (\<lambda>_. pc_end code) snk0 = (res, k)" using rs(2) by (simp add: bindS_def)
    show ?thesis
    proof (cases res)
      case (Inl x)
      then have "sink_end code s = sink_fails x (s\<lparr>ps_snk := k\<rparr>)" using True p by (simp add: sink_end_def)
      then show ?thesis unfolding delivered_def
        using rs(1) l b dn(1) True all by (intro exI [of _ rs]) (simp add: sink_fails_def)
    next
      case (Inr x)
      then have "sink_end code s = s\<lparr>ps_snk := k, ps_sink := SinkDone\<rparr>" using True p by (simp add: sink_end_def)
      then show ?thesis unfolding delivered_def
        using rs(1) l b Inr True by (intro exI [of _ rs]) simp
    qed
  qed
qed

lemma sink_step_inv:
  assumes step: "sink_step code s = Some s'" and inv: "pipe_inv code src0 snk0 s" and idx: "indexed code src0"
  shows "pipe_inv code src0 snk0 s'"
proof -
  from inv obtain js src where q: "queues_ok s" and w: "ps_workers s \<noteq> []" and y: "yields code src0 js src"
    and src: "ps_producer s \<noteq> ProducerDone \<longrightarrow> src = ps_src s"
    and fin: "ps_producer s = ProducerDone \<and> ps_failure s = None \<longrightarrow> fst (pc_next code src) = Inr None"
    and j: "jobs_in s \<subseteq> set js" and r: "\<forall>r\<in>results_in s. result_of code js r" and d: "delivered code src0 snk0 js s"
    unfolding pipe_inv_def by blast
  have q': "queues_ok s'" using step q by (rule sink_step_queues)
  have sp: "ps_sink s = SinkPop" using step by (cases "ps_sink s") (auto simp: sink_step_def)
  have all: "ps_producer s = ProducerDone \<and> ps_failure s = None \<longrightarrow> all_given code src0 js"
    using fin y by (auto simp: all_given_def)
  have "ps_workers s' = ps_workers s \<and> ps_producer s' = ps_producer s \<and> ps_src s' = ps_src s \<and> ps_jobs s' = ps_jobs s
      \<and> results_in s' \<subseteq> results_in s \<and> (ps_failure s' = None \<longrightarrow> ps_failure s = None) \<and> delivered code src0 snk0 js s'"
    using step
  proof (cases rule: sink_step_cases)
    case ended
    have "delivered code src0 snk0 js s'" unfolding ended(3) by (rule sink_end_delivered) fact+
    moreover have "ps_workers s' = ps_workers s \<and> ps_producer s' = ps_producer s \<and> ps_src s' = ps_src s \<and> ps_jobs s' = ps_jobs s
      \<and> results_in s' \<subseteq> results_in s \<and> (ps_failure s' = None \<longrightarrow> ps_failure s = None)"
      unfolding ended(3) by (cases rule: sink_end_cases [of code s]) (simp_all add: sink_fails_def results_in_def)
    ultimately show ?thesis by blast
  next
    case (item x rs)
    let ?s1 = "s\<lparr>ps_results := ps_results s\<lparr>wq_queue := rs\<rparr>\<rparr>"
    have "result_of code js x" using r item(1) by (auto simp: results_in_def)
    then have "delivered code src0 snk0 js s'"
      unfolding item(2) by (rule sink_item_delivered [OF idx y sp _ d]) (use item(1) sp in \<open>simp_all add: in_flight_def\<close>)
    moreover have "ps_workers s' = ps_workers s \<and> ps_producer s' = ps_producer s \<and> ps_src s' = ps_src s \<and> ps_jobs s' = ps_jobs s
      \<and> results_in s' \<subseteq> results_in s \<and> (ps_failure s' = None \<longrightarrow> ps_failure s = None)"
      unfolding item(2) using item(1)
      by (cases rule: sink_item_cases [of code x ?s1]) (auto simp: sink_fails_def results_in_def)
    ultimately show ?thesis by blast
  qed
  then have K: "ps_workers s' = ps_workers s" "ps_producer s' = ps_producer s" "ps_src s' = ps_src s" "ps_jobs s' = ps_jobs s"
    "results_in s' \<subseteq> results_in s" "ps_failure s' = None \<longrightarrow> ps_failure s = None" "delivered code src0 snk0 js s'" by simp_all
  then have "jobs_in s' = jobs_in s" by (simp add: jobs_in_def)
  then show ?thesis
    unfolding pipe_inv_def using q' w y src fin j r K by (intro conjI exI [of _ js] exI [of _ src]) auto
qed

lemma start_inv:
  assumes "0 < n"
  shows "pipe_inv code src snk (start_pipeline n d src snk)"
proof -
  have "sum_list (map held (replicate n WorkerLoop)) = 0" by (induction n) (simp_all add: held_def)
  then have "delivered code src snk [] (start_pipeline n d src snk)"
    unfolding delivered_def
    by (intro exI [of _ "[]"]) (simp add: start_pipeline_def results_of_def in_flight_def pending_ok_def new_WorkQueue_def returnS_def)
  then show ?thesis
    unfolding pipe_inv_def using assms start_queues [of n d src snk] yields_none [of code src]
    by (intro conjI exI [of _ "[]"] exI [of _ src]) (auto simp: start_pipeline_def jobs_in_def results_in_def new_WorkQueue_def)
qed

lemma run_schedule_inv:
  "run_schedule code ts s = Some s' \<Longrightarrow> pipe_inv code src0 snk0 s \<Longrightarrow> indexed code src0 \<Longrightarrow> pipe_inv code src0 snk0 s'"
proof (induction code ts s rule: run_schedule.induct)
  case (2 code t ts s)
  then obtain s1 where t: "thread_step code t s = Some s1" "run_schedule code ts s1 = Some s'"
    by (auto split: option.splits)
  have "pipe_inv code src0 snk0 s1"
    using t(1) 2(3,4) by (cases t) (auto intro: producer_step_inv worker_step_inv joiner_step_inv sink_step_inv)
  then show ?case using 2 t by simp
qed simp

lemma pipe_inv_delivered:
  assumes "pipe_inv code src snk s"
  shows "\<exists>js src' rs. yields code src js src' \<and> results_of code js rs \<and>
    (ps_snk s = snd (put_all code rs snk)
     \<or> length rs = length js \<and> all_given code src js
       \<and> ps_snk s = snd (bindS (put_all code rs) (\<lambda>_. pc_end code) snk))
    \<and> (ps_failure s = None \<and> ps_sink s = SinkDone \<longrightarrow> length rs = length js \<and> all_given code src js
       \<and> bindS (put_all code rs) (\<lambda>_. pc_end code) snk = (Inr (), ps_snk s))"
proof -
  from assms obtain js src' where q: "queues_ok s" "ps_workers s \<noteq> []" and y: "yields code src js src'"
    and fin: "ps_producer s = ProducerDone \<and> ps_failure s = None \<longrightarrow> fst (pc_next code src') = Inr None"
    and d: "delivered code src snk js s"
    unfolding pipe_inv_def by blast
  from d obtain rs where rs: "results_of code js rs" and
    c: "if ps_sink s = SinkPop then put_all code rs snk = (Inr (), ps_snk s)
      else if ps_failure s = None then
        length rs = length js \<and> bindS (put_all code rs) (\<lambda>_. pc_end code) snk = (Inr (), ps_snk s)
      else ps_snk s = snd (put_all code rs snk)
        \<or> length rs = length js \<and> all_given code src js
          \<and> ps_snk s = snd (bindS (put_all code rs) (\<lambda>_. pc_end code) snk)"
    unfolding delivered_def by metis
  have all: "all_given code src js" if "ps_failure s = None" "ps_sink s = SinkDone"
    using sink_done_all_done(1) [OF q] that y fin by (auto simp: all_given_def)
  have "(ps_snk s = snd (put_all code rs snk)
     \<or> length rs = length js \<and> all_given code src js
       \<and> ps_snk s = snd (bindS (put_all code rs) (\<lambda>_. pc_end code) snk))
    \<and> (ps_failure s = None \<and> ps_sink s = SinkDone \<longrightarrow> length rs = length js \<and> all_given code src js
       \<and> bindS (put_all code rs) (\<lambda>_. pc_end code) snk = (Inr (), ps_snk s))"
  proof (cases "ps_sink s")
    case SinkPop
    then show ?thesis using c by simp
  next
    case SinkDone
    then show ?thesis using c all by (cases "ps_failure s") simp_all
  qed
  then show ?thesis using y rs by blast
qed

text \<open>C9: Whatever the scheduler does, the sink of a pipeline is in the state that results from putting
  the results of the first jobs, in the order in which the producer gave the jobs, without gap or
  repetition, where at most the last of them has thrown; \<open>end\<close> is called only after the results of
  all jobs.\<close>
theorem pipeline_delivers_in_order:
  assumes "run_schedule code ts (start_pipeline worker_count queue_depth src snk) = Some s"
    "0 < worker_count" "indexed code src"
  shows "\<exists>js src' rs. yields code src js src' \<and> results_of code js rs \<and>
    (ps_snk s = snd (put_all code rs snk)
     \<or> length rs = length js \<and> fst (pc_next code src') = Inr None
       \<and> ps_snk s = snd (bindS (put_all code rs) (\<lambda>_. pc_end code) snk))"
proof -
  have "pipe_inv code src snk s" using run_schedule_inv [OF assms(1) start_inv [OF assms(2)] assms(3)] .
  from pipe_inv_delivered [OF this] show ?thesis unfolding all_given_def by metis
qed

text \<open>C21: A pipeline that ends without a recorded failure has processed everything: the producer is
  exhausted, all its jobs succeeded, and the sink has taken all their results in order and its end
  without throwing.\<close>
theorem pipeline_success_is_complete:
  assumes "run_schedule code ts (start_pipeline worker_count queue_depth src snk) = Some s"
    "0 < worker_count" "indexed code src" "all_done s" "pipeline_result s = Inr ()"
  shows "\<exists>js src' rs. yields code src js src' \<and> fst (pc_next code src') = Inr None
    \<and> results_of code js rs \<and> length rs = length js
    \<and> bindS (put_all code rs) (\<lambda>_. pc_end code) snk = (Inr (), ps_snk s)"
proof -
  have "pipe_inv code src snk s" using run_schedule_inv [OF assms(1) start_inv [OF assms(2)] assms(3)] .
  moreover have "ps_failure s = None" "ps_sink s = SinkDone"
    using assms(4,5) by (auto simp: all_done_def pipeline_result_def split: option.splits)
  ultimately show ?thesis using pipe_inv_delivered [of code src snk s] unfolding all_given_def by metis
qed

text \<open>Three numbers, two workers, and a sink that collects what it is given.  The second worker
  overtakes the first.\<close>

definition collecting :: "(nat, nat, nat, nat list) pipe_code" where
  "collecting =
     \<lparr>pc_check = (\<lambda>_. True), pc_next = (\<lambda>n. if n < 3 then (Inr (Some n), n + 1) else (Inr None, n)),
      pc_ignores_refusal = (\<lambda>_. False), pc_work = Inr, pc_index = of_nat,
      pc_put = (\<lambda>r s. (Inr (), s @ [r])), pc_end = (\<lambda>s. (Inr (), s @ [99])),
      pc_stale = ''stale'', pc_duplicate = ''duplicate'', pc_missing = ''missing''\<rparr>"

definition overtaking_schedule :: "thread list" where
  "overtaking_schedule =
     replicate 4 Producer @ replicate 3 (Worker 0) @ replicate 4 (Worker 1) @ [Sink] @ replicate 3 Producer
     @ replicate 2 (Worker 0) @ replicate 3 (Worker 0) @ [Sink, Sink] @ replicate 2 (Worker 0) @ replicate 2 (Worker 1)
     @ [Joiner, Sink]"

definition collected :: "(nat, nat, nat, nat list) pipe_state" where
  "collected = the (run_schedule collecting overtaking_schedule (start_pipeline 2 2 0 []))"

lemma collected_run: "run_schedule collecting overtaking_schedule (start_pipeline 2 2 0 []) = Some collected"
proof -
  have "run_schedule collecting overtaking_schedule (start_pipeline 2 2 0 []) \<noteq> None" by code_simp
  then show ?thesis by (auto simp: collected_def)
qed

lemma collecting_yields:
  "yields collecting 0 js src \<Longrightarrow> js = [0..<length js] \<and> src = length js \<and> length js \<le> 3"
proof (induction rule: yields.induct)
  case (yields_next js src j src')
  then have "js = [0..<length js]" "src = length js" "j = length js" "src' = Suc (length js)" "length js < 3"
    by (auto simp: collecting_def split: if_splits)
  then show ?case by (metis (no_types) Suc_leI length_append_singleton upt_Suc_append zero_le)
qed simp

lemma collecting_indexed: "indexed collecting 0"
proof -
  have "unat (pc_index collecting r) = k"
    if y: "yields collecting 0 js src" and k: "k < length js" and r: "pc_work collecting (js ! k) = Inr r" for js src k r
  proof -
    have "js ! k = k" using collecting_yields [OF y] k by (metis add_0 nth_upt)
    then have "r = k" using r by (simp add: collecting_def)
    then show ?thesis using collecting_yields [OF y] k by (simp add: collecting_def unat_of_nat_u64)
  qed
  moreover have "length js < 2 ^ 64" if "yields collecting 0 js src" for js src
    using collecting_yields [OF that] by (intro le_less_trans [of "length js" 3]) simp_all
  ultimately show ?thesis unfolding indexed_def by blast
qed

theorem pipeline_delivers_in_order_witness:
  "ps_snk collected = [0, 1, 2, 99]
   \<and> (\<exists>js src' rs. yields collecting 0 js src' \<and> results_of collecting js rs \<and>
      (ps_snk collected = snd (put_all collecting rs [])
       \<or> length rs = length js \<and> fst (pc_next collecting src') = Inr None
         \<and> ps_snk collected = snd (bindS (put_all collecting rs) (\<lambda>_. pc_end collecting) [])))"
proof -
  have "ps_snk collected = [0, 1, 2, 99]" by code_simp
  then show ?thesis using pipeline_delivers_in_order [OF collected_run _ collecting_indexed] by simp
qed

theorem pipeline_success_is_complete_witness:
  "\<exists>js src' rs. yields collecting 0 js src' \<and> fst (pc_next collecting src') = Inr None
    \<and> results_of collecting js rs \<and> length rs = length js
    \<and> bindS (put_all collecting rs) (\<lambda>_. pc_end collecting) [] = (Inr (), ps_snk collected)"
proof -
  have "all_done collected" by code_simp
  moreover have "pipeline_result collected = Inr ()" by code_simp
  ultimately show ?thesis using pipeline_success_is_complete [OF collected_run _ collecting_indexed] by simp
qed

theorem pipeline_progress_witness:
  "\<exists>t s'. thread_step collecting t (start_pipeline 2 2 0 [] :: (nat, nat, nat, nat list) pipe_state) = Some s'"
proof -
  let ?s = "start_pipeline 2 2 0 [] :: (nat, nat, nat, nat list) pipe_state"
  have "run_schedule collecting [] ?s = Some ?s" by simp
  from pipeline_progress [OF this] show ?thesis by (simp add: start_pipeline_def all_done_def)
qed

end
