(* ===== verification/Pipeline_Outcome.thy ===== *)
theory Pipeline_Outcome
  imports Pipeline "HOL-Library.Multiset"
begin

text \<open>
  What becomes of a pipeline as a whole: every schedule of its threads ends, and if the jobs can be
  done one after the other without an exception, every schedule ends with the result of doing so.
\<close>

subsection \<open>Every schedule ends\<close>

text \<open>What is left to do when the producer has given \<open>m\<close> of at most \<open>n\<close> jobs: the steps a job, a
  worker and the ends of the threads still need.\<close>

definition producer_work :: "nat \<Rightarrow> nat \<Rightarrow> 'job producer_pc \<Rightarrow> nat" where
  "producer_work n m p = (case p of ProducerLoop \<Rightarrow> 7 * (n - m) + 1 | ProducerPush _ \<Rightarrow> 7 * (n - m) + 7 | ProducerDone \<Rightarrow> 0)"

definition worker_work :: "('job, 'res) worker_pc \<Rightarrow> nat" where
  "worker_work w = (case w of WorkerLoop \<Rightarrow> 2 | WorkerPop \<Rightarrow> 1 | WorkerJob _ \<Rightarrow> 5 | WorkerPush _ \<Rightarrow> 4 | WorkerDone \<Rightarrow> 0)"

definition work_left :: "nat \<Rightarrow> nat \<Rightarrow> ('src, 'job, 'res, 'snk) pipe_state \<Rightarrow> nat" where
  "work_left n m s = producer_work n m (ps_producer s) + 5 * length (wq_queue (ps_jobs s))
     + sum_list (map worker_work (ps_workers s)) + length (wq_queue (ps_results s))
     + (if ps_joined s then 0 else 1) + (if ps_sink s = SinkPop then 1 else 0)"

text \<open>The number of jobs given so far, as long as the producer runs.\<close>

definition given :: "('src, 'job, 'res, 'snk) pipe_code \<Rightarrow> 'src \<Rightarrow> nat \<Rightarrow> ('src, 'job, 'res, 'snk) pipe_state \<Rightarrow> bool" where
  "given code src0 m s \<longleftrightarrow> ps_producer s \<noteq> ProducerDone \<longrightarrow> (\<exists>js. length js = m \<and> yields code src0 js (ps_src s))"

lemma producer_step_work:
  assumes step: "producer_step code s = Some s'" and m: "given code src0 m s"
    and n: "\<And>js src. yields code src0 js src \<Longrightarrow> length js \<le> n"
  shows "\<exists>m'. given code src0 m' s' \<and> work_left n m' s' < work_left n m s"
proof -
  have nd: "ps_producer s \<noteq> ProducerDone" using step by (auto simp: producer_step_def)
  then obtain js where js: "length js = m" "yields code src0 js (ps_src s)" using m by (auto simp: given_def)
  show ?thesis
  proof (cases "ps_producer s")
    case ProducerDone
    then show ?thesis using nd by simp
  next
    case (ProducerPush job)
    have "given code src0 m s'"
      using step ProducerPush js
      by (auto simp: producer_step_def producer_ends_def given_def Let_def split: if_splits prod.splits)
    moreover have "work_left n m s' < work_left n m s"
      using step ProducerPush
      by (auto simp: producer_step_def producer_ends_def work_left_def producer_work_def push_def Let_def split: if_splits)
    ultimately show ?thesis by blast
  next
    case ProducerLoop
    obtain res src' where nx: "pc_next code (ps_src s) = (res, src')" by (cases "pc_next code (ps_src s)")
    show ?thesis
    proof (cases "ps_producer s'")
      case (ProducerPush job)
      then have s': "s' = s\<lparr>ps_src := src', ps_producer := ProducerPush job\<rparr>" "res = Inr (Some job)"
        using step ProducerLoop nx
        by (auto simp: producer_step_def producer_ends_def split: if_splits sum.splits option.splits)
      then have y: "yields code src0 (js @ [job]) src'" using js(2) nx by (auto intro: yields_next)
      then have "given code src0 (Suc m) s'" using s' js(1) by (auto simp: given_def intro!: exI [of _ "js @ [job]"])
      moreover have "work_left n (Suc m) s' < work_left n m s"
        using n [OF y] js(1) ProducerLoop by (simp add: s' work_left_def producer_work_def)
      ultimately show ?thesis by blast
    next
      case ProducerDone
      then have "given code src0 m s'" by (simp add: given_def)
      moreover have "work_left n m s' < work_left n m s"
        using step ProducerLoop ProducerDone nx
        by (auto simp: producer_step_def producer_ends_def work_left_def producer_work_def split: if_splits sum.splits option.splits)
      ultimately show ?thesis by blast
    next
      case other: ProducerLoop
      then show ?thesis using step ProducerLoop nx
        by (auto simp: producer_step_def producer_ends_def split: if_splits sum.splits option.splits)
    qed
  qed
qed

lemma worker_step_work:
  assumes "worker_step code i s = Some s'"
  shows "work_left n m s' < work_left n m s"
proof -
  have i: "i < length (ps_workers s)" using assms by (auto simp: worker_step_def split: if_splits)
  note upd = sum_list_update_add [OF i, where f = worker_work]
  show ?thesis
  proof (cases "ps_workers s ! i")
    case WorkerDone
    then show ?thesis using assms i by (simp add: worker_step_def)
  next
    case WorkerLoop
    then show ?thesis using assms i upd [of WorkerPop] upd [of WorkerDone]
      by (auto simp: worker_step_def set_worker_def work_left_def worker_work_def split: if_splits)
  next
    case WorkerPop
    then show ?thesis
      using assms i upd [of WorkerDone] upd [of "WorkerJob (hd (wq_queue (ps_jobs s)))"]
      by (auto simp: worker_step_def set_worker_def work_left_def worker_work_def split: if_splits prod.splits option.splits elim!: pop_cases)
  next
    case (WorkerJob job)
    show ?thesis
    proof (cases "pc_work code job")
      case (Inl e)
      then show ?thesis using assms i upd [of WorkerDone] WorkerJob
        by (auto simp: worker_step_def set_worker_def work_left_def worker_work_def)
    next
      case (Inr x)
      then show ?thesis using assms i upd [of "WorkerPush x"] WorkerJob
        by (auto simp: worker_step_def set_worker_def work_left_def worker_work_def)
    qed
  next
    case (WorkerPush x)
    then show ?thesis
      using assms i upd [of WorkerLoop] upd [of WorkerDone]
      by (auto simp: worker_step_def set_worker_def work_left_def worker_work_def push_def split: if_splits)
  qed
qed

lemma sink_item_keeps:
  "ps_producer (sink_item code r s) = ps_producer s \<and> ps_src (sink_item code r s) = ps_src s \<and> ps_jobs (sink_item code r s) = ps_jobs s
   \<and> ps_workers (sink_item code r s) = ps_workers s \<and> ps_joined (sink_item code r s) = ps_joined s
   \<and> wq_queue (ps_results (sink_item code r s)) = wq_queue (ps_results s)
   \<and> (ps_sink (sink_item code r s) = ps_sink s \<or> ps_sink (sink_item code r s) = SinkDone)"
  by (cases rule: sink_item_cases [of code r s]) (simp_all add: sink_fails_def)

lemma sink_end_keeps:
  "ps_producer (sink_end code s) = ps_producer s \<and> ps_src (sink_end code s) = ps_src s \<and> ps_jobs (sink_end code s) = ps_jobs s
   \<and> ps_workers (sink_end code s) = ps_workers s \<and> ps_joined (sink_end code s) = ps_joined s
   \<and> wq_queue (ps_results (sink_end code s)) = wq_queue (ps_results s) \<and> ps_sink (sink_end code s) = SinkDone"
  by (cases rule: sink_end_cases [of code s]) (simp_all add: sink_fails_def)

lemma sink_step_work:
  assumes "sink_step code s = Some s'"
  shows "work_left n m s' < work_left n m s \<and> ps_producer s' = ps_producer s \<and> ps_src s' = ps_src s"
proof -
  have sp: "ps_sink s = SinkPop" using assms by (cases "ps_sink s") (auto simp: sink_step_def)
  show ?thesis
    using assms
  proof (cases rule: sink_step_cases)
    case ended
    then show ?thesis using sink_end_keeps [of code s] sp by (simp add: work_left_def)
  next
    case (item r rs)
    let ?s = "s\<lparr>ps_results := ps_results s\<lparr>wq_queue := rs\<rparr>\<rparr>"
    show ?thesis using sink_item_keeps [of code r ?s] sp item by (auto simp: work_left_def)
  qed
qed

lemma thread_step_work:
  assumes "thread_step code t s = Some s'" "given code src0 m s"
    and "\<And>js src. yields code src0 js src \<Longrightarrow> length js \<le> n"
  shows "\<exists>m'. given code src0 m' s' \<and> work_left n m' s' < work_left n m s"
proof (cases t)
  case Producer
  then have "producer_step code s = Some s'" using assms(1) by simp
  from producer_step_work [OF this assms(2,3)] show ?thesis .
next
  case (Worker i)
  moreover from this have "ps_producer s' = ps_producer s" "ps_src s' = ps_src s"
    using assms(1) by (auto simp: worker_step_def set_worker_def split: if_splits worker_pc.splits prod.splits option.splits sum.splits)
  ultimately show ?thesis using assms(1,2) worker_step_work [of code i s s' n m] by (auto simp: given_def intro!: exI [of _ m])
next
  case Joiner
  then show ?thesis using assms(1,2)
    by (intro exI [of _ m]) (auto simp: joiner_step_def given_def work_left_def split: if_splits)
next
  case Sink
  then show ?thesis using assms(1,2) sink_step_work [of code s s' n m]
    by (intro exI [of _ m]) (simp add: given_def)
qed

lemma schedule_work:
  "run_schedule code ts s = Some s' \<Longrightarrow> given code src0 m s \<Longrightarrow> (\<And>js src. yields code src0 js src \<Longrightarrow> length js \<le> n)
     \<Longrightarrow> length ts \<le> work_left n m s"
proof (induction code ts s arbitrary: m rule: run_schedule.induct)
  case (2 code t ts s)
  then obtain s1 where s1: "thread_step code t s = Some s1" "run_schedule code ts s1 = Some s'" by (auto split: option.splits)
  obtain m' where m': "given code src0 m' s1" "work_left n m' s1 < work_left n m s"
    using thread_step_work [OF s1(1) 2(3)] 2(4) by blast
  have "length ts \<le> work_left n m' s1" using 2(1) [OF s1(1,2) m'(1)] 2(4) by blast
  then show ?case using m'(2) by simp
qed simp

lemma schedule_given:
  fixes code :: "('src, 'job, 'res, 'snk) pipe_code"
  assumes n: "\<And>js src'. yields code src0 js src' \<Longrightarrow> length js \<le> n"
  shows "run_schedule code ts s = Some s' \<Longrightarrow> given code src0 m s \<Longrightarrow> \<exists>m'. given code src0 m' s'"
proof (induction ts arbitrary: s m)
  case (Cons t ts)
  then obtain s1 where s1: "thread_step code t s = Some s1" "run_schedule code ts s1 = Some s'" by (auto split: option.splits)
  have "\<exists>m'. given code src0 m' s1 \<and> work_left n m' s1 < work_left n m s"
    by (rule thread_step_work [OF s1(1) Cons.prems(2)]) (rule n)
  then show ?case using Cons.IH [OF s1(2)] by blast
qed auto

text \<open>A sink that has ended has seen its queue closed or has closed it.\<close>

definition sink_ended_closed :: "('src, 'job, 'res, 'snk) pipe_state \<Rightarrow> bool" where
  "sink_ended_closed s \<longleftrightarrow> (ps_sink s = SinkDone \<longrightarrow> wq_closed (ps_results s))"

lemma sink_step_ended_closed:
  assumes "sink_step code s = Some s'"
  shows "sink_ended_closed s'"
  using assms
proof (cases rule: sink_step_cases)
  case ended
  show ?thesis unfolding ended(3) using ended(2)
    by (cases rule: sink_end_cases [of code s]) (simp_all add: sink_fails_def sink_ended_closed_def)
next
  case (item r rs)
  have "ps_sink s \<noteq> SinkDone" using assms by (auto simp: sink_step_def)
  then show ?thesis unfolding item(2)
    by (cases rule: sink_item_cases [of code r "s\<lparr>ps_results := ps_results s\<lparr>wq_queue := rs\<rparr>\<rparr>"])
      (simp_all add: sink_fails_def sink_ended_closed_def)
qed

lemma thread_step_ended_closed:
  assumes "thread_step code t s = Some s'" "sink_ended_closed s"
  shows "sink_ended_closed s'"
proof (cases t)
  case Producer
  then show ?thesis
    using assms by (auto simp: producer_step_def producer_ends_def sink_ended_closed_def Let_def
        split: producer_pc.splits if_splits prod.splits option.splits sum.splits)
next
  case (Worker i)
  then show ?thesis
    using assms by (auto simp: worker_step_def set_worker_def sink_ended_closed_def push_def
        split: worker_pc.splits if_splits prod.splits option.splits sum.splits)
next
  case Joiner
  then show ?thesis using assms by (auto simp: joiner_step_def sink_ended_closed_def split: if_splits)
next
  case Sink
  then show ?thesis using assms(1) sink_step_ended_closed [of code s s'] by simp
qed

lemma run_schedule_ended_closed: "run_schedule code ts s = Some s' \<Longrightarrow> sink_ended_closed s \<Longrightarrow> sink_ended_closed s'"
  by (induction code ts s rule: run_schedule.induct) (auto split: option.splits intro: thread_step_ended_closed)

text \<open>Where no thread can move: the ways to wait for each other.\<close>

lemma stuck_cases:
  assumes inv: "queues_ok s" "sink_ended_closed s" and stuck: "\<And>t. thread_step code t s = None"
  shows "all_done s \<or> ps_sink s = SinkDone \<and> (\<exists>j. ps_producer s = ProducerPush j) \<and> \<not> push_ready (ps_jobs s)"
proof -
  have cap: "0 < wq_capacity (ps_jobs s)" "0 < wq_capacity (ps_results s)"
    and prod_done: "ps_producer s = ProducerDone \<longrightarrow> wq_closed (ps_jobs s)"
    and joined: "ps_joined s \<longrightarrow> wq_closed (ps_results s)"
    using inv(1) by (auto simp: queues_ok_def)
  have prod: "ps_producer s = ProducerDone \<or> (\<exists>j. ps_producer s = ProducerPush j) \<and> \<not> push_ready (ps_jobs s)"
    using stuck [of Producer]
    by (auto simp: producer_step_def Let_def split: producer_pc.splits if_splits prod.splits option.splits sum.splits)
  have pop_waits: False if "\<not> pop_ready (ps_jobs s)"
    using that prod prod_done cap(1) by (auto simp: pop_ready_def push_ready_def)
  have push_waits: False if "\<not> push_ready (ps_results s)"
    using that inv(2) sink_ready [of code s] stuck [of Sink] cap(2)
    by (auto simp: pop_ready_def push_ready_def sink_ended_closed_def)
  have workers: "list_all (\<lambda>w. w = WorkerDone) (ps_workers s)"
    unfolding list_all_length using worker_ready [of _ s code] stuck pop_waits push_waits by (metis thread_step.simps(2))
  then have j: "ps_joined s" using stuck [of Joiner] by (auto simp: joiner_step_def split: if_splits)
  then have "ps_sink s = SinkDone" using joined sink_ready [of code s] stuck [of Sink] by (auto simp: pop_ready_def)
  then show ?thesis using prod workers j by (auto simp: all_done_def)
qed

lemma schedule_completes:
  fixes code :: "('src, 'job, 'res, 'snk) pipe_code"
  assumes n: "\<And>js src'. yields code src0 js src' \<Longrightarrow> length js \<le> n"
  shows "given code src0 m s \<Longrightarrow> \<exists>us s'. run_schedule code us s = Some s' \<and> (\<forall>t. thread_step code t s' = None)"
proof (induction "work_left n m s" arbitrary: m s rule: less_induct)
  case less
  show ?case
  proof (cases "\<forall>t. thread_step code t s = None")
    case True
    then show ?thesis by (intro exI [of _ "[]"]) simp
  next
    case False
    then obtain t s1 where t: "thread_step code t s = Some s1" by (metis option.exhaust)
    have "\<exists>m'. given code src0 m' s1 \<and> work_left n m' s1 < work_left n m s"
      by (rule thread_step_work [OF t less.prems]) (rule n)
    then obtain m' where "given code src0 m' s1" "work_left n m' s1 < work_left n m s" by blast
    from less.hyps [OF this(2,1)] obtain us s' where "run_schedule code us s1 = Some s'" "\<forall>t. thread_step code t s' = None" by blast
    then show ?thesis using t by (intro exI [of _ "t # us"]) simp
  qed
qed

text \<open>C20: No schedule of a pipeline goes on forever, and how it can stop.  If the producer has at most
  \<open>n\<close> jobs to give, every schedule of \<open>w\<close> workers with the producer, the joiner and the sink, with or
  without failures, has at most \<open>7 n + 2 w + 3\<close> steps, and can be continued to a state where no thread
  can move.  In such a state all threads have ended, or the pipeline hangs in one particular way: a
  failure is recorded, the sink has ended, and the producer waits for room in the full job queue.\<close>
theorem pipeline_terminates:
  fixes code :: "('src, 'job, 'res, 'snk) pipe_code"
  assumes "run_schedule code ts (start_pipeline worker_count queue_depth src snk) = Some s"
    "\<forall>js src'. yields code src js src' \<longrightarrow> length js \<le> n" "0 < worker_count"
  shows "length ts \<le> 7 * n + 2 * worker_count + 3
    \<and> (\<exists>us s'. run_schedule code (ts @ us) (start_pipeline worker_count queue_depth src snk) = Some s'
         \<and> (\<forall>t. thread_step code t s' = None))
    \<and> ((\<forall>t. thread_step code t s = None) \<longrightarrow>
         all_done s \<or> ps_failure s \<noteq> None \<and> ps_sink s = SinkDone
           \<and> (\<exists>j. ps_producer s = ProducerPush j) \<and> \<not> push_ready (ps_jobs s))"
proof -
  let ?s = "start_pipeline worker_count queue_depth src snk :: ('src, 'job, 'res, 'snk) pipe_state"
  have g: "given code src 0 ?s" by (auto simp: given_def start_pipeline_def intro: yields_none)
  then have "length ts \<le> work_left n 0 ?s" by (rule schedule_work [OF assms(1)]) (rule assms(2) [rule_format])
  also have "work_left n 0 ?s = 7 * n + 2 * worker_count + 3"
  proof -
    have "sum_list (map worker_work (replicate worker_count WorkerLoop)) = 2 * worker_count"
      by (induction worker_count) (simp_all add: worker_work_def)
    then show ?thesis by (simp add: work_left_def start_pipeline_def producer_work_def new_WorkQueue_def)
  qed
  finally have len: "length ts \<le> 7 * n + 2 * worker_count + 3" .
  have "\<exists>m. given code src m s" by (rule schedule_given [OF _ assms(1) g]) (rule assms(2) [rule_format])
  then obtain m where "given code src m s" by blast
  then have "\<exists>us s'. run_schedule code us s = Some s' \<and> (\<forall>t. thread_step code t s' = None)"
    by (rule schedule_completes [rotated]) (rule assms(2) [rule_format])
  then obtain us s' where us: "run_schedule code us s = Some s'" "\<forall>t. thread_step code t s' = None" by blast
  have q: "queues_ok s" by (rule run_schedule_queues [OF assms(1) start_queues])
  have "sink_ended_closed s"
    by (rule run_schedule_ended_closed [OF assms(1)]) (simp add: sink_ended_closed_def start_pipeline_def)
  moreover have "ps_workers s \<noteq> []" using run_schedule_workers [OF assms(1)] assms(3) by (auto simp: start_pipeline_def)
  ultimately have "all_done s \<or> ps_failure s \<noteq> None \<and> ps_sink s = SinkDone
      \<and> (\<exists>j. ps_producer s = ProducerPush j) \<and> \<not> push_ready (ps_jobs s)" if "\<forall>t. thread_step code t s = None"
    using stuck_cases [OF q, of code] queues_ok_progress [OF q, of code] that by blast
  then show ?thesis using len us assms(1) by (auto simp: run_schedule_append)
qed

theorem pipeline_terminates_witness:
  "length overtaking_schedule \<le> 28
     \<and> (\<exists>us s. run_schedule collecting (overtaking_schedule @ us) (start_pipeline 2 2 0 []) = Some s
          \<and> (\<forall>t. thread_step collecting t s = None))"
proof -
  have "\<forall>js src'. yields collecting 0 js src' \<longrightarrow> length js \<le> 3" using collecting_yields by blast
  then show ?thesis using pipeline_terminates [OF collected_run, of 3] by simp
qed



subsection \<open>The sequential run\<close>

lemma yields_prefix: "yields code src (js @ js') s \<Longrightarrow> \<exists>s'. yields code src js s'"
proof (induction js' arbitrary: s rule: rev_induct)
  case Nil
  then show ?case by auto
next
  case (snoc j js')
  from snoc.prems have "yields code src ((js @ js') @ [j]) s" by simp
  then obtain s1 where "yields code src (js @ js') s1" by (cases rule: yields.cases) auto
  then show ?case by (rule snoc.IH)
qed

lemma yields_snocD:
  "yields code src (js @ [j]) s \<Longrightarrow> \<exists>s'. yields code src js s' \<and> pc_next code s' = (Inr (Some j), s)"
  by (cases rule: yields.cases) auto

lemma yields_unique:
  "yields code src js s \<Longrightarrow> yields code src js' s' \<Longrightarrow> length js = length js' \<Longrightarrow> js = js' \<and> s = s'"
proof (induction arbitrary: js' s' rule: yields.induct)
  case yields_none
  from yields_none.prems(1) show ?case using yields_none.prems(2) by (cases rule: yields.cases) simp_all
next
  case (yields_next js s1 j s2)
  obtain ks k where js': "js' = ks @ [k]" "length ks = length js"
    using yields_next.prems(2) by (cases js' rule: rev_cases) simp_all
  obtain s3 where s3: "yields code src ks s3" "pc_next code s3 = (Inr (Some k), s')"
    using yields_snocD [OF yields_next.prems(1) [unfolded js'(1)]] by blast
  have "js = ks \<and> s1 = s3" using yields_next.IH [OF s3(1)] js'(2) by simp
  then show ?case using s3(2) yields_next.hyps(2) js' by simp
qed

text \<open>Doing one job after the other: the jobs \<open>js\<close> have the results \<open>rs\<close>, and the sink takes them
  and its end without an exception.\<close>

definition sequential_run ::
  "('src, 'job, 'res, 'snk) pipe_code \<Rightarrow> 'src \<Rightarrow> 'snk \<Rightarrow> 'job list \<Rightarrow> 'res list \<Rightarrow> 'snk \<Rightarrow> bool" where
  "sequential_run code src snk js rs snk' \<longleftrightarrow> all_given code src js \<and> results_of code js rs \<and> length rs = length js
     \<and> bindS (put_all code rs) (\<lambda>_. pc_end code) snk = (Inr (), snk')"

lemma given_prefix:
  assumes "all_given code src js" "yields code src ks s"
  shows "length ks \<le> length js \<and> ks = take (length ks) js
    \<and> pc_next code s = (if length ks < length js then (Inr (Some (js ! length ks)), snd (pc_next code s)) else (Inr None, snd (pc_next code s)))"
proof -
  from assms(1) obtain s0 where s0: "yields code src js s0" "fst (pc_next code s0) = Inr None" by (auto simp: all_given_def)
  have le: "length ks \<le> length js"
  proof (rule ccontr)
    assume "\<not> length ks \<le> length js"
    then have "ks = take (length js) ks @ ks ! length js # drop (Suc (length js)) ks" by (intro id_take_nth_drop) simp
    then have "ks = (take (length js) ks @ [ks ! length js]) @ drop (Suc (length js)) ks" by simp
    with assms(2) have "yields code src ((take (length js) ks @ [ks ! length js]) @ drop (Suc (length js)) ks) s" by simp
    from yields_prefix [OF this] obtain s1 where "yields code src (take (length js) ks @ [ks ! length js]) s1" ..
    from yields_snocD [OF this] obtain s2 where s2: "yields code src (take (length js) ks) s2" "pc_next code s2 = (Inr (Some (ks ! length js)), s1)"
      by blast
    have "s2 = s0" using yields_unique [OF s2(1) s0(1)] \<open>\<not> length ks \<le> length js\<close> by simp
    then show False using s2(2) s0(2) by simp
  qed
  have "yields code src (take (length ks) js @ drop (length ks) js) s0" using s0(1) by simp
  from yields_prefix [OF this] obtain s1 where "yields code src (take (length ks) js) s1" ..
  then have eq: "ks = take (length ks) js" using yields_unique [OF assms(2)] le by simp
  show ?thesis
  proof (cases "length ks < length js")
    case True
    then have "js = take (length ks) js @ js ! length ks # drop (Suc (length ks)) js" by (rule id_take_nth_drop)
    then have "js = (ks @ [js ! length ks]) @ drop (Suc (length ks)) js" using eq by simp
    with s0(1) have "yields code src ((ks @ [js ! length ks]) @ drop (Suc (length ks)) js) s0" by metis
    from yields_prefix [OF this] obtain s1 where "yields code src (ks @ [js ! length ks]) s1" ..
    from yields_snocD [OF this] obtain s2 where s2: "yields code src ks s2" "pc_next code s2 = (Inr (Some (js ! length ks)), s1)"
      by blast
    have "s2 = s" using yields_unique [OF s2(1) assms(2)] by simp
    then show ?thesis using s2(2) True eq by simp
  next
    case False
    then have "js = ks" using eq le by simp
    then have "s = s0" using yields_unique [OF assms(2) s0(1)] by simp
    then show ?thesis using s0(2) False eq le by (cases "pc_next code s") auto
  qed
qed

text \<open>The results that are under way, those of jobs that are not done yet included.\<close>

definition the_result :: "('src, 'job, 'res, 'snk) pipe_code \<Rightarrow> 'job \<Rightarrow> 'res" where
  "the_result code j = projr (pc_work code j)"

definition carried :: "('src, 'job, 'res, 'snk) pipe_code \<Rightarrow> ('job, 'res) worker_pc \<Rightarrow> 'res multiset" where
  "carried code w = (case w of WorkerJob j \<Rightarrow> {#the_result code j#} | WorkerPush r \<Rightarrow> {#r#} | _ \<Rightarrow> {#})"

definition under_way :: "('src, 'job, 'res, 'snk) pipe_code \<Rightarrow> ('src, 'job, 'res, 'snk) pipe_state \<Rightarrow> 'res multiset" where
  "under_way code s = (case ps_producer s of ProducerPush j \<Rightarrow> {#the_result code j#} | _ \<Rightarrow> {#})
     + image_mset (the_result code) (mset (wq_queue (ps_jobs s)))
     + sum_list (map (carried code) (ps_workers s)) + mset (wq_queue (ps_results s))"

text \<open>The state of a pipeline without failures: \<open>m\<close> jobs given, \<open>d\<close> results delivered.\<close>

definition on_course ::
  "('src, 'job, 'res, 'snk) pipe_code \<Rightarrow> 'src \<Rightarrow> 'snk \<Rightarrow> 'job list \<Rightarrow> 'res list \<Rightarrow> 'snk \<Rightarrow> nat \<Rightarrow> nat
     \<Rightarrow> ('src, 'job, 'res, 'snk) pipe_state \<Rightarrow> bool" where
  "on_course code src snk js rs snk' m d s \<longleftrightarrow>
     queues_ok s \<and> ps_workers s \<noteq> [] \<and> ps_failure s = None \<and> jobs_in s \<subseteq> set js \<and> m \<le> length js
     \<and> (if ps_producer s = ProducerDone then m = length js else yields code src (take m js) (ps_src s))
     \<and> (if ps_sink s = SinkDone then ps_snk s = snk'
        else d \<le> m \<and> put_all code (take d rs) snk = (Inr (), ps_snk s) \<and> ps_next_expected_index s = of_nat d
          \<and> under_way code s + mset (map snd (ps_pending s)) + mset (take d rs) = mset (take m rs)
          \<and> (\<forall>(i, r)\<in>set (ps_pending s). i = pc_index code r \<and> i \<noteq> of_nat d))"


lemma sequential_nth:
  assumes "sequential_run code src snk js rs snk'" "indexed code src"
  shows "length rs = length js" "length js < 2 ^ 64"
    "k < length js \<Longrightarrow> pc_work code (js ! k) = Inr (rs ! k)" "k < length js \<Longrightarrow> the_result code (js ! k) = rs ! k"
    "k < length js \<Longrightarrow> unat (pc_index code (rs ! k)) = k" "distinct rs"
proof -
  show l: "length rs = length js" using assms(1) by (simp add: sequential_run_def)
  have w: "pc_work code (js ! k) = Inr (rs ! k)" if "k < length js" for k
    using assms(1) that by (simp add: sequential_run_def results_of_def)
  then show "k < length js \<Longrightarrow> pc_work code (js ! k) = Inr (rs ! k)" "k < length js \<Longrightarrow> the_result code (js ! k) = rs ! k"
    by (simp_all add: the_result_def)
  obtain s where "yields code src js s" using assms(1) by (auto simp: sequential_run_def all_given_def)
  then have ix: "length js < 2 ^ 64" "\<forall>k<length js. \<forall>r. pc_work code (js ! k) = Inr r \<longrightarrow> unat (pc_index code r) = k"
    using assms(2) unfolding indexed_def by blast+
  then show "length js < 2 ^ 64" by simp
  have i: "unat (pc_index code (rs ! k)) = k" if "k < length js" for k using ix(2) w that by blast
  then show "k < length js \<Longrightarrow> unat (pc_index code (rs ! k)) = k" .
  show "distinct rs" unfolding distinct_conv_nth using i l by metis
qed

lemma job_done:
  assumes "sequential_run code src snk js rs snk'" "indexed code src" "j \<in> set js"
  shows "pc_work code j = Inr (the_result code j)"
  using sequential_nth(3,4) [OF assms(1,2)] assms(3) by (metis in_set_conv_nth)

lemma producer_on_course:
  assumes seq: "sequential_run code src snk js rs snk'" and idx: "indexed code src"
    and step: "producer_step code s = Some s'" and on: "on_course code src snk js rs snk' m d s"
  shows "\<exists>m'. on_course code src snk js rs snk' m' d s'"
proof -
  have q: "queues_ok s" and w: "ps_workers s \<noteq> []" and f: "ps_failure s = None" using on by (simp_all add: on_course_def)
  have q': "queues_ok s'" using step q by (rule producer_step_queues)
  have nd: "ps_producer s \<noteq> ProducerDone" using step by (auto simp: producer_step_def)
  have sp: "ps_sink s = SinkPop" using sink_done_all_done(1) [OF q w f] nd by (cases "ps_sink s") auto
  have y: "yields code src (take m js) (ps_src s)" and m: "m \<le> length js" using on nd by (simp_all add: on_course_def)
  show ?thesis
  proof (cases "ps_producer s")
    case ProducerDone
    then show ?thesis using nd by simp
  next
    case (ProducerPush job)
    have "\<not> wq_closed (ps_jobs s)" using q nd f by (auto simp: queues_ok_def)
    then have s': "s' = s\<lparr>ps_jobs := ps_jobs s\<lparr>wq_queue := wq_queue (ps_jobs s) @ [job]\<rparr>, ps_producer := ProducerLoop\<rparr>"
      using step ProducerPush by (auto simp: producer_step_def push_def Let_def split: if_splits)
    have "on_course code src snk js rs snk' m d s'"
      using on q' sp ProducerPush y unfolding s' by (auto simp: on_course_def under_way_def jobs_in_def ac_simps)
    then show ?thesis ..
  next
    case ProducerLoop
    have all: "all_given code src js" using seq by (simp add: sequential_run_def)
    note nx = given_prefix [OF all y]
    have l: "length (take m js) = m" using m by simp
    show ?thesis
    proof (cases "m < length js")
      case True
      obtain src' where n: "pc_next code (ps_src s) = (Inr (Some (js ! m)), src')" using nx True l by (metis (no_types, lifting))
      then have s': "s' = s\<lparr>ps_src := src', ps_producer := ProducerPush (js ! m)\<rparr>"
        using step ProducerLoop f by (auto simp: producer_step_def)
      have "yields code src (take m js @ [js ! m]) src'" using y n by (rule yields_next)
      then have y': "yields code src (take (Suc m) js) src'" using True by (simp add: take_Suc_conv_app_nth)
      have "mset (take (Suc m) rs) = add_mset (the_result code (js ! m)) (mset (take m rs))"
        using True sequential_nth(1,4) [OF seq idx] by (simp add: take_Suc_conv_app_nth)
      then have "on_course code src snk js rs snk' (Suc m) d s'"
        using on q' sp ProducerLoop y' True unfolding s' by (auto simp: on_course_def under_way_def jobs_in_def)
      then show ?thesis ..
    next
      case False
      then have e: "m = length js" using m by simp
      obtain src' where n: "pc_next code (ps_src s) = (Inr None, src')" using nx False l by (metis (no_types, lifting))
      then have s': "s' = producer_ends (s\<lparr>ps_src := src'\<rparr>)"
        using step ProducerLoop f by (auto simp: producer_step_def)
      have "on_course code src snk js rs snk' m d s'"
        using on q' sp ProducerLoop e unfolding s' by (auto simp: on_course_def under_way_def jobs_in_def producer_ends_def)
      then show ?thesis ..
    qed
  qed
qed

lemma worker_on_course:
  assumes seq: "sequential_run code src snk js rs snk'" and idx: "indexed code src"
    and step: "worker_step code i s = Some s'" and on: "on_course code src snk js rs snk' m d s"
  shows "on_course code src snk js rs snk' m d s'"
proof -
  have q: "queues_ok s" and w: "ps_workers s \<noteq> []" and f: "ps_failure s = None" using on by (simp_all add: on_course_def)
  have q': "queues_ok s'" using step q by (rule worker_step_queues)
  have i: "i < length (ps_workers s)" and nd: "ps_workers s ! i \<noteq> WorkerDone"
    using step by (auto simp: worker_step_def split: if_splits)
  have sp: "ps_sink s = SinkPop"
    using sink_done_all_done(2) [OF q w f] nd i nth_mem by (cases "ps_sink s") blast+
  note upd = sum_list_update_add [OF i, where f = "carried code"] and mem = in_worker_update [OF i]
  have ws: "ps_workers s' \<noteq> []"
    using step w by (auto simp: worker_step_def set_worker_def split: if_splits worker_pc.splits prod.splits option.splits sum.splits)
  have on': "on_course code src snk js rs snk' m d s'"
    if "ps_failure s' = None" "jobs_in s' \<subseteq> jobs_in s" "under_way code s' = under_way code s" "ps_producer s' = ps_producer s"
      "ps_src s' = ps_src s" "ps_sink s' = ps_sink s" "ps_snk s' = ps_snk s" "ps_next_expected_index s' = ps_next_expected_index s"
      "ps_pending s' = ps_pending s"
    using on that q' ws by (auto simp: on_course_def)
  show ?thesis
  proof (cases "ps_workers s ! i")
    case WorkerDone
    then show ?thesis using nd by simp
  next
    case WorkerLoop
    then have s': "s' = set_worker i WorkerPop s" using step i f by (simp add: worker_step_def)
    have "sum_list (map (carried code) ((ps_workers s)[i := WorkerPop])) = sum_list (map (carried code) (ps_workers s))"
      using upd [of WorkerPop] WorkerLoop by (simp add: carried_def)
    then show ?thesis
      by (intro on') (auto simp: s' set_worker_def f jobs_in_def under_way_def dest!: mem)
  next
    case WorkerPop
    show ?thesis
    proof (cases "wq_queue (ps_jobs s)")
      case Nil
      then have s': "s' = set_worker i WorkerDone s" using step i WorkerPop by (auto simp: worker_step_def pop_def split: if_splits)
      have "sum_list (map (carried code) ((ps_workers s)[i := WorkerDone])) = sum_list (map (carried code) (ps_workers s))"
        using upd [of WorkerDone] WorkerPop by (simp add: carried_def)
      then show ?thesis
        by (intro on') (auto simp: s' set_worker_def f jobs_in_def under_way_def dest!: mem)
    next
      case (Cons j rest)
      then have s': "s' = set_worker i (WorkerJob j) (s\<lparr>ps_jobs := ps_jobs s\<lparr>wq_queue := rest\<rparr>\<rparr>)"
        using step i WorkerPop by (auto simp: worker_step_def pop_def split: if_splits)
      have "sum_list (map (carried code) ((ps_workers s)[i := WorkerJob j])) = add_mset (the_result code j) (sum_list (map (carried code) (ps_workers s)))"
        using upd [of "WorkerJob j"] WorkerPop by (simp add: carried_def)
      then show ?thesis
        by (intro on') (auto simp: s' set_worker_def f jobs_in_def under_way_def Cons dest!: mem)
    qed
  next
    case (WorkerJob j)
    have "WorkerJob j \<in> set (ps_workers s)" using nth_mem [OF i] WorkerJob by simp
    then have "j \<in> set js" using on by (auto simp: on_course_def jobs_in_def)
    then have s': "s' = set_worker i (WorkerPush (the_result code j)) s"
      using step i WorkerJob job_done [OF seq idx] by (simp add: worker_step_def)
    have "sum_list (map (carried code) ((ps_workers s)[i := WorkerPush (the_result code j)])) = sum_list (map (carried code) (ps_workers s))"
      using upd [of "WorkerPush (the_result code j)"] WorkerJob by (simp add: carried_def)
    then show ?thesis
      by (intro on') (auto simp: s' set_worker_def f jobs_in_def under_way_def dest!: mem)
  next
    case (WorkerPush x)
    have "\<not> wq_closed (ps_results s)"
      using sink_done_all_done(2) [OF q w f disjI2] nd i nth_mem by blast
    then have s': "s' = set_worker i WorkerLoop (s\<lparr>ps_results := ps_results s\<lparr>wq_queue := wq_queue (ps_results s) @ [x]\<rparr>\<rparr>)"
      using step i WorkerPush by (auto simp: worker_step_def push_def split: if_splits)
    have "add_mset x (sum_list (map (carried code) ((ps_workers s)[i := WorkerLoop]))) = sum_list (map (carried code) (ps_workers s))"
      using upd [of WorkerLoop] WorkerPush by (simp add: carried_def)
    then show ?thesis
      by (intro on') (auto simp: s' set_worker_def f jobs_in_def under_way_def dest!: mem)
  qed
qed


lemma put_all_take:
  assumes "put_all code rs snk = (Inr (), s1)"
  shows "\<exists>s. put_all code (take d rs) snk = (Inr (), s)"
proof -
  have "put_all code (take d rs @ drop d rs) snk = (Inr (), s1)" using assms by simp
  then show ?thesis by (auto simp: put_all_append bindS_Inr simp del: append_take_drop_id)
qed

text \<open>Draining from the next expected index on succeeds, and stops at an index that is not pending.\<close>

lemma drain_on_course:
  assumes seq: "sequential_run code src snk js rs snk'" and idx: "indexed code src" and m: "m \<le> length js"
  shows "drain (pc_put code) p n s = (res, p', n', s') \<Longrightarrow> put_all code (take d rs) snk = (Inr (), s) \<Longrightarrow> n = of_nat d
     \<Longrightarrow> d \<le> m \<Longrightarrow> distinct (map fst p) \<Longrightarrow> \<forall>(i, r)\<in>set p. i = pc_index code r
     \<Longrightarrow> M + mset (map snd p) + mset (take d rs) = mset (take m rs) \<Longrightarrow>
   \<exists>d'\<le>m. res = Inr () \<and> put_all code (take d' rs) snk = (Inr (), s') \<and> n' = of_nat d'
     \<and> M + mset (map snd p') + mset (take d' rs) = mset (take m rs)
     \<and> (\<forall>(i, r)\<in>set p'. i = pc_index code r \<and> i \<noteq> of_nat d')"
proof (induction "pc_put code" p n s arbitrary: d rule: drain.induct)
  case (1 p n s)
  note l = sequential_nth(1) [OF seq idx] and l64 = sequential_nth(2) [OF seq idx]
  show ?case
  proof (cases "map_of p n")
    case None
    then have "\<forall>(i, r)\<in>set p. i \<noteq> n" by (auto simp: map_of_eq_None_iff image_iff)
    then show ?thesis using 1(2-) None by (intro exI [of _ d]) (auto simp: drain.simps [of _ p])
  next
    case (Some r)
    then have r: "(n, r) \<in> set p" by (rule map_of_SomeD)
    then have n: "n = pc_index code r" using 1(7) by auto
    have "r \<in># mset (take m rs)" using r 1(8) by (metis image_eqI in_multiset_in_set list.set_map snd_conv union_iff)
    then obtain k where k: "k < m" "r = rs ! k" using m l by (auto simp: in_set_conv_nth)
    have "unat n = k" using n k m sequential_nth(5) [OF seq idx, of k] by simp
    moreover have "unat (of_nat d :: u64) = d" using 1(5) m l64 by (intro unat_of_nat_u64) simp
    ultimately have kd: "k = d" using 1(4) by simp
    have tk: "take (Suc d) rs = take d rs @ [r]" using k kd m l by (simp add: take_Suc_conv_app_nth)
    obtain s1 where "put_all code rs snk = (Inr (), s1)" using seq by (auto simp: sequential_run_def bindS_Inr)
    from put_all_take [OF this] obtain s2 where s2: "put_all code (take (Suc d) rs) snk = (Inr (), s2)" by blast
    have put: "pc_put code r s = (Inr (), s2)"
      using s2 unfolding tk put_all_snoc [OF 1(3)] by (cases "pc_put code r s") (auto split: sum.splits)
    let ?p = "filter (\<lambda>(i, _). i \<noteq> n) p"
    have d: "drain (pc_put code) ?p (n + 1) s2 = (res, p', n', s')"
      using 1(2) Some put by (simp add: drain.simps [of _ p])
    have "mset (map snd p) = add_mset r (mset (map snd ?p))" using 1(6) r
    proof (induction p)
      case (Cons a p)
      show ?case
      proof (cases "a = (n, r)")
        case True
        then have "\<forall>x\<in>set p. fst x \<noteq> n" using Cons.prems(1) by (auto simp: image_iff)
        then have "filter (\<lambda>(i, _). i \<noteq> n) p = p" by (intro filter_True) auto
        then show ?thesis using True by simp
      next
        case False
        then have "(n, r) \<in> set p" "fst a \<noteq> n" using Cons.prems by (auto simp: image_iff)
        then show ?thesis using Cons by (auto split: prod.splits)
      qed
    qed simp
    then have M: "M + mset (map snd ?p) + mset (take (Suc d) rs) = mset (take m rs)" using 1(8) tk by simp
    have "n + 1 = of_nat (Suc d)" using 1(4) by simp
    moreover have "distinct (map fst ?p)" using 1(6) by (simp add: distinct_map_filter)
    moreover have "\<forall>(i, r)\<in>set ?p. i = pc_index code r" using 1(7) by auto
    ultimately show ?thesis using 1(1) [OF Some put [symmetric] refl d s2 _ _ _ _ M] k kd by simp
  qed
qed


lemma distinct_sub_mset: "mset xs \<subseteq># mset ys \<Longrightarrow> distinct ys \<Longrightarrow> distinct xs"
proof -
  assume a: "mset xs \<subseteq># mset ys" and d: "distinct ys"
  have "count (mset xs) x = (if x \<in> set xs then 1 else 0)" for x
  proof -
    have "count (mset xs) x \<le> count (mset ys) x" using a by (rule mset_subset_eq_count)
    also have "\<dots> \<le> 1" using d by (simp add: distinct_count_atmost_1)
    finally show ?thesis using count_greater_zero_iff [of "mset xs" x]
      by (cases "x \<in> set xs") (auto simp: count_mset_0_iff simp del: count_greater_zero_iff)
  qed
  then show ?thesis by (simp add: distinct_count_atmost_1)
qed

lemma pending_keys_distinct:
  assumes seq: "sequential_run code src snk js rs snk'" and idx: "indexed code src"
    and "M + mset (map snd p) + mset (take d rs) = mset (take m rs)" "\<forall>(i, r)\<in>set p. i = pc_index code r"
  shows "distinct (map fst p)"
proof -
  have "mset (map snd p) \<subseteq># mset (take m rs)" unfolding assms(3) [symmetric] by simp
  moreover have "distinct (take m rs)" using sequential_nth(6) [OF seq idx] by simp
  ultimately have "distinct (map snd p)" by (rule distinct_sub_mset)
  moreover have "set (map snd p) \<subseteq> set rs"
    using \<open>mset (map snd p) \<subseteq># mset (take m rs)\<close> by (metis set_mset_mono set_mset_mset set_take_subset subset_trans)
  moreover have "inj_on (pc_index code) (set rs)"
  proof (rule inj_onI)
    fix x y assume "x \<in> set rs" "y \<in> set rs" "pc_index code x = pc_index code y"
    then show "x = y" using sequential_nth(1,5) [OF seq idx] by (metis in_set_conv_nth)
  qed
  ultimately have "distinct (map (pc_index code) (map snd p))" by (simp only: distinct_map inj_on_subset)
  moreover have "map (pc_index code) (map snd p) = map fst p" using assms(4) by (auto simp: split_beta)
  ultimately show ?thesis by (simp only:)
qed

lemma sink_on_course:
  assumes seq: "sequential_run code src snk js rs snk'" and idx: "indexed code src"
    and step: "sink_step code s = Some s'" and on: "on_course code src snk js rs snk' m d s"
  shows "\<exists>d'. on_course code src snk js rs snk' m d' s'"
proof -
  have q: "queues_ok s" and w: "ps_workers s \<noteq> []" and f: "ps_failure s = None" using on by (simp_all add: on_course_def)
  have q': "queues_ok s'" using step q by (rule sink_step_queues)
  have sp: "ps_sink s = SinkPop" using step by (cases "ps_sink s") (auto simp: sink_step_def)
  have dm: "d \<le> m" "m \<le> length js" and put: "put_all code (take d rs) snk = (Inr (), ps_snk s)"
    and n: "ps_next_expected_index s = of_nat d"
    and M: "under_way code s + mset (map snd (ps_pending s)) + mset (take d rs) = mset (take m rs)"
    and pend: "\<forall>(i, r)\<in>set (ps_pending s). i = pc_index code r \<and> i \<noteq> of_nat d"
    using on sp by (simp_all add: on_course_def)
  note l = sequential_nth(1) [OF seq idx] and l64 = sequential_nth(2) [OF seq idx]
  have ud: "unat (of_nat d :: u64) = d" using dm l64 by (intro unat_of_nat_u64) simp
  show ?thesis
    using step
  proof (cases rule: sink_step_cases)
    case ended
    note dn = sink_done_all_done [OF q w f disjI2 [OF ended(2)]]
    have e: "m = length rs" using on dn(1) l by (simp add: on_course_def)
    have "sum_list (map (carried code) ws) = {#}" if "\<forall>w\<in>set ws. w = WorkerDone" for ws
      using that by (induction ws) (simp_all add: carried_def)
    then have "under_way code s = {#}" using dn ended(1) by (simp add: under_way_def)
    then have M': "mset (map snd (ps_pending s)) + mset (take d rs) = mset rs" using M e by simp
    have de: "d = length rs"
    proof (rule ccontr)
      assume "d \<noteq> length rs"
      then have lt: "d < length rs" using dm e by simp
      have "mset rs = mset (take d rs) + mset (drop d rs)" by (simp flip: mset_append)
      then have "mset (map snd (ps_pending s)) = mset (drop d rs)" using M' by simp
      moreover have "rs ! d \<in> set (drop d rs)" using lt by (metis Cons_nth_drop_Suc list.set_intros(1))
      ultimately have "rs ! d \<in> snd ` set (ps_pending s)" by (metis list.set_map set_mset_mset)
      then obtain i where "(i, rs ! d) \<in> set (ps_pending s)" by auto
      then have "i = pc_index code (rs ! d)" "i \<noteq> of_nat d" using pend by auto
      moreover have "unat (pc_index code (rs ! d)) = d" using sequential_nth(5) [OF seq idx] lt l by simp
      ultimately show False by (metis ud word_unat_eq_iff)
    qed
    then have p0: "ps_pending s = []" using M' by simp
    have "put_all code rs snk = (Inr (), ps_snk s)" using put de by simp
    then have en: "pc_end code (ps_snk s) = (Inr (), snk')" using seq by (simp add: sequential_run_def bindS_def)
    have s': "s' = s\<lparr>ps_snk := snk', ps_sink := SinkDone\<rparr>" unfolding ended(3) using f p0 en by (simp add: sink_end_def)
    have "on_course code src snk js rs snk' m d s'" using on q' s' by (simp add: on_course_def jobs_in_def)
    then show ?thesis ..
  next
    case (item r rest)
    let ?s = "s\<lparr>ps_results := ps_results s\<lparr>wq_queue := rest\<rparr>\<rparr>"
    have u: "under_way code s = add_mset r (under_way code ?s)" using item(1) by (simp add: under_way_def)
    let ?p = "(pc_index code r, r) # ps_pending s"
    have M': "under_way code ?s + mset (map snd ?p) + mset (take d rs) = mset (take m rs)" using M u by simp
    have pk: "\<forall>(i, r)\<in>set ?p. i = pc_index code r" using pend by auto
    note dk = pending_keys_distinct [OF seq idx M' pk]
    have dup: "map_of (ps_pending s) (pc_index code r) = None" using dk by (simp add: map_of_eq_None_iff)
    have "r \<in># mset (drop d (take m rs))"
    proof -
      have "mset (take m rs) = mset (take d rs) + mset (drop d (take m rs))"
        using dm append_take_drop_id [of d "take m rs"] by (metis min.absorb1 mset_append take_take)
      then have "under_way code ?s + mset (map snd ?p) = mset (drop d (take m rs))" using M' by simp
      then show ?thesis by (metis insertI1 list.set_map list.simps(15) list.simps(9) set_mset_mset snd_conv union_iff)
    qed
    then obtain k where k: "d \<le> k" "k < m" "r = rs ! k"
      using l dm by (auto simp: in_set_conv_nth) (metis add.commute le_add1 less_diff_conv)
    have "unat (pc_index code r) = k" using k dm sequential_nth(5) [OF seq idx, of k] by simp
    then have stale: "\<not> pc_index code r < ps_next_expected_index s" using k(1) ud by (simp add: n word_less_nat_alt)
    obtain res p' n' k' where dr: "drain (pc_put code) ?p (ps_next_expected_index s) (ps_snk s) = (res, p', n', k')"
      by (cases "drain (pc_put code) ?p (ps_next_expected_index s) (ps_snk s)") auto
    obtain d' where d': "d' \<le> m" "res = Inr ()" "put_all code (take d' rs) snk = (Inr (), k')" "n' = of_nat d'"
      "under_way code ?s + mset (map snd p') + mset (take d' rs) = mset (take m rs)"
      "\<forall>(i, r)\<in>set p'. i = pc_index code r \<and> i \<noteq> of_nat d'"
      using drain_on_course [OF seq idx dm(2) dr put n dm(1) dk pk M'] by blast
    have s': "s' = ?s\<lparr>ps_pending := p', ps_next_expected_index := n', ps_snk := k'\<rparr>"
      unfolding item(2) using stale dup dr d'(2) by (simp add: sink_item_def Let_def)
    have "under_way code s' = under_way code ?s" "jobs_in s' = jobs_in s" by (simp_all add: s' under_way_def jobs_in_def)
    then have "on_course code src snk js rs snk' m d' s'"
      using on q' d' sp s' by (simp add: on_course_def)
    then show ?thesis ..
  qed
qed


lemma thread_on_course:
  assumes seq: "sequential_run code src snk js rs snk'" and idx: "indexed code src"
    and step: "thread_step code t s = Some s'" and on: "on_course code src snk js rs snk' m d s"
  shows "\<exists>m d. on_course code src snk js rs snk' m d s'"
proof (cases t)
  case Producer
  then have "producer_step code s = Some s'" using step by simp
  from producer_on_course [OF seq idx this on] show ?thesis by blast
next
  case (Worker i)
  then have "worker_step code i s = Some s'" using step by simp
  from worker_on_course [OF seq idx this on] show ?thesis by blast
next
  case Joiner
  then have j: "joiner_step s = Some s'" using step by simp
  then have s': "s' = s\<lparr>ps_results := close_queue (ps_results s), ps_joined := True\<rparr>"
    by (auto simp: joiner_step_def split: if_splits)
  have "queues_ok s'" using joiner_step_queues [OF j] on by (simp add: on_course_def)
  moreover have "under_way code s' = under_way code s" "jobs_in s' = jobs_in s" by (simp_all add: s' under_way_def jobs_in_def)
  moreover have "ps_workers s' = ps_workers s" "ps_failure s' = ps_failure s" "ps_producer s' = ps_producer s" "ps_src s' = ps_src s"
    "ps_sink s' = ps_sink s" "ps_snk s' = ps_snk s" "ps_next_expected_index s' = ps_next_expected_index s" "ps_pending s' = ps_pending s"
    by (simp_all add: s')
  ultimately have "on_course code src snk js rs snk' m d s'" using on unfolding on_course_def by presburger
  then show ?thesis by blast
next
  case Sink
  then have "sink_step code s = Some s'" using step by simp
  from sink_on_course [OF seq idx this on] show ?thesis by blast
qed

lemma schedule_on_course:
  "run_schedule code ts s = Some s' \<Longrightarrow> sequential_run code src snk js rs snk' \<Longrightarrow> indexed code src
     \<Longrightarrow> on_course code src snk js rs snk' m d s \<Longrightarrow> \<exists>m d. on_course code src snk js rs snk' m d s'"
proof (induction code ts s arbitrary: m d rule: run_schedule.induct)
  case (1 code s)
  then show ?case by auto
next
  case (2 code t ts s)
  then obtain s1 where s1: "thread_step code t s = Some s1" "run_schedule code ts s1 = Some s'" by (auto split: option.splits)
  obtain m1 d1 where "on_course code src snk js rs snk' m1 d1 s1"
    using thread_on_course [OF 2(3,4) s1(1) 2(5)] by blast
  then show ?case using 2(1) [OF s1 2(3,4)] by blast
qed

lemma start_on_course:
  assumes "0 < worker_count"
  shows "on_course code src snk js rs snk' 0 0 (start_pipeline worker_count queue_depth src snk)"
proof -
  have "sum_list (map (carried code) (replicate n WorkerLoop)) = {#}" for n
    by (induction n) (simp_all add: carried_def)
  then show ?thesis
    using assms start_queues [of worker_count queue_depth src snk]
    by (auto simp: on_course_def start_pipeline_def new_WorkQueue_def under_way_def jobs_in_def returnS_def intro: yields_none)
qed

text \<open>C7: The order in which the threads run does not matter: if the jobs of the producer can be done
  one after the other and their results and the end given to the sink without an exception, then no
  schedule leads to a failure, some thread can always go on until all have ended, and then \<open>run\<close>
  returns normally and the sink is in exactly the state of the sequential run.\<close>
theorem pipeline_schedule_independent:
  assumes "run_schedule code ts (start_pipeline worker_count queue_depth src snk) = Some s"
    "0 < worker_count" "indexed code src" "sequential_run code src snk js rs snk'"
  shows "ps_failure s = None \<and> (all_done s \<or> (\<exists>t s'. thread_step code t s = Some s'))
    \<and> (all_done s \<longrightarrow> pipeline_result s = Inr () \<and> ps_snk s = snk')"
proof -
  obtain m d where on: "on_course code src snk js rs snk' m d s"
    using schedule_on_course [OF assms(1,4,3) start_on_course [OF assms(2)]] by blast
  then have f: "ps_failure s = None" "queues_ok s" "ps_workers s \<noteq> []" by (simp_all add: on_course_def)
  have "all_done s \<or> (\<exists>t s'. thread_step code t s = Some s')"
    using queues_ok_progress [OF f(2)] f(1,3) by (meson not_None_eq)
  moreover have "pipeline_result s = Inr () \<and> ps_snk s = snk'" if "all_done s"
    using that on f(1) by (simp add: all_done_def on_course_def pipeline_result_def)
  ultimately show ?thesis using f(1) by blast
qed

theorem pipeline_schedule_independent_witness:
  "pipeline_result collected = Inr () \<and> ps_snk collected = [0, 1, 2, 99]"
proof -
  have "yields collecting 0 [0, 1, 2] 3"
    using yields_next [OF yields_next [OF yields_next [OF yields_none [of collecting 0]]], of 0 1 1 2 2 3]
    by (simp add: collecting_def)
  then have "all_given collecting 0 [0, 1, 2]" by (auto simp: all_given_def collecting_def intro!: exI [of _ 3])
  then have "sequential_run collecting 0 [] [0, 1, 2] [0, 1, 2] [0, 1, 2, 99]"
    by (auto simp: sequential_run_def results_of_def collecting_def bindS_def returnS_def less_Suc_eq)
  moreover have "all_done collected" by code_simp
  ultimately show ?thesis using pipeline_schedule_independent [OF collected_run _ collecting_indexed] by simp
qed

subsection \<open>A schedule that completes\<close>

text \<open>Without failures every schedule can be continued until all threads have ended.\<close>

lemma complete_schedule:
  fixes code :: "('src, 'job, 'res, 'snk) pipe_code"
  assumes "sequential_run code src snk js rs snk'" "indexed code src" "0 < worker_count"
  shows "\<exists>ts s. run_schedule code ts (start_pipeline worker_count queue_depth src snk) = Some s \<and> all_done s
    \<and> pipeline_result s = Inr () \<and> ps_snk s = snk'"
proof -
  let ?s = "start_pipeline worker_count queue_depth src snk :: ('src, 'job, 'res, 'snk) pipe_state"
  let ?P = "\<lambda>n. \<exists>ts s. length ts = n \<and> run_schedule code ts ?s = Some s"
  have le: "length ks \<le> length js" if "yields code src ks s" for ks s
    using given_prefix [OF _ that, of js] assms(1) by (simp add: sequential_run_def)
  have "given code src 0 ?s" by (auto simp: given_def start_pipeline_def intro: yields_none)
  then have b: "length ts \<le> work_left (length js) 0 ?s" if "run_schedule code ts ?s = Some s" for ts s
    by (rule schedule_work [OF that]) (rule le)
  have "?P 0" by simp
  moreover have "\<forall>n. ?P n \<longrightarrow> n < Suc (work_left (length js) 0 ?s)" using b by (meson le_imp_less_Suc)
  ultimately obtain n where "?P n" and max: "\<forall>m. ?P m \<longrightarrow> m \<le> n"
    using ex_has_greatest_nat [of ?P 0 "\<lambda>n. n"] by blast
  then obtain ts s where ts: "length ts = n" "run_schedule code ts ?s = Some s" by blast
  obtain m d where on: "on_course code src snk js rs snk' m d s"
    using schedule_on_course [OF ts(2) assms(1,2) start_on_course [OF assms(3)]] by blast
  then have f: "ps_failure s = None" "queues_ok s" "ps_workers s \<noteq> []" by (simp_all add: on_course_def)
  have "thread_step code t s = None" for t
  proof (rule ccontr)
    assume "thread_step code t s \<noteq> None"
    then obtain s' where "run_schedule code (ts @ [t]) ?s = Some s'" using ts(2) by (auto simp: run_schedule_append)
    then have "?P (Suc n)" using ts(1) by (intro exI [of _ "ts @ [t]"]) simp
    then show False using max by (metis Suc_n_not_le_n)
  qed
  then have d: "all_done s" using queues_ok_progress [OF f(2)] f(1,3) by (metis option.simps(3))
  have "pipeline_result s = Inr () \<and> ps_snk s = snk'"
    using on f(1) d by (simp add: all_done_def on_course_def pipeline_result_def)
  then show ?thesis using ts(2) d by blast
qed

lemma schedules_agree:
  assumes "run_schedule code ts (start_pipeline worker_count queue_depth src snk) = Some s"
    "sequential_run code src snk js rs snk'" "indexed code src" "0 < worker_count" "all_done s"
  shows "pipeline_result s = Inr () \<and> ps_snk s = snk'"
proof -
  obtain m d where "on_course code src snk js rs snk' m d s"
    using schedule_on_course [OF assms(1-3) start_on_course [OF assms(4)]] by blast
  then show ?thesis using assms(5) by (simp add: all_done_def on_course_def pipeline_result_def)
qed

end
