(* ===== verification/File_Tree.thy ===== *)
theory File_Tree
  imports Path_Sanitizer
begin

text \<open>
  A POSIX file tree with symbolic links, and the calls of the standard library and the system that
  the extraction code makes on it.  An entry is named by the names on the way from the root
  directory; the root itself is always a directory.  Every call that may fail for a reason outside
  the tree (permissions, a full disk, an I/O error) asks the schedule \<open>ft_fault\<close>.
\<close>

datatype node = Dir | File bytes | Link path

text \<open>
  An entry with its attributes.  \<open>None\<close> as mode or time: the one the system has given, not one that
  was set explicitly.
\<close>

record inode =
  in_node :: node
  in_mode :: "u32 option"
  in_mtime :: "u64 option"

type_synonym names = "string list"

record file_tree =
  ft_entries :: "(names \<times> inode) list"
  ft_cwd :: names
  ft_clock :: nat
  ft_fault :: "nat \<Rightarrow> bool"

definition entry_at :: "file_tree \<Rightarrow> names \<Rightarrow> inode option" where
  "entry_at t q = map_of (ft_entries t) q"

definition node_at :: "file_tree \<Rightarrow> names \<Rightarrow> node option" where
  "node_at t q = (if q = [] then Some Dir else map_option in_node (entry_at t q))"

definition is_dir :: "file_tree \<Rightarrow> names \<Rightarrow> bool" where
  "is_dir t q \<longleftrightarrow> node_at t q = Some Dir"

definition put_entry :: "names \<Rightarrow> inode \<Rightarrow> file_tree \<Rightarrow> file_tree" where
  "put_entry q i t = t\<lparr>ft_entries := (q, i) # filter (\<lambda>(p, _). p \<noteq> q) (ft_entries t)\<rparr>"

definition drop_entry :: "names \<Rightarrow> file_tree \<Rightarrow> file_tree" where
  "drop_entry q t = t\<lparr>ft_entries := filter (\<lambda>(p, _). p \<noteq> q) (ft_entries t)\<rparr>"

text \<open>A change of the entries of a directory sets its modification time.\<close>

definition touch :: "names \<Rightarrow> file_tree \<Rightarrow> file_tree" where
  "touch q t = (case entry_at t q of None \<Rightarrow> t | Some i \<Rightarrow> put_entry q (i\<lparr>in_mtime := None\<rparr>) t)"

definition fresh :: "node \<Rightarrow> inode" where
  "fresh n = \<lparr>in_node = n, in_mode = None, in_mtime = None\<rparr>"

definition is_beneath :: "names \<Rightarrow> names \<Rightarrow> bool" where
  "is_beneath r q \<longleftrightarrow> take (length r) q = r"

text \<open>Time passes at every call that can fail from outside.\<close>

definition tick :: "file_tree \<Rightarrow> file_tree" where
  "tick t = t\<lparr>ft_clock := Suc (ft_clock t)\<rparr>"

definition faulty :: "file_tree \<Rightarrow> bool" where
  "faulty t = ft_fault t (ft_clock t)"

subsection \<open>Path resolution\<close>

text \<open>
  \<open>walk t links base names follow\<close>: the entry reached from the directory \<open>base\<close>; links on the way are
  followed, the last one only on demand, and at most \<open>links\<close> of them.  The last name may be missing.
\<close>

datatype walk_end = At names | NoEntry | TooManyLinks

function walk :: "file_tree \<Rightarrow> nat \<Rightarrow> names \<Rightarrow> names \<Rightarrow> bool \<Rightarrow> walk_end" where
  "walk t links base [] follow = At base"
| "walk t links base (c # cs) follow =
    (if c = ''.'' then walk t links base cs follow
     else if c = ''..'' then walk t links (butlast base) cs follow
     else case node_at t (base @ [c]) of
       None \<Rightarrow> if cs = [] then At (base @ [c]) else NoEntry
     | Some (File _) \<Rightarrow> if cs = [] then At (base @ [c]) else NoEntry
     | Some Dir \<Rightarrow> walk t links (base @ [c]) cs follow
     | Some (Link target) \<Rightarrow>
         if cs = [] \<and> \<not> follow then At (base @ [c])
         else if links = 0 then TooManyLinks
         else walk t (links - 1) (if is_absolute target then [] else base) (path_names target @ cs) follow)"
  by pat_completeness auto
termination
  by (relation "measures [\<lambda>(t, links, base, cs, follow). links, \<lambda>(t, links, base, cs, follow). length cs]") auto

text \<open>For evaluation: a walk is only unfolded for a tree that is known.\<close>

lemma walk_code [code]:
  "walk \<lparr>ft_entries = es, ft_cwd = d, ft_clock = k, ft_fault = flt\<rparr> links base [] follow = At base"
  "walk \<lparr>ft_entries = es, ft_cwd = d, ft_clock = k, ft_fault = flt\<rparr> links base (c # cs) follow =
    (let t = \<lparr>ft_entries = es, ft_cwd = d, ft_clock = k, ft_fault = flt\<rparr> in
     if c = ''.'' then walk t links base cs follow
     else if c = ''..'' then walk t links (butlast base) cs follow
     else case node_at t (base @ [c]) of
       None \<Rightarrow> if cs = [] then At (base @ [c]) else NoEntry
     | Some (File _) \<Rightarrow> if cs = [] then At (base @ [c]) else NoEntry
     | Some Dir \<Rightarrow> walk t links (base @ [c]) cs follow
     | Some (Link target) \<Rightarrow>
         if cs = [] \<and> \<not> follow then At (base @ [c])
         else if links = 0 then TooManyLinks
         else walk t (links - 1) (if is_absolute target then [] else base) (path_names target @ cs) follow)"
  by (simp_all add: Let_def)

definition max_links :: nat where
  "max_links = 40"

definition start_of :: "file_tree \<Rightarrow> path \<Rightarrow> names" where
  "start_of t p = (if is_absolute p then [] else ft_cwd t)"

definition ends_in_slash :: "path \<Rightarrow> bool" where
  "ends_in_slash p \<longleftrightarrow> p \<noteq> [] \<and> last p = CHR ''/''"

definition resolve :: "file_tree \<Rightarrow> path \<Rightarrow> bool \<Rightarrow> names option" where
  "resolve t p follow =
    (if p = [] then None
     else case walk t max_links (start_of t p) (path_names p) (follow \<or> ends_in_slash p) of
       At q \<Rightarrow> Some q
     | NoEntry \<Rightarrow> None
     | TooManyLinks \<Rightarrow> None)"

text \<open>\<open>status\<close> and \<open>symlink_status\<close>: what the path names, with and without following a last link.\<close>

definition status_of :: "file_tree \<Rightarrow> path \<Rightarrow> bool \<Rightarrow> node option" where
  "status_of t p follow = (case resolve t p follow of None \<Rightarrow> None | Some q \<Rightarrow> node_at t q)"

definition is_directory :: "file_tree \<Rightarrow> path \<Rightarrow> bool" where
  "is_directory t p \<longleftrightarrow> status_of t p True = Some Dir"

definition is_symlink :: "file_tree \<Rightarrow> path \<Rightarrow> bool" where
  "is_symlink t p = (case status_of t p False of Some (Link _) \<Rightarrow> True | _ \<Rightarrow> False)"

definition absolute_path :: "names \<Rightarrow> path" where
  "absolute_path q = CHR ''/'' # join_slash q"

text \<open>\<open>path::parent_path\<close> and \<open>path::filename\<close>: the path without its last element, and that element.\<close>

definition parent_path :: "path \<Rightarrow> path" where
  "parent_path p =
    (let dir = rev (dropWhile (\<lambda>c. c \<noteq> CHR ''/'') (rev p));
         stripped = rev (dropWhile (\<lambda>c. c = CHR ''/'') (rev dir))
     in if stripped = [] \<and> dir \<noteq> [] then ''/'' else stripped)"

definition filename :: "path \<Rightarrow> string" where
  "filename p = rev (takeWhile (\<lambda>c. c \<noteq> CHR ''/'') (rev p))"

text \<open>
  \<open>weakly_canonical\<close> of a path whose first element exists or that is absolute: the leading part that
  exists is resolved, the rest is put behind it and normalised.
\<close>

fun canonical_prefix :: "file_tree \<Rightarrow> names \<Rightarrow> names \<Rightarrow> names \<Rightarrow> names \<Rightarrow> (names \<times> names) option" where
  "canonical_prefix t base cur seen [] = Some (cur, [])"
| "canonical_prefix t base cur seen (c # cs) =
    (case walk t max_links base (seen @ [c]) True of
       TooManyLinks \<Rightarrow> None
     | NoEntry \<Rightarrow> Some (cur, c # cs)
     | At q \<Rightarrow> if node_at t q = None then Some (cur, c # cs) else canonical_prefix t base q (seen @ [c]) cs)"

lemma canonical_prefix_code [code]:
  "canonical_prefix \<lparr>ft_entries = es, ft_cwd = d, ft_clock = k, ft_fault = flt\<rparr> base cur seen [] = Some (cur, [])"
  "canonical_prefix \<lparr>ft_entries = es, ft_cwd = d, ft_clock = k, ft_fault = flt\<rparr> base cur seen (c # cs) =
    (let t = \<lparr>ft_entries = es, ft_cwd = d, ft_clock = k, ft_fault = flt\<rparr> in
     case walk t max_links base (seen @ [c]) True of
       TooManyLinks \<Rightarrow> None
     | NoEntry \<Rightarrow> Some (cur, c # cs)
     | At q \<Rightarrow> if node_at t q = None then Some (cur, c # cs) else canonical_prefix t base q (seen @ [c]) cs)"
  by (simp_all add: Let_def split: walk_end.split)

definition weakly_canonical :: "file_tree \<Rightarrow> path \<Rightarrow> names option" where
  "weakly_canonical t p =
    (case canonical_prefix t (start_of t p) (start_of t p) [] (path_names p) of
       None \<Rightarrow> None
     | Some (q, rest) \<Rightarrow> Some (foldl (norm_step True) q rest))"

text \<open>\<open>path::lexically_relative\<close> of two absolute normal paths, and \<open>std::filesystem::relative\<close>.\<close>

fun relative_names :: "names \<Rightarrow> names \<Rightarrow> names" where
  "relative_names (c # cs) (b # bs) =
     (if c = b then relative_names cs bs else replicate (Suc (length bs)) ''..'' @ c # cs)"
| "relative_names cs bs = replicate (length bs) ''..'' @ cs"

definition lexically_relative :: "names \<Rightarrow> names \<Rightarrow> path" where
  "lexically_relative q base = (let ns = relative_names q base in if ns = [] then ''.'' else join_slash ns)"

definition relative_path :: "file_tree \<Rightarrow> path \<Rightarrow> path \<Rightarrow> path option" where
  "relative_path t p base =
    (case (weakly_canonical t p, weakly_canonical t base) of
       (Some q, Some b) \<Rightarrow> Some (lexically_relative q b)
     | _ \<Rightarrow> None)"

subsection \<open>Calls that change the tree\<close>

text \<open>A call that fails from outside: \<open>True\<close> if it succeeds.\<close>

definition sys_ok :: "(file_tree, bool) op" where
  "sys_ok t = (Inr (\<not> faulty t), tick t)"

text \<open>A call that may be refused by the tree, and may fail from outside.\<close>

definition sys_call :: "(file_tree \<Rightarrow> bool) \<Rightarrow> (file_tree \<Rightarrow> file_tree) \<Rightarrow> (file_tree, bool) op" where
  "sys_call allowed change t =
    (if \<not> allowed t then (Inr False, t)
     else if faulty t then (Inr False, tick t)
     else (Inr True, change (tick t)))"

definition make_entry :: "names \<Rightarrow> node \<Rightarrow> file_tree \<Rightarrow> file_tree" where
  "make_entry q n t = touch (butlast q) (put_entry q (fresh n) t)"

text \<open>\<open>mkdirat\<close> and \<open>symlinkat\<close>: the entry must not exist, its directory must.\<close>

definition make_at :: "names \<Rightarrow> node \<Rightarrow> (file_tree, bool) op" where
  "make_at q n = sys_call (\<lambda>t. q \<noteq> [] \<and> node_at t q = None \<and> is_dir t (butlast q)) (make_entry q n)"

text \<open>\<open>unlinkat\<close> of something that is not a directory.\<close>

definition unlink_at :: "names \<Rightarrow> (file_tree, bool) op" where
  "unlink_at q = sys_call (\<lambda>t. node_at t q \<noteq> None \<and> \<not> is_dir t q) (\<lambda>t. touch (butlast q) (drop_entry q t))"

text \<open>
  \<open>create_directories\<close>: missing directories are made one after the other; a link on the way must
  lead to a directory.
\<close>

fun make_dirs :: "names \<Rightarrow> names \<Rightarrow> (file_tree, bool) op" where
  "make_dirs base [] t = (Inr True, t)"
| "make_dirs base (c # cs) t =
    (case walk t max_links base [c] True of
       At q \<Rightarrow>
         if is_dir t q then make_dirs q cs t
         else if node_at t q = None \<and> q = base @ [c] then
           (case make_at q Dir t of
              (Inr True, t') \<Rightarrow> make_dirs q cs t'
            | (_, t') \<Rightarrow> (Inr False, t'))
         else (Inr False, t)
     | _ \<Rightarrow> (Inr False, t))"

lemma make_dirs_code [code]:
  "make_dirs base [] \<lparr>ft_entries = es, ft_cwd = d, ft_clock = k, ft_fault = flt\<rparr> =
     (Inr True, \<lparr>ft_entries = es, ft_cwd = d, ft_clock = k, ft_fault = flt\<rparr>)"
  "make_dirs base (c # cs) \<lparr>ft_entries = es, ft_cwd = d, ft_clock = k, ft_fault = flt\<rparr> =
    (let t = \<lparr>ft_entries = es, ft_cwd = d, ft_clock = k, ft_fault = flt\<rparr> in
     case walk t max_links base [c] True of
       At q \<Rightarrow>
         if is_dir t q then make_dirs q cs t
         else if node_at t q = None \<and> q = base @ [c] then
           (case make_at q Dir t of
              (Inr True, t') \<Rightarrow> make_dirs q cs t'
            | (_, t') \<Rightarrow> (Inr False, t'))
         else (Inr False, t)
     | _ \<Rightarrow> (Inr False, t))"
  by (simp_all add: Let_def)

definition create_directories :: "path \<Rightarrow> (file_tree, bool) op" where
  "create_directories p t = (if p = [] then (Inr False, t) else make_dirs (start_of t p) (path_names p) t)"

text \<open>Opening a file for writing, truncated: the entry that is written to.\<close>

definition truncate_entry :: "names \<Rightarrow> file_tree \<Rightarrow> file_tree" where
  "truncate_entry q t =
    (case entry_at t q of
       None \<Rightarrow> make_entry q (File []) t
     | Some i \<Rightarrow> put_entry q (i\<lparr>in_node := File [], in_mtime := None\<rparr>) t)"

definition open_trunc :: "path \<Rightarrow> (file_tree, names option) op" where
  "open_trunc p t =
    (case resolve t p True of
       None \<Rightarrow> (Inr None, t)
     | Some q \<Rightarrow>
         bindS (sys_call (\<lambda>t. \<not> is_dir t q \<and> \<not> ends_in_slash p \<and> is_dir t (butlast q)) (truncate_entry q))
           (\<lambda>ok. returnS (if ok then Some q else None)) t)"

definition append_entry :: "names \<Rightarrow> bytes \<Rightarrow> file_tree \<Rightarrow> file_tree" where
  "append_entry q bs t =
    (case entry_at t q of
       None \<Rightarrow> t
     | Some i \<Rightarrow> (case in_node i of
                    File c \<Rightarrow> put_entry q (i\<lparr>in_node := File (c @ bs), in_mtime := None\<rparr>) t
                  | _ \<Rightarrow> t))"

definition append_file :: "names \<Rightarrow> bytes \<Rightarrow> (file_tree, bool) op" where
  "append_file q bs = sys_call (\<lambda>_. True) (append_entry q bs)"

definition create_symlink_at :: "path \<Rightarrow> path \<Rightarrow> (file_tree, bool) op" where
  "create_symlink_at target p t =
    (case resolve t p False of None \<Rightarrow> (Inr False, t) | Some q \<Rightarrow> make_at q (Link target) t)"

text \<open>\<open>permissions\<close> and \<open>last_write_time\<close>, which follow links.\<close>

definition change_entry :: "names \<Rightarrow> (inode \<Rightarrow> inode) \<Rightarrow> file_tree \<Rightarrow> file_tree" where
  "change_entry q f t = (case entry_at t q of None \<Rightarrow> t | Some i \<Rightarrow> put_entry q (f i) t)"

definition set_attribute :: "path \<Rightarrow> (inode \<Rightarrow> inode) \<Rightarrow> (file_tree, bool) op" where
  "set_attribute p f t =
    (case resolve t p True of
       None \<Rightarrow> (Inr False, t)
     | Some q \<Rightarrow> sys_call (\<lambda>t. node_at t q \<noteq> None) (change_entry q f) t)"

definition permissions :: "path \<Rightarrow> u32 \<Rightarrow> (file_tree, bool) op" where
  "permissions p mode = set_attribute p (\<lambda>i. i\<lparr>in_mode := Some mode\<rparr>)"

definition last_write_time :: "path \<Rightarrow> u64 \<Rightarrow> (file_tree, bool) op" where
  "last_write_time p ns = set_attribute p (\<lambda>i. i\<lparr>in_mtime := Some ns\<rparr>)"

text \<open>
  \<open>remove_all\<close>, which does not follow a link: the entries beneath, deepest first, up to the first
  failure.
\<close>

definition entries_beneath :: "file_tree \<Rightarrow> names \<Rightarrow> names list" where
  "entries_beneath t r = filter (is_beneath r) (map fst (ft_entries t))"

fun remove_entries :: "names list \<Rightarrow> (file_tree, bool) op" where
  "remove_entries [] = returnS True"
| "remove_entries (q # qs) =
     bindS (sys_call (\<lambda>_. True) (\<lambda>t. touch (butlast q) (drop_entry q t))) (\<lambda>ok.
     if ok then remove_entries qs else returnS False)"

definition remove_all :: "path \<Rightarrow> (file_tree, bool) op" where
  "remove_all p t =
    (case resolve t p False of
       None \<Rightarrow> (Inr True, t)
     | Some q \<Rightarrow> remove_entries (rev (sort_key length (entries_beneath t q))) t)"

text \<open>Renaming an entry that is not a directory; it keeps its attributes.\<close>

definition move_entry :: "names \<Rightarrow> names \<Rightarrow> file_tree \<Rightarrow> file_tree" where
  "move_entry q r t =
    (case entry_at t q of
       None \<Rightarrow> t
     | Some i \<Rightarrow> touch (butlast r) (touch (butlast q) (put_entry r i (drop_entry q t))))"

definition rename_entry :: "names \<Rightarrow> names \<Rightarrow> (file_tree, bool) op" where
  "rename_entry q r =
     sys_call (\<lambda>t. node_at t q \<noteq> None \<and> \<not> is_dir t q \<and> \<not> is_dir t r \<and> is_dir t (butlast r)) (move_entry q r)"

subsection \<open>What the calls change\<close>

lemma map_of_filter_other: "map_of (filter (\<lambda>(p, _). p \<noteq> q) xs) p = (if p = q then None else map_of xs p)"
  by (induction xs) auto

lemma entry_at_simps [simp]:
  "entry_at (put_entry q i t) p = (if p = q then Some i else entry_at t p)"
  "entry_at (drop_entry q t) p = (if p = q then None else entry_at t p)"
  "entry_at (tick t) p = entry_at t p"
  "entry_at (touch q t) p = (if p = q then map_option (\<lambda>i. i\<lparr>in_mtime := None\<rparr>) (entry_at t q) else entry_at t p)"
  by (auto simp: entry_at_def put_entry_def drop_entry_def tick_def touch_def map_of_filter_other split: option.splits)

lemma node_at_simps [simp]:
  "node_at t [] = Some Dir"
  "node_at (put_entry q i t) p = (if p \<noteq> [] \<and> p = q then Some (in_node i) else node_at t p)"
  "node_at (drop_entry q t) p = (if p \<noteq> [] \<and> p = q then None else node_at t p)"
  "node_at (tick t) p = node_at t p"
  "node_at (touch q t) p = node_at t p"
  by (auto simp: node_at_def option.map_comp comp_def option.map_ident)

lemma node_at_cong: "(\<And>q. entry_at t' q = entry_at t q) \<Longrightarrow> node_at t' q = node_at t q"
  by (simp add: node_at_def)

lemma walk_cong: "(\<And>q. node_at t' q = node_at t q) \<Longrightarrow> walk t' links base cs follow = walk t links base cs follow"
  by (induction t links base cs follow rule: walk.induct) (auto split: option.splits node.splits)

text \<open>Entries strictly beneath a directory.\<close>

lemma is_beneath_refl [simp]: "is_beneath r r" by (simp add: is_beneath_def)

lemma is_beneath_append: "is_beneath r q \<Longrightarrow> is_beneath r (q @ cs)"
  by (auto simp: is_beneath_def take_append) (metis append_take_drop_id append_eq_append_conv length_take take_append take_all_iff nle_le diff_is_0_eq append_Nil2 take_0)

lemma is_beneath_iff: "is_beneath r q \<longleftrightarrow> (\<exists>cs. q = r @ cs)"
  unfolding is_beneath_def by (metis append_take_drop_id append_eq_conv_conj)

lemma is_beneath_butlast: "is_beneath r q \<Longrightarrow> q \<noteq> r \<Longrightarrow> is_beneath r (butlast q)"
  by (auto simp: is_beneath_iff butlast_append)

lemma is_beneath_trans: "is_beneath r q \<Longrightarrow> is_beneath q p \<Longrightarrow> is_beneath r p"
  by (auto simp: is_beneath_iff)

subsection \<open>Walking beneath a directory\<close>

text \<open>The names that entries have.\<close>

definition proper :: "string \<Rightarrow> bool" where
  "proper n \<longleftrightarrow> is_name n \<and> n \<noteq> ''.'' \<and> n \<noteq> ''..''"

text \<open>The links beneath a directory that lead nowhere else.\<close>

definition tame :: "names \<Rightarrow> file_tree \<Rightarrow> bool" where
  "tame r t \<longleftrightarrow> (\<forall>q p. is_beneath r q \<longrightarrow> node_at t q = Some (Link p) \<longrightarrow>
     \<not> is_absolute p \<and> ''..'' \<notin> set (path_names p))"

lemma walk_stays:
  "tame r t \<Longrightarrow> is_beneath r base \<Longrightarrow> ''..'' \<notin> set cs \<Longrightarrow> list_all is_name cs
     \<Longrightarrow> walk t links base cs follow = At q \<Longrightarrow> is_beneath r q \<and> (q = base \<or> proper (last q))"
proof (induction t links base cs follow rule: walk.induct)
  case (2 t links base c cs follow)
  have b: "is_beneath r (base @ [c])" using 2(6) by (rule is_beneath_append)
  have c: "c \<noteq> ''..''" "''..'' \<notin> set cs" "is_name c" "list_all is_name cs" using 2(7,8) by auto
  show ?case
  proof (cases "c = ''.''")
    case True
    then show ?thesis using 2(1) [OF True 2(5,6) c(2,4)] 2(9) by simp
  next
    case dot: False
    have p: "proper c" using c dot by (simp add: proper_def)
    show ?thesis
    proof (cases "node_at t (base @ [c])")
      case None
      then show ?thesis using 2(9) dot c b p by (auto split: if_splits)
    next
      case (Some n)
      show ?thesis
      proof (cases n)
        case Dir
        then show ?thesis using 2(3) [OF dot c(1) Some Dir 2(5) b c(2,4)] 2(9) dot c Some p by auto
      next
        case (File x)
        then show ?thesis using 2(9) dot c b Some p by (auto split: if_splits)
      next
        case (Link p')
        then have l: "\<not> is_absolute p'" "''..'' \<notin> set (path_names p')" "list_all is_name (path_names p')"
          using 2(5) b Some path_names_is_name [of p'] by (auto simp: tame_def)
        show ?thesis
        proof (cases "cs = [] \<and> \<not> follow \<or> links = 0")
          case True
          then show ?thesis using 2(9) dot c Some Link b p by (auto split: if_splits)
        next
          case False
          then have nf: "\<not> (cs = [] \<and> \<not> follow)" "links \<noteq> 0" by auto
          show ?thesis
            using 2(4) [OF dot c(1) Some Link nf 2(5)] l c 2(6,9) nf dot Some Link by simp
        qed
      qed
    qed
  qed
qed simp

lemma walk_beneath_dirs:
  assumes "\<And>n. n \<le> length ds \<Longrightarrow> is_dir t (base @ take n ds)" "\<And>d. d \<in> set ds \<Longrightarrow> d \<noteq> ''.'' \<and> d \<noteq> ''..''"
  shows "walk t links base (ds @ cs) follow = walk t links (base @ ds) cs follow"
  using assms
proof (induction ds arbitrary: base)
  case (Cons d ds)
  have "is_dir t (base @ [d])" using Cons.prems(1) [of 1] by simp
  moreover have "walk t links (base @ [d]) (ds @ cs) follow = walk t links ((base @ [d]) @ ds) cs follow"
  proof (rule Cons.IH)
    show "is_dir t ((base @ [d]) @ take n ds)" if "n \<le> length ds" for n
      using Cons.prems(1) [of "Suc n"] that by simp
  qed (use Cons.prems(2) in auto)
  ultimately show ?case using Cons.prems(2) [of d] by (simp add: is_dir_def)
qed simp

subsection \<open>Changes within a directory\<close>

text \<open>
  What the calls beneath a directory \<open>r\<close> may do to a tree: entries elsewhere stay as they are,
  directories stay directories, new entries lie in directories, and new links have targets in \<open>P\<close>.
\<close>

definition rooted :: "names \<Rightarrow> file_tree \<Rightarrow> bool" where
  "rooted r t \<longleftrightarrow> (\<forall>n\<le>length r. is_dir t (take n r)) \<and> (\<forall>d\<in>set r. d \<noteq> ''.'' \<and> d \<noteq> ''..'')"

definition links_ok :: "(path \<Rightarrow> bool) \<Rightarrow> names \<Rightarrow> file_tree \<Rightarrow> bool" where
  "links_ok P r t \<longleftrightarrow> (\<forall>q p. is_beneath r q \<longrightarrow> node_at t q = Some (Link p) \<longrightarrow> P p)"

definition inner_path :: "path \<Rightarrow> bool" where
  "inner_path p \<longleftrightarrow> \<not> is_absolute p \<and> ''..'' \<notin> set (path_names p)"

definition local :: "(path \<Rightarrow> bool) \<Rightarrow> names \<Rightarrow> file_tree \<Rightarrow> file_tree \<Rightarrow> bool" where
  "local P r t t' \<longleftrightarrow> (\<forall>q. \<not> is_beneath r q \<longrightarrow> entry_at t' q = entry_at t q)
     \<and> (\<forall>q. is_dir t q \<longrightarrow> is_dir t' q)
     \<and> (\<forall>q. entry_at t q = None \<longrightarrow> entry_at t' q \<noteq> None \<longrightarrow> q \<noteq> [] \<and> proper (last q) \<and> is_dir t' (butlast q))
     \<and> (\<forall>q p. is_beneath r q \<longrightarrow> node_at t' q = Some (Link p) \<longrightarrow> node_at t q = Some (Link p) \<or> P p)"

text \<open>A tree in which every entry lies in a directory.\<close>

definition wf_tree :: "file_tree \<Rightarrow> bool" where
  "wf_tree t \<longleftrightarrow> (\<forall>q. entry_at t q \<noteq> None \<longrightarrow> q \<noteq> [] \<and> proper (last q) \<and> is_dir t (butlast q))"

lemma local_refl [simp]: "local P r t t" by (simp add: local_def)

lemma local_tick [simp]: "local P r t0 (tick t) = local P r t0 t" by (simp add: local_def is_dir_def)

lemma local_trans: "local P r t t' \<Longrightarrow> local P r t' t'' \<Longrightarrow> local P r t t''"
  unfolding local_def by (intro conjI; metis)

lemma local_wf: "local P r t t' \<Longrightarrow> wf_tree t \<Longrightarrow> wf_tree t'"
  unfolding local_def wf_tree_def by metis

lemma local_rooted: "local P r t t' \<Longrightarrow> rooted s t \<Longrightarrow> rooted s t'"
  by (simp add: local_def rooted_def)

lemma local_links: "local P r t t' \<Longrightarrow> links_ok P r t \<Longrightarrow> links_ok P r t'"
  unfolding local_def links_ok_def by metis

lemma links_ok_tame: "links_ok P r t \<Longrightarrow> (\<And>p. P p \<Longrightarrow> inner_path p) \<Longrightarrow> tame r t"
  unfolding links_ok_def tame_def inner_path_def by metis

lemma local_make_entry:
  assumes "is_beneath r (butlast q)" "q \<noteq> []" "node_at t q = None" "\<And>p. n = Link p \<Longrightarrow> P p"
    "is_dir t (butlast q)" "proper (last q)"
  shows "local P r t (make_entry q n t)"
proof -
  have q: "is_beneath r q" using assms(1,2) is_beneath_append [of r "butlast q" "[last q]"] by simp
  have "butlast q \<noteq> q" using assms(2) by (metis append_butlast_last_id not_Cons_self2 append_self_conv)
  then show ?thesis
    using assms q by (auto simp: local_def make_entry_def is_dir_def fresh_def) 
qed

lemma local_change_entry:
  assumes "is_beneath r q" "\<And>i. in_node (f i) = in_node i"
  shows "local P r t (change_entry q f t)"
  using assms by (auto simp: local_def change_entry_def is_dir_def node_at_def split: option.splits)

lemma local_append_entry: "is_beneath r q \<Longrightarrow> local P r t (append_entry q bs t)"
  by (auto simp: local_def append_entry_def is_dir_def node_at_def split: option.splits node.splits)

lemma local_truncate_entry:
  assumes "is_beneath r q" "\<not> is_dir t q" "q \<noteq> r" "is_dir t (butlast q)" "proper (last q)"
  shows "local P r t (truncate_entry q t)"
proof (cases "entry_at t q")
  case None
  have "q \<noteq> []" using assms(2) by (auto simp: is_dir_def)
  with None assms show ?thesis
    by (auto simp: truncate_entry_def node_at_def intro!: local_make_entry is_beneath_butlast)
next
  case (Some i)
  then show ?thesis using assms
    by (auto simp: local_def truncate_entry_def is_dir_def)
qed

lemma spec_sys_call [spec_intros]:
  "(\<And>t. P t \<Longrightarrow> allowed t \<Longrightarrow> Q True (change (tick t))) \<Longrightarrow> (\<And>t. P t \<Longrightarrow> Q False t)
     \<Longrightarrow> (\<And>t. P t \<Longrightarrow> Q False (tick t)) \<Longrightarrow> spec P (sys_call allowed change) Q E"
  by (auto simp: spec_def sys_call_def)

text \<open>A directory with known links, and the paths that lead into it.\<close>

definition sane :: "(path \<Rightarrow> bool) \<Rightarrow> names \<Rightarrow> file_tree \<Rightarrow> bool" where
  "sane P r t \<longleftrightarrow> rooted r t \<and> links_ok P r t \<and> (\<forall>p. P p \<longrightarrow> inner_path p)"

lemma local_sane: "local P r t t' \<Longrightarrow> sane P r t \<Longrightarrow> sane P r t'"
  by (auto simp: sane_def local_rooted local_links)

lemma sane_is_dir: "sane P r t \<Longrightarrow> is_dir t r"
  by (auto simp: sane_def rooted_def)

lemma sane_tame: "sane P r t \<Longrightarrow> tame r t"
  by (auto simp: sane_def intro: links_ok_tame)

definition leads_into :: "names \<Rightarrow> path \<Rightarrow> bool" where
  "leads_into r p \<longleftrightarrow> is_absolute p \<and> (\<exists>cs. path_names p = r @ cs \<and> ''..'' \<notin> set cs)"

lemma walk_rooted: "rooted r t \<Longrightarrow> walk t links [] (r @ cs) follow = walk t links r cs follow"
  using walk_beneath_dirs [of r t "[]" links cs follow] by (auto simp: rooted_def)

lemma resolve_beneath:
  assumes "sane P r t" "leads_into r p" "resolve t p follow = Some q"
  shows "is_beneath r q \<and> (q = r \<or> proper (last q))"
proof -
  obtain cs where cs: "path_names p = r @ cs" "''..'' \<notin> set cs" using assms(2) by (auto simp: leads_into_def)
  then have isn: "list_all is_name cs" using path_names_is_name [of p] by simp
  have "walk t max_links [] (r @ cs) (follow \<or> ends_in_slash p) = At q"
    using assms(2,3) cs by (auto simp: resolve_def leads_into_def start_of_def split: if_splits walk_end.splits)
  then have "walk t max_links r cs (follow \<or> ends_in_slash p) = At q"
    using assms(1) by (simp add: walk_rooted sane_def)
  then show ?thesis by (rule walk_stays [OF sane_tame [OF assms(1)] is_beneath_refl cs(2) isn])
qed

lemma not_dir_not_root: "sane P r t \<Longrightarrow> \<not> is_dir t q \<Longrightarrow> q \<noteq> r"
  by (auto dest: sane_is_dir)

subsection \<open>The calls stay within the directory\<close>

text \<open>\<open>keeps P r m\<close>: started within a sane directory, \<open>m\<close> changes only entries beneath it.\<close>

definition keeps :: "(path \<Rightarrow> bool) \<Rightarrow> names \<Rightarrow> (file_tree, 'a) op \<Rightarrow> bool" where
  "keeps P r m \<longleftrightarrow> (\<forall>t. sane P r t \<longrightarrow> local P r t (snd (m t)))"

named_theorems keeps_intros \<open>calls that stay within a directory\<close>

lemma keeps_bindS [keeps_intros]:
  assumes "keeps P r m" "\<And>x. keeps P r (f x)"
  shows "keeps P r (bindS m f)"
proof -
  have "local P r t (snd (bindS m f t))" if t: "sane P r t" for t
  proof (cases rule: bindS_cases [of m t f])
    case (1 e s')
    then show ?thesis using assms(1) t by (auto simp: keeps_def)
  next
    case (2 x s')
    then have "local P r t s'" using assms(1) t by (fastforce simp: keeps_def)
    moreover from this have "local P r s' (snd (f x s'))" using assms(2) t by (auto simp: keeps_def local_sane)
    ultimately show ?thesis using 2 local_trans by simp
  qed
  then show ?thesis by (simp add: keeps_def)
qed

lemma keeps_basic [keeps_intros]:
  "keeps P r (returnS x)" "keeps P r (throwS e)" "keeps P r (guardS c e)" "keeps P r (liftS res)"
  by (simp_all add: keeps_def op_defs)

lemma keeps_getS: "(\<And>t. sane P r t \<Longrightarrow> local P r t (snd (f t t))) \<Longrightarrow> keeps P r (getS f)"
  by (simp add: keeps_def getS_def)

lemma keeps_if [keeps_intros]: "(c \<Longrightarrow> keeps P r m) \<Longrightarrow> (\<not> c \<Longrightarrow> keeps P r n) \<Longrightarrow> keeps P r (if c then m else n)"
  by simp

lemma keeps_sys_ok [keeps_intros]: "keeps P r sys_ok"
  by (simp add: keeps_def sys_ok_def)

lemma keeps_sys_call:
  "(\<And>t. sane P r t \<Longrightarrow> allowed t \<Longrightarrow> local P r t (change t)) \<Longrightarrow> (\<And>t. change (tick t) = tick (change t))
     \<Longrightarrow> keeps P r (sys_call allowed change)"
  by (auto simp: keeps_def sys_call_def)

lemma change_tick [simp]:
  "put_entry q i (tick t) = tick (put_entry q i t)" "drop_entry q (tick t) = tick (drop_entry q t)"
  "touch q (tick t) = tick (touch q t)" "make_entry q n (tick t) = tick (make_entry q n t)"
  "truncate_entry q (tick t) = tick (truncate_entry q t)" "append_entry q bs (tick t) = tick (append_entry q bs t)"
  "change_entry q f (tick t) = tick (change_entry q f t)" "move_entry q s (tick t) = tick (move_entry q s t)"
proof -
  show 1: "put_entry q i (tick t) = tick (put_entry q i t)" for q i t by (simp add: put_entry_def tick_def)
  show 2: "drop_entry q (tick t) = tick (drop_entry q t)" for q t by (simp add: drop_entry_def tick_def)
  show 3: "touch q (tick t) = tick (touch q t)" for q t by (simp add: touch_def 1 split: option.splits)
  show 4: "make_entry q n (tick t) = tick (make_entry q n t)" by (simp add: make_entry_def 1 3)
  show "truncate_entry q (tick t) = tick (truncate_entry q t)"
    by (auto simp: truncate_entry_def make_entry_def 1 3 split: option.splits)
  show "append_entry q bs (tick t) = tick (append_entry q bs t)"
    by (auto simp: append_entry_def 1 split: option.splits node.splits)
  show "change_entry q f (tick t) = tick (change_entry q f t)"
    by (auto simp: change_entry_def 1 split: option.splits)
  show "move_entry q s (tick t) = tick (move_entry q s t)"
    by (auto simp: move_entry_def 1 2 3 split: option.splits)
qed

lemma keeps_make_at:
  assumes "is_beneath r q" "\<And>p. n = Link p \<Longrightarrow> P p" "q = r \<or> proper (last q)"
  shows "keeps P r (make_at q n)"
  unfolding make_at_def
proof (rule keeps_sys_call)
  fix t assume t: "sane P r t" and a: "q \<noteq> [] \<and> node_at t q = None \<and> is_dir t (butlast q)"
  have "q \<noteq> r" using t a by (auto dest: sane_is_dir simp: is_dir_def)
  with assms a show "local P r t (make_entry q n t)" by (intro local_make_entry is_beneath_butlast) auto
qed simp

lemma keeps_make_dirs:
  "is_beneath r base \<Longrightarrow> ''..'' \<notin> set cs \<Longrightarrow> list_all is_name cs \<Longrightarrow> keeps P r (make_dirs base cs)"
proof (induction cs arbitrary: base)
  case (Cons c cs)
  have "local P r t (snd (make_dirs base (c # cs) t))" if t: "sane P r t" for t
  proof (cases "walk t max_links base [c] True")
    case (At q)
    have q: "is_beneath r q" "q = base \<or> proper (last q)"
      using walk_stays [OF sane_tame [OF t] Cons.prems(1) _ _ At] Cons.prems(2,3) by auto
    have IH: "sane P r t' \<Longrightarrow> local P r t' (snd (make_dirs q cs t'))" for t'
      using Cons.IH [OF q(1)] Cons.prems(2,3) by (auto simp: keeps_def)
    have mk: "local P r t (snd (make_at q Dir t))" if "q \<noteq> base"
      using keeps_make_at [OF q(1), of Dir P] t q(2) that by (auto simp: keeps_def)
    obtain res t' where m: "make_at q Dir t = (res, t')" by (cases "make_at q Dir t")
    show ?thesis
    proof (cases "\<not> is_dir t q \<and> node_at t q = None \<and> q = base @ [c]")
      case False
      then show ?thesis using At IH [OF t] by (auto simp del: walk.simps)
    next
      case True
      then have t': "local P r t t'" using mk m by simp
      then show ?thesis using True At m IH [OF local_sane [OF t' t]]
        by (auto simp del: walk.simps split: sum.split bool.split dest: local_trans)
    qed
  qed (auto)
  then show ?case by (simp add: keeps_def)
qed (simp add: keeps_def)

lemma make_dirs_existing:
  assumes "\<And>n. n \<le> length ds \<Longrightarrow> is_dir t (base @ take n ds)" "\<And>d. d \<in> set ds \<Longrightarrow> d \<noteq> ''.'' \<and> d \<noteq> ''..''"
  shows "make_dirs base (ds @ cs) t = make_dirs (base @ ds) cs t"
  using assms
proof (induction ds arbitrary: base)
  case (Cons d ds)
  have d: "is_dir t (base @ [d])" using Cons.prems(1) [of 1] by simp
  then have w: "walk t max_links base [d] True = At (base @ [d])"
    using Cons.prems(2) [of d] by (simp add: is_dir_def)
  have "make_dirs (base @ [d]) (ds @ cs) t = make_dirs ((base @ [d]) @ ds) cs t"
  proof (rule Cons.IH)
    show "is_dir t ((base @ [d]) @ take n ds)" if "n \<le> length ds" for n
      using Cons.prems(1) [of "Suc n"] that by simp
  qed (use Cons.prems(2) in auto)
  then show ?case by (simp add: w d del: walk.simps)
qed simp

lemma make_dirs_rooted: "rooted r t \<Longrightarrow> make_dirs [] (r @ cs) t = make_dirs r cs t"
  using make_dirs_existing [of r t "[]" cs] by (auto simp: rooted_def)

lemma keeps_create_directories [keeps_intros]: 
  assumes "leads_into r p"
  shows "keeps P r (create_directories p)"
proof -
  obtain cs where cs: "path_names p = r @ cs" "''..'' \<notin> set cs" "is_absolute p" using assms by (auto simp: leads_into_def)
  then have isn: "list_all is_name cs" using path_names_is_name [of p] by simp
  have "local P r t (snd (create_directories p t))" if t: "sane P r t" for t
    using keeps_make_dirs [of r r cs P] t cs isn
    by (auto simp: create_directories_def start_of_def make_dirs_rooted sane_def keeps_def)
  then show ?thesis by (simp add: keeps_def)
qed

lemma keeps_resolved:
  assumes "leads_into r p" "\<And>q. is_beneath r q \<Longrightarrow> q = r \<or> proper (last q) \<Longrightarrow> keeps P r (f q)"
  shows "keeps P r (\<lambda>t. case resolve t p follow of None \<Rightarrow> (Inr x, t) | Some q \<Rightarrow> f q t)"
  using assms resolve_beneath by (auto simp: keeps_def split: option.splits)

lemma keeps_open_trunc [keeps_intros]: "leads_into r p \<Longrightarrow> keeps P r (open_trunc p)"
  unfolding open_trunc_def
  by (rule keeps_resolved) (auto intro!: keeps_intros keeps_sys_call local_truncate_entry dest: not_dir_not_root)

lemma keeps_append_file [keeps_intros]: "is_beneath r q \<Longrightarrow> keeps P r (append_file q bs)"
  unfolding append_file_def by (auto intro!: keeps_sys_call local_append_entry)

lemma keeps_create_symlink_at [keeps_intros]: "leads_into r p \<Longrightarrow> P target \<Longrightarrow> keeps P r (create_symlink_at target p)"
  unfolding create_symlink_at_def by (rule keeps_resolved) (auto intro!: keeps_make_at)

lemma keeps_set_attribute:
  "leads_into r p \<Longrightarrow> (\<And>i. in_node (f i) = in_node i) \<Longrightarrow> keeps P r (set_attribute p f)"
  unfolding set_attribute_def by (rule keeps_resolved) (auto intro!: keeps_sys_call local_change_entry)

lemma keeps_attributes [keeps_intros]:
  "leads_into r p \<Longrightarrow> keeps P r (permissions p mode)" "leads_into r p \<Longrightarrow> keeps P r (last_write_time p ns)"
  by (auto simp: permissions_def last_write_time_def intro!: keeps_set_attribute)

text \<open>Where a file is opened.\<close>

lemma open_trunc_beneath:
  "sane P r t \<Longrightarrow> leads_into r p \<Longrightarrow> open_trunc p t = (Inr (Some q), t') \<Longrightarrow> is_beneath r q"
  by (auto simp: open_trunc_def bindS_def sys_call_def returnS_def split: option.splits if_splits dest: resolve_beneath)

subsection \<open>Removal\<close>

text \<open>Removing a directory with everything in it changes nothing else but the times of its parent.\<close>

definition removes :: "names \<Rightarrow> file_tree \<Rightarrow> file_tree \<Rightarrow> bool" where
  "removes r t t' \<longleftrightarrow> (\<forall>q. \<not> is_beneath r q \<longrightarrow> node_at t' q = node_at t q
     \<and> (q \<noteq> butlast r \<longrightarrow> entry_at t' q = entry_at t q)
     \<and> map_option in_mode (entry_at t' q) = map_option in_mode (entry_at t q))"

lemma removes_refl [simp]: "removes r t t" by (simp add: removes_def)

lemma removes_trans: "removes r t t' \<Longrightarrow> removes r t' t'' \<Longrightarrow> removes r t t''"
  by (simp add: removes_def)

lemma removes_tick [simp]: "removes r t (tick t') = removes r t t'" by (simp add: removes_def)

lemma removes_one: "is_beneath r q \<Longrightarrow> removes r t (touch (butlast q) (drop_entry q t))"
proof -
  assume q: "is_beneath r q"
  have "q = r \<or> is_beneath r (butlast q)" using q is_beneath_butlast by blast
  moreover have "x \<noteq> q" if "\<not> is_beneath r x" for x using q that by auto
  ultimately show ?thesis by (auto simp: removes_def option.map_comp comp_def)
qed

lemma remove_entries_removes: "list_all (is_beneath r) qs \<Longrightarrow> removes r t (snd (remove_entries qs t))"
proof (induction qs arbitrary: t)
  case (Cons q qs)
  have o: "removes r t (touch (butlast q) (drop_entry q t))" for t using Cons.prems by (simp add: removes_one)
  have "removes r t (tick (touch (butlast q) (drop_entry q t)))" using o by simp
  moreover have "removes r s (snd (remove_entries qs s))" for s using Cons by simp
  ultimately have "removes r t (snd (remove_entries qs (tick (touch (butlast q) (drop_entry q t)))))"
    by (rule removes_trans)
  then show ?case by (auto simp: bindS_def sys_call_def returnS_def)
qed (simp add: returnS_def)

lemma remove_all_removes:
  assumes "resolve t p False = Some r"
  shows "removes r t (snd (remove_all p t))"
  using assms by (auto simp: remove_all_def entries_beneath_def list_all_iff intro!: remove_entries_removes)

text \<open>A removal that succeeds leaves nothing behind.\<close>

lemma remove_entries_gone:
  "remove_entries qs t = (Inr True, t') \<Longrightarrow> q \<in> set qs \<or> entry_at t q = None \<Longrightarrow> entry_at t' q = None"
proof (induction qs arbitrary: t)
  case (Cons p qs)
  have "remove_entries qs (touch (butlast p) (drop_entry p (tick t))) = (Inr True, t')"
    using Cons.prems(1) by (auto simp: bindS_def sys_call_def returnS_def split: if_splits)
  moreover have "q \<in> set qs \<or> entry_at (touch (butlast p) (drop_entry p (tick t))) q = None"
    using Cons.prems(2) by auto
  ultimately show ?case by (rule Cons.IH)
qed (simp add: returnS_def)

lemma remove_all_gone:
  assumes "remove_all p t = (Inr True, t')" "resolve t p False = Some r" "is_beneath r q"
  shows "entry_at t' q = None"
proof -
  have "q \<in> set (entries_beneath t r) \<or> entry_at t q = None"
  proof (cases "entry_at t q")
    case (Some i)
    then have "q \<in> fst ` set (ft_entries t)" by (auto simp: entry_at_def dest!: map_of_SomeD intro: rev_image_eqI)
    then show ?thesis using assms(3) by (simp add: entries_beneath_def)
  qed simp
  then show ?thesis using assms by (auto simp: remove_all_def intro: remove_entries_gone)
qed

subsection \<open>Parents and names of rendered paths\<close>

lemma join_slash_snoc: "join_slash (ms @ [n]) = (if ms = [] then n else join_slash ms @ CHR ''/'' # n)"
  by (induction ms rule: join_slash.induct) auto

lemma absolute_path_snoc: "absolute_path (ms @ [n]) = (if ms = [] then ''/'' @ n else absolute_path ms @ CHR ''/'' # n)"
  by (simp add: absolute_path_def join_slash_snoc)

lemma last_join_slash: "ns \<noteq> [] \<Longrightarrow> list_all is_name ns \<Longrightarrow> join_slash ns \<noteq> [] \<and> last (join_slash ns) \<noteq> CHR ''/''"
proof (induction ns rule: rev_induct)
  case (snoc n ms)
  then have n: "n \<noteq> []" "CHR ''/'' \<notin> set n" by (auto simp: is_name_def)
  then have "last n \<noteq> CHR ''/''" using last_in_set by metis
  with n show ?case by (auto simp: join_slash_snoc)
qed simp

lemma dropWhile_rev_name: "CHR ''/'' \<notin> set n \<Longrightarrow>
    dropWhile (\<lambda>c. c \<noteq> CHR ''/'') (rev (a @ CHR ''/'' # n)) = CHR ''/'' # rev a"
  by (simp add: dropWhile_append3) (metis (mono_tags, lifting) dropWhile_append2 dropWhile.simps(2) set_rev)

lemma parent_path_slash:
  "CHR ''/'' \<notin> set n \<Longrightarrow> a \<noteq> [] \<Longrightarrow> last a \<noteq> CHR ''/'' \<Longrightarrow> parent_path (a @ CHR ''/'' # n) = a"
proof -
  assume n: "CHR ''/'' \<notin> set n" and a: "a \<noteq> []" "last a \<noteq> CHR ''/''"
  have "dropWhile (\<lambda>c. c = CHR ''/'') (CHR ''/'' # rev a) = rev a"
    using a by (cases a rule: rev_cases) auto
  then show ?thesis using a
    unfolding parent_path_def Let_def dropWhile_rev_name [OF n] rev_rev_ident by simp
qed

lemma parent_path_root: "CHR ''/'' \<notin> set n \<Longrightarrow> parent_path (''/'' @ n) = ''/''"
  using dropWhile_rev_name [of n "[]"] by (simp add: parent_path_def Let_def)

lemma absolute_path_last: "ns \<noteq> [] \<Longrightarrow> list_all is_name ns \<Longrightarrow> absolute_path ns \<noteq> [] \<and> last (absolute_path ns) \<noteq> CHR ''/''"
  using last_join_slash [of ns] by (simp add: absolute_path_def)

lemma parent_absolute_path:
  assumes "ns \<noteq> []" "list_all is_name ns"
  shows "parent_path (absolute_path ns) = absolute_path (butlast ns)"
proof -
  obtain ms n where ns: "ns = ms @ [n]" using assms(1) by (cases ns rule: rev_cases) auto
  have n: "CHR ''/'' \<notin> set n" using assms(2) ns by (simp add: is_name_def)
  show ?thesis
  proof (cases "ms = []")
    case True
    then show ?thesis using parent_path_root [OF n] by (simp add: ns absolute_path_def)
  next
    case False
    then show ?thesis
      using parent_path_slash [OF n, of "absolute_path ms"] absolute_path_last [of ms] assms(2)
      by (simp add: ns absolute_path_snoc)
  qed
qed

lemma parent_absolute_path_slash:
  "ns \<noteq> [] \<Longrightarrow> list_all is_name ns \<Longrightarrow> parent_path (absolute_path ns @ ''/'') = absolute_path ns"
  using parent_path_slash [of "[]" "absolute_path ns"] absolute_path_last [of ns] by simp

lemma parent_join_slash:
  assumes "ns \<noteq> []" "list_all is_name ns"
  shows "parent_path (join_slash ns) = join_slash (butlast ns)"
proof -
  obtain ms n where ns: "ns = ms @ [n]" using assms(1) by (cases ns rule: rev_cases) auto
  have n: "CHR ''/'' \<notin> set n" using assms(2) ns by (simp add: is_name_def)
  show ?thesis
  proof (cases "ms = []")
    case True
    have p: "dropWhile (\<lambda>c. c \<noteq> CHR ''/'') (rev n) = []" by (rule dropWhile_eq_Nil_conv [THEN iffD2]) (use n in auto)
    have "parent_path n = []" unfolding parent_path_def Let_def p by simp
    then show ?thesis by (simp add: ns True)
  next
    case False
    then show ?thesis
      using parent_path_slash [OF n, of "join_slash ms"] last_join_slash [of ms] assms(2)
      by (simp add: ns join_slash_snoc)
  qed
qed

lemma filename_join_slash:
  assumes "ns \<noteq> []" "list_all is_name ns"
  shows "filename (join_slash ns) = last ns"
proof -
  obtain ms n where ns: "ns = ms @ [n]" using assms(1) by (cases ns rule: rev_cases) auto
  have n: "\<forall>c\<in>set (rev n). c \<noteq> CHR ''/''" using assms(2) ns by (auto simp: is_name_def)
  have "takeWhile (\<lambda>c. c \<noteq> CHR ''/'') (rev n @ rest) = rev n @ takeWhile (\<lambda>c. c \<noteq> CHR ''/'') rest" for rest
    by (rule takeWhile_append2) (use n in auto)
  note t = this [of "[]", unfolded append_Nil2 takeWhile.simps] this [of "CHR ''/'' # rev (join_slash ms)"]
  show ?thesis
  proof (cases "ms = []")
    case True
    have "filename n = n" unfolding filename_def t(1) by simp
    then show ?thesis by (simp add: ns True)
  next
    case False
    then show ?thesis using t(2) by (simp add: ns filename_def join_slash_snoc)
  qed
qed

lemma path_names_absolute: "list_all is_name ns \<Longrightarrow> path_names (absolute_path ns) = ns"
  by (simp add: absolute_path_def path_names_join)

lemma render_path_absolute:
  "ns \<noteq> [] \<Longrightarrow> render_path True ns trailing = absolute_path ns @ (if trailing \<and> last ns \<noteq> ''..'' then ''/'' else [])"
  by (simp add: render_path_def absolute_path_def)

lemma is_absolute_absolute_path [simp]: "is_absolute (absolute_path ns)"
  by (simp add: is_absolute_def absolute_path_def)

end
