(* ===== verification/Safe_Output_Tree.thy ===== *)
theory Safe_Output_Tree
  imports File_Tree
begin

text \<open>
  \<^verbatim>\<open>src/archive/SafeOutputTree.cpp\<close>: the two ways in which extracted entries are promoted into the
  output root.  A directory descriptor is the entry it was opened on.  The calls on descriptors
  (\<open>mkdirat\<close>, \<open>fstatat\<close>, \<open>openat\<close>, \<open>unlinkat\<close>, \<open>renameat\<close>) look up a single name and do not
  follow it.
\<close>

datatype HardenedExtractMode = HardenedAuto | HardenedOn | HardenedOff

record SafeOutputTree =
  so_root_fd :: names
  so_root_path :: path
  so_hardened :: bool

definition is_platform_supported :: bool where
  "is_platform_supported = True"

definition want_hardened :: "HardenedExtractMode \<Rightarrow> bool" where
  "want_hardened mode \<longleftrightarrow> mode = HardenedOn \<or> (mode = HardenedAuto \<and> is_platform_supported)"

definition new_SafeOutputTree :: "path \<Rightarrow> HardenedExtractMode \<Rightarrow> (file_tree, SafeOutputTree) op" where
  "new_SafeOutputTree root mode =
    getS (\<lambda>t.
    let root_path = (case weakly_canonical t root of None \<Rightarrow> root | Some q \<Rightarrow> absolute_path q) in
    bindS (guardS (mode = HardenedOn \<and> \<not> is_platform_supported)
      (InvalidArgument ''--hardened-extract=on is not supported on this platform; use --hardened-extract=auto or --hardened-extract=off'')) (\<lambda>_.
    if want_hardened mode then
      bindS sys_ok (\<lambda>ok.
      (case resolve t root True of
         None \<Rightarrow> throwS (InvalidArgument ''hardened extraction: cannot open output root'')
       | Some fd \<Rightarrow>
           bindS (guardS (\<not> ok \<or> \<not> is_dir t fd)
             (InvalidArgument ''hardened extraction: cannot open output root'')) (\<lambda>_.
           returnS \<lparr>so_root_fd = fd, so_root_path = root_path, so_hardened = True\<rparr>)))
    else returnS \<lparr>so_root_fd = [], so_root_path = root_path, so_hardened = False\<rparr>))"

text \<open>The loop over the components of a path.\<close>

fun open_components :: "names \<Rightarrow> string list \<Rightarrow> (file_tree, names) op" where
  "open_components current [] = returnS current"
| "open_components current (name # components) =
    (if name = [] \<or> name = ''.'' then open_components current components
     else if name = ''..'' then
       throwS (InvalidArgument ''hardened extraction: '..' path component rejected'')
     else
       let entry = (if name = ''/'' then [] else current @ [name]) in
       getS (\<lambda>t.
       bindS (make_at entry Dir) (\<lambda>made.
       bindS (guardS (\<not> made \<and> node_at t entry = None) (InvalidArgument ''hardened extraction: mkdirat'')) (\<lambda>_.
       getS (\<lambda>t.
       (case node_at t entry of
          None \<Rightarrow> throwS (InvalidArgument ''hardened extraction: fstatat'')
        | Some (Link _) \<Rightarrow> throwS (InvalidArgument
            ''hardened extraction: symlink at path component; aborting to prevent path escape outside output root'')
        | Some (File _) \<Rightarrow> throwS (InvalidArgument
            ''hardened extraction: expected directory but found a non-directory entry'')
        | Some Dir \<Rightarrow>
            bindS sys_ok (\<lambda>ok.
            bindS (guardS (\<not> ok) (InvalidArgument ''hardened extraction: openat'')) (\<lambda>_.
            open_components entry components))))))))"

definition open_dir_hardened :: "SafeOutputTree \<Rightarrow> path \<Rightarrow> (file_tree, names) op" where
  "open_dir_hardened safe_tree rel_dir_path =
    bindS sys_ok (\<lambda>ok.
    bindS (guardS (\<not> ok) (InvalidArgument ''hardened extraction: dup(root_fd) failed'')) (\<lambda>_.
    open_components (so_root_fd safe_tree) (path_elements rel_dir_path)))"

definition ensure_dirs :: "SafeOutputTree \<Rightarrow> path \<Rightarrow> (file_tree, unit) op" where
  "ensure_dirs safe_tree rel_dir_path =
    (if rel_dir_path = [] then returnS ()
     else if so_hardened safe_tree then
       bindS (open_dir_hardened safe_tree rel_dir_path) (\<lambda>_. returnS ())
     else
       bindS (create_directories (path_append (so_root_path safe_tree) rel_dir_path)) (\<lambda>ok.
       guardS (\<not> ok) (InvalidArgument ''cannot create directory'')))"

text \<open>The entry of a single name in an open directory.\<close>

definition entry_in :: "names \<Rightarrow> string \<Rightarrow> names" where
  "entry_in fd name = (if name = ''.'' \<or> name = [] then fd else if name = ''..'' then butlast fd else fd @ [name])"

text \<open>The steps of the hardened \<open>rename_into\<close> once the parent directory is open.\<close>

definition unlink_existing :: "names \<Rightarrow> bool \<Rightarrow> (file_tree, unit) op" where
  "unlink_existing dest overwrite =
    getS (\<lambda>t.
    if node_at t dest \<noteq> None then
      bindS (guardS (\<not> overwrite) (InvalidArgument ''output path already exists'')) (\<lambda>_.
      bindS (guardS (is_dir t dest)
        (InvalidArgument ''hardened extraction: cannot replace existing directory'')) (\<lambda>_.
      bindS (unlink_at dest) (\<lambda>ok.
      guardS (\<not> ok) (InvalidArgument ''hardened extraction: unlinkat''))))
    else returnS ())"

definition rename_at :: "path \<Rightarrow> names \<Rightarrow> (file_tree, unit) op" where
  "rename_at src_abs dest =
    getS (\<lambda>t.
    (case resolve t src_abs False of
       None \<Rightarrow> throwS (InvalidArgument ''hardened extraction: renameat'')
     | Some src \<Rightarrow>
         bindS (rename_entry src dest) (\<lambda>ok.
         guardS (\<not> ok) (InvalidArgument ''hardened extraction: renameat''))))"

definition rename_into_hardened :: "SafeOutputTree \<Rightarrow> path \<Rightarrow> path \<Rightarrow> bool \<Rightarrow> (file_tree, unit) op" where
  "rename_into_hardened safe_tree src_abs dest_rel overwrite =
    bindS (open_dir_hardened safe_tree (parent_path dest_rel)) (\<lambda>parent_fd.
    let dest = entry_in parent_fd (filename dest_rel) in
    bindS (unlink_existing dest overwrite) (\<lambda>_.
    rename_at src_abs dest))"

definition remove_existing :: "path \<Rightarrow> bool \<Rightarrow> (file_tree, unit) op" where
  "remove_existing dest_abs overwrite =
    getS (\<lambda>t.
    if status_of t dest_abs False \<noteq> None then
      bindS (guardS (\<not> overwrite) (InvalidArgument ''output path already exists'')) (\<lambda>_.
      bindS (remove_all dest_abs) (\<lambda>ok.
      guardS (\<not> ok) (InvalidArgument ''cannot remove existing output path'')))
    else returnS ())"

definition check_no_escape :: "SafeOutputTree \<Rightarrow> path \<Rightarrow> (file_tree, unit) op" where
  "check_no_escape safe_tree dest_abs =
    getS (\<lambda>t.
    (case weakly_canonical t (parent_path dest_abs) of
       None \<Rightarrow> returnS ()
     | Some real_parent \<Rightarrow>
         let rel = lexically_relative real_parent (path_names (so_root_path safe_tree)) in
         guardS (rel \<noteq> [] \<and> hd (path_elements rel) = ''..'')
           (InvalidArgument ''output path escapes output root via symlink'')))"

definition rename_into_portable :: "SafeOutputTree \<Rightarrow> path \<Rightarrow> path \<Rightarrow> bool \<Rightarrow> (file_tree, unit) op" where
  "rename_into_portable safe_tree src_abs dest_rel overwrite =
    (let dest_abs = path_append (so_root_path safe_tree) dest_rel in
    bindS (remove_existing dest_abs overwrite) (\<lambda>_.
    bindS (create_directories (parent_path dest_abs)) (\<lambda>ok.
    bindS (guardS (\<not> ok) (InvalidArgument ''cannot create parent directory'')) (\<lambda>_.
    bindS (check_no_escape safe_tree dest_abs) (\<lambda>_.
    getS (\<lambda>t.
    (case (resolve t src_abs False, resolve t dest_abs False) of
       (Some src, Some dest) \<Rightarrow>
         bindS (rename_entry src dest) (\<lambda>ok.
         guardS (\<not> ok) (InvalidArgument ''cannot promote temporary output file''))
     | _ \<Rightarrow> throwS (InvalidArgument ''cannot promote temporary output file''))))))))"

definition rename_into :: "SafeOutputTree \<Rightarrow> path \<Rightarrow> path \<Rightarrow> bool \<Rightarrow> (file_tree, unit) op" where
  "rename_into safe_tree src_abs dest_rel overwrite =
    (if so_hardened safe_tree then rename_into_hardened safe_tree src_abs dest_rel overwrite
     else rename_into_portable safe_tree src_abs dest_rel overwrite)"

end
