(* ===== verification/Archive_Reader.thy ===== *)
theory Archive_Reader
  imports Safe_Output_Tree Record_Format Durable_File
begin

text \<open>
  \<^verbatim>\<open>src/archive/ArchiveReader.cpp\<close>: the extraction of an authenticated plaintext stream.  The
  records are unpacked into a temporary directory inside the output root; \<open>finish\<close> promotes what was
  unpacked.  The object is a record that holds the file tree it works on; the suffix of the
  temporary directory, which the source draws at random, is an argument of the constructor.
  An exception of the standard library is represented by \<open>SystemError\<close>.
\<close>

record ArchiveReaderOptions =
  xo_output_root :: path
  xo_overwrite_existing :: bool
  xo_restore_timestamps :: bool
  xo_restore_permissions :: bool
  xo_allow_symlinks :: bool
  xo_hardened_extract_mode :: HardenedExtractMode
  xo_durability_mode :: DurabilityMode
  xo_durability_hooks :: DurabilityHooks

record ArchiveReader =
  xr_options :: ArchiveReaderOptions
  xr_temp_root :: path
  xr_pending :: bytes
  xr_archive_begin_seen :: bool
  xr_archive_end_seen :: bool
  xr_finished :: bool
  xr_current_file_open :: bool
  xr_current_file :: names
  xr_current_file_good :: bool
  xr_current_file_archive_path :: path
  xr_current_file_metadata :: EntryMetadata
  xr_current_file_written :: u64
  xr_deferred_directory_metadata :: "EntryMetadata list"
  xr_tree :: file_tree

definition empty_metadata :: EntryMetadata where
  "empty_metadata =
     \<lparr>em_kind = RegularFile, em_relative_path = [], em_original_size = 0, em_posix_mode = 0,
      em_times = \<lparr>ft_modified_ns = 0, ft_accessed_ns = None, ft_created_ns = None\<rparr>,
      em_symlink_target = []\<rparr>"

definition bits_to_permissions :: "u32 \<Rightarrow> u32" where
  "bits_to_permissions bits = and bits 0x1FF"

subsection \<open>Construction\<close>

definition initial_reader :: "ArchiveReaderOptions \<Rightarrow> path \<Rightarrow> file_tree \<Rightarrow> ArchiveReader" where
  "initial_reader opts temp_root t =
     \<lparr>xr_options = opts, xr_temp_root = temp_root, xr_pending = [],
      xr_archive_begin_seen = False, xr_archive_end_seen = False, xr_finished = False,
      xr_current_file_open = False, xr_current_file = [], xr_current_file_good = True,
      xr_current_file_archive_path = [], xr_current_file_metadata = empty_metadata,
      xr_current_file_written = 0, xr_deferred_directory_metadata = [], xr_tree = t\<rparr>"

text \<open>The temporary directory, made relative to the opened output root, or by its path.\<close>

definition make_temp_root_hardened :: "path \<Rightarrow> string \<Rightarrow> (file_tree, unit) op" where
  "make_temp_root_hardened output_root temp_name =
    bindS sys_ok (\<lambda>ok.
    getS (\<lambda>t.
    (case resolve t output_root False of
       None \<Rightarrow> throwS (InvalidArgument ''cannot open output root for hardened temp creation: '')
     | Some root_fd \<Rightarrow>
         bindS (guardS (\<not> ok \<or> \<not> is_dir t root_fd)
           (InvalidArgument ''cannot open output root for hardened temp creation: '')) (\<lambda>_.
         bindS (make_at (entry_in root_fd temp_name) Dir) (\<lambda>ok.
         guardS (\<not> ok) (InvalidArgument ''cannot create temporary extraction directory''))))))"

definition make_temp_root_portable :: "path \<Rightarrow> (file_tree, unit) op" where
  "make_temp_root_portable temp_root =
    getS (\<lambda>t.
    bindS (guardS (status_of t temp_root False \<noteq> None)
      (InvalidArgument ''temporary extraction directory already exists: '')) (\<lambda>_.
    (case resolve t temp_root False of
       None \<Rightarrow> throwS (InvalidArgument ''cannot create temporary extraction directory: '')
     | Some q \<Rightarrow>
         bindS (make_at q Dir) (\<lambda>ok.
         guardS (\<not> ok) (InvalidArgument ''cannot create temporary extraction directory: '')))))"

definition temp_dir_name :: "string \<Rightarrow> string" where
  "temp_dir_name temp_suffix = ''.bseal-extract-tmp.'' @ temp_suffix"

definition new_ArchiveReader :: "ArchiveReaderOptions \<Rightarrow> string \<Rightarrow> (file_tree, ArchiveReader) op" where
  "new_ArchiveReader opts temp_suffix =
    bindS (guardS (xo_output_root opts = [])
      (InvalidArgument ''ArchiveReader output root must not be empty'')) (\<lambda>_.
    bindS (create_directories (xo_output_root opts)) (\<lambda>ok.
    bindS (guardS (\<not> ok) (InvalidArgument ''cannot create output root: '')) (\<lambda>_.
    getS (\<lambda>t.
    (case weakly_canonical t (xo_output_root opts) of
       None \<Rightarrow> throwS (InvalidArgument ''cannot canonicalize output root: '')
     | Some root \<Rightarrow>
         let opts = opts\<lparr>xo_output_root := absolute_path root\<rparr>;
             temp_name = temp_dir_name temp_suffix;
             temp_root = path_append (xo_output_root opts) temp_name in
         bindS (if want_hardened (xo_hardened_extract_mode opts)
                then make_temp_root_hardened (xo_output_root opts) temp_name
                else make_temp_root_portable temp_root) (\<lambda>_.
         getS (\<lambda>t. returnS (initial_reader opts temp_root t))))))))"

subsection \<open>Operations on the reader\<close>

definition on_tree :: "(file_tree, 'a) op \<Rightarrow> (ArchiveReader, 'a) op" where
  "on_tree m r = (case m (xr_tree r) of (res, t) \<Rightarrow> (res, r\<lparr>xr_tree := t\<rparr>))"

definition temp_path_for :: "ArchiveReader \<Rightarrow> path \<Rightarrow> path result" where
  "temp_path_for r archive_path = make_safe_output_path (xr_temp_root r) archive_path"

definition final_path_for :: "ArchiveReader \<Rightarrow> path \<Rightarrow> path result" where
  "final_path_for r archive_path = make_safe_output_path (xo_output_root (xr_options r)) archive_path"

definition begin_archive :: "ArchiveRecord \<Rightarrow> (ArchiveReader, unit) op" where
  "begin_archive rec =
    getS (\<lambda>r.
    bindS (guardS (xr_archive_begin_seen r) (InvalidArgument ''duplicate ArchiveBegin record'')) (\<lambda>_.
    bindS (guardS (length (ar_payload rec) \<noteq> 4) (InvalidArgument ''invalid ArchiveBegin payload'')) (\<lambda>_.
    bindS (guardS ((read_le (ar_payload rec) :: u32) \<noteq> kArchiveFormatVersion)
      (InvalidArgument ''unsupported archive stream version'')) (\<lambda>_.
    modifyS (\<lambda>r. r\<lparr>xr_archive_begin_seen := True\<rparr>)))))"

definition create_directory :: "EntryMetadata \<Rightarrow> (ArchiveReader, unit) op" where
  "create_directory metadata =
    getS (\<lambda>r.
    bindS (guardS (\<not> xr_archive_begin_seen r) (InvalidArgument ''directory record before ArchiveBegin'')) (\<lambda>_.
    bindS (guardS (em_kind metadata \<noteq> Directory)
      (InvalidArgument ''DirectoryEntry record contains non-directory metadata'')) (\<lambda>_.
    bindS (liftS (temp_path_for r (em_relative_path metadata))) (\<lambda>path.
    bindS (on_tree (create_directories path)) (\<lambda>ok.
    bindS (guardS (\<not> ok) (InvalidArgument ''cannot create extracted directory: '')) (\<lambda>_.
    modifyS (\<lambda>r. r\<lparr>xr_deferred_directory_metadata :=
      xr_deferred_directory_metadata r @ [metadata]\<rparr>)))))))"

definition begin_file :: "EntryMetadata \<Rightarrow> (ArchiveReader, unit) op" where
  "begin_file metadata =
    getS (\<lambda>r.
    bindS (guardS (\<not> xr_archive_begin_seen r) (InvalidArgument ''file record before ArchiveBegin'')) (\<lambda>_.
    bindS (guardS (xr_current_file_open r) (InvalidArgument ''nested file records are invalid'')) (\<lambda>_.
    bindS (guardS (em_kind metadata \<noteq> RegularFile)
      (InvalidArgument ''FileEntry record contains non-file metadata'')) (\<lambda>_.
    bindS (liftS (temp_path_for r (em_relative_path metadata))) (\<lambda>path.
    bindS (on_tree (create_directories (parent_path path))) (\<lambda>ok.
    bindS (guardS (\<not> ok) (InvalidArgument ''cannot create parent directory for extracted file: '')) (\<lambda>_.
    bindS (on_tree (open_trunc path)) (\<lambda>opened.
    (case opened of
       None \<Rightarrow> throwS (InvalidArgument ''cannot open temporary output file: '')
     | Some q \<Rightarrow>
         modifyS (\<lambda>r. r\<lparr>xr_current_file_open := True, xr_current_file := q, xr_current_file_good := True,
           xr_current_file_archive_path := em_relative_path metadata,
           xr_current_file_metadata := metadata, xr_current_file_written := 0\<rparr>)))))))))) "

definition write_file_bytes :: "bytes \<Rightarrow> (ArchiveReader, unit) op" where
  "write_file_bytes bs =
    getS (\<lambda>r.
    bindS (guardS (\<not> xr_current_file_open r) (InvalidArgument ''FileBytes record outside a file'')) (\<lambda>_.
    bindS (guardS (length bs > unat (em_original_size (xr_current_file_metadata r) - xr_current_file_written r))
      (InvalidArgument ''file payload exceeds declared file size'')) (\<lambda>_.
    bindS (if xr_current_file_good r then on_tree (append_file (xr_current_file r) bs) else returnS False) (\<lambda>ok.
    bindS (modifyS (\<lambda>r. r\<lparr>xr_current_file_good := ok\<rparr>)) (\<lambda>_.
    bindS (guardS (\<not> ok) (InvalidArgument ''error while writing temporary output file'')) (\<lambda>_.
    modifyS (\<lambda>r. r\<lparr>xr_current_file_written := xr_current_file_written r + of_nat (length bs)\<rparr>)))))))"

definition apply_metadata_to_path :: "path \<Rightarrow> EntryMetadata \<Rightarrow> (ArchiveReader, unit) op" where
  "apply_metadata_to_path path metadata =
    getS (\<lambda>r.
    bindS (if xo_restore_permissions (xr_options r) \<and> em_posix_mode metadata \<noteq> 0 then
             bindS (on_tree (permissions path (bits_to_permissions (em_posix_mode metadata)))) (\<lambda>ok.
             guardS (\<not> ok) (InvalidArgument ''cannot restore permissions: ''))
           else returnS ()) (\<lambda>_.
    if xo_restore_timestamps (xr_options r) \<and> ft_modified_ns (em_times metadata) \<noteq> 0
         \<and> em_kind metadata \<noteq> Symlink then
      bindS (on_tree (last_write_time path (ft_modified_ns (em_times metadata)))) (\<lambda>ok.
      guardS (\<not> ok) (InvalidArgument ''cannot restore modification time: ''))
    else returnS ()))"

definition end_file :: "(ArchiveReader, unit) op" where
  "end_file =
    getS (\<lambda>r.
    bindS (guardS (\<not> xr_current_file_open r) (InvalidArgument ''FileEnd record outside a file'')) (\<lambda>_.
    bindS (guardS (xr_current_file_written r \<noteq> em_original_size (xr_current_file_metadata r))
      (InvalidArgument ''file payload ended before declared file size'')) (\<lambda>_.
    bindS (on_tree sys_ok) (\<lambda>ok.
    bindS (modifyS (\<lambda>r. r\<lparr>xr_current_file_good := xr_current_file_good r \<and> ok\<rparr>)) (\<lambda>_.
    bindS (guardS (\<not> (xr_current_file_good r \<and> ok))
      (InvalidArgument ''error while closing temporary output file'')) (\<lambda>_.
    bindS (liftS (temp_path_for r (xr_current_file_archive_path r))) (\<lambda>path.
    bindS (apply_metadata_to_path path (xr_current_file_metadata r)) (\<lambda>_.
    modifyS (\<lambda>r. r\<lparr>xr_current_file_open := False, xr_current_file_archive_path := [],
      xr_current_file_metadata := empty_metadata, xr_current_file_written := 0\<rparr>)))))))))"

definition create_symlink :: "EntryMetadata \<Rightarrow> (ArchiveReader, unit) op" where
  "create_symlink metadata =
    getS (\<lambda>r.
    bindS (guardS (\<not> xr_archive_begin_seen r) (InvalidArgument ''symlink record before ArchiveBegin'')) (\<lambda>_.
    bindS (guardS (em_kind metadata \<noteq> Symlink)
      (InvalidArgument ''SymlinkEntry record contains non-symlink metadata'')) (\<lambda>_.
    bindS (guardS (\<not> xo_allow_symlinks (xr_options r))
      (InvalidArgument ''archive contains symlink but symlink extraction is disabled'')) (\<lambda>_.
    let target = em_symlink_target metadata in
    bindS (guardS (path_eq target ''.'' \<or> \<not> is_safe_relative_path target)
      (InvalidArgument ''unsafe symlink target rejected during extraction'')) (\<lambda>_.
    bindS (liftS (temp_path_for r (em_relative_path metadata))) (\<lambda>path.
    bindS (on_tree (create_directories (parent_path path))) (\<lambda>ok.
    bindS (guardS (\<not> ok) (InvalidArgument ''cannot create parent directory for extracted symlink: '')) (\<lambda>_.
    bindS (on_tree (create_symlink_at target path)) (\<lambda>ok.
    guardS (\<not> ok) (InvalidArgument ''cannot create extracted symlink: ''))))))))))"

definition archive_end :: "(ArchiveReader, unit) op" where
  "archive_end =
    getS (\<lambda>r.
    bindS (guardS (\<not> xr_archive_begin_seen r) (InvalidArgument ''ArchiveEnd before ArchiveBegin'')) (\<lambda>_.
    bindS (guardS (xr_current_file_open r) (InvalidArgument ''ArchiveEnd while a file is open'')) (\<lambda>_.
    modifyS (\<lambda>r. r\<lparr>xr_archive_end_seen := True\<rparr>))))"

definition process_record :: "ArchiveRecord \<Rightarrow> (ArchiveReader, unit) op" where
  "process_record rec =
    getS (\<lambda>r.
    bindS (guardS (xr_archive_end_seen r \<and> ar_type rec \<noteq> RandomPadding)
      (InvalidArgument ''non-padding record found after ArchiveEnd'')) (\<lambda>_.
    (case ar_type rec of
       ArchiveBegin \<Rightarrow> begin_archive rec
     | DirectoryEntry \<Rightarrow> bindS (liftS (parse_entry_metadata (ar_payload rec))) create_directory
     | FileEntry \<Rightarrow> bindS (liftS (parse_entry_metadata (ar_payload rec))) begin_file
     | FileBytes \<Rightarrow> write_file_bytes (ar_payload rec)
     | FileEnd \<Rightarrow> end_file
     | SymlinkEntry \<Rightarrow> bindS (liftS (parse_entry_metadata (ar_payload rec))) create_symlink
     | ArchiveEnd \<Rightarrow> archive_end
     | RandomPadding \<Rightarrow>
         guardS (\<not> xr_archive_end_seen r)
           (InvalidArgument ''RandomPadding record is only valid after ArchiveEnd''))))"

lemma preserves_on_tree [preserves_intros]: "(\<And>r t. f (r\<lparr>xr_tree := t\<rparr>) = f r) \<Longrightarrow> preserves f (on_tree m)"
  by (simp add: preserves_def on_tree_def split: prod.splits)

lemma preserves_option [preserves_intros]:
  "(\<And>x. v = Some x \<Longrightarrow> preserves f (g x)) \<Longrightarrow> (v = None \<Longrightarrow> preserves f m)
     \<Longrightarrow> preserves f (case v of None \<Rightarrow> m | Some x \<Rightarrow> g x)"
  by (cases v) auto

lemmas reader_ops = begin_archive_def create_directory_def begin_file_def write_file_bytes_def end_file_def
  create_symlink_def archive_end_def apply_metadata_to_path_def Let_def

text \<open>No operation on a record changes the buffer, the options or the temporary directory.\<close>

lemma process_record_preserves:
  "preserves xr_pending (process_record rec)" "preserves xr_options (process_record rec)"
  "preserves xr_temp_root (process_record rec)" "preserves xr_finished (process_record rec)"
  unfolding process_record_def
  by (cases "ar_type rec"; simp add: reader_ops; (intro preserves_intros preserves_modifyS; simp)+)+

text \<open>The loop of \<open>consume\<close>: one complete record after the other is taken from the buffer.\<close>

function consume_records :: "ArchiveReader \<Rightarrow> unit result \<times> ArchiveReader" where
  "consume_records r =
    (case encoded_record_size_if_complete (xr_pending r) of
       Inl e \<Rightarrow> (Inl e, r)
     | Inr None \<Rightarrow> (Inr (), r)
     | Inr (Some record_size) \<Rightarrow>
         (case parse_record (take record_size (xr_pending r)) of
            Inl e \<Rightarrow> (Inl e, r)
          | Inr rec \<Rightarrow>
              (case process_record rec (r\<lparr>xr_pending := drop record_size (xr_pending r)\<rparr>) of
                 (Inl e, r') \<Rightarrow> (Inl e, r')
               | (Inr _, r') \<Rightarrow> consume_records r')))"
  by pat_completeness auto
termination
proof (relation "measure (\<lambda>r. length (xr_pending r))", goal_cases)
  case (2 r x2 record_size rec res r' u)
  have "xr_pending (snd (res, r')) = drop record_size (xr_pending r)"
    using process_record_preserves(1) [of rec] unfolding 2(4) by (simp add: preserves_def)
  moreover have "9 \<le> record_size" "record_size \<le> length (xr_pending r)"
    using 2(1,2) encoded_size_Some [of "xr_pending r" record_size] by auto
  ultimately show ?case by simp
qed simp

declare consume_records.simps [simp del]

definition consume :: "bytes \<Rightarrow> (ArchiveReader, unit) op" where
  "consume plaintext =
    getS (\<lambda>r.
    bindS (guardS (xr_finished r) (InvalidArgument ''cannot consume archive data after finish'')) (\<lambda>_.
    bindS (modifyS (\<lambda>r. r\<lparr>xr_pending := xr_pending r @ plaintext\<rparr>)) (\<lambda>_.
    consume_records)))"

subsection \<open>Promotion\<close>

text \<open>The paths that iterating over the temporary directory yields, parents first.\<close>

definition temp_entries :: "file_tree \<Rightarrow> names \<Rightarrow> names list" where
  "temp_entries t root = sort_key length (filter (\<lambda>q. q \<noteq> root) (entries_beneath t root))"

definition flush_promoted :: "(path \<Rightarrow> DurabilityMode \<Rightarrow> bool result) option \<Rightarrow> path \<Rightarrow> DurabilityMode \<Rightarrow> (ArchiveReader, unit) op" where
  "flush_promoted hook p mode =
    (case hook of
       None \<Rightarrow> returnS ()
     | Some f \<Rightarrow> if mode = DurabilityOff then returnS ()
                 else bindS (liftS (f p mode)) (\<lambda>_. returnS ()))"

definition promote_entry :: "SafeOutputTree \<Rightarrow> path \<Rightarrow> path \<Rightarrow> (ArchiveReader, unit) op" where
  "promote_entry safe_tree src rel =
    getS (\<lambda>r.
    if is_directory (xr_tree r) src \<and> \<not> is_symlink (xr_tree r) src
    then on_tree (ensure_dirs safe_tree rel)
    else
      bindS (on_tree (rename_into safe_tree src rel (xo_overwrite_existing (xr_options r)))) (\<lambda>_.
      flush_promoted (dh_flush_file (xo_durability_hooks (xr_options r)))
        (path_append (xo_output_root (xr_options r)) rel) (xo_durability_mode (xr_options r))))"

text \<open>The path of an entry as the iterator reports it.\<close>

definition source_path :: "path \<Rightarrow> names \<Rightarrow> path" where
  "source_path temp_root ms = path_append temp_root (join_slash ms)"

fun promote_entries :: "SafeOutputTree \<Rightarrow> names \<Rightarrow> names list \<Rightarrow> (ArchiveReader, unit) op" where
  "promote_entries safe_tree root [] = returnS ()"
| "promote_entries safe_tree root (entry # entries) =
    getS (\<lambda>r.
    let src = source_path (xr_temp_root r) (drop (length root) entry) in
    (case relative_path (xr_tree r) src (xr_temp_root r) of
       None \<Rightarrow> throwS (InvalidArgument ''cannot compute temporary relative path: '')
     | Some rel \<Rightarrow> bindS (promote_entry safe_tree src rel) (\<lambda>_. promote_entries safe_tree root entries)))"

definition commit_temp_tree :: "(ArchiveReader, unit) op" where
  "commit_temp_tree =
    getS (\<lambda>r.
    bindS (on_tree (new_SafeOutputTree (xo_output_root (xr_options r)) (xo_hardened_extract_mode (xr_options r)))) (\<lambda>safe_tree.
    getS (\<lambda>r.
    (case resolve (xr_tree r) (xr_temp_root r) True of
       None \<Rightarrow> throwS (SystemError ''recursive directory iterator'')
     | Some root \<Rightarrow>
         bindS (guardS (\<not> is_dir (xr_tree r) root) (SystemError ''recursive directory iterator'')) (\<lambda>_.
         bindS (promote_entries safe_tree root (temp_entries (xr_tree r) root)) (\<lambda>_.
         flush_promoted (dh_flush_dir (xo_durability_hooks (xr_options r)))
           (xo_output_root (xr_options r)) (xo_durability_mode (xr_options r))))))))"

fun apply_all_metadata :: "EntryMetadata list \<Rightarrow> (ArchiveReader, unit) op" where
  "apply_all_metadata [] = returnS ()"
| "apply_all_metadata (metadata # rest) =
    getS (\<lambda>r.
    bindS (liftS (final_path_for r (em_relative_path metadata))) (\<lambda>path.
    bindS (apply_metadata_to_path path metadata) (\<lambda>_.
    apply_all_metadata rest)))"

definition apply_deferred_directory_metadata :: "(ArchiveReader, unit) op" where
  "apply_deferred_directory_metadata =
    bindS (modifyS (\<lambda>r. r\<lparr>xr_deferred_directory_metadata :=
      sort_key (\<lambda>m. - int (length (path_elements (em_relative_path m)))) (xr_deferred_directory_metadata r)\<rparr>)) (\<lambda>_.
    getS (\<lambda>r. apply_all_metadata (xr_deferred_directory_metadata r)))"

definition cleanup_temp_tree :: "(ArchiveReader, unit) op" where
  "cleanup_temp_tree =
    bindS (modifyS (\<lambda>r. r\<lparr>xr_current_file_open := False\<rparr>)) (\<lambda>_.
    getS (\<lambda>r.
    bindS (on_tree (remove_all (xr_temp_root r))) (\<lambda>_. returnS ())))"

definition finish :: "(ArchiveReader, unit) op" where
  "finish =
    getS (\<lambda>r.
    if xr_finished r then returnS () else
    bindS (guardS (xr_pending r \<noteq> []) (InvalidArgument ''archive ended with a partial record'')) (\<lambda>_.
    bindS (guardS (\<not> xr_archive_begin_seen r) (InvalidArgument ''archive did not contain ArchiveBegin'')) (\<lambda>_.
    bindS (guardS (\<not> xr_archive_end_seen r) (InvalidArgument ''archive did not contain ArchiveEnd'')) (\<lambda>_.
    bindS (guardS (xr_current_file_open r) (InvalidArgument ''archive ended while a file was still open'')) (\<lambda>_.
    bindS commit_temp_tree (\<lambda>_.
    bindS apply_deferred_directory_metadata (\<lambda>_.
    bindS cleanup_temp_tree (\<lambda>_.
    modifyS (\<lambda>r. r\<lparr>xr_finished := True\<rparr>)))))))))"

text \<open>The destructor.\<close>

definition destroy_ArchiveReader :: "ArchiveReader \<Rightarrow> ArchiveReader" where
  "destroy_ArchiveReader r = (if xr_finished r then r else snd (cleanup_temp_tree r))"

subsection \<open>The boundaries of the chunks\<close>

text \<open>An operation that neither reads nor writes the buffer.\<close>

definition ignores_pending :: "(ArchiveReader, 'a) op \<Rightarrow> bool" where
  "ignores_pending m \<longleftrightarrow> (\<forall>r p. m (r\<lparr>xr_pending := p\<rparr>) = (fst (m r), (snd (m r))\<lparr>xr_pending := p\<rparr>))"

lemma ignores_pendingD: "ignores_pending m \<Longrightarrow> m (r\<lparr>xr_pending := p\<rparr>) = (fst (m r), (snd (m r))\<lparr>xr_pending := p\<rparr>)"
  by (simp add: ignores_pending_def)

named_theorems pending_intros \<open>operations that ignore the buffer\<close>

lemma ignores_pending_bindS [pending_intros]:
  assumes "ignores_pending m" "\<And>x. ignores_pending (f x)"
  shows "ignores_pending (bindS m f)"
proof -
  have "bindS m f (r\<lparr>xr_pending := p\<rparr>) = (fst (bindS m f r), (snd (bindS m f r))\<lparr>xr_pending := p\<rparr>)" for r p
    using assms by (cases rule: bindS_cases [of m r f]) (simp_all add: ignores_pending_def bindS_def)
  then show ?thesis by (simp add: ignores_pending_def)
qed

lemma ignores_pending_basic [pending_intros]:
  "ignores_pending (returnS x)" "ignores_pending (throwS e)" "ignores_pending (guardS c e)" "ignores_pending (liftS res)"
  "ignores_pending (on_tree t)"
  by (simp_all add: ignores_pending_def op_defs on_tree_def split: prod.splits)

lemma ignores_pending_modifyS: "(\<And>r p. h (r\<lparr>xr_pending := p\<rparr>) = (h r)\<lparr>xr_pending := p\<rparr>) \<Longrightarrow> ignores_pending (modifyS h)"
  by (simp add: ignores_pending_def modifyS_def)

lemma ignores_pending_getS:
  "(\<And>r p. f (r\<lparr>xr_pending := p\<rparr>) = f r) \<Longrightarrow> (\<And>r. ignores_pending (f r)) \<Longrightarrow> ignores_pending (getS f)"
  by (simp add: ignores_pending_def getS_def)

lemma ignores_pending_if [pending_intros]:
  "(c \<Longrightarrow> ignores_pending m) \<Longrightarrow> (\<not> c \<Longrightarrow> ignores_pending n) \<Longrightarrow> ignores_pending (if c then m else n)"
  by simp

lemma ignores_pending_option [pending_intros]:
  "(\<And>x. v = Some x \<Longrightarrow> ignores_pending (g x)) \<Longrightarrow> (v = None \<Longrightarrow> ignores_pending m)
     \<Longrightarrow> ignores_pending (case v of None \<Rightarrow> m | Some x \<Rightarrow> g x)"
  by (cases v) auto

lemma reader_ops_ignore_pending [pending_intros]:
  "ignores_pending (apply_metadata_to_path path metadata)" "ignores_pending (begin_archive rec)"
  "ignores_pending (create_directory metadata)" "ignores_pending (begin_file metadata)"
  "ignores_pending (write_file_bytes bs)" "ignores_pending (create_symlink metadata)" "ignores_pending archive_end"
  unfolding begin_archive_def create_directory_def begin_file_def write_file_bytes_def create_symlink_def
    archive_end_def apply_metadata_to_path_def temp_path_for_def Let_def
  by (rule ignores_pending_getS; (intro pending_intros ignores_pending_modifyS)?; simp)+

lemma end_file_ignores_pending [pending_intros]: "ignores_pending end_file"
  unfolding end_file_def temp_path_for_def
  by (rule ignores_pending_getS; (intro pending_intros ignores_pending_modifyS)?; simp)

lemma process_record_ignores_pending: "ignores_pending (process_record rec)"
  unfolding process_record_def
  by (rule ignores_pending_getS, simp cong: RecordType.case_cong, cases "ar_type rec"; simp; intro pending_intros)

lemma preservesD: "preserves f m \<Longrightarrow> f (snd (m s)) = f s"
  by (simp add: preserves_def)

text \<open>More bytes behind the buffer do not change what happens to the records that are complete.\<close>

lemma consume_records_append:
  "consume_records (r\<lparr>xr_pending := xr_pending r @ ys\<rparr>) =
     (case consume_records r of
        (Inl e, r') \<Rightarrow> (Inl e, r'\<lparr>xr_pending := xr_pending r' @ ys\<rparr>)
      | (Inr _, r') \<Rightarrow> consume_records (r'\<lparr>xr_pending := xr_pending r' @ ys\<rparr>))"
proof (induction r rule: consume_records.induct)
  case (1 r)
  let ?p = "xr_pending r"
  show ?case
  proof (cases "encoded_record_size_if_complete ?p")
    case (Inl e)
    moreover from this have "encoded_record_size_if_complete (?p @ ys) = Inl e" using encoded_size_mono by simp
    ultimately show ?thesis by (simp add: consume_records.simps)
  next
    case (Inr v)
    show ?thesis
    proof (cases v)
      case None
      then show ?thesis using Inr by (simp add: consume_records.simps [of r])
    next
      case (Some n)
      have n: "n \<le> length ?p" using encoded_size_Some [of ?p n] Inr Some by auto
      have ext: "encoded_record_size_if_complete (?p @ ys) = Inr (Some n)" using encoded_size_mono [of ?p ys] Inr Some by simp
      show ?thesis
      proof (cases "parse_record (take n ?p)")
        case (Inl e)
        then show ?thesis using Inr Some ext n by (simp add: consume_records.simps)
      next
        case rec: (Inr rec)
        obtain res r' where pr: "process_record rec (r\<lparr>xr_pending := drop n ?p\<rparr>) = (res, r')"
          by (cases "process_record rec (r\<lparr>xr_pending := drop n ?p\<rparr>)")
        have p': "xr_pending r' = drop n ?p"
          using preservesD [OF process_record_preserves(1) [of rec], where s = "r\<lparr>xr_pending := drop n ?p\<rparr>"] pr by simp
        have pe: "process_record rec (r\<lparr>xr_pending := drop n ?p @ ys\<rparr>) = (res, r'\<lparr>xr_pending := drop n ?p @ ys\<rparr>)"
          using ignores_pendingD [OF process_record_ignores_pending [of rec], where r = "r\<lparr>xr_pending := drop n ?p\<rparr>"] pr by simp
        show ?thesis
        proof (cases res)
          case (Inl e)
          then show ?thesis using Inr Some ext n rec pr pe p' by (simp add: consume_records.simps)
        next
          case (Inr u)
          then show ?thesis
            using 1 [OF \<open>encoded_record_size_if_complete ?p = Inr v\<close> Some rec pr [symmetric]] Some ext n rec pr pe p' \<open>encoded_record_size_if_complete ?p = Inr v\<close>
            by (simp add: consume_records.simps [of r] consume_records.simps [of "r\<lparr>xr_pending := ?p @ ys\<rparr>"])
        qed
      qed
    qed
  qed
qed

fun consume_all :: "bytes list \<Rightarrow> (ArchiveReader, unit) op" where
  "consume_all [] = returnS ()"
| "consume_all (chunk # chunks) = bindS (consume chunk) (\<lambda>_. consume_all chunks)"

lemma consume_eq:
  "consume bs r = (if xr_finished r then (Inl (InvalidArgument ''cannot consume archive data after finish''), r)
     else consume_records (r\<lparr>xr_pending := xr_pending r @ bs\<rparr>))"
  by (simp add: consume_def getS_def bindS_def guardS_def modifyS_def)

lemma consume_records_finished: "xr_finished (snd (consume_records r)) = xr_finished r"
proof (induction r rule: consume_records.induct)
  case (1 r)
  have p: "xr_finished r' = xr_finished r" if "process_record rec (r\<lparr>xr_pending := p\<rparr>) = (res, r')" for rec p res r'
    using preservesD [OF process_record_preserves(4) [of rec], of "r\<lparr>xr_pending := p\<rparr>"] that by simp
  then show ?case
    using 1 by (subst consume_records.simps) (auto split: sum.splits option.splits prod.splits)
qed

lemma consume_finished: "xr_finished (snd (consume bs r)) = xr_finished r"
  by (simp add: consume_eq consume_records_finished)

text \<open>Equal up to the bytes behind the record that failed.\<close>

definition same_effect :: "unit result \<times> ArchiveReader \<Rightarrow> unit result \<times> ArchiveReader \<Rightarrow> bool" where
  "same_effect a b \<longleftrightarrow> fst a = fst b \<and> (snd a)\<lparr>xr_pending := []\<rparr> = (snd b)\<lparr>xr_pending := []\<rparr>
     \<and> (is_ok (fst a) \<longrightarrow> snd a = snd b)"

lemma consume_append:
  "same_effect (bindS (consume xs) (\<lambda>_. consume ys) r) (consume (xs @ ys) r)"
proof (cases "xr_finished r")
  case True
  then show ?thesis by (simp add: consume_eq bindS_def same_effect_def)
next
  case False
  let ?r = "r\<lparr>xr_pending := xr_pending r @ xs\<rparr>"
  have both: "consume (xs @ ys) r = consume_records (?r\<lparr>xr_pending := xr_pending ?r @ ys\<rparr>)"
    using False by (simp add: consume_eq)
  obtain res r' where c: "consume_records ?r = (res, r')" by (cases "consume_records ?r")
  have "\<not> xr_finished r'" using consume_records_finished [of ?r] c False by simp
  then show ?thesis
    using False consume_records_append [of ?r ys] c unfolding both
    by (cases res) (simp_all add: consume_eq bindS_def same_effect_def)
qed

lemma consume_all_concat:
  assumes "chunks \<noteq> []"
  shows "same_effect (consume_all chunks r) (consume (concat chunks) r)"
  using assms
proof (induction chunks arbitrary: r)
  case (Cons x chunks)
  have step: "same_effect (bindS (consume x) (\<lambda>_. consume (concat chunks)) r) (consume (concat (x # chunks)) r)"
    using consume_append by simp
  show ?case
  proof (cases "chunks = []")
    case True
    have "bindS (consume x) (\<lambda>_. returnS ()) r = consume x r"
      by (auto simp: bindS_def returnS_def split: prod.splits sum.splits)
    then show ?thesis using True by (simp add: same_effect_def)
  next
    case False
    show ?thesis
    proof (cases rule: bindS_cases [of "consume x" r "\<lambda>_. consume_all chunks"])
      case (1 e s')
      then have "bindS (consume x) (\<lambda>_. consume (concat chunks)) r = (Inl e, s')" by (simp add: bindS_def)
      with step 1(2) show ?thesis by simp
    next
      case (2 u s')
      have "same_effect (consume_all chunks s') (consume (concat chunks) s')" using Cons.IH False by blast
      then show ?thesis using step 2 by (auto simp: bindS_def same_effect_def)
    qed
  qed
qed simp

text \<open>
  C18: The boundaries of the plaintext chunks do not matter to the extraction.  However a stream is
  cut into non-empty or empty pieces, feeding the pieces one after the other to \<open>consume\<close> has the same
  result, the same effect on the file tree and, if no record is rejected, leaves the reader in the
  same state as a single call with the whole stream.
\<close>

theorem consume_independent_of_chunks:
  "same_effect (consume_all (chunk # chunks) r) (consume (concat (chunk # chunks)) r)"
  by (rule consume_all_concat) simp

end
