(* ===== verification/Decrypt_Pipeline.thy ===== *)
theory Decrypt_Pipeline
  imports Pipeline Shard_Reader Archive_Reader Key_Schedule
begin

text \<open>
  \<^verbatim>\<open>src/pipeline/DecryptPipeline.hpp\<close> and \<^verbatim>\<open>DecryptPipeline.cpp\<close>: what the threads of the decryption
  compute.  The producer takes chunk records from the \<open>ShardReader\<close>, a worker decrypts one chunk,
  and the sink feeds the plaintext to the \<open>ArchiveReader\<close>.  The files the \<open>ShardReader\<close> opens may
  be different at every call: they are a function of the number of calls made so far.
\<close>

record DecryptPipelineOptions =
  dp_chunk_plain_size :: u64
  dp_worker_count :: u32
  dp_queue_depth :: nat
  dp_archive_id :: bytes
  dp_public_header_hash :: bytes
  dp_per_shard_public_header_hashes :: "bytes list"
  dp_padded_plaintext_size :: u64

record CipherChunk =
  cc_index :: u64
  cc_plaintext_size :: u64
  cc_shard_index :: u32
  cc_frame_header_bytes :: bytes
  cc_ciphertext_and_tag :: bytes

record PlainChunk =
  pl_index :: u64
  pl_bytes :: bytes

definition select_public_header_hash :: "DecryptPipelineOptions \<Rightarrow> u32 \<Rightarrow> bytes" where
  "select_public_header_hash opts shard =
    (if dp_per_shard_public_header_hashes opts \<noteq> []
        \<and> shard < of_nat (length (dp_per_shard_public_header_hashes opts))
     then dp_per_shard_public_header_hashes opts ! unat shard
     else dp_public_header_hash opts)"

definition make_aad :: "DecryptPipelineOptions \<Rightarrow> u32 \<Rightarrow> bytes \<Rightarrow> ChunkAad" where
  "make_aad opts shard frame_header_bytes =
     \<lparr>aad_public_header_hash = select_public_header_hash opts shard,
      aad_chunk_frame_header = frame_header_bytes\<rparr>"

definition validate_decrypt_pipeline_inputs ::
  "DecryptPipelineOptions \<Rightarrow> CryptoBackend \<Rightarrow> ExpandedKeys \<Rightarrow> unit result" where
  "validate_decrypt_pipeline_inputs opts be keys =
    bindr (checked_chunk_size (dp_chunk_plain_size opts)) (\<lambda>_.
    throw_if (length (ek_chunk_encryption_key keys) \<noteq> cb_key_size be)
      (InvalidArgument ''chunk encryption key size does not match selected AEAD backend'') (
    throw_if (ek_nonce_derivation_key keys = [])
      (InvalidArgument ''nonce derivation key must not be empty'')
    (Inr ())))"

text \<open>\<open>reader_main\<close>: the next chunk.\<close>

definition cipher_chunk :: "ChunkRecord \<Rightarrow> CipherChunk" where
  "cipher_chunk rec =
     \<lparr>cc_index = cr_chunk_index rec, cc_plaintext_size = cr_plaintext_size rec,
      cc_shard_index = cr_shard_index rec, cc_frame_header_bytes = cr_frame_header_bytes rec,
      cc_ciphertext_and_tag = cr_ciphertext rec\<rparr>"

definition next_cipher_chunk :: "(nat \<Rightarrow> file_store) \<Rightarrow> (ShardReader \<times> nat, CipherChunk option) op" where
  "next_cipher_chunk files =
    (\<lambda>(reader, calls). case read_next_chunk_record (files calls) reader of
       (Inl e, reader') \<Rightarrow> (Inl e, reader', calls + 1)
     | (Inr rec, reader') \<Rightarrow> (Inr (map_option cipher_chunk rec), reader', calls + 1))"

text \<open>\<open>decryption_worker_main\<close>: the work on one chunk.\<close>

definition decrypt_cipher_chunk ::
  "hkdf_lib \<Rightarrow> DecryptPipelineOptions \<Rightarrow> CryptoBackend \<Rightarrow> ExpandedKeys \<Rightarrow> CipherChunk \<Rightarrow> PlainChunk result" where
  "decrypt_cipher_chunk lib opts be keys job =
    bindr (derive_chunk_nonce lib (ek_nonce_derivation_key keys)
      \<lparr>nc_suite = cb_suite be, nc_archive_id = dp_archive_id opts\<rparr> (cc_index job)) (\<lambda>nonce.
    bindr (cb_decrypt_chunk be
      \<lparr>dr_key = ek_chunk_encryption_key keys, dr_nonce = nonce,
       dr_ciphertext_and_tag = cc_ciphertext_and_tag job,
       dr_aad = make_aad opts (cc_shard_index job) (cc_frame_header_bytes job)\<rparr>) (\<lambda>plaintext.
    throw_if (of_nat (length plaintext) \<noteq> cc_plaintext_size job)
      (Error ''decrypted plaintext length does not match ChunkFrameHeaderV1'')
    (Inr \<lparr>pl_index = cc_index job, pl_bytes = plaintext\<rparr>)))"

text \<open>\<open>ordered_plaintext_consumer_main\<close>: the archive reader and the bytes it was given.\<close>

record plaintext_consumer =
  pt_archive_reader :: ArchiveReader
  pt_total_plaintext_bytes :: u64

definition on_archive_reader :: "(ArchiveReader, 'a) op \<Rightarrow> (plaintext_consumer, 'a) op" where
  "on_archive_reader m c =
    (case m (pt_archive_reader c) of (res, r) \<Rightarrow> (res, c\<lparr>pt_archive_reader := r\<rparr>))"

definition consume_plain_chunk :: "PlainChunk \<Rightarrow> (plaintext_consumer, unit) op" where
  "consume_plain_chunk chunk =
    bindS (modifyS (\<lambda>c. c\<lparr>pt_total_plaintext_bytes :=
        pt_total_plaintext_bytes c + of_nat (length (pl_bytes chunk))\<rparr>)) (\<lambda>_.
    on_archive_reader (consume (pl_bytes chunk)))"

definition finish_plaintext :: "u64 \<Rightarrow> (plaintext_consumer, unit) op" where
  "finish_plaintext expected_plaintext_bytes =
    getS (\<lambda>c.
    bindS (guardS (expected_plaintext_bytes \<noteq> 0
        \<and> pt_total_plaintext_bytes c \<noteq> expected_plaintext_bytes)
      (InvalidArgument ''decrypted plaintext length does not match public header padded_plaintext_size'')) (\<lambda>_.
    on_archive_reader finish))"

definition decrypt_code ::
  "hkdf_lib \<Rightarrow> DecryptPipelineOptions \<Rightarrow> CryptoBackend \<Rightarrow> ExpandedKeys \<Rightarrow> (nat \<Rightarrow> file_store)
     \<Rightarrow> (ShardReader \<times> nat, CipherChunk, PlainChunk, plaintext_consumer) pipe_code" where
  "decrypt_code lib opts be keys files =
     \<lparr>pc_check = (\<lambda>_. True), pc_next = next_cipher_chunk files, pc_ignores_refusal = (\<lambda>_. False),
      pc_work = decrypt_cipher_chunk lib opts be keys, pc_index = pl_index,
      pc_put = consume_plain_chunk, pc_end = finish_plaintext (dp_padded_plaintext_size opts),
      pc_stale = ''decrypt pipeline received a stale plaintext chunk'',
      pc_duplicate = ''decrypt pipeline received a duplicate plaintext chunk'',
      pc_missing = ''decrypt pipeline ended with missing plaintext chunks''\<rparr>"

text \<open>
  \<open>DecryptPipeline::run\<close> under a schedule of its threads.  \<open>None\<close>: the schedule is not one of the
  threads, or it stops before all of them have ended.
\<close>

definition start_decrypt ::
  "u32 \<Rightarrow> DecryptPipelineOptions \<Rightarrow> ShardReader \<Rightarrow> ArchiveReader
     \<Rightarrow> (ShardReader \<times> nat, CipherChunk, PlainChunk, plaintext_consumer) pipe_state" where
  "start_decrypt hardware_concurrency opts shard_reader archive_reader =
    (let worker_count = unat (resolve_worker_count hardware_concurrency (dp_worker_count opts)) in
     start_pipeline worker_count (resolve_queue_depth (dp_queue_depth opts) worker_count)
       (shard_reader, 0) \<lparr>pt_archive_reader = archive_reader, pt_total_plaintext_bytes = 0\<rparr>)"

definition run_decrypt ::
  "hkdf_lib \<Rightarrow> u32 \<Rightarrow> DecryptPipelineOptions \<Rightarrow> CryptoBackend option \<Rightarrow> ExpandedKeys \<Rightarrow> (nat \<Rightarrow> file_store)
     \<Rightarrow> thread list \<Rightarrow> ShardReader \<Rightarrow> ArchiveReader \<Rightarrow> (unit result \<times> ArchiveReader) option" where
  "run_decrypt lib hardware_concurrency opts backend keys files schedule shard_reader archive_reader =
    (case backend of
       None \<Rightarrow> Some (Inl (InvalidArgument ''decrypt pipeline requires a crypto backend''), archive_reader)
     | Some be \<Rightarrow>
       (case validate_decrypt_pipeline_inputs opts be keys of
          Inl e \<Rightarrow> Some (Inl e, archive_reader)
        | Inr _ \<Rightarrow>
          (case run_schedule (decrypt_code lib opts be keys files) schedule
                  (start_decrypt hardware_concurrency opts shard_reader archive_reader) of
             None \<Rightarrow> None
           | Some s \<Rightarrow> if all_done s then Some (pipeline_result s, pt_archive_reader (ps_snk s)) else None)))"


subsection \<open>What the threads do\<close>

lemma decrypt_code_sel [simp]:
  "pc_check (decrypt_code lib opts be keys files) src"
  "\<not> pc_ignores_refusal (decrypt_code lib opts be keys files) src"
  "pc_next (decrypt_code lib opts be keys files) = next_cipher_chunk files"
  "pc_work (decrypt_code lib opts be keys files) = decrypt_cipher_chunk lib opts be keys"
  "pc_index (decrypt_code lib opts be keys files) = pl_index"
  "pc_put (decrypt_code lib opts be keys files) = consume_plain_chunk"
  "pc_end (decrypt_code lib opts be keys files) = finish_plaintext (dp_padded_plaintext_size opts)"
  by (simp_all add: decrypt_code_def)

lemma next_cipher_chunk_Inr:
  "next_cipher_chunk files src = (Inr v, src') \<Longrightarrow>
     \<exists>rec. read_next_chunk_record (files (snd src)) (fst src) = (Inr rec, fst src') \<and> v = map_option cipher_chunk rec"
  by (cases src; cases src') (auto simp: next_cipher_chunk_def split: prod.splits sum.splits)

text \<open>The producer hands on the records the \<open>ShardReader\<close> returns.\<close>

lemma decrypt_yields:
  "yields (decrypt_code lib opts be keys files) src js src' \<Longrightarrow>
     \<exists>cs. js = map cipher_chunk cs \<and> reads (fst src) cs (fst src')"
proof (induction rule: yields.induct)
  case yields_none
  show ?case by (intro exI [of _ "[]"]) (simp add: reads_none)
next
  case (yields_next js src1 j src2)
  then obtain cs where cs: "js = map cipher_chunk cs" "reads (fst src) cs (fst src1)" by blast
  obtain rec where "read_next_chunk_record (files (snd src1)) (fst src1) = (Inr (Some rec), fst src2)" "j = cipher_chunk rec"
    using next_cipher_chunk_Inr [of files src1 "Some j" src2] yields_next(2) by (auto simp: eq_commute [of "Some j"])
  then show ?case using cs reads_next by (intro exI [of _ "cs @ [rec]"]) auto
qed

text \<open>The plaintext of a chunk: what the backend returns for the ciphertext under the key, the nonce
  of the chunk index, and the header hash and frame header as associated data.\<close>

definition authentic ::
  "hkdf_lib \<Rightarrow> DecryptPipelineOptions \<Rightarrow> CryptoBackend \<Rightarrow> ExpandedKeys \<Rightarrow> ChunkRecord \<Rightarrow> bytes \<Rightarrow> bool" where
  "authentic lib opts be keys c p \<longleftrightarrow>
     (\<exists>nonce. derive_chunk_nonce lib (ek_nonce_derivation_key keys)
         \<lparr>nc_suite = cb_suite be, nc_archive_id = dp_archive_id opts\<rparr> (cr_chunk_index c) = Inr nonce
       \<and> cb_decrypt_chunk be
          \<lparr>dr_key = ek_chunk_encryption_key keys, dr_nonce = nonce, dr_ciphertext_and_tag = cr_ciphertext c,
           dr_aad = make_aad opts (cr_shard_index c) (cr_frame_header_bytes c)\<rparr> = Inr p
       \<and> of_nat (length p) = cr_plaintext_size c)"

lemma decrypt_cipher_chunk_Inr:
  "decrypt_cipher_chunk lib opts be keys (cipher_chunk c) = Inr r \<longleftrightarrow>
     authentic lib opts be keys c (pl_bytes r) \<and> pl_index r = cr_chunk_index c"
  by (cases r) (auto simp: decrypt_cipher_chunk_def bindr_eq_Inr throw_if_eq_Inr cipher_chunk_def authentic_def)

lemma reader_at_bound:
  assumes "reader_at r n" "ranges_ok r"
  shows "n \<le> unat (sr_expected_total_chunk_count r)"
proof -
  let ?k = "sr_current_shard_pos r"
  have t: "chunks_before (sr_shards r) (length (sr_shards r)) = unat (sr_expected_total_chunk_count r)"
    using assms(2) by (simp add: ranges_ok_def)
  have n: "n = chunks_before (sr_shards r) ?k + unat (sr_current_record_in_shard r)"
    using assms(1) by (simp add: reader_at_def)
  show ?thesis
  proof (cases "sr_current_stream r")
    case None
    then have "sr_current_record_in_shard r = 0" using assms(1) by (simp add: reader_at_def)
    then show ?thesis using n t chunks_before_mono [of "sr_shards r" ?k] by simp
  next
    case (Some st)
    then have k: "?k < length (sr_shards r)" "sr_current_record_in_shard r \<le> chunk_count (sr_shards r ! ?k)"
      using assms(1) by (simp_all add: reader_at_def)
    then show ?thesis
      using n t chunks_before_Suc [OF k(1)] chunks_before_le [OF k(1)] by (simp add: word_le_nat_alt)
  qed
qed

lemma decrypt_indexed:
  assumes "reader_at r 0" "ranges_ok r"
  shows "indexed (decrypt_code lib opts be keys files) (r, 0)"
  unfolding indexed_def
proof (intro allI impI conjI)
  fix js src
  assume "yields (decrypt_code lib opts be keys files) (r, 0) js src"
  from decrypt_yields [OF this] obtain cs where cs: "js = map cipher_chunk cs" "reads r cs (fst src)" by auto
  note rs = reads_reader_at [OF cs(2) assms]
  then have at: "reader_at (fst src) (length cs)" "ranges_ok (fst src)" using assms(2) same_archive_ranges by blast+
  then have "length cs \<le> unat (sr_expected_total_chunk_count (fst src))"
    by (rule reader_at_bound)
  then show "length js < 2 ^ 64" using unat_u64_lt [of "sr_expected_total_chunk_count (fst src)"] cs(1) by simp
  fix k res
  assume k: "k < length js" and w: "pc_work (decrypt_code lib opts be keys files) (js ! k) = Inr res"
  then have "pl_index res = cr_chunk_index (cs ! k)" using cs(1) by (simp add: decrypt_cipher_chunk_Inr)
  moreover have "cr_chunk_index (cs ! k) = of_nat k" using rs k cs(1) by (simp add: record_ok_def)
  ultimately show "unat (pc_index (decrypt_code lib opts be keys files) res) = k"
    using k \<open>length js < 2 ^ 64\<close> by (simp add: unat_of_nat_u64)
qed

text \<open>The sink.\<close>

lemma consume_plain_chunk_eq:
  "consume_plain_chunk p c = (case consume (pl_bytes p) (pt_archive_reader c) of (res, r) \<Rightarrow>
     (res, c\<lparr>pt_archive_reader := r, pt_total_plaintext_bytes := pt_total_plaintext_bytes c + of_nat (length (pl_bytes p))\<rparr>))"
  by (simp add: consume_plain_chunk_def on_archive_reader_def bindS_def modifyS_def split: prod.splits)

lemma put_all_consumes:
  "put_all (decrypt_code lib opts be keys files) rs c = (res, c') \<Longrightarrow>
     consume_all (map pl_bytes rs) (pt_archive_reader c) = (res, pt_archive_reader c')
     \<and> (is_ok res \<longrightarrow> pt_total_plaintext_bytes c' =
          pt_total_plaintext_bytes c + of_nat (length (concat (map pl_bytes rs))))"
proof (induction rs arbitrary: c)
  case Nil
  then show ?case by (auto simp: returnS_def)
next
  case (Cons p rs)
  obtain res1 r1 where p: "consume (pl_bytes p) (pt_archive_reader c) = (res1, r1)"
    by (cases "consume (pl_bytes p) (pt_archive_reader c)")
  let ?c = "c\<lparr>pt_archive_reader := r1, pt_total_plaintext_bytes := pt_total_plaintext_bytes c + of_nat (length (pl_bytes p))\<rparr>"
  show ?case
  proof (cases res1)
    case (Inl e)
    then show ?thesis using Cons.prems p by (auto simp: bindS_def consume_plain_chunk_eq)
  next
    case (Inr u)
    then have "put_all (decrypt_code lib opts be keys files) rs ?c = (res, c')"
      using Cons.prems p by (simp add: bindS_def consume_plain_chunk_eq)
    from Cons.IH [OF this] show ?thesis using p Inr by (simp add: bindS_def algebra_simps)
  qed
qed

lemma finish_plaintext_eq:
  "finish_plaintext n c =
     (if n \<noteq> 0 \<and> pt_total_plaintext_bytes c \<noteq> n
      then (Inl (InvalidArgument ''decrypted plaintext length does not match public header padded_plaintext_size''), c)
      else (case finish (pt_archive_reader c) of (res, r) \<Rightarrow> (res, c\<lparr>pt_archive_reader := r\<rparr>)))"
  by (simp add: finish_plaintext_def on_archive_reader_def getS_def bindS_def guardS_def split: prod.splits)


subsection \<open>The outcome of a decryption\<close>

lemma results_of_decrypt:
  assumes "results_of (decrypt_code lib opts be keys files) (map cipher_chunk cs) rs"
  shows "length rs \<le> length cs \<and> (\<forall>n<length rs. authentic lib opts be keys (cs ! n) (map pl_bytes rs ! n))"
  using assms by (auto simp: results_of_def decrypt_cipher_chunk_Inr)

text \<open>What an extraction may have been given: plaintexts of the first chunks, in order; \<open>finish\<close> only
  after all chunks, and with the planned total size.\<close>

definition extracted ::
  "hkdf_lib \<Rightarrow> DecryptPipelineOptions \<Rightarrow> CryptoBackend \<Rightarrow> ExpandedKeys \<Rightarrow> ShardReader
     \<Rightarrow> bytes list \<Rightarrow> bool" where
  "extracted lib opts be keys sr ps \<longleftrightarrow>
     (\<exists>cs sr'. reads sr cs sr' \<and> length ps \<le> length cs
        \<and> (\<forall>n<length ps. record_ok (sr_shards sr) (sr_expected_total_chunk_count sr) n (cs ! n)
             \<and> authentic lib opts be keys (cs ! n) (ps ! n)))"

definition complete_plaintext :: "DecryptPipelineOptions \<Rightarrow> ShardReader \<Rightarrow> bytes list \<Rightarrow> bool" where
  "complete_plaintext opts sr ps \<longleftrightarrow> length ps = unat (sr_expected_total_chunk_count sr)
     \<and> (dp_padded_plaintext_size opts \<noteq> 0 \<longrightarrow> of_nat (length (concat ps)) = dp_padded_plaintext_size opts)"

lemma put_all_finish:
  assumes "bindS (put_all (decrypt_code lib opts be keys files) rs)
      (\<lambda>_. finish_plaintext (dp_padded_plaintext_size opts)) c = (res, c')"
    "pt_total_plaintext_bytes c = 0"
  shows "pt_archive_reader c' = snd (consume_all (map pl_bytes rs) (pt_archive_reader c)) \<and> \<not> is_ok res
    \<or> (dp_padded_plaintext_size opts \<noteq> 0 \<longrightarrow>
         of_nat (length (concat (map pl_bytes rs))) = dp_padded_plaintext_size opts)
      \<and> bindS (consume_all (map pl_bytes rs)) (\<lambda>_. finish) (pt_archive_reader c) = (res, pt_archive_reader c')"
proof -
  let ?code = "decrypt_code lib opts be keys files"
  obtain res1 c1 where p: "put_all ?code rs c = (res1, c1)" by (cases "put_all ?code rs c")
  note q = put_all_consumes [OF p]
  show ?thesis
  proof (cases res1)
    case (Inl e)
    then show ?thesis using assms(1) p q by (auto simp: bindS_def)
  next
    case (Inr u)
    then have f: "finish_plaintext (dp_padded_plaintext_size opts) c1 = (res, c')"
      using assms(1) p by (simp add: bindS_def)
    show ?thesis
    proof (cases "dp_padded_plaintext_size opts \<noteq> 0 \<and> pt_total_plaintext_bytes c1 \<noteq> dp_padded_plaintext_size opts")
      case True
      then show ?thesis using f q Inr by (auto simp: finish_plaintext_eq)
    next
      case False
      then show ?thesis
        using f q Inr assms(2) by (auto simp: finish_plaintext_eq bindS_def split: prod.splits)
    qed
  qed
qed

lemma decrypt_reached:
  assumes "reader_at sr 0" "ranges_ok sr"
    and run: "run_schedule (decrypt_code lib opts be keys files) schedule (start_decrypt hw opts sr xr) = Some s"
  shows "\<exists>ps. extracted lib opts be keys sr ps
    \<and> (pt_archive_reader (ps_snk s) = snd (consume_all ps xr)
       \<or> complete_plaintext opts sr ps
         \<and> pt_archive_reader (ps_snk s) = snd (bindS (consume_all ps) (\<lambda>_. finish) xr))
    \<and> (all_done s \<and> pipeline_result s = Inr () \<longrightarrow> complete_plaintext opts sr ps
         \<and> bindS (consume_all ps) (\<lambda>_. finish) xr = (Inr (), pt_archive_reader (ps_snk s)))"
proof -
  let ?code = "decrypt_code lib opts be keys files"
  let ?snk = "\<lparr>pt_archive_reader = xr, pt_total_plaintext_bytes = 0\<rparr>"
  have "pipe_inv ?code (sr, 0) ?snk s"
    by (rule run_schedule_inv [OF run _ decrypt_indexed [OF assms(1,2)]])
       (simp add: start_decrypt_def Let_def start_inv [OF resolve_worker_count_pos])
  from pipe_inv_delivered [OF this] obtain js src rs where y: "yields ?code (sr, 0) js src"
    and rs: "results_of ?code js rs"
    and d: "ps_snk s = snd (put_all ?code rs ?snk)
      \<or> length rs = length js \<and> all_given ?code (sr, 0) js
        \<and> ps_snk s = snd (bindS (put_all ?code rs) (\<lambda>_. pc_end ?code) ?snk)"
    and e: "ps_failure s = None \<and> ps_sink s = SinkDone \<longrightarrow> length rs = length js \<and> all_given ?code (sr, 0) js
       \<and> bindS (put_all ?code rs) (\<lambda>_. pc_end ?code) ?snk = (Inr (), ps_snk s)"
    by blast
  from decrypt_yields [OF y] obtain cs where cs: "js = map cipher_chunk cs" "reads sr cs (fst src)" by auto
  let ?ps = "map pl_bytes rs"
  note r = results_of_decrypt [OF rs [unfolded cs(1)]]
  have ex: "extracted lib opts be keys sr ?ps"
    unfolding extracted_def using cs(2) r reads_reader_at [OF cs(2) assms(1,2)]
    by (intro exI [of _ cs] exI [of _ "fst src"]) auto
  have len: "length ?ps = unat (sr_expected_total_chunk_count sr)"
    if a: "all_given ?code (sr, 0) js" "length rs = length js"
  proof -
    from a(1) obtain src1 where y1: "yields ?code (sr, 0) js src1" and n: "fst (pc_next ?code src1) = Inr None"
      by (auto simp: all_given_def)
    obtain cs1 where cs1: "js = map cipher_chunk cs1" "reads sr cs1 (fst src1)" using decrypt_yields [OF y1] by auto
    note at = reads_reader_at [OF cs1(2) assms(1,2)]
    obtain src2 where "next_cipher_chunk files src1 = (Inr None, src2)" using n by (cases "next_cipher_chunk files src1") auto
    from next_cipher_chunk_Inr [OF this] have
      nx: "read_next_chunk_record (files (snd src1)) (fst src1) = (Inr None, fst src2)" by auto
    have "ranges_ok (fst src1)" using at assms(2) same_archive_ranges by blast
    from read_next_Inr [OF nx _ this, of "length cs1"] at show ?thesis
      using cs1(1) a(2) by (simp add: same_archive_def)
  qed
  have at_end: "pt_archive_reader c' = snd (consume_all ?ps xr) \<and> \<not> is_ok res
      \<or> complete_plaintext opts sr ?ps \<and> bindS (consume_all ?ps) (\<lambda>_. finish) xr = (res, pt_archive_reader c')"
    if "length rs = length js \<and> all_given ?code (sr, 0) js"
      "bindS (put_all ?code rs) (\<lambda>_. pc_end ?code) ?snk = (res, c')" for res c'
    using put_all_finish [of lib opts be keys files rs ?snk res c'] that len unfolding complete_plaintext_def by auto
  have "pt_archive_reader (ps_snk s) = snd (consume_all ?ps xr)
      \<or> complete_plaintext opts sr ?ps \<and> pt_archive_reader (ps_snk s) = snd (bindS (consume_all ?ps) (\<lambda>_. finish) xr)"
    using d
  proof
    assume p: "ps_snk s = snd (put_all ?code rs ?snk)"
    obtain res c' where q: "put_all ?code rs ?snk = (res, c')" by (cases "put_all ?code rs ?snk")
    show ?thesis using put_all_consumes [OF q] p q by simp
  next
    assume a: "length rs = length js \<and> all_given ?code (sr, 0) js
      \<and> ps_snk s = snd (bindS (put_all ?code rs) (\<lambda>_. pc_end ?code) ?snk)"
    obtain res c' where q: "bindS (put_all ?code rs) (\<lambda>_. pc_end ?code) ?snk = (res, c')"
      by (cases "bindS (put_all ?code rs) (\<lambda>_. pc_end ?code) ?snk")
    show ?thesis using at_end [OF _ q] a q by auto
  qed
  moreover have "complete_plaintext opts sr ?ps \<and> bindS (consume_all ?ps) (\<lambda>_. finish) xr = (Inr (), pt_archive_reader (ps_snk s))"
    if "all_done s" "pipeline_result s = Inr ()"
  proof -
    have "ps_failure s = None" "ps_sink s = SinkDone"
      using that by (auto simp: all_done_def pipeline_result_def split: option.splits)
    then show ?thesis using e at_end [of "Inr ()" "ps_snk s"] by simp
  qed
  ultimately show ?thesis using ex by blast
qed

lemma decrypt_run_extracted:
  assumes "new_ShardReader hmac shards key v = Inr sr"
    "run_decrypt lib hw opts (Some be) keys files schedule sr xr = Some (res, xr')"
  shows "\<exists>ps. extracted lib opts be keys sr ps
    \<and> (xr' = snd (consume_all ps xr)
       \<or> complete_plaintext opts sr ps \<and> xr' = snd (bindS (consume_all ps) (\<lambda>_. finish) xr))
    \<and> (res = Inr () \<longrightarrow> complete_plaintext opts sr ps
         \<and> bindS (consume_all ps) (\<lambda>_. finish) xr = (Inr (), xr'))"
proof (cases "validate_decrypt_pipeline_inputs opts be keys")
  case (Inl e)
  have "extracted lib opts be keys sr []" by (auto simp: extracted_def intro: reads_none)
  then show ?thesis using assms(2) Inl
    by (intro exI [of _ "[]"]) (auto simp: run_decrypt_def returnS_def)
next
  case (Inr u)
  then obtain s where s: "run_schedule (decrypt_code lib opts be keys files) schedule (start_decrypt hw opts sr xr) = Some s"
    "all_done s" "res = pipeline_result s" "xr' = pt_archive_reader (ps_snk s)"
    using assms(2) by (auto simp: run_decrypt_def split: option.splits if_splits)
  show ?thesis using decrypt_reached [OF _ _ s(1)] new_ShardReader_Inr [OF assms(1)] s(2-4) by simp
qed

text \<open>C4: Whatever the shard files contain and whichever order the threads run in, \<open>DecryptPipeline::run\<close>
  gives the \<open>ArchiveReader\<close> nothing but the plaintexts of the chunks 0, 1, 2, ... in this order, each
  authenticated by the backend under the nonce of its index with the header hash of its shard and
  its frame header as associated data; \<open>finish\<close>, which promotes the output, is called only after all
  chunks of the archive and if their total length is \<open>padded_plaintext_size\<close>; and if \<open>run\<close> returns
  without an exception, exactly this has happened and \<open>finish\<close> has succeeded.\<close>
theorem decryption_is_authenticated:
  assumes "new_ShardReader hmac shards key v = Inr sr"
    "run_decrypt lib hw opts (Some be) keys files schedule sr xr = Some (res, xr')"
  shows "\<exists>ps. extracted lib opts be keys sr ps
    \<and> (xr' = snd (consume_all ps xr)
       \<or> complete_plaintext opts sr ps \<and> xr' = snd (bindS (consume_all ps) (\<lambda>_. finish) xr))
    \<and> (res = Inr () \<longrightarrow> complete_plaintext opts sr ps
         \<and> bindS (consume_all ps) (\<lambda>_. finish) xr = (Inr (), xr'))"
  by (rule decrypt_run_extracted [OF assms])

subsection \<open>A concrete decryption\<close>

definition tiny_backend :: CryptoBackend where
  "tiny_backend = XChaCha20Poly1305Backend \<lparr>so_init = 0,
     so_encrypt = \<lambda>k n a m. Some (m @ replicate 16 3), so_decrypt = \<lambda>k n a c. Some (take (length c - 16) c)\<rparr>"

definition tiny_keys :: ExpandedKeys where
  "tiny_keys = \<lparr>ek_chunk_encryption_key = replicate 32 1, ek_manifest_key = replicate 32 2,
     ek_header_authentication_key = replicate 32 5, ek_nonce_derivation_key = replicate 32 4\<rparr>"

definition tiny_decrypt_options :: DecryptPipelineOptions where
  "tiny_decrypt_options = \<lparr>dp_chunk_plain_size = 65536, dp_worker_count = 1, dp_queue_depth = 0,
     dp_archive_id = replicate 32 0, dp_public_header_hash = [],
     dp_per_shard_public_header_hashes = [replicate 32 8], dp_padded_plaintext_size = 1\<rparr>"

definition tiny_archive_reader :: ArchiveReader where
  "tiny_archive_reader = initial_reader \<lparr>xo_output_root = ''/out'', xo_overwrite_existing = False, xo_restore_timestamps = True,
     xo_restore_permissions = True, xo_allow_symlinks = False, xo_hardened_extract_mode = HardenedAuto,
     xo_durability_mode = DurabilityOff, xo_durability_hooks = hooks_noop\<rparr> ''/out/.tmp''
     \<lparr>ft_entries = [([''out''], fresh Dir)], ft_cwd = [], ft_clock = 0, ft_fault = \<lambda>_. False\<rparr>"

text \<open>The run, thread by thread.\<close>

definition tiny_read_once :: ShardReader where
  "tiny_read_once = snd (read_next_chunk_record tiny_files tiny_reader)"

definition tiny_read_twice :: ShardReader where
  "tiny_read_twice = snd (read_next_chunk_record tiny_files tiny_read_once)"

lemma tiny_reader_end: "fst (read_next_chunk_record tiny_files tiny_read_once) = Inr None"
  by code_simp

lemma tiny_next:
  "next_cipher_chunk (\<lambda>_. tiny_files) (tiny_reader, 0) = (Inr (Some (cipher_chunk tiny_record)), tiny_read_once, Suc 0)"
  "next_cipher_chunk (\<lambda>_. tiny_files) (tiny_read_once, Suc 0) = (Inr None, tiny_read_twice, 2)"
  using tiny_read tiny_reader_end unfolding tiny_read_twice_def tiny_read_once_def
  by (auto simp: next_cipher_chunk_def split: prod.splits)

lemma tiny_work:
  "decrypt_cipher_chunk sample_hkdf tiny_decrypt_options tiny_backend tiny_keys (cipher_chunk tiny_record)
     = Inr \<lparr>pl_index = 0, pl_bytes = [3]\<rparr>"
  by code_simp

definition tiny_code :: "(ShardReader \<times> nat, CipherChunk, PlainChunk, plaintext_consumer) pipe_code" where
  "tiny_code = decrypt_code sample_hkdf tiny_decrypt_options tiny_backend tiny_keys (\<lambda>_. tiny_files)"

definition tiny_fed :: ArchiveReader where "tiny_fed = tiny_archive_reader\<lparr>xr_pending := [3]\<rparr>"

lemma tiny_consume: "consume [3] tiny_archive_reader = (Inr (), tiny_fed)"
  by (simp add: tiny_fed_def tiny_archive_reader_def initial_reader_def consume_eq consume_records.simps encoded_record_size_if_complete_def)

lemma tiny_finish: "finish tiny_fed = (Inl (InvalidArgument ''archive ended with a partial record''), tiny_fed)"
  by (simp add: tiny_fed_def tiny_archive_reader_def initial_reader_def finish_def getS_def bindS_def guardS_def)

definition tiny_middle :: "(ShardReader \<times> nat, CipherChunk, PlainChunk, plaintext_consumer) pipe_state" where
  "tiny_middle = \<lparr>ps_src = (tiny_read_twice, 2), ps_producer = ProducerDone, ps_jobs = \<lparr>wq_capacity = 2, wq_closed = True, wq_queue = []\<rparr>,
      ps_workers = [WorkerDone], ps_results = \<lparr>wq_capacity = 2, wq_closed = True, wq_queue = [\<lparr>pl_index = 0, pl_bytes = [3]\<rparr>]\<rparr>,
      ps_joined = True, ps_sink = SinkPop, ps_pending = [], ps_next_expected_index = 0,
      ps_snk = \<lparr>pt_archive_reader = tiny_archive_reader, pt_total_plaintext_bytes = 0\<rparr>, ps_failure = None\<rparr>"

lemma tiny_start:
  "start_decrypt 0 tiny_decrypt_options tiny_reader tiny_archive_reader = start_pipeline 1 2 (tiny_reader, 0)
     \<lparr>pt_archive_reader = tiny_archive_reader, pt_total_plaintext_bytes = 0\<rparr>"
  by (simp add: start_decrypt_def tiny_decrypt_options_def resolve_worker_count_def resolve_queue_depth_def)

definition tiny_begin :: "thread list" where
  "tiny_begin = [Producer, Producer, Worker 0, Worker 0, Worker 0, Worker 0, Producer, Worker 0, Worker 0, Joiner]"

lemma tiny_run_middle:
  "run_schedule tiny_code tiny_begin
     (start_decrypt 0 tiny_decrypt_options tiny_reader tiny_archive_reader) = Some tiny_middle"
  by (simp add: tiny_begin_def tiny_start start_pipeline_def new_WorkQueue_def producer_step_def worker_step_def joiner_step_def set_worker_def
      producer_ends_def push_def pop_def push_ready_def pop_ready_def close_queue_def tiny_next tiny_work tiny_middle_def tiny_code_def)

definition tiny_schedule :: "thread list" where
  "tiny_schedule = tiny_begin @ [Sink, Sink]"

lemma tiny_decryption:
  "run_decrypt sample_hkdf 0 tiny_decrypt_options (Some tiny_backend) tiny_keys (\<lambda>_. tiny_files)
     tiny_schedule tiny_reader tiny_archive_reader
   = Some (Inl (InvalidArgument ''archive ended with a partial record''), tiny_fed)"
proof -
  have d: "drain consume_plain_chunk [(0, \<lparr>pl_index = 0, pl_bytes = [3]\<rparr>)] 0
      \<lparr>pt_archive_reader = tiny_archive_reader, pt_total_plaintext_bytes = 0\<rparr>
    = (Inr (), [], 1, \<lparr>pt_archive_reader = tiny_fed, pt_total_plaintext_bytes = 1\<rparr>)"
    by (subst drain.simps, simp add: consume_plain_chunk_eq tiny_consume, subst drain.simps, simp)
  have v: "validate_decrypt_pipeline_inputs tiny_decrypt_options tiny_backend tiny_keys = Inr ()"
    by (simp add: validate_decrypt_pipeline_inputs_def checked_chunk_size_def tiny_decrypt_options_def tiny_backend_def
        XChaCha20Poly1305Backend_def tiny_keys_def)
  have o: "dp_padded_plaintext_size tiny_decrypt_options = 1" by (simp add: tiny_decrypt_options_def)
  have "\<exists>s. run_schedule tiny_code [Sink, Sink] tiny_middle = Some s \<and> all_done s
      \<and> pipeline_result s = Inl (InvalidArgument ''archive ended with a partial record'') \<and> pt_archive_reader (ps_snk s) = tiny_fed"
    by (simp add: tiny_middle_def sink_step_def pop_ready_def pop_def sink_item_def tiny_code_def d
        sink_end_def finish_plaintext_eq o tiny_finish sink_fails_def Let_def
        all_done_def pipeline_result_def record_failure_def)
  then show ?thesis
    using tiny_run_middle unfolding tiny_code_def
    by (auto simp: run_decrypt_def v tiny_schedule_def run_schedule_append simp del: run_schedule.simps)
qed

theorem decryption_is_authenticated_witness:
  "\<exists>ps. extracted sample_hkdf tiny_decrypt_options tiny_backend tiny_keys tiny_reader ps
     \<and> (tiny_fed = snd (consume_all ps tiny_archive_reader)
        \<or> complete_plaintext tiny_decrypt_options tiny_reader ps
          \<and> tiny_fed = snd (bindS (consume_all ps) (\<lambda>_. finish) tiny_archive_reader))"
  using decryption_is_authenticated [OF tiny_accepted tiny_decryption] by blast

end
