(* ===== verification/Archive_Writer.thy ===== *)
theory Archive_Writer
  imports File_Tree Record_Format "HOL-Library.List_Lexorder"
begin

text \<open>
  \<^verbatim>\<open>src/archive/ArchiveWriter.hpp\<close> and \<^verbatim>\<open>ArchiveWriter.cpp\<close>: the plaintext record stream of an input
  directory.  The writer only reads the file system, and what it sees may change while it reads: a
  view gives the tree at every call, with the modes and times of the entries for which the tree has
  none.  Within one call of \<open>metadata_for\<close> the tree is one and the same.  A call fails from outside if
  the schedule of the tree at that call says so.  An entry found in the constructor remembers the
  kind the iterator has reported for it, as \<open>std::filesystem::directory_entry\<close> does.
\<close>

record ArchiveWriterOptions =
  ao_input_root :: path
  ao_chunk_plain_size :: u64
  ao_preserve_timestamps :: bool
  ao_preserve_permissions :: bool
  ao_include_symlinks :: bool

record input_view =
  iv_tree :: "nat \<Rightarrow> file_tree"
  iv_mode :: "nat \<Rightarrow> names \<Rightarrow> u32"
  iv_mtime :: "nat \<Rightarrow> names \<Rightarrow> u64 option"

datatype dirent_kind = RegularEntry | DirEntry | LinkEntry | OtherEntry

record directory_entry =
  de_path :: path
  de_kind :: dirent_kind

record ArchiveWriter =
  aw_options :: ArchiveWriterOptions
  aw_entries :: "directory_entry list"
  aw_entry_index :: nat
  aw_emitted_begin :: bool
  aw_emitted_end :: bool
  aw_current_file :: names
  aw_current_file_eof :: bool
  aw_current_file_open :: bool
  aw_file_bytes_payload_size :: nat
  aw_trailing_padding_record :: "bytes option"
  aw_trailing_padding_emitted :: bool
  aw_current_file_expected_bytes :: u64
  aw_current_file_bytes_read :: u64
  aw_current_file_pos :: nat
  aw_bytes_produced :: u64
  aw_calls :: nat

definition permissions_to_bits :: "u32 \<Rightarrow> u32" where
  "permissions_to_bits perms = and perms 0xFFF"

subsection \<open>Construction\<close>

definition entry_kind :: "node option \<Rightarrow> dirent_kind" where
  "entry_kind nd = (case nd of Some Dir \<Rightarrow> DirEntry | Some (File _) \<Rightarrow> RegularEntry | Some (Link _) \<Rightarrow> LinkEntry | None \<Rightarrow> OtherEntry)"

text \<open>
  \<open>std::filesystem::recursive_directory_iterator\<close>: the entry it stands at with the entries behind it,
  and how many more steps succeed before an error (\<open>None\<close>: all of them).  The end iterator has no
  entry.  The constructor and \<open>increment\<close> set the error code or clear it, and on an error the iterator
  becomes the end iterator.
\<close>

record dir_iterator =
  di_entries :: "directory_entry list"
  di_good_steps :: "nat option"

definition directory_walk :: "file_tree \<Rightarrow> names \<Rightarrow> directory_entry list" where
  "directory_walk t root = map (\<lambda>q. \<lparr>de_path = absolute_path q, de_kind = entry_kind (node_at t q)\<rparr>)
     (filter (\<lambda>q. is_beneath root q \<and> q \<noteq> root) (remdups (map fst (ft_entries t))))"

definition iterator_step :: "directory_entry list \<Rightarrow> nat option \<Rightarrow> dir_iterator \<times> bool" where
  "iterator_step es good_steps = (case good_steps of
     Some 0 \<Rightarrow> (\<lparr>di_entries = [], di_good_steps = Some 0\<rparr>, True)
   | Some (Suc n) \<Rightarrow> (\<lparr>di_entries = es, di_good_steps = Some n\<rparr>, False)
   | None \<Rightarrow> (\<lparr>di_entries = es, di_good_steps = None\<rparr>, False))"

definition open_iterator :: "file_tree \<Rightarrow> names \<Rightarrow> nat option \<Rightarrow> dir_iterator \<times> bool" where
  "open_iterator t root walk_end = iterator_step (directory_walk t root) walk_end"

definition increment :: "dir_iterator \<Rightarrow> dir_iterator \<times> bool" where
  "increment it = iterator_step (tl (di_entries it)) (di_good_steps it)"

text \<open>
  The loop of the constructor: it compares the iterator with the end iterator, then looks at the
  error code.  \<open>is_symlink(ec)\<close> reads the kind that the entry remembers and clears the error code, which
  \<open>increment\<close> sets anew.  \<open>disable_recursion_pending\<close> has no effect: links are not followed.
\<close>

function walk_loop :: "bool \<Rightarrow> dir_iterator \<Rightarrow> bool \<Rightarrow> directory_entry list \<Rightarrow> directory_entry list result" where
  "walk_loop include_symlinks it ec entries =
    (case di_entries it of
       [] \<Rightarrow> Inr entries
     | e # _ \<Rightarrow>
       throw_if ec (InvalidArgument ''error while walking input directory: '') (
       let entries = (if de_kind e = LinkEntry \<and> \<not> include_symlinks then entries else entries @ [e]);
           (it', ec') = increment it in
       walk_loop include_symlinks it' ec' entries))"
  by pat_completeness auto

lemma increment_shorter: "di_entries it = e # es \<Longrightarrow> increment it = (it', ec') \<Longrightarrow> length (di_entries it') \<le> length es"
  by (auto simp: increment_def iterator_step_def split: option.splits nat.splits)

termination walk_loop
  by (relation "measure (\<lambda>(_, it, _, _). length (di_entries it))") (auto dest: increment_shorter [OF _ sym] simp: less_Suc_eq_le)

definition walk_directory :: "bool \<Rightarrow> file_tree \<Rightarrow> names \<Rightarrow> nat option \<Rightarrow> directory_entry list result" where
  "walk_directory include_symlinks t root walk_end =
    (let (it, ec) = open_iterator t root walk_end in walk_loop include_symlinks it ec [])"

definition payload_size_for :: "u64 \<Rightarrow> nat" where
  "payload_size_for chunk_plain_size = unat (min (max (chunk_plain_size div 4) (64 * 1024)) (1024 * 1024))"

definition sort_name :: "file_tree \<Rightarrow> path \<Rightarrow> directory_entry \<Rightarrow> nat list" where
  "sort_name t root e =
    (case relative_path t (de_path e) root of
       None \<Rightarrow> []
     | Some p \<Rightarrow> map of_char (generic_string p))"

definition new_ArchiveWriter :: "ArchiveWriterOptions \<Rightarrow> file_tree \<Rightarrow> nat option \<Rightarrow> ArchiveWriter result" where
  "new_ArchiveWriter opts t walk_end =
    throw_if (ao_input_root opts = []) (InvalidArgument ''ArchiveWriter input root must not be empty'') (
    (case weakly_canonical t (ao_input_root opts) of
       None \<Rightarrow> Inl (InvalidArgument ''cannot canonicalize input root: '')
     | Some root \<Rightarrow>
       throw_if (\<not> is_dir t root) (InvalidArgument ''ArchiveWriter input root is not a directory'') (
       bindr (walk_directory (ao_include_symlinks opts) t root walk_end) (\<lambda>entries.
       throw_if (\<exists>e\<in>set entries. 1 < length entries \<and> relative_path t (de_path e) (absolute_path root) = None)
         (SystemError ''filesystem error: cannot get relative path'') (
       Inr \<lparr>aw_options = opts\<lparr>ao_input_root := absolute_path root\<rparr>,
            aw_entries = sort_key (sort_name t (absolute_path root)) entries,
            aw_entry_index = 0, aw_emitted_begin = False, aw_emitted_end = False,
            aw_current_file = [], aw_current_file_eof = False, aw_current_file_open = False,
            aw_file_bytes_payload_size = payload_size_for (ao_chunk_plain_size opts),
            aw_trailing_padding_record = None, aw_trailing_padding_emitted = False,
            aw_current_file_expected_bytes = 0, aw_current_file_bytes_read = 0, aw_current_file_pos = 0,
            aw_bytes_produced = 0, aw_calls = 0\<rparr>)))))"

subsection \<open>The entries of a walk\<close>

text \<open>
  What the loop finds: the entries before the error.  It never throws, since an iterator with an error
  is the end iterator.
\<close>

definition walked :: "nat option \<Rightarrow> directory_entry list \<Rightarrow> directory_entry list" where
  "walked good_steps es = (case good_steps of None \<Rightarrow> es | Some n \<Rightarrow> take n es)"

definition iterate :: "file_tree \<Rightarrow> names \<Rightarrow> nat option \<Rightarrow> directory_entry list" where
  "iterate t root walk_end = walked walk_end (directory_walk t root)"

abbreviation kept_entry :: "bool \<Rightarrow> directory_entry \<Rightarrow> bool" where
  "kept_entry include_symlinks e \<equiv> \<not> (de_kind e = LinkEntry \<and> \<not> include_symlinks)"

declare walk_loop.simps [simp del]

lemma walk_loop_steps:
  "walk_loop include (fst (iterator_step es n)) (snd (iterator_step es n)) acc
     = Inr (acc @ filter (kept_entry include) (walked n es))"
proof (induction es arbitrary: n acc)
  case Nil
  show ?case by (subst walk_loop.simps) (simp add: iterator_step_def walked_def split: option.splits nat.splits)
next
  case (Cons e es)
  have bad: "walk_loop include \<lparr>di_entries = [], di_good_steps = Some 0\<rparr> True acc = Inr acc"
    by (subst walk_loop.simps) simp
  show ?case
  proof (cases "n = Some 0")
    case True
    then show ?thesis by (simp add: iterator_step_def walked_def bad)
  next
    case False
    let ?n = "map_option (\<lambda>k. k - 1) n"
    have it: "iterator_step (e # es) n = (\<lparr>di_entries = e # es, di_good_steps = ?n\<rparr>, False)"
      "walked n (e # es) = e # walked ?n es"
      using False by (auto simp: iterator_step_def walked_def take_Cons split: option.splits nat.splits)
    have "walk_loop include \<lparr>di_entries = e # es, di_good_steps = ?n\<rparr> False acc
        = walk_loop include (fst (iterator_step es ?n)) (snd (iterator_step es ?n))
            (if de_kind e = LinkEntry \<and> \<not> include then acc else acc @ [e])"
      by (subst walk_loop.simps) (simp add: throw_if_def increment_def split: prod.split)
    then show ?thesis using Cons.IH unfolding it by simp
  qed
qed

lemma walk_directory_eq:
  "walk_directory include t root walk_end = Inr (filter (kept_entry include) (iterate t root walk_end))"
  using walk_loop_steps [of "include" "directory_walk t root" walk_end "[]"]
  by (simp add: walk_directory_def open_iterator_def iterate_def split_beta)

subsection \<open>Metadata\<close>

text \<open>The status of an entry that exists, and what the metadata say of it.\<close>

definition status_metadata ::
  "input_view \<Rightarrow> ArchiveWriterOptions \<Rightarrow> nat \<Rightarrow> names \<Rightarrow> node \<Rightarrow> path \<Rightarrow> EntryMetadata" where
  "status_metadata view opts n q nd relative =
    (let t = iv_tree view n;
         mode = (case entry_at t q of Some i \<Rightarrow> (case in_mode i of Some m \<Rightarrow> m | None \<Rightarrow> iv_mode view n q) | None \<Rightarrow> 0);
         mtime = (case entry_at t q of Some i \<Rightarrow> (case in_mtime i of Some m \<Rightarrow> Some m | None \<Rightarrow> iv_mtime view n q) | None \<Rightarrow> None);
         link = (case nd of Link _ \<Rightarrow> True | _ \<Rightarrow> False)
     in \<lparr>em_kind = (case nd of Link _ \<Rightarrow> Symlink | Dir \<Rightarrow> Directory | File _ \<Rightarrow> RegularFile),
         em_relative_path = relative,
         em_original_size = (case nd of File bs \<Rightarrow> of_nat (length bs) | _ \<Rightarrow> 0),
         em_posix_mode = (if ao_preserve_permissions opts then permissions_to_bits mode else 0),
         em_times = \<lparr>ft_modified_ns = (if ao_preserve_timestamps opts \<and> \<not> link
                        then (case mtime of Some m \<Rightarrow> m | None \<Rightarrow> 0) else 0),
                     ft_accessed_ns = None, ft_created_ns = None\<rparr>,
         em_symlink_target = (case nd of Link target \<Rightarrow> generic_string target | _ \<Rightarrow> [])\<rparr>)"

definition metadata_at :: "input_view \<Rightarrow> ArchiveWriterOptions \<Rightarrow> nat \<Rightarrow> directory_entry \<Rightarrow> EntryMetadata result" where
  "metadata_at view opts n e =
    (let t = iv_tree view n in
     case relative_path t (de_path e) (ao_input_root opts) of
       None \<Rightarrow> Inl (InvalidArgument ''cannot compute relative archive path: '')
     | Some relative \<Rightarrow>
       let relative = lexically_normal relative in
       throw_if (path_eq relative ''.'' \<or> \<not> is_safe_relative_path relative)
         (InvalidArgument ''input path produced unsafe archive path'') (
       case resolve t (de_path e) False of
         None \<Rightarrow> Inl (InvalidArgument ''cannot read entry status: '')
       | Some q \<Rightarrow>
         (case node_at t q of
            None \<Rightarrow> Inl (InvalidArgument ''cannot read entry status: '')
          | Some nd \<Rightarrow>
            throw_if (faulty t) (InvalidArgument ''cannot read entry status: '')
            (Inr (status_metadata view opts n q nd relative)))))"

text \<open>Every look at the file system is a call: the next one may see another tree.\<close>

definition metadata_for :: "input_view \<Rightarrow> directory_entry \<Rightarrow> (ArchiveWriter, EntryMetadata) op" where
  "metadata_for view e w = (metadata_at view (aw_options w) (aw_calls w) e, w\<lparr>aw_calls := aw_calls w + 1\<rparr>)"

definition serialized_metadata :: "input_view \<Rightarrow> directory_entry \<Rightarrow> (ArchiveWriter, bytes) op" where
  "serialized_metadata view e = bindS (metadata_for view e) (\<lambda>m. liftS (serialize_entry_metadata m))"

definition make_record :: "RecordType \<Rightarrow> bytes \<Rightarrow> bytes" where
  "make_record ty payload = serialize_record \<lparr>ar_type = ty, ar_payload = payload\<rparr>"

subsection \<open>The planned size\<close>

fun plan_entries :: "input_view \<Rightarrow> directory_entry list \<Rightarrow> u64 \<Rightarrow> (ArchiveWriter, u64) op" where
  "plan_entries view [] total_size = returnS total_size"
| "plan_entries view (e # es) total_size =
    (case de_kind e of
       LinkEntry \<Rightarrow>
         getS (\<lambda>w.
         if \<not> ao_include_symlinks (aw_options w) then plan_entries view es total_size
         else bindS (serialized_metadata view e) (\<lambda>m.
              plan_entries view es (total_size + of_nat (kRecordPrefixSize + length m))))
     | DirEntry \<Rightarrow>
         bindS (serialized_metadata view e) (\<lambda>m.
         plan_entries view es (total_size + of_nat (kRecordPrefixSize + length m)))
     | RegularEntry \<Rightarrow>
         bindS (metadata_for view e) (\<lambda>meta.
         bindS (liftS (serialize_entry_metadata meta)) (\<lambda>m.
         getS (\<lambda>w.
         let payload_size = of_nat (aw_file_bytes_payload_size w);
             file_size = em_original_size meta;
             n_records = (file_size + payload_size - 1) div payload_size;
             total_size = total_size + of_nat (kRecordPrefixSize + length m);
             total_size = (if file_size > 0 then total_size + n_records * of_nat kRecordPrefixSize + file_size else total_size)
         in plan_entries view es (total_size + of_nat kRecordPrefixSize))))
     | OtherEntry \<Rightarrow> plan_entries view es total_size)"

definition plan_plaintext_size :: "input_view \<Rightarrow> (ArchiveWriter, u64) op" where
  "plan_plaintext_size view =
    getS (\<lambda>w.
    bindS (plan_entries view (aw_entries w) (of_nat (kRecordPrefixSize + 4))) (\<lambda>total_size.
    returnS (total_size + of_nat kRecordPrefixSize)))"

definition set_trailing_padding_record :: "bytes \<Rightarrow> ArchiveWriter \<Rightarrow> ArchiveWriter" where
  "set_trailing_padding_record record_bytes w =
     w\<lparr>aw_trailing_padding_record := Some record_bytes, aw_trailing_padding_emitted := False\<rparr>"

subsection \<open>The stream\<close>

definition produce :: "bytes \<Rightarrow> (ArchiveWriter, bytes option) op" where
  "produce rec =
    bindS (modifyS (\<lambda>w. w\<lparr>aw_bytes_produced := aw_bytes_produced w + of_nat (length rec)\<rparr>)) (\<lambda>_.
    returnS (Some rec))"

text \<open>
  \<open>std::ifstream\<close>: opening follows links; a read gives the bytes behind the position, and one that
  gives fewer than were asked for sets the end-of-file flag for good.  \<open>None\<close> is a failed read.
\<close>

definition open_input :: "input_view \<Rightarrow> path \<Rightarrow> (ArchiveWriter, bool) op" where
  "open_input view p =
    getS (\<lambda>w.
    let t = iv_tree view (aw_calls w) in
    bindS (modifyS (\<lambda>w. w\<lparr>aw_calls := aw_calls w + 1\<rparr>)) (\<lambda>_.
    case resolve t p True of
      None \<Rightarrow> returnS False
    | Some q \<Rightarrow>
        if node_at t q = None \<or> faulty t then returnS False
        else bindS (modifyS (\<lambda>w. w\<lparr>aw_current_file := q, aw_current_file_eof := False, aw_current_file_pos := 0\<rparr>)) (\<lambda>_.
             returnS True)))"

definition read_input :: "input_view \<Rightarrow> nat \<Rightarrow> (ArchiveWriter, bytes option) op" where
  "read_input view n =
    getS (\<lambda>w.
    if aw_current_file_eof w then returnS (Some []) else
    let t = iv_tree view (aw_calls w) in
    bindS (modifyS (\<lambda>w. w\<lparr>aw_calls := aw_calls w + 1\<rparr>)) (\<lambda>_.
    case node_at t (aw_current_file w) of
      Some (File content) \<Rightarrow>
        if faulty t then returnS None
        else (let bs = take n (drop (aw_current_file_pos w) content) in
          bindS (modifyS (\<lambda>w. w\<lparr>aw_current_file_pos := aw_current_file_pos w + length bs,
                                aw_current_file_eof := length bs < n\<rparr>)) (\<lambda>_.
          returnS (Some bs)))
    | _ \<Rightarrow> returnS None))"

definition next_file_bytes_or_end :: "input_view \<Rightarrow> (ArchiveWriter, bytes option) op" where
  "next_file_bytes_or_end view =
    getS (\<lambda>w.
    bindS (read_input view (aw_file_bytes_payload_size w)) (\<lambda>r.
    case r of
      None \<Rightarrow> throwS (InvalidArgument ''error while reading input file for archive'')
    | Some bs \<Rightarrow>
        if bs \<noteq> [] then
          bindS (modifyS (\<lambda>w. w\<lparr>aw_current_file_bytes_read := aw_current_file_bytes_read w + of_nat (length bs)\<rparr>)) (\<lambda>_.
          produce (make_record FileBytes bs))
        else
          getS (\<lambda>w.
          bindS (guardS (aw_current_file_bytes_read w \<noteq> aw_current_file_expected_bytes w)
            (InvalidArgument ''file changed size during encryption: '')) (\<lambda>_.
          bindS (modifyS (\<lambda>w. w\<lparr>aw_current_file_open := False\<rparr>)) (\<lambda>_.
          produce (make_record FileEnd []))))))"

text \<open>The entries up to the first that gives a record.\<close>

fun next_entry :: "input_view \<Rightarrow> directory_entry list \<Rightarrow> (ArchiveWriter, bytes option) op" where
  "next_entry view [] = returnS None"
| "next_entry view (e # es) =
    bindS (modifyS (\<lambda>w. w\<lparr>aw_entry_index := aw_entry_index w + 1\<rparr>)) (\<lambda>_.
    case de_kind e of
      LinkEntry \<Rightarrow>
        getS (\<lambda>w.
        if \<not> ao_include_symlinks (aw_options w) then next_entry view es
        else bindS (serialized_metadata view e) (\<lambda>m. produce (make_record SymlinkEntry m)))
    | DirEntry \<Rightarrow>
        bindS (serialized_metadata view e) (\<lambda>m. produce (make_record DirectoryEntry m))
    | RegularEntry \<Rightarrow>
        bindS (metadata_for view e) (\<lambda>meta.
        bindS (open_input view (de_path e)) (\<lambda>ok.
        bindS (guardS (\<not> ok) (InvalidArgument ''cannot open input file for archive: '')) (\<lambda>_.
        bindS (modifyS (\<lambda>w. w\<lparr>aw_current_file_open := True, aw_current_file_expected_bytes := em_original_size meta,
                              aw_current_file_bytes_read := 0\<rparr>)) (\<lambda>_.
        bindS (liftS (serialize_entry_metadata meta)) (\<lambda>m.
        produce (make_record FileEntry m))))))
    | OtherEntry \<Rightarrow> next_entry view es)"

definition next_record_bytes :: "input_view \<Rightarrow> (ArchiveWriter, bytes option) op" where
  "next_record_bytes view =
    getS (\<lambda>w.
    if \<not> aw_emitted_begin w then
      bindS (modifyS (\<lambda>w. w\<lparr>aw_emitted_begin := True\<rparr>)) (\<lambda>_.
      produce (make_record ArchiveBegin (append_u32_le [] kArchiveFormatVersion)))
    else if aw_current_file_open w then next_file_bytes_or_end view
    else
      bindS (next_entry view (drop (aw_entry_index w) (aw_entries w))) (\<lambda>r.
      if r \<noteq> None then returnS r else
      getS (\<lambda>w.
      if \<not> aw_emitted_end w then
        bindS (modifyS (\<lambda>w. w\<lparr>aw_emitted_end := True\<rparr>)) (\<lambda>_. produce (make_record ArchiveEnd []))
      else
        (case aw_trailing_padding_record w of
           Some rec \<Rightarrow>
             if \<not> aw_trailing_padding_emitted w then
               bindS (modifyS (\<lambda>w. w\<lparr>aw_trailing_padding_emitted := True\<rparr>)) (\<lambda>_. produce rec)
             else returnS None
         | None \<Rightarrow> returnS None))))"

subsection \<open>The grammar of the stream\<close>

text \<open>An entry of the archive with the records that stand for it.\<close>

datatype archive_item =
    DirectoryItem EntryMetadata
  | SymlinkItem EntryMetadata
  | FileItem EntryMetadata "bytes list"

definition metadata_record :: "RecordType \<Rightarrow> EntryMetadata \<Rightarrow> ArchiveRecord" where
  "metadata_record ty m =
     \<lparr>ar_type = ty, ar_payload = (case serialize_entry_metadata m of Inr bs \<Rightarrow> bs | Inl _ \<Rightarrow> [])\<rparr>"

fun item_records :: "archive_item \<Rightarrow> ArchiveRecord list" where
  "item_records (DirectoryItem m) = [metadata_record DirectoryEntry m]"
| "item_records (SymlinkItem m) = [metadata_record SymlinkEntry m]"
| "item_records (FileItem m contents) =
     metadata_record FileEntry m # map (\<lambda>bs. \<lparr>ar_type = FileBytes, ar_payload = bs\<rparr>) contents
       @ [\<lparr>ar_type = FileEnd, ar_payload = []\<rparr>]"

definition begin_record :: ArchiveRecord where
  "begin_record = \<lparr>ar_type = ArchiveBegin, ar_payload = append_u32_le [] kArchiveFormatVersion\<rparr>"

definition end_record :: ArchiveRecord where
  "end_record = \<lparr>ar_type = ArchiveEnd, ar_payload = []\<rparr>"

definition stream_records :: "archive_item list \<Rightarrow> ArchiveRecord list" where
  "stream_records items = begin_record # concat (map item_records items)"

text \<open>
  Metadata the writer has seen for one of its entries: it is valid (the path is safe and not \<open>.\<close>, only
  a symlink has a target and only a file a size), so the reader accepts it.
\<close>

definition seen_metadata :: "input_view \<Rightarrow> ArchiveWriterOptions \<Rightarrow> EntryMetadata \<Rightarrow> bool" where
  "seen_metadata view opts m \<longleftrightarrow> valid_metadata m \<and>
     (\<exists>n e. metadata_at view opts n e = Inr m) \<and> (\<exists>bs. serialize_entry_metadata m = Inr bs)"

fun item_ok :: "input_view \<Rightarrow> ArchiveWriterOptions \<Rightarrow> nat \<Rightarrow> archive_item \<Rightarrow> bool" where
  "item_ok view opts payload_size (DirectoryItem m) \<longleftrightarrow> seen_metadata view opts m"
| "item_ok view opts payload_size (SymlinkItem m) \<longleftrightarrow> seen_metadata view opts m"
| "item_ok view opts payload_size (FileItem m contents) \<longleftrightarrow> seen_metadata view opts m
     \<and> of_nat (length (concat contents)) = em_original_size m
     \<and> (\<forall>bs\<in>set contents. bs \<noteq> [] \<and> length bs \<le> payload_size)"

text \<open>What the writer keeps.\<close>

definition same_archive_writer :: "ArchiveWriter \<Rightarrow> ArchiveWriter \<Rightarrow> bool" where
  "same_archive_writer w w' \<longleftrightarrow> aw_options w' = aw_options w \<and> aw_entries w' = aw_entries w
     \<and> aw_emitted_begin w' = aw_emitted_begin w \<and> aw_emitted_end w' = aw_emitted_end w
     \<and> aw_file_bytes_payload_size w' = aw_file_bytes_payload_size w
     \<and> aw_trailing_padding_record w' = aw_trailing_padding_record w
     \<and> aw_trailing_padding_emitted w' = aw_trailing_padding_emitted w"

lemma metadata_at_valid: "metadata_at view opts n e = Inr m \<Longrightarrow> valid_metadata m"
  by (auto simp: metadata_at_def Let_def status_metadata_def valid_metadata_def throw_if_eq_Inr
      split: option.splits node.splits)

lemma produce_eq:
  "produce rec w = (Inr (Some rec), w\<lparr>aw_bytes_produced := aw_bytes_produced w + of_nat (length rec)\<rparr>)"
  by (simp add: produce_def bindS_def op_defs)

lemma serialized_metadata_Inr:
  "serialized_metadata view e w = (Inr bs, w') \<longleftrightarrow>
     (\<exists>m. metadata_at view (aw_options w) (aw_calls w) e = Inr m \<and> serialize_entry_metadata m = Inr bs)
     \<and> w' = w\<lparr>aw_calls := aw_calls w + 1\<rparr>"
  by (auto simp: serialized_metadata_def metadata_for_def bindS_Inr liftS_def)

lemma same_archive_writer_refl [simp]: "same_archive_writer w w"
  by (simp add: same_archive_writer_def)

lemma same_archive_writer_trans: "same_archive_writer w w' \<Longrightarrow> same_archive_writer w' w'' \<Longrightarrow> same_archive_writer w w''"
  by (simp add: same_archive_writer_def)

lemma open_input_Inr:
  "open_input view p w = (Inr ok, w') \<Longrightarrow> same_archive_writer w w'
     \<and> aw_current_file_open w' = aw_current_file_open w \<and> aw_bytes_produced w' = aw_bytes_produced w"
  by (auto simp: open_input_def bindS_Inr op_defs Let_def same_archive_writer_def split: option.splits if_splits)

definition entry_outcome :: "input_view \<Rightarrow> ArchiveWriter \<Rightarrow> bytes option \<Rightarrow> ArchiveWriter \<Rightarrow> bool" where
  "entry_outcome view w r w' \<longleftrightarrow> same_archive_writer w w' \<and>
     (case r of
        None \<Rightarrow> aw_current_file_open w' = aw_current_file_open w \<and> aw_bytes_produced w' = aw_bytes_produced w
      | Some rec \<Rightarrow> aw_bytes_produced w' = aw_bytes_produced w + of_nat (length rec) \<and>
          (\<exists>m. seen_metadata view (aw_options w) m \<and>
             ((\<exists>ty\<in>{DirectoryEntry, SymlinkEntry}. rec = serialize_record (metadata_record ty m)
                 \<and> aw_current_file_open w' = aw_current_file_open w)
              \<or> rec = serialize_record (metadata_record FileEntry m) \<and> aw_current_file_open w'
                 \<and> aw_current_file_expected_bytes w' = em_original_size m \<and> aw_current_file_bytes_read w' = 0)))"

lemma entry_outcome_step:
  assumes "entry_outcome view w1 r w'" "same_archive_writer w w1" "aw_current_file_open w1 = aw_current_file_open w"
    "aw_bytes_produced w1 = aw_bytes_produced w"
  shows "entry_outcome view w r w'"
proof -
  have "aw_options w1 = aw_options w" using assms(2) by (simp add: same_archive_writer_def)
  then show ?thesis
    using assms(1,3,4) same_archive_writer_trans [OF assms(2)] unfolding entry_outcome_def by (simp cong: option.case_cong)
qed

lemma next_entry_Inr: "next_entry view es w = (Inr r, w') \<Longrightarrow> entry_outcome view w r w'"
proof (induction view es arbitrary: w rule: next_entry.induct)
  case (1 view)
  then show ?case by (simp add: returnS_def entry_outcome_def)
next
  case (2 view e es)
  let ?w = "w\<lparr>aw_entry_index := aw_entry_index w + 1\<rparr>"
  have skip: "entry_outcome view w r w'" if "entry_outcome view ?w r w'"
    by (rule entry_outcome_step [OF that]) (simp_all add: same_archive_writer_def)
  have other: "entry_outcome view w r w'"
    if "ty \<in> {DirectoryEntry, SymlinkEntry}"
      "bindS (serialized_metadata view e) (\<lambda>m. produce (make_record ty m)) ?w = (Inr r, w')" for ty
  proof -
    from that(2) obtain m bs where m: "metadata_at view (aw_options w) (aw_calls w) e = Inr m" "serialize_entry_metadata m = Inr bs"
      "produce (make_record ty bs) (?w\<lparr>aw_calls := aw_calls w + 1\<rparr>) = (Inr r, w')"
      by (auto simp: bindS_Inr serialized_metadata_Inr)
    then have "seen_metadata view (aw_options w) m" "make_record ty bs = serialize_record (metadata_record ty m)"
      by (auto simp: seen_metadata_def make_record_def metadata_record_def dest: metadata_at_valid)
    then show ?thesis using m(3) that(1) unfolding produce_eq entry_outcome_def
      by (auto simp: same_archive_writer_def)
  qed
  show ?case
  proof (cases "de_kind e")
    case OtherEntry
    then have "next_entry view es ?w = (Inr r, w')" using 2(3) by (simp add: bindS_def modifyS_def)
    then show ?thesis using 2(2) [OF OtherEntry] skip by blast
  next
    case DirEntry
    then show ?thesis using 2(3) other [of DirectoryEntry] by (simp add: bindS_def modifyS_def)
  next
    case LinkEntry
    then show ?thesis
      using 2(3) other [of SymlinkEntry] 2(1) [OF LinkEntry] skip by (auto simp: bindS_def modifyS_def getS_def split: if_splits)
  next
    case RegularEntry
    from 2(3) obtain m bs w3 where m: "metadata_at view (aw_options w) (aw_calls w) e = Inr m" "serialize_entry_metadata m = Inr bs"
      and o: "open_input view (de_path e) (?w\<lparr>aw_calls := aw_calls w + 1\<rparr>) = (Inr True, w3)"
      and p: "produce (make_record FileEntry bs)
        (w3\<lparr>aw_current_file_open := True, aw_current_file_expected_bytes := em_original_size m, aw_current_file_bytes_read := 0\<rparr>)
        = (Inr r, w')"
      by (auto simp: RegularEntry bindS_Inr metadata_for_def modifyS_def liftS_def guardS_def split: if_splits)
    have "seen_metadata view (aw_options w) m" "make_record FileEntry bs = serialize_record (metadata_record FileEntry m)"
      using m by (auto simp: seen_metadata_def make_record_def metadata_record_def metadata_at_valid)
    then show ?thesis
      using p open_input_Inr [OF o] unfolding produce_eq entry_outcome_def by (auto simp: same_archive_writer_def)
  qed
qed


lemma read_input_Inr:
  "read_input view n w = (Inr r, w') \<Longrightarrow> same_archive_writer w w' \<and> aw_current_file_open w' = aw_current_file_open w
     \<and> aw_bytes_produced w' = aw_bytes_produced w \<and> aw_current_file_bytes_read w' = aw_current_file_bytes_read w
     \<and> aw_current_file_expected_bytes w' = aw_current_file_expected_bytes w
     \<and> (\<forall>bs. r = Some bs \<longrightarrow> length bs \<le> n)"
  by (auto simp: read_input_def bindS_Inr op_defs Let_def same_archive_writer_def split: if_splits option.splits node.splits)

lemma next_file_bytes_or_end_Inr:
  assumes "next_file_bytes_or_end view w = (Inr r, w')"
  shows "same_archive_writer w w' \<and> (\<exists>rec. r = Some rec \<and> aw_bytes_produced w' = aw_bytes_produced w + of_nat (length rec)
     \<and> (rec = serialize_record \<lparr>ar_type = FileEnd, ar_payload = []\<rparr> \<and> \<not> aw_current_file_open w'
          \<and> aw_current_file_bytes_read w = aw_current_file_expected_bytes w
        \<or> (\<exists>bs. bs \<noteq> [] \<and> length bs \<le> aw_file_bytes_payload_size w
             \<and> rec = serialize_record \<lparr>ar_type = FileBytes, ar_payload = bs\<rparr> \<and> aw_current_file_open w' = aw_current_file_open w
             \<and> aw_current_file_expected_bytes w' = aw_current_file_expected_bytes w
             \<and> aw_current_file_bytes_read w' = aw_current_file_bytes_read w + of_nat (length bs))))"
proof -
  from assms obtain v w1 where r: "read_input view (aw_file_bytes_payload_size w) w = (Inr v, w1)" and v: "v \<noteq> None"
    by (auto simp: next_file_bytes_or_end_def bindS_Inr getS_def throwS_def split: option.splits)
  then obtain bs where bs: "v = Some bs" by blast
  note ri = read_input_Inr [OF r]
  show ?thesis
  proof (cases "bs = []")
    case True
    then have "aw_current_file_bytes_read w1 = aw_current_file_expected_bytes w1"
      "produce (make_record FileEnd []) (w1\<lparr>aw_current_file_open := False\<rparr>) = (Inr r, w')"
      using assms r bs by (auto simp: next_file_bytes_or_end_def bindS_def op_defs split: if_splits)
    then show ?thesis using ri unfolding produce_eq by (auto simp: same_archive_writer_def make_record_def)
  next
    case False
    then have "produce (make_record FileBytes bs)
        (w1\<lparr>aw_current_file_bytes_read := aw_current_file_bytes_read w1 + of_nat (length bs)\<rparr>) = (Inr r, w')"
      using assms r bs by (auto simp: next_file_bytes_or_end_def bindS_def op_defs split: if_splits)
    then show ?thesis using ri bs False unfolding produce_eq by (auto simp: same_archive_writer_def make_record_def)
  qed
qed

text \<open>The records the writer gives one after the other, and the state in between.\<close>

inductive emits :: "input_view \<Rightarrow> ArchiveWriter \<Rightarrow> bytes list \<Rightarrow> ArchiveWriter \<Rightarrow> bool" for view w0 where
  emits_none: "emits view w0 [] w0"
| emits_next: "emits view w0 outs w \<Longrightarrow> next_record_bytes view w = (Inr (Some rec), w') \<Longrightarrow> emits view w0 (outs @ [rec]) w'"

definition records_bytes :: "ArchiveRecord list \<Rightarrow> bytes list" where
  "records_bytes recs = map serialize_record recs"

definition trailing :: "ArchiveWriter \<Rightarrow> bytes list" where
  "trailing w = (if aw_trailing_padding_emitted w then [the (aw_trailing_padding_record w)] else [])"

definition in_file ::
  "input_view \<Rightarrow> ArchiveWriter \<Rightarrow> archive_item list \<Rightarrow> EntryMetadata \<Rightarrow> bytes list \<Rightarrow> bytes list \<Rightarrow> bool" where
  "in_file view w items m contents outs \<longleftrightarrow> seen_metadata view (aw_options w) m
     \<and> aw_current_file_expected_bytes w = em_original_size m
     \<and> aw_current_file_bytes_read w = of_nat (length (concat contents))
     \<and> (\<forall>bs\<in>set contents. bs \<noteq> [] \<and> length bs \<le> aw_file_bytes_payload_size w)
     \<and> outs = records_bytes (stream_records items @ metadata_record FileEntry m
          # map (\<lambda>bs. \<lparr>ar_type = FileBytes, ar_payload = bs\<rparr>) contents)"

definition stream_at :: "input_view \<Rightarrow> ArchiveWriter \<Rightarrow> bytes list \<Rightarrow> bool" where
  "stream_at view w outs \<longleftrightarrow> aw_bytes_produced w = of_nat (length (concat outs)) \<and>
     (aw_trailing_padding_emitted w \<longrightarrow> aw_emitted_end w) \<and>
     (aw_trailing_padding_emitted w \<longrightarrow> aw_trailing_padding_record w \<noteq> None) \<and>
     (aw_emitted_end w \<longrightarrow> length (aw_entries w) \<le> aw_entry_index w) \<and>
     (\<exists>items. list_all (item_ok view (aw_options w) (aw_file_bytes_payload_size w)) items \<and>
       (if \<not> aw_emitted_begin w then outs = [] \<and> \<not> aw_current_file_open w \<and> \<not> aw_emitted_end w
        else if aw_current_file_open w then
          \<not> aw_emitted_end w \<and> (\<exists>m contents. in_file view w items m contents outs)
        else outs = records_bytes (stream_records items @ (if aw_emitted_end w then [end_record] else [])) @ trailing w))"

lemma same_trailing: "same_archive_writer w w' \<Longrightarrow> trailing w' = trailing w"
  by (simp add: same_archive_writer_def trailing_def)

lemma stream_at_file:
  assumes on: "stream_at view w outs" and b: "aw_emitted_begin w" and f: "aw_current_file_open w"
    and step: "next_file_bytes_or_end view w = (Inr r, w')"
  shows "\<exists>rec. r = Some rec \<and> stream_at view w' (outs @ [rec])"
proof -
  from on b f obtain items m contents where items: "list_all (item_ok view (aw_options w) (aw_file_bytes_payload_size w)) items"
    and m: "seen_metadata view (aw_options w) m" "aw_current_file_expected_bytes w = em_original_size m"
    and c: "aw_current_file_bytes_read w = of_nat (length (concat contents))"
      "\<forall>bs\<in>set contents. bs \<noteq> [] \<and> length bs \<le> aw_file_bytes_payload_size w"
    and outs: "outs = records_bytes (stream_records items @ metadata_record FileEntry m
                 # map (\<lambda>bs. \<lparr>ar_type = FileBytes, ar_payload = bs\<rparr>) contents)"
    and p: "aw_bytes_produced w = of_nat (length (concat outs))" and e: "\<not> aw_emitted_end w" "\<not> aw_trailing_padding_emitted w"
    unfolding stream_at_def in_file_def by auto
  from next_file_bytes_or_end_Inr [OF step] obtain rec where same: "same_archive_writer w w'" and rec: "r = Some rec"
    "aw_bytes_produced w' = aw_bytes_produced w + of_nat (length rec)"
    and cs: "rec = serialize_record \<lparr>ar_type = FileEnd, ar_payload = []\<rparr> \<and> \<not> aw_current_file_open w'
          \<and> aw_current_file_bytes_read w = aw_current_file_expected_bytes w
        \<or> (\<exists>bs. bs \<noteq> [] \<and> length bs \<le> aw_file_bytes_payload_size w
             \<and> rec = serialize_record \<lparr>ar_type = FileBytes, ar_payload = bs\<rparr> \<and> aw_current_file_open w' = aw_current_file_open w
             \<and> aw_current_file_expected_bytes w' = aw_current_file_expected_bytes w
             \<and> aw_current_file_bytes_read w' = aw_current_file_bytes_read w + of_nat (length bs))" by blast
  have k: "aw_options w' = aw_options w" "aw_file_bytes_payload_size w' = aw_file_bytes_payload_size w"
    "aw_emitted_begin w'" "\<not> aw_emitted_end w'" "trailing w' = []"
    using same b e by (simp_all add: same_archive_writer_def trailing_def)
  have p': "aw_bytes_produced w' = of_nat (length (concat (outs @ [rec])))" "\<not> aw_trailing_padding_emitted w'"
    using rec(2) p e same by (simp_all add: same_archive_writer_def)
  from cs show ?thesis
  proof
    assume a: "rec = serialize_record \<lparr>ar_type = FileEnd, ar_payload = []\<rparr> \<and> \<not> aw_current_file_open w'
          \<and> aw_current_file_bytes_read w = aw_current_file_expected_bytes w"
    have "list_all (item_ok view (aw_options w) (aw_file_bytes_payload_size w)) (items @ [FileItem m contents])"
      using items m c a by simp
    moreover have "outs @ [rec] = records_bytes (stream_records (items @ [FileItem m contents]))"
      using outs a by (simp add: records_bytes_def stream_records_def)
    ultimately have "stream_at view w' (outs @ [rec])"
      unfolding stream_at_def using p' k a by (intro conjI exI [of _ "items @ [FileItem m contents]"]) simp_all
    then show ?thesis using rec(1) by blast
  next
    assume "\<exists>bs. bs \<noteq> [] \<and> length bs \<le> aw_file_bytes_payload_size w
             \<and> rec = serialize_record \<lparr>ar_type = FileBytes, ar_payload = bs\<rparr> \<and> aw_current_file_open w' = aw_current_file_open w
             \<and> aw_current_file_expected_bytes w' = aw_current_file_expected_bytes w
             \<and> aw_current_file_bytes_read w' = aw_current_file_bytes_read w + of_nat (length bs)"
    then obtain bs where bs: "bs \<noteq> []" "length bs \<le> aw_file_bytes_payload_size w"
      "rec = serialize_record \<lparr>ar_type = FileBytes, ar_payload = bs\<rparr>" "aw_current_file_open w'"
      "aw_current_file_expected_bytes w' = em_original_size m"
      "aw_current_file_bytes_read w' = of_nat (length (concat (contents @ [bs])))"
      using f m c by auto
    have "in_file view w' items m (contents @ [bs]) (outs @ [rec])"
      unfolding in_file_def using outs bs k m c by (simp add: records_bytes_def)
    then have "\<exists>m contents. in_file view w' items m contents (outs @ [rec])" by blast
    then have "stream_at view w' (outs @ [rec])"
      unfolding stream_at_def using p' k bs(4) items by (intro conjI exI [of _ items]) simp_all
    then show ?thesis using rec(1) by blast
  qed
qed

lemma next_entry_None:
  "next_entry view es w = (Inr None, w') \<Longrightarrow> aw_entry_index w' = aw_entry_index w + length es"
  by (induction view es arbitrary: w rule: next_entry.induct)
     (auto simp: returnS_def bindS_Inr modifyS_def getS_def produce_eq split: dirent_kind.splits if_splits)

lemma stream_at_next:
  assumes on: "stream_at view w outs" and step: "next_record_bytes view w = (Inr (Some rec), w')"
  shows "stream_at view w' (outs @ [rec])"
proof -
  consider "\<not> aw_emitted_begin w" | "aw_emitted_begin w" "aw_current_file_open w" | "aw_emitted_begin w" "\<not> aw_current_file_open w"
    by blast
  then show ?thesis
  proof cases
    case 1
    then have "rec = serialize_record begin_record"
      "w' = w\<lparr>aw_emitted_begin := True, aw_bytes_produced := aw_bytes_produced w + of_nat (length rec)\<rparr>"
      using step by (auto simp: next_record_bytes_def bindS_def op_defs produce_eq make_record_def begin_record_def)
    then show ?thesis using on 1
      by (auto simp: stream_at_def trailing_def records_bytes_def stream_records_def intro!: exI [of _ "[]"])
  next
    case 2
    then have "next_file_bytes_or_end view w = (Inr (Some rec), w')" using step by (simp add: next_record_bytes_def getS_def)
    then show ?thesis using stream_at_file [OF on 2] by blast
  next
    case 3
    obtain items where items: "list_all (item_ok view (aw_options w) (aw_file_bytes_payload_size w)) items"
      and outs: "outs = records_bytes (stream_records items @ (if aw_emitted_end w then [end_record] else [])) @ trailing w"
      and p: "aw_bytes_produced w = of_nat (length (concat outs))"
      and te: "aw_trailing_padding_emitted w \<longrightarrow> aw_emitted_end w" "aw_emitted_end w \<longrightarrow> length (aw_entries w) \<le> aw_entry_index w"
        "aw_trailing_padding_emitted w \<longrightarrow> aw_trailing_padding_record w \<noteq> None"
      using on 3 unfolding stream_at_def by auto
    from step 3 obtain r w1 where n: "next_entry view (drop (aw_entry_index w) (aw_entries w)) w = (Inr r, w1)"
      by (auto simp: next_record_bytes_def getS_def bindS_Inr)
    note eo = next_entry_Inr [OF n]
    show ?thesis
    proof (cases r)
      case (Some rec')
      then have "rec' = rec" "w1 = w'" using step 3 n by (auto simp: next_record_bytes_def getS_def bindS_def returnS_def)
      then have eo: "entry_outcome view w (Some rec) w'" using eo Some by simp
      have ne: "\<not> aw_emitted_end w" using te(2) n Some by (auto simp: returnS_def)
      then have tr: "trailing w = []" "\<not> aw_trailing_padding_emitted w" using te(1) by (auto simp: trailing_def)
      from eo have same: "same_archive_writer w w'" and bp: "aw_bytes_produced w' = aw_bytes_produced w + of_nat (length rec)"
        by (simp_all add: entry_outcome_def)
      have k: "aw_options w' = aw_options w" "aw_file_bytes_payload_size w' = aw_file_bytes_payload_size w"
        "aw_emitted_begin w'" "\<not> aw_emitted_end w'" "\<not> aw_trailing_padding_emitted w'" "trailing w' = []"
        using same 3(1) ne tr by (simp_all add: same_archive_writer_def trailing_def)
      have p': "aw_bytes_produced w' = of_nat (length (concat (outs @ [rec])))" using bp p by simp
      from eo obtain m where m: "seen_metadata view (aw_options w) m" and
        c: "(\<exists>ty\<in>{DirectoryEntry, SymlinkEntry}. rec = serialize_record (metadata_record ty m) \<and> \<not> aw_current_file_open w')
          \<or> rec = serialize_record (metadata_record FileEntry m) \<and> aw_current_file_open w'
             \<and> aw_current_file_expected_bytes w' = em_original_size m \<and> aw_current_file_bytes_read w' = 0"
        using 3(2) unfolding entry_outcome_def by auto
      from c show ?thesis
      proof
        assume "\<exists>ty\<in>{DirectoryEntry, SymlinkEntry}. rec = serialize_record (metadata_record ty m) \<and> \<not> aw_current_file_open w'"
        then obtain item where it: "item_ok view (aw_options w) (aw_file_bytes_payload_size w) item"
          "[rec] = records_bytes (item_records item)" and no: "\<not> aw_current_file_open w'"
          using m by (auto simp: records_bytes_def intro: that [of "DirectoryItem m"] that [of "SymlinkItem m"])
        have "outs @ [rec] = records_bytes (stream_records (items @ [item]))"
          using outs ne tr it(2) by (simp add: records_bytes_def stream_records_def)
        then show ?thesis unfolding stream_at_def
          using p' k no items it(1) by (intro conjI exI [of _ "items @ [item]"]) simp_all
      next
        assume f: "rec = serialize_record (metadata_record FileEntry m) \<and> aw_current_file_open w'
             \<and> aw_current_file_expected_bytes w' = em_original_size m \<and> aw_current_file_bytes_read w' = 0"
        have "in_file view w' items m [] (outs @ [rec])"
          unfolding in_file_def using m f k outs ne tr by (simp add: records_bytes_def)
        then have "\<exists>m contents. in_file view w' items m contents (outs @ [rec])" by blast
        then show ?thesis unfolding stream_at_def
          using p' k f items by (intro conjI exI [of _ items]) simp_all
      qed
    next
      case None
      then have eo: "same_archive_writer w w1" "\<not> aw_current_file_open w1" "aw_bytes_produced w1 = aw_bytes_produced w"
        using eo 3(2) by (simp_all add: entry_outcome_def)
      have idx: "length (aw_entries w1) \<le> aw_entry_index w1"
        using next_entry_None [OF n [unfolded None]] eo(1) by (simp add: same_archive_writer_def)
      have k: "aw_options w1 = aw_options w" "aw_file_bytes_payload_size w1 = aw_file_bytes_payload_size w"
        "aw_emitted_begin w1" "aw_emitted_end w1 = aw_emitted_end w" "aw_trailing_padding_emitted w1 = aw_trailing_padding_emitted w"
        "aw_trailing_padding_record w1 = aw_trailing_padding_record w"
        using eo(1) 3(1) by (simp_all add: same_archive_writer_def)
      show ?thesis
      proof (cases "aw_emitted_end w")
        case False
        then have "rec = serialize_record end_record"
          "w' = w1\<lparr>aw_emitted_end := True, aw_bytes_produced := aw_bytes_produced w1 + of_nat (length rec)\<rparr>"
          using step 3 n None k(4) by (auto simp: next_record_bytes_def bindS_def op_defs produce_eq make_record_def end_record_def)
        then show ?thesis
          using False outs p te items eo idx k unfolding stream_at_def
          by (intro conjI exI [of _ items]) (simp_all add: trailing_def records_bytes_def)
      next
        case True
        then obtain pad where pad: "aw_trailing_padding_record w1 = Some pad" "\<not> aw_trailing_padding_emitted w1" "rec = pad"
          "w' = w1\<lparr>aw_trailing_padding_emitted := True, aw_bytes_produced := aw_bytes_produced w1 + of_nat (length rec)\<rparr>"
          using step 3 n None k(4)
          by (auto simp: next_record_bytes_def bindS_def op_defs produce_eq split: option.splits if_splits)
        then show ?thesis
          using True outs p te items eo idx k unfolding stream_at_def
          by (intro conjI exI [of _ items]) (simp_all add: trailing_def records_bytes_def)
      qed
    qed
  qed
qed

subsection \<open>An input that does not change\<close>

definition quiet :: "input_view \<Rightarrow> file_tree \<Rightarrow> bool" where
  "quiet view t \<longleftrightarrow> \<not> faulty t \<and> (\<forall>n. iv_tree view n = t \<and> iv_mode view n = iv_mode view 0 \<and> iv_mtime view n = iv_mtime view 0)"

lemma quiet_metadata: "quiet view t \<Longrightarrow> metadata_at view opts n e = metadata_at view opts 0 e"
proof -
  assume "quiet view t"
  then have "iv_tree view n = iv_tree view 0" "iv_mode view n = iv_mode view 0" "iv_mtime view n = iv_mtime view 0"
    unfolding quiet_def by metis+
  then show ?thesis unfolding metadata_at_def status_metadata_def by (simp only:)
qed

fun pieces :: "nat \<Rightarrow> bytes \<Rightarrow> bytes list" where
  "pieces n xs = (if xs = [] then [] else if n = 0 then [xs] else take n xs # pieces n (drop n xs))"

declare pieces.simps [simp del]

lemma pieces_Nil [simp]: "pieces n [] = []"
  by (simp add: pieces.simps)

lemma pieces_Cons: "xs \<noteq> [] \<Longrightarrow> 0 < n \<Longrightarrow> pieces n xs = take n xs # pieces n (drop n xs)"
  by (simp add: pieces.simps [of n xs])

definition content_of :: "file_tree \<Rightarrow> directory_entry \<Rightarrow> bytes" where
  "content_of t e = (case status_of t (de_path e) True of Some (File c) \<Rightarrow> c | _ \<Rightarrow> [])"

text \<open>The item of an entry.\<close>

definition metadata_of :: "input_view \<Rightarrow> ArchiveWriter \<Rightarrow> directory_entry \<Rightarrow> EntryMetadata" where
  "metadata_of view w e = projr (metadata_at view (aw_options w) 0 e)"

definition entry_items :: "input_view \<Rightarrow> ArchiveWriter \<Rightarrow> file_tree \<Rightarrow> directory_entry \<Rightarrow> archive_item list" where
  "entry_items view w t e =
    (let m = metadata_of view w e in
     case de_kind e of
       DirEntry \<Rightarrow> [DirectoryItem m]
     | LinkEntry \<Rightarrow> if ao_include_symlinks (aw_options w) then [SymlinkItem m] else []
     | RegularEntry \<Rightarrow> [FileItem m (pieces (aw_file_bytes_payload_size w) (content_of t e))]
     | OtherEntry \<Rightarrow> [])"

text \<open>What the writer relies on for an entry.\<close>

definition entry_ok :: "input_view \<Rightarrow> ArchiveWriter \<Rightarrow> file_tree \<Rightarrow> directory_entry \<Rightarrow> bool" where
  "entry_ok view w t e \<longleftrightarrow>
     (de_kind e = OtherEntry \<or> de_kind e = LinkEntry \<and> \<not> ao_include_symlinks (aw_options w)
      \<or> (\<exists>m. metadata_at view (aw_options w) 0 e = Inr m \<and> (\<exists>bs. serialize_entry_metadata m = Inr bs)))
     \<and> (de_kind e = RegularEntry \<longrightarrow> (\<exists>q c. resolve t (de_path e) False = Some q \<and> resolve t (de_path e) True = Some q
          \<and> node_at t q = Some (File c)))"

lemma emits_trans: "emits view w outs w1 \<Longrightarrow> emits view w1 outs' w2 \<Longrightarrow> emits view w (outs @ outs') w2"
proof -
  have "emits view w1 outs' w2 \<Longrightarrow> emits view w outs w1 \<Longrightarrow> emits view w (outs @ outs') w2"
    by (induction rule: emits.induct) (auto intro: emits_next simp flip: append_assoc)
  then show "emits view w outs w1 \<Longrightarrow> emits view w1 outs' w2 \<Longrightarrow> emits view w (outs @ outs') w2" by blast
qed

lemma emits_one: "next_record_bytes view w = (Inr (Some rec), w') \<Longrightarrow> emits view w [rec] w'"
  using emits_next [OF emits_none] by fastforce

text \<open>Between two entries, with the next entry to come.\<close>

definition at_entry :: "ArchiveWriter \<Rightarrow> nat \<Rightarrow> ArchiveWriter \<Rightarrow> bool" where
  "at_entry w0 i w \<longleftrightarrow> aw_options w = aw_options w0 \<and> aw_entries w = aw_entries w0
     \<and> aw_file_bytes_payload_size w = aw_file_bytes_payload_size w0
     \<and> aw_trailing_padding_record w = aw_trailing_padding_record w0
     \<and> aw_trailing_padding_emitted w = aw_trailing_padding_emitted w0
     \<and> aw_emitted_begin w \<and> \<not> aw_emitted_end w \<and> \<not> aw_current_file_open w \<and> aw_entry_index w = i"

lemma file_emitted:
  assumes "quiet view t" "node_at t q = Some (File c)" "0 < aw_file_bytes_payload_size w" "aw_emitted_begin w"
    "aw_current_file_open w" "aw_current_file w = q" "aw_current_file_pos w \<le> length c"
    "aw_current_file_eof w \<longrightarrow> aw_current_file_pos w = length c"
    "aw_current_file_bytes_read w = of_nat (aw_current_file_pos w)" "aw_current_file_expected_bytes w = of_nat (length c)"
    "\<not> aw_emitted_end w"
  shows "\<exists>w'. emits view w (records_bytes (map (\<lambda>bs. \<lparr>ar_type = FileBytes, ar_payload = bs\<rparr>)
        (pieces (aw_file_bytes_payload_size w) (drop (aw_current_file_pos w) c)) @ [\<lparr>ar_type = FileEnd, ar_payload = []\<rparr>])) w'
     \<and> same_archive_writer w w' \<and> \<not> aw_current_file_open w' \<and> aw_entry_index w' = aw_entry_index w"
  using assms
proof (induction "length c - aw_current_file_pos w" arbitrary: w rule: less_induct)
  case less
  let ?n = "aw_file_bytes_payload_size w" and ?rest = "drop (aw_current_file_pos w) c"
  have t: "iv_tree view k = t" "\<not> faulty t" for k using less.prems(1) by (simp_all add: quiet_def)
  show ?case
  proof (cases "?rest = []")
    case True
    then have pos: "aw_current_file_pos w = length c" using less.prems(7) by simp
    have "\<exists>w'. next_record_bytes view w = (Inr (Some (serialize_record \<lparr>ar_type = FileEnd, ar_payload = []\<rparr>)), w')
      \<and> same_archive_writer w w' \<and> \<not> aw_current_file_open w' \<and> aw_entry_index w' = aw_entry_index w"
      using less.prems pos t
      by (cases "aw_current_file_eof w")
         (simp_all add: next_record_bytes_def next_file_bytes_or_end_def read_input_def bindS_def op_defs produce_eq Let_def
           make_record_def same_archive_writer_def)
    then show ?thesis using True by (auto simp: records_bytes_def intro: emits_one)
  next
    case False
    then have ne: "\<not> aw_current_file_eof w" "aw_current_file_pos w < length c" using less.prems(7,8) by auto
    define bs where "bs = take ?n ?rest"
    have bs: "bs \<noteq> []" using False less.prems(3) by (simp add: bs_def)
    let ?w = "w\<lparr>aw_calls := aw_calls w + 1, aw_current_file_pos := aw_current_file_pos w + length bs,
      aw_current_file_eof := length bs < ?n, aw_current_file_bytes_read := aw_current_file_bytes_read w + of_nat (length bs),
      aw_bytes_produced := aw_bytes_produced w + of_nat (length (serialize_record \<lparr>ar_type = FileBytes, ar_payload = bs\<rparr>))\<rparr>"
    have nx: "next_record_bytes view w = (Inr (Some (serialize_record \<lparr>ar_type = FileBytes, ar_payload = bs\<rparr>)), ?w)"
      using less.prems ne t bs
      by (simp add: next_record_bytes_def next_file_bytes_or_end_def read_input_def bindS_def op_defs produce_eq Let_def
           make_record_def flip: bs_def)
    have dec: "length c - aw_current_file_pos ?w < length c - aw_current_file_pos w"
      using ne bs by (cases bs) (simp_all add: bs_def)
    have lt: "length bs < ?n \<Longrightarrow> aw_current_file_pos w + length bs = length c"
      using ne unfolding bs_def by (auto simp: min_def split: if_splits)
    have le: "aw_current_file_pos w + length bs \<le> length c" using ne by (simp add: bs_def)
    obtain w' where w': "emits view ?w (records_bytes (map (\<lambda>bs. \<lparr>ar_type = FileBytes, ar_payload = bs\<rparr>)
        (pieces ?n (drop (aw_current_file_pos w + length bs) c)) @ [\<lparr>ar_type = FileEnd, ar_payload = []\<rparr>])) w'"
      "same_archive_writer ?w w'" "\<not> aw_current_file_open w'" "aw_entry_index w' = aw_entry_index ?w"
      using less.hyps [OF dec] less.prems le lt by auto
    have "drop (aw_current_file_pos w + length bs) c = drop ?n ?rest"
      using lt by (cases "length bs < ?n") (auto simp: bs_def min_def ac_simps split: if_splits)
    then have "pieces ?n ?rest = bs # pieces ?n (drop (aw_current_file_pos w + length bs) c)"
      using pieces_Cons [OF False less.prems(3)] by (simp add: bs_def)
    then have "emits view w (records_bytes (map (\<lambda>bs. \<lparr>ar_type = FileBytes, ar_payload = bs\<rparr>) (pieces ?n ?rest)
        @ [\<lparr>ar_type = FileEnd, ar_payload = []\<rparr>])) w'"
      using emits_trans [OF emits_one [OF nx] w'(1)] by (simp add: records_bytes_def)
    moreover have "same_archive_writer w w'" using w'(2) by (simp add: same_archive_writer_def)
    ultimately show ?thesis using w'(3,4) by auto
  qed
qed


lemma emits_first:
  "emits view w1 outs w' \<Longrightarrow> outs \<noteq> [] \<Longrightarrow> next_record_bytes view w = next_record_bytes view w1 \<Longrightarrow> emits view w outs w'"
proof (induction rule: emits.induct)
  case (emits_next outs w2 rec w3)
  show ?case
  proof (cases "outs = []")
    case True
    then have "w2 = w1" using emits_next.hyps(1) by (auto elim: emits.cases)
    then show ?thesis using True emits_next.hyps(2) emits_next.prems(2) by (auto intro: emits_one)
  next
    case False
    then show ?thesis using emits_next by (auto intro: emits.emits_next)
  qed
qed simp

lemma serialized_metadata_at:
  assumes "quiet view t" "metadata_at view (aw_options w) 0 e = Inr m" "serialize_entry_metadata m = Inr bs"
  shows "serialized_metadata view e w = (Inr bs, w\<lparr>aw_calls := aw_calls w + 1\<rparr>)"
    "metadata_for view e w = (Inr m, w\<lparr>aw_calls := aw_calls w + 1\<rparr>)"
  using assms quiet_metadata [OF assms(1), of "aw_options w" "aw_calls w" e]
  by (simp_all add: serialized_metadata_def metadata_for_def bindS_def liftS_def)

lemma regular_size:
  assumes "quiet view t" "metadata_at view opts 0 e = Inr m" "resolve t (de_path e) False = Some q" "node_at t q = Some (File c)"
  shows "em_original_size m = of_nat (length c)"
  using assms by (auto simp: metadata_at_def quiet_def status_metadata_def Let_def split: option.splits)

lemma entry_emitted:
  assumes q: "quiet view t" and pos: "0 < aw_file_bytes_payload_size w0" and at: "at_entry w0 i w"
    and drop: "drop i (aw_entries w0) = e # es" and ok: "entry_ok view w0 t e" and items: "entry_items view w0 t e = [item]"
  shows "\<exists>w'. emits view w (records_bytes (item_records item)) w' \<and> at_entry w0 (Suc i) w'"
proof -
  have k: "aw_options w = aw_options w0" "aw_entries w = aw_entries w0" "aw_emitted_begin w" "\<not> aw_current_file_open w"
    "aw_entry_index w = i" "\<not> aw_emitted_end w" "aw_file_bytes_payload_size w = aw_file_bytes_payload_size w0"
    using at by (simp_all add: at_entry_def)
  have nx: "next_record_bytes view w = (Inr (Some rec), w')" if "next_entry view (e # es) w = (Inr (Some rec), w')" for rec w'
    using k drop that by (simp add: next_record_bytes_def getS_def bindS_def returnS_def del: next_entry.simps)
  have ne: "de_kind e \<noteq> OtherEntry" "\<not> (de_kind e = LinkEntry \<and> \<not> ao_include_symlinks (aw_options w0))"
    using items by (auto simp: entry_items_def Let_def split: if_splits)
  then obtain m bs where m: "metadata_at view (aw_options w0) 0 e = Inr m" "serialize_entry_metadata m = Inr bs"
    using ok by (auto simp: entry_ok_def)
  have mo: "metadata_of view w0 e = m" using m by (simp add: metadata_of_def)
  let ?w = "w\<lparr>aw_entry_index := Suc i\<rparr>"
  note sm = serialized_metadata_at [OF q, of ?w e m bs, simplified, unfolded k(1), OF m]
  have rec: "make_record ty bs = serialize_record (metadata_record ty m)" for ty
    using m by (simp add: make_record_def metadata_record_def)
  show ?thesis
  proof (cases "de_kind e")
    case OtherEntry
    then show ?thesis using ne by simp
  next
    case DirEntry
    have "next_record_bytes view w = (Inr (Some (serialize_record (metadata_record DirectoryEntry m))),
        w\<lparr>aw_entry_index := Suc i, aw_calls := aw_calls w + 1,
          aw_bytes_produced := aw_bytes_produced w + of_nat (length (serialize_record (metadata_record DirectoryEntry m)))\<rparr>)"
      by (intro nx) (use sm k(5) rec DirEntry in \<open>simp add: bindS_def modifyS_def produce_eq returnS_def\<close>)
    moreover have "item = DirectoryItem m" using items DirEntry mo by (simp add: entry_items_def Let_def)
    ultimately show ?thesis using at by (auto simp: records_bytes_def at_entry_def dest!: emits_one)
  next
    case LinkEntry
    have "next_record_bytes view w = (Inr (Some (serialize_record (metadata_record SymlinkEntry m))),
        w\<lparr>aw_entry_index := Suc i, aw_calls := aw_calls w + 1,
          aw_bytes_produced := aw_bytes_produced w + of_nat (length (serialize_record (metadata_record SymlinkEntry m)))\<rparr>)"
      by (intro nx) (use sm k(1,5) rec ne LinkEntry in \<open>simp add: bindS_def modifyS_def getS_def produce_eq returnS_def\<close>)
    moreover have "item = SymlinkItem m" using items LinkEntry mo ne by (simp add: entry_items_def Let_def split: if_splits)
    ultimately show ?thesis using at by (auto simp: records_bytes_def at_entry_def dest!: emits_one)
  next
    case RegularEntry
    then obtain p c where p: "resolve t (de_path e) False = Some p" "resolve t (de_path e) True = Some p" "node_at t p = Some (File c)"
      using ok by (auto simp: entry_ok_def)
    have size: "em_original_size m = of_nat (length c)" using regular_size [OF q m(1) p(1,3)] .
    have co: "content_of t e = c" using p by (simp add: content_of_def status_of_def)
    have tq: "iv_tree view n = t" "\<not> faulty t" for n using q by (simp_all add: quiet_def)
    define w1 where "w1 = w\<lparr>aw_entry_index := Suc i, aw_calls := aw_calls w + 2, aw_current_file := p, aw_current_file_eof := False,
        aw_current_file_pos := 0, aw_current_file_open := True, aw_current_file_expected_bytes := em_original_size m,
        aw_current_file_bytes_read := 0,
        aw_bytes_produced := aw_bytes_produced w + of_nat (length (serialize_record (metadata_record FileEntry m)))\<rparr>"
    have n1: "next_record_bytes view w = (Inr (Some (serialize_record (metadata_record FileEntry m))), w1)"
      by (intro nx) (use sm k(5) rec RegularEntry p tq m(2) in
        \<open>simp add: bindS_def modifyS_def produce_eq returnS_def open_input_def getS_def guardS_def liftS_def Let_def w1_def\<close>)
    have "\<exists>w'. emits view w1 (records_bytes (map (\<lambda>bs. \<lparr>ar_type = FileBytes, ar_payload = bs\<rparr>)
        (pieces (aw_file_bytes_payload_size w1) (drop (aw_current_file_pos w1) c)) @ [\<lparr>ar_type = FileEnd, ar_payload = []\<rparr>])) w'
     \<and> same_archive_writer w1 w' \<and> \<not> aw_current_file_open w' \<and> aw_entry_index w' = aw_entry_index w1"
      by (rule file_emitted [OF q p(3)]) (use pos k size in \<open>simp_all add: w1_def\<close>)
    then obtain w' where w': "emits view w1 (records_bytes (map (\<lambda>bs. \<lparr>ar_type = FileBytes, ar_payload = bs\<rparr>)
        (pieces (aw_file_bytes_payload_size w0) c) @ [\<lparr>ar_type = FileEnd, ar_payload = []\<rparr>])) w'"
      "same_archive_writer w1 w'" "\<not> aw_current_file_open w'" "aw_entry_index w' = Suc i"
      using k by (auto simp: w1_def)
    have "item = FileItem m (pieces (aw_file_bytes_payload_size w0) c)"
      using items RegularEntry mo co by (simp add: entry_items_def Let_def)
    then have "emits view w (records_bytes (item_records item)) w'"
      using emits_trans [OF emits_one [OF n1] w'(1)] by (simp add: records_bytes_def)
    moreover have "at_entry w0 (Suc i) w'" using w'(2-4) at by (simp add: same_archive_writer_def at_entry_def w1_def)
    ultimately show ?thesis by blast
  qed
qed


lemma skipped_entry:
  assumes "at_entry w0 i w" "drop i (aw_entries w0) = e # es" "entry_items view w0 t e = []"
  shows "next_record_bytes view w = next_record_bytes view (w\<lparr>aw_entry_index := Suc i\<rparr>)"
proof -
  have k: "aw_options w = aw_options w0" "aw_entries w = aw_entries w0" "aw_emitted_begin w" "\<not> aw_current_file_open w"
    "aw_entry_index w = i" using assms(1) by (simp_all add: at_entry_def)
  have "next_entry view (e # es) w = next_entry view es (w\<lparr>aw_entry_index := Suc i\<rparr>)"
    using assms(3) k by (auto simp: entry_items_def Let_def bindS_def modifyS_def getS_def split: dirent_kind.splits if_splits)
  moreover have "drop (Suc i) (aw_entries w0) = es" using assms(2) by (metis drop_Suc list.sel(3) tl_drop)
  ultimately show ?thesis using k assms(2) by (simp add: next_record_bytes_def getS_def bindS_def del: next_entry.simps)
qed

text \<open>The items of all entries, and the state of a writer that has given the end of the archive.\<close>

definition archive_items :: "input_view \<Rightarrow> ArchiveWriter \<Rightarrow> file_tree \<Rightarrow> archive_item list" where
  "archive_items view w t = concat (map (entry_items view w t) (aw_entries w))"

definition after_end :: "ArchiveWriter \<Rightarrow> ArchiveWriter \<Rightarrow> bool" where
  "after_end w0 w \<longleftrightarrow> aw_emitted_begin w \<and> aw_emitted_end w \<and> \<not> aw_current_file_open w
     \<and> length (aw_entries w) \<le> aw_entry_index w
     \<and> aw_trailing_padding_record w = aw_trailing_padding_record w0
     \<and> aw_trailing_padding_emitted w = aw_trailing_padding_emitted w0"

lemma entry_items_length: "length (entry_items view w t e) \<le> 1"
  by (simp add: entry_items_def Let_def split: dirent_kind.split)

lemma entries_emitted:
  assumes q: "quiet view t" and pos: "0 < aw_file_bytes_payload_size w0"
  shows "drop i (aw_entries w0) = es \<Longrightarrow> at_entry w0 i w \<Longrightarrow> list_all (entry_ok view w0 t) es \<Longrightarrow>
    \<exists>w'. emits view w (records_bytes (concat (map item_records (concat (map (entry_items view w0 t) es))) @ [end_record])) w'
      \<and> after_end w0 w'"
proof (induction es arbitrary: i w)
  case Nil
  then have k: "aw_entries w = aw_entries w0" "aw_emitted_begin w" "\<not> aw_current_file_open w" "aw_entry_index w = i" "\<not> aw_emitted_end w"
    "aw_trailing_padding_record w = aw_trailing_padding_record w0" "aw_trailing_padding_emitted w = aw_trailing_padding_emitted w0"
    by (simp_all add: at_entry_def)
  have "next_record_bytes view w = (Inr (Some (serialize_record end_record)),
      w\<lparr>aw_emitted_end := True, aw_bytes_produced := aw_bytes_produced w + of_nat (length (serialize_record end_record))\<rparr>)"
    using k Nil(1) by (simp add: next_record_bytes_def getS_def bindS_def returnS_def modifyS_def produce_eq make_record_def end_record_def)
  from emits_one [OF this] show ?case
    using k Nil(1) by (intro exI) (rule conjI, simp add: records_bytes_def, simp add: after_end_def)
next
  case (Cons e es)
  have dr: "drop (Suc i) (aw_entries w0) = es" using Cons.prems(1) by (metis drop_Suc list.sel(3) tl_drop)
  have ok: "entry_ok view w0 t e" "list_all (entry_ok view w0 t) es" using Cons.prems(3) by simp_all
  show ?case
  proof (cases "entry_items view w0 t e")
    case Nil
    let ?w = "w\<lparr>aw_entry_index := Suc i\<rparr>"
    have "at_entry w0 (Suc i) ?w" using Cons.prems(2) by (simp add: at_entry_def)
    from Cons.IH [OF dr this ok(2)] obtain w' where
      w': "emits view ?w (records_bytes (concat (map item_records (concat (map (entry_items view w0 t) es))) @ [end_record])) w'"
        "after_end w0 w'" by blast
    have "emits view w (records_bytes (concat (map item_records (concat (map (entry_items view w0 t) es))) @ [end_record])) w'"
      by (rule emits_first [OF w'(1) _ skipped_entry [OF Cons.prems(2,1) Nil]]) (simp add: records_bytes_def)
    then show ?thesis using w'(2) Nil by auto
  next
    case (Cons item rest)
    then have it: "entry_items view w0 t e = [item]" using entry_items_length [of view w0 t e] by simp
    from entry_emitted [OF q pos Cons.prems(2,1) ok(1) it] obtain w1 where
      w1: "emits view w (records_bytes (item_records item)) w1" "at_entry w0 (Suc i) w1" by blast
    from Cons.IH [OF dr w1(2) ok(2)] obtain w' where
      w': "emits view w1 (records_bytes (concat (map item_records (concat (map (entry_items view w0 t) es))) @ [end_record])) w'"
        "after_end w0 w'" by blast
    show ?thesis using emits_trans [OF w1(1) w'(1)] w'(2) it by (auto simp: records_bytes_def)
  qed
qed


subsection \<open>The planned size\<close>

lemma concat_pieces: "0 < n \<Longrightarrow> concat (pieces n xs) = xs"
proof (induction n xs rule: pieces.induct)
  case (1 n xs)
  show ?case
  proof (cases "xs = []")
    case False
    then have "concat (pieces n (drop n xs)) = drop n xs" using 1 by simp
    then show ?thesis by (simp only: pieces_Cons [OF False 1(2)] concat.simps append_take_drop_id)
  qed simp
qed

lemma length_pieces: "0 < n \<Longrightarrow> length (pieces n xs) = (length xs + n - 1) div n"
proof (induction n xs rule: pieces.induct)
  case (1 n xs)
  show ?case
  proof (cases "xs = []")
    case True
    then show ?thesis using 1 by simp
  next
    case False
    have "length (pieces n (drop n xs)) = (length xs - n + n - 1) div n"
      using 1(1) [OF False] 1(2) by (simp only: length_drop neq0_conv simp_thms)
    then have "length (pieces n xs) = Suc ((length xs - n + n - 1) div n)" by (simp only: pieces_Cons [OF False 1(2)] length_Cons)
    also have "\<dots> = (length xs + n - 1) div n"
    proof -
      have s: "(m + n) div n = Suc (m div n)" for m using 1(2) by (simp add: div_add_self2)
      have eq: "length xs + n - 1 = (length xs - 1) + n" using False by (cases xs) auto
      have "(length xs - n + n - 1) div n = (length xs - 1) div n"
      proof (cases "length xs \<le> n")
        case True
        then have "length xs - 1 < n" "length xs - n + n - 1 < n" using False 1(2) by (cases xs; simp)+
        then show ?thesis by simp
      qed simp
      then show ?thesis by (simp only: eq s)
    qed
    finally show ?thesis .
  qed
qed

definition total_size :: "ArchiveRecord list \<Rightarrow> u64" where
  "total_size recs = of_nat (length (concat (records_bytes recs)))"

lemma total_size_simps [simp]:
  "total_size [] = 0" "total_size (r # rs) = of_nat (9 + length (ar_payload r)) + total_size rs"
  "total_size (rs @ rs') = total_size rs + total_size rs'"
  by (simp_all add: total_size_def records_bytes_def length_serialize_record)

lemma total_size_pieces:
  "total_size (map (\<lambda>bs. \<lparr>ar_type = FileBytes, ar_payload = bs\<rparr>) bss) = of_nat (9 * length bss + length (concat bss))"
  by (induction bss) (simp_all add: algebra_simps)

lemma planned_file_size:
  assumes "0 < n" "length c + n < 2 ^ 64"
  shows "(if (of_nat (length c) :: u64) > 0 then sz + (of_nat (length c) + of_nat n - 1) div of_nat n * of_nat 9 + of_nat (length c) else sz)
    = sz + total_size (map (\<lambda>bs. \<lparr>ar_type = FileBytes, ar_payload = bs\<rparr>) (pieces n c))"
proof (cases "c = []")
  case True
  then show ?thesis by simp
next
  case False
  let ?l = "length c"
  have l: "0 < ?l" "?l < 2 ^ 64" "n < 2 ^ 64" using assms False by auto
  have pos: "(of_nat ?l :: u64) > 0" using l unat_of_nat_u64 [OF l(2)] by (simp only: word_less_nat_alt unat_0)
  have "(of_nat ?l + of_nat n - 1 :: u64) = of_nat (?l + n - 1)" using assms(1) by (simp add: of_nat_diff)
  also have "\<dots> div of_nat n = of_nat ((?l + n - 1) div n)"
  proof -
    have u: "unat (of_nat (?l + n - 1) :: u64) = ?l + n - 1" "unat (of_nat n :: u64) = n"
      using assms l by (intro unat_of_nat_u64; linarith)+
    have "(?l + n - 1) div n < 2 ^ 64" using assms by (meson div_le_dividend le_less_trans less_imp_diff_less)
    then have "unat (of_nat ((?l + n - 1) div n) :: u64) = (?l + n - 1) div n" by (rule unat_of_nat_u64)
    then show ?thesis by (simp only: word_unat_eq_iff unat_div u)
  qed
  finally have d: "(of_nat ?l + of_nat n - 1 :: u64) div of_nat n = of_nat (length (pieces n c))"
    using length_pieces [OF assms(1), of c] by simp
  show ?thesis unfolding total_size_pieces d concat_pieces [OF assms(1)] using pos by (simp add: algebra_simps)
qed


lemma metadata_record_size:
  "serialize_entry_metadata m = Inr bs \<Longrightarrow> total_size [metadata_record ty m] = of_nat (kRecordPrefixSize + length bs)"
  by (simp add: metadata_record_def)

text \<open>What holds of the entries of a writer because of the way they were found.\<close>

definition found_ok :: "file_tree \<Rightarrow> nat \<Rightarrow> directory_entry \<Rightarrow> bool" where
  "found_ok t n e \<longleftrightarrow> (de_kind e = RegularEntry \<longrightarrow>
     (\<exists>q c. resolve t (de_path e) False = Some q \<and> resolve t (de_path e) True = Some q
        \<and> node_at t q = Some (File c) \<and> length c + n < 2 ^ 64))"

lemma serialized_metadata_bind:
  "bindS (serialized_metadata view e) f w = bindS (metadata_for view e) (\<lambda>m. bindS (liftS (serialize_entry_metadata m)) f) w"
  by (cases rule: bindS_cases [of "metadata_for view e" w "\<lambda>m. liftS (serialize_entry_metadata m)"])
     (simp_all add: serialized_metadata_def bindS_def)

lemma plan_entries_Inr:
  assumes q: "quiet view t" and pos: "0 < aw_file_bytes_payload_size w0"
  shows "plan_entries view es n w = (Inr n', w') \<Longrightarrow> aw_options w = aw_options w0
     \<Longrightarrow> aw_file_bytes_payload_size w = aw_file_bytes_payload_size w0
     \<Longrightarrow> list_all (found_ok t (aw_file_bytes_payload_size w0)) es
     \<Longrightarrow> n' = n + total_size (concat (map item_records (concat (map (entry_items view w0 t) es))))
       \<and> list_all (entry_ok view w0 t) es \<and> (\<exists>k. w' = w\<lparr>aw_calls := k\<rparr>)"
proof (induction es arbitrary: n w)
  case Nil
  from Nil(1) have "n' = n" "w' = w" by (simp_all add: returnS_def)
  moreover have "w = w\<lparr>aw_calls := aw_calls w\<rparr>" by simp
  then have "\<exists>k. w = w\<lparr>aw_calls := k\<rparr>" ..
  ultimately show ?case by simp
next
  case (Cons e es)
  let ?w = "w\<lparr>aw_calls := aw_calls w + 1\<rparr>"
  have fo: "found_ok t (aw_file_bytes_payload_size w0) e" "list_all (found_ok t (aw_file_bytes_payload_size w0)) es"
    using Cons.prems(4) by simp_all
  have step: "n' = n + total_size (concat (map item_records (concat (map (entry_items view w0 t) (e # es)))))
       \<and> list_all (entry_ok view w0 t) (e # es) \<and> (\<exists>k. w' = w\<lparr>aw_calls := k\<rparr>)"
    if "plan_entries view es n1 w1 = (Inr n', w')" "w1 = w \<or> w1 = ?w" "entry_ok view w0 t e"
      "n1 = n + total_size (concat (map item_records (entry_items view w0 t e)))" for n1 w1
  proof -
    have "aw_options w1 = aw_options w0" "aw_file_bytes_payload_size w1 = aw_file_bytes_payload_size w0"
      using that(2) Cons.prems(2,3) by auto
    from Cons.IH [OF that(1) this fo(2)] show ?thesis using that(2-4) by (auto simp: algebra_simps)
  qed
  have meta: "metadata_at view (aw_options w0) (aw_calls w) e = metadata_at view (aw_options w0) 0 e"
    using quiet_metadata [OF q] .
  have seen: "\<exists>m bs. metadata_at view (aw_options w0) 0 e = Inr m \<and> serialize_entry_metadata m = Inr bs
      \<and> f m bs ?w = (Inr n', w')"
    if "bindS (metadata_for view e) (\<lambda>m. bindS (liftS (serialize_entry_metadata m)) (f m)) w = (Inr n', w')" for f
    using that meta Cons.prems(2) by (auto simp: metadata_for_def bindS_Inr liftS_def)
  show ?case
  proof (cases "de_kind e")
    case OtherEntry
    then show ?thesis using Cons.prems(1) by (intro step [of n w]) (simp_all add: entry_ok_def entry_items_def)
  next
    case DirEntry
    then have "bindS (metadata_for view e) (\<lambda>m. bindS (liftS (serialize_entry_metadata m)) (\<lambda>bs.
        plan_entries view es (n + of_nat (kRecordPrefixSize + length bs)))) w = (Inr n', w')"
      using Cons.prems(1) by (simp add: serialized_metadata_bind)
    from seen [OF this] obtain m bs where m: "metadata_at view (aw_options w0) 0 e = Inr m" "serialize_entry_metadata m = Inr bs"
      "plan_entries view es (n + of_nat (kRecordPrefixSize + length bs)) ?w = (Inr n', w')" by blast
    show ?thesis
      by (rule step [OF m(3)]) (use m DirEntry in \<open>simp_all add: entry_ok_def entry_items_def metadata_of_def metadata_record_def\<close>)
  next
    case LinkEntry
    show ?thesis
    proof (cases "ao_include_symlinks (aw_options w0)")
      case False
      then show ?thesis using Cons.prems(1,2) LinkEntry
        by (intro step [of n w]) (simp_all add: entry_ok_def entry_items_def getS_def)
    next
      case True
      then have "bindS (metadata_for view e) (\<lambda>m. bindS (liftS (serialize_entry_metadata m)) (\<lambda>bs.
          plan_entries view es (n + of_nat (kRecordPrefixSize + length bs)))) w = (Inr n', w')"
        using Cons.prems(1,2) LinkEntry by (simp add: serialized_metadata_bind getS_def)
      from seen [OF this] obtain m bs where m: "metadata_at view (aw_options w0) 0 e = Inr m" "serialize_entry_metadata m = Inr bs"
        "plan_entries view es (n + of_nat (kRecordPrefixSize + length bs)) ?w = (Inr n', w')" by blast
      show ?thesis
        by (rule step [OF m(3)]) (use m LinkEntry True in \<open>simp_all add: entry_ok_def entry_items_def metadata_of_def metadata_record_def\<close>)
    qed
  next
    case RegularEntry
    then obtain p c where p: "resolve t (de_path e) False = Some p" "resolve t (de_path e) True = Some p" "node_at t p = Some (File c)"
      "length c + aw_file_bytes_payload_size w0 < 2 ^ 64" using fo(1) by (auto simp: found_ok_def)
    obtain m bs where m: "metadata_at view (aw_options w0) 0 e = Inr m" "serialize_entry_metadata m = Inr bs" and
      pl: "(let payload_size = of_nat (aw_file_bytes_payload_size ?w); file_size = em_original_size m;
             n_records = (file_size + payload_size - 1) div payload_size;
             total_size = n + of_nat (kRecordPrefixSize + length bs);
             total_size = (if file_size > 0 then total_size + n_records * of_nat kRecordPrefixSize + file_size else total_size)
         in plan_entries view es (total_size + of_nat kRecordPrefixSize)) ?w = (Inr n', w')"
      using Cons.prems(1) seen [of "\<lambda>meta m. getS (\<lambda>w. let payload_size = of_nat (aw_file_bytes_payload_size w);
             file_size = em_original_size meta;
             n_records = (file_size + payload_size - 1) div payload_size;
             total_size = n + of_nat (kRecordPrefixSize + length m);
             total_size = (if file_size > 0 then total_size + n_records * of_nat kRecordPrefixSize + file_size else total_size)
         in plan_entries view es (total_size + of_nat kRecordPrefixSize))"] RegularEntry
      by (auto simp: getS_def)
    have size: "em_original_size m = of_nat (length c)" using regular_size [OF q m(1) p(1,3)] .
    have co: "content_of t e = c" using p by (simp add: content_of_def status_of_def)
    let ?ps = "pieces (aw_file_bytes_payload_size w0) c"
    have pl': "plan_entries view es (n + of_nat (kRecordPrefixSize + length bs)
        + total_size (map (\<lambda>bs. \<lparr>ar_type = FileBytes, ar_payload = bs\<rparr>) ?ps) + of_nat kRecordPrefixSize) ?w = (Inr n', w')"
    proof -
      have pay: "aw_file_bytes_payload_size ?w = aw_file_bytes_payload_size w0" using Cons.prems(3) by simp
      show ?thesis by (rule pl [unfolded Let_def size pay planned_file_size [OF pos p(4)]])
    qed
    show ?thesis
      by (rule step [OF pl']) (use m RegularEntry co p in
        \<open>simp_all add: entry_ok_def entry_items_def metadata_of_def metadata_record_def algebra_simps\<close>)
  qed
qed

subsection \<open>The entries that are found\<close>

lemma wf_prefixes:
  assumes "wf_tree t" "node_at t q \<noteq> None"
  shows "(\<forall>n<length q. is_dir t (take n q)) \<and> list_all proper q"
  using assms(2)
proof (induction q rule: rev_induct)
  case (snoc n q)
  have "entry_at t (q @ [n]) \<noteq> None" using snoc.prems by (auto simp: node_at_def split: if_splits)
  with assms(1) have "proper (last (q @ [n]))" "is_dir t (butlast (q @ [n]))" unfolding wf_tree_def by blast+
  then have p: "proper n" "is_dir t q" by simp_all
  then have "node_at t q \<noteq> None" by (simp add: is_dir_def)
  with snoc.IH p show ?case by (auto simp: less_Suc_eq)
qed simp

lemma resolve_entry:
  assumes "wf_tree t" "q \<noteq> []" "node_at t q = Some nd" "\<not> follow \<or> (\<forall>p. nd \<noteq> Link p)"
  shows "resolve t (absolute_path q) follow = Some q"
proof -
  note pre = wf_prefixes [OF assms(1), of q, unfolded assms(3), simplified]
  have names: "list_all is_name q" using pre by (auto simp: list_all_iff proper_def)
  have ps: "path_names (absolute_path q) = q" using path_names_absolute [OF names] .
  have ne: "absolute_path q \<noteq> []" "\<not> ends_in_slash (absolute_path q)"
    using absolute_path_last [OF assms(2) names] by (simp_all add: ends_in_slash_def)
  have "walk t max_links [] (butlast q @ [last q]) follow = walk t max_links ([] @ butlast q) [last q] follow"
  proof (rule walk_beneath_dirs)
    show "is_dir t ([] @ take n (butlast q))" if "n \<le> length (butlast q)" for n
      using pre that assms(2) by (cases q) (auto simp: butlast_conv_take min_def)
    show "d \<noteq> ''.'' \<and> d \<noteq> ''..''" if "d \<in> set (butlast q)" for d
      using pre that by (auto simp: list_all_iff proper_def dest: in_set_butlastD)
  qed
  also have "walk t max_links ([] @ butlast q) [last q] follow = At q"
  proof -
    have "last q \<noteq> ''.''" "last q \<noteq> ''..''" using pre assms(2) by (auto simp: list_all_iff proper_def)
    then show ?thesis using assms(2-4) by (cases nd) simp_all
  qed
  finally have "walk t max_links [] q follow = At q" using assms(2) by simp
  then show ?thesis using ne by (simp add: resolve_def ps start_of_def)
qed

lemma payload_size_bounds: "65536 \<le> payload_size_for n" "payload_size_for n \<le> 1048576"
proof -
  have "(65536 :: u64) \<le> min (max (n div 4) (64 * 1024)) (1024 * 1024)" by simp
  then show "65536 \<le> payload_size_for n" unfolding payload_size_for_def word_le_nat_alt by simp
  have "min (max (n div 4) (64 * 1024)) (1024 * 1024) \<le> (1048576 :: u64)" by simp
  then show "payload_size_for n \<le> 1048576" unfolding payload_size_for_def word_le_nat_alt by simp
qed

lemma new_ArchiveWriter_Inr:
  assumes "new_ArchiveWriter opts t walk_end = Inr w"
  obtains root where "weakly_canonical t (ao_input_root opts) = Some root" "is_dir t root"
    "set (aw_entries w) = {e \<in> set (iterate t root walk_end). \<not> (de_kind e = LinkEntry \<and> \<not> ao_include_symlinks opts)}"
    "aw_file_bytes_payload_size w = payload_size_for (ao_chunk_plain_size opts)" "aw_entry_index w = 0"
    "\<not> aw_emitted_begin w" "\<not> aw_emitted_end w" "\<not> aw_current_file_open w" "aw_trailing_padding_record w = None"
    "\<not> aw_trailing_padding_emitted w" "aw_bytes_produced w = 0" "ao_include_symlinks (aw_options w) = ao_include_symlinks opts"
  using assms by (auto simp: new_ArchiveWriter_def walk_directory_eq split: option.splits)

lemma found_entries_ok:
  assumes "new_ArchiveWriter opts t walk_end = Inr w" "wf_tree t" "\<forall>q c. node_at t q = Some (File c) \<longrightarrow> length c < 2 ^ 63"
  shows "list_all (found_ok t (aw_file_bytes_payload_size w)) (aw_entries w)"
proof (rule new_ArchiveWriter_Inr [OF assms(1)])
  fix root
  assume es: "set (aw_entries w) = {e \<in> set (iterate t root walk_end). \<not> (de_kind e = LinkEntry \<and> \<not> ao_include_symlinks opts)}"
    and p: "aw_file_bytes_payload_size w = payload_size_for (ao_chunk_plain_size opts)"
  have "found_ok t (aw_file_bytes_payload_size w) e" if "e \<in> set (iterate t root walk_end)" for e
  proof -
    from that obtain q where q: "is_beneath root q" "q \<noteq> root" "e = \<lparr>de_path = absolute_path q, de_kind = entry_kind (node_at t q)\<rparr>"
      by (auto simp: iterate_def walked_def directory_walk_def split: option.splits dest!: in_set_takeD)
    then have ne: "q \<noteq> []" by (auto simp: is_beneath_iff)
    show ?thesis unfolding found_ok_def
    proof
      assume "de_kind e = RegularEntry"
      then obtain c where c: "node_at t q = Some (File c)" using q(3) by (auto simp: entry_kind_def split: option.splits node.splits)
      have "length c + aw_file_bytes_payload_size w < 2 ^ 64"
        using assms(3) c payload_size_bounds(2) [of "ao_chunk_plain_size opts"] p by fastforce
      then show "\<exists>q c. resolve t (de_path e) False = Some q \<and> resolve t (de_path e) True = Some q
          \<and> node_at t q = Some (File c) \<and> length c + aw_file_bytes_payload_size w < 2 ^ 64"
        using resolve_entry [OF assms(2) ne c] c q(3) by auto
    qed
  qed
  then show ?thesis using es by (auto simp: list_all_iff)
qed

subsection \<open>Properties\<close>

definition add_padding :: "bytes option \<Rightarrow> ArchiveWriter \<Rightarrow> ArchiveWriter" where
  "add_padding pad w = (case pad of None \<Rightarrow> w | Some p \<Rightarrow> set_trailing_padding_record p w)"

definition padding_list :: "bytes option \<Rightarrow> bytes list" where
  "padding_list pad = (case pad of None \<Rightarrow> [] | Some p \<Rightarrow> [p])"

lemma next_record_keeps:
  assumes "next_record_bytes view w = (Inr r, w')"
  shows "aw_options w' = aw_options w" "aw_file_bytes_payload_size w' = aw_file_bytes_payload_size w"
    "aw_trailing_padding_record w' = aw_trailing_padding_record w"
proof -
  consider "\<not> aw_emitted_begin w" | "aw_emitted_begin w" "aw_current_file_open w" | "aw_emitted_begin w" "\<not> aw_current_file_open w"
    by blast
  then have "aw_options w' = aw_options w \<and> aw_file_bytes_payload_size w' = aw_file_bytes_payload_size w
    \<and> aw_trailing_padding_record w' = aw_trailing_padding_record w"
  proof cases
    case 1
    then show ?thesis using assms by (auto simp: next_record_bytes_def bindS_def op_defs produce_eq)
  next
    case 2
    then have "next_file_bytes_or_end view w = (Inr r, w')" using assms by (simp add: next_record_bytes_def getS_def)
    from next_file_bytes_or_end_Inr [OF this] show ?thesis by (simp add: same_archive_writer_def)
  next
    case 3
    then obtain r1 w1 where n: "next_entry view (drop (aw_entry_index w) (aw_entries w)) w = (Inr r1, w1)"
      using assms by (auto simp: next_record_bytes_def getS_def bindS_Inr)
    have "same_archive_writer w w1" using next_entry_Inr [OF n] by (simp add: entry_outcome_def)
    moreover have "aw_options w' = aw_options w1 \<and> aw_file_bytes_payload_size w' = aw_file_bytes_payload_size w1
        \<and> aw_trailing_padding_record w' = aw_trailing_padding_record w1"
      using assms 3 n
      by (cases "r1 = None") (auto simp: next_record_bytes_def bindS_def op_defs produce_eq split: if_splits option.splits)
    ultimately show ?thesis by (simp add: same_archive_writer_def)
  qed
  then show "aw_options w' = aw_options w" "aw_file_bytes_payload_size w' = aw_file_bytes_payload_size w"
    "aw_trailing_padding_record w' = aw_trailing_padding_record w" by simp_all
qed

lemma next_record_None:
  assumes "next_record_bytes view w = (Inr None, w')"
  shows "aw_emitted_begin w \<and> \<not> aw_current_file_open w \<and> aw_emitted_end w
    \<and> (aw_trailing_padding_record w \<noteq> None \<longrightarrow> aw_trailing_padding_emitted w) \<and> aw_bytes_produced w' = aw_bytes_produced w"
proof -
  have b: "aw_emitted_begin w"
    by (rule ccontr) (use assms in \<open>simp add: next_record_bytes_def bindS_def op_defs produce_eq\<close>)
  have o: "\<not> aw_current_file_open w"
    using assms b next_file_bytes_or_end_Inr [of view w None w'] by (auto simp: next_record_bytes_def getS_def)
  from assms b o obtain r1 w1 where n: "next_entry view (drop (aw_entry_index w) (aw_entries w)) w = (Inr r1, w1)"
    by (auto simp: next_record_bytes_def getS_def bindS_Inr)
  have "r1 = None" using assms b o n by (cases r1) (simp_all add: next_record_bytes_def bindS_def op_defs)
  moreover from this have "same_archive_writer w w1" "aw_bytes_produced w1 = aw_bytes_produced w"
    using next_entry_Inr [OF n] by (simp_all add: entry_outcome_def)
  ultimately show ?thesis using assms b o n
    by (auto simp: next_record_bytes_def bindS_def op_defs produce_eq same_archive_writer_def split: if_splits option.splits)
qed

lemma emits_stream_at:
  "emits view w outs w' \<Longrightarrow> stream_at view w [] \<Longrightarrow> stream_at view w' outs \<and> aw_options w' = aw_options w
     \<and> aw_file_bytes_payload_size w' = aw_file_bytes_payload_size w \<and> aw_trailing_padding_record w' = aw_trailing_padding_record w"
  by (induction rule: emits.induct) (auto dest: stream_at_next next_record_keeps)

lemma planned_stream:
  assumes "quiet view t" "wf_tree t" "\<forall>q c. node_at t q = Some (File c) \<longrightarrow> length c < 2 ^ 63"
    "new_ArchiveWriter opts t walk_end = Inr w" "plan_plaintext_size view w = (Inr n, w1)"
  shows "\<exists>w2 w3. emits view (add_padding pad w1)
        (records_bytes (stream_records (archive_items view w t) @ [end_record]) @ padding_list pad) w2
    \<and> next_record_bytes view w2 = (Inr None, w3)
    \<and> n = total_size (stream_records (archive_items view w t) @ [end_record])
    \<and> aw_bytes_produced w3 = n + of_nat (length (concat (padding_list pad)))"
proof -
  obtain ff: "aw_entry_index w = 0" "\<not> aw_emitted_begin w" "\<not> aw_emitted_end w" "\<not> aw_current_file_open w"
    "aw_trailing_padding_record w = None" "\<not> aw_trailing_padding_emitted w" "aw_bytes_produced w = 0"
    "aw_file_bytes_payload_size w = payload_size_for (ao_chunk_plain_size opts)"
    by (rule new_ArchiveWriter_Inr [OF assms(4)])
  have pos: "0 < aw_file_bytes_payload_size w" using payload_size_bounds(1) [of "ao_chunk_plain_size opts"] ff(8) by simp
  from assms(5) obtain n0 where pl: "plan_entries view (aw_entries w) (of_nat (kRecordPrefixSize + 4)) w = (Inr n0, w1)"
    and n: "n = n0 + of_nat kRecordPrefixSize"
    by (auto simp: plan_plaintext_size_def getS_def bindS_Inr returnS_def)
  from plan_entries_Inr [OF assms(1) pos pl refl refl found_entries_ok [OF assms(4,2,3)]] obtain k where
    n0: "n0 = of_nat (kRecordPrefixSize + 4) + total_size (concat (map item_records (archive_items view w t)))"
    and ok: "list_all (entry_ok view w t) (aw_entries w)" and w1: "w1 = w\<lparr>aw_calls := k\<rparr>"
    unfolding archive_items_def by blast
  have size: "n = total_size (stream_records (archive_items view w t) @ [end_record])"
    unfolding n n0 stream_records_def
    by (simp add: begin_record_def end_record_def append_simps)
  let ?w = "add_padding pad w1"
  let ?begun = "?w\<lparr>aw_emitted_begin := True, aw_bytes_produced := of_nat (length (serialize_record begin_record))\<rparr>"
  have pad: "aw_trailing_padding_record ?w = pad" "\<not> aw_trailing_padding_emitted ?w" "aw_options ?w = aw_options w"
    "aw_entries ?w = aw_entries w" "aw_file_bytes_payload_size ?w = aw_file_bytes_payload_size w" "aw_entry_index ?w = 0"
    "\<not> aw_emitted_end ?w" "\<not> aw_current_file_open ?w" "\<not> aw_emitted_begin ?w" "aw_bytes_produced ?w = 0"
    using ff by (simp_all add: w1 add_padding_def set_trailing_padding_record_def split: option.splits)
  have b: "next_record_bytes view ?w = (Inr (Some (serialize_record begin_record)), ?begun)"
    using pad(9,10) by (simp add: next_record_bytes_def bindS_def op_defs produce_eq make_record_def begin_record_def)
  have items: "entry_items view ?w t e = entry_items view w t e" "entry_ok view ?w t e = entry_ok view w t e" for e
    by (simp_all only: entry_items_def entry_ok_def metadata_of_def pad)
  have "at_entry ?w 0 ?begun" using pad by (simp add: at_entry_def)
  from entries_emitted [OF assms(1) _ _ this, of "aw_entries w"] obtain w2 where
    e: "emits view ?begun (records_bytes (concat (map item_records (archive_items view w t)) @ [end_record])) w2"
    and a: "after_end ?w w2"
    unfolding archive_items_def items [abs_def] pad using pos ok by auto
  have es: "emits view ?w (records_bytes (stream_records (archive_items view w t) @ [end_record])) w2"
    using emits_trans [OF emits_one [OF b] e] by (simp add: records_bytes_def stream_records_def)
  have st: "stream_at view ?w []" unfolding stream_at_def using pad by (intro conjI exI [of _ "[]"]) simp_all
  have fin: "next_record_bytes view v = (Inr None, v)"
    if "after_end w' v" "aw_trailing_padding_record v = None \<or> aw_trailing_padding_emitted v" for v w'
    using that by (auto simp: after_end_def next_record_bytes_def bindS_def op_defs split: option.splits)
  show ?thesis
  proof (cases pad)
    case None
    have "next_record_bytes view w2 = (Inr None, w2)" using fin [OF a] a None pad(1) by (simp add: after_end_def)
    moreover have "aw_bytes_produced w2 = n"
      using emits_stream_at [OF es st] size by (simp add: stream_at_def total_size_def)
    ultimately show ?thesis using es size None by (intro exI [of _ w2]) (auto simp: padding_list_def)
  next
    case (Some p)
    let ?w3 = "w2\<lparr>aw_trailing_padding_emitted := True, aw_bytes_produced := aw_bytes_produced w2 + of_nat (length p)\<rparr>"
    have nx: "next_record_bytes view w2 = (Inr (Some p), ?w3)"
      using a pad(1,2) Some by (auto simp: after_end_def next_record_bytes_def bindS_def op_defs produce_eq)
    have es3: "emits view ?w (records_bytes (stream_records (archive_items view w t) @ [end_record]) @ padding_list pad) ?w3"
      using emits_next [OF es nx] Some by (simp add: padding_list_def)
    have "next_record_bytes view ?w3 = (Inr None, ?w3)"
      using a by (auto simp: after_end_def next_record_bytes_def bindS_def op_defs split: option.splits)
    moreover have "aw_bytes_produced ?w3 = n + of_nat (length (concat (padding_list pad)))"
      using emits_stream_at [OF es3 st] size by (simp add: stream_at_def total_size_def)
    ultimately show ?thesis using es3 size by blast
  qed
qed

text \<open>C12: Whatever happens to the input while it is archived, a stream that the writer completes
  follows the grammar: \<open>ArchiveBegin\<close>, the entries, \<open>ArchiveEnd\<close> and the padding record if one was
  given; each entry has valid metadata that the writer has seen (\<open>item_ok\<close>, \<open>seen_metadata\<close>): its path
  is safe for an extraction and not \<open>.\<close>, only a symlink has a target and only a file a size; a file
  has as many bytes of content as its metadata say, cut into non-empty records of at most 1 MiB; and
  the writer has counted exactly the bytes it has given.\<close>
theorem archive_stream_wellformed:
  assumes "new_ArchiveWriter opts t walk_end = Inr w" "emits view (add_padding pad (w\<lparr>aw_calls := k\<rparr>)) outs w2"
    "next_record_bytes view w2 = (Inr None, w3)"
  shows "\<exists>items. list_all (item_ok view (aw_options w) (aw_file_bytes_payload_size w)) items
    \<and> aw_file_bytes_payload_size w \<le> 1048576
    \<and> outs = records_bytes (stream_records items @ [end_record]) @ padding_list pad
    \<and> aw_bytes_produced w2 = of_nat (length (concat outs))"
proof -
  let ?w = "add_padding pad (w\<lparr>aw_calls := k\<rparr>)"
  obtain ff: "\<not> aw_emitted_begin w" "\<not> aw_emitted_end w" "\<not> aw_current_file_open w" "aw_trailing_padding_record w = None"
    "\<not> aw_trailing_padding_emitted w" "aw_bytes_produced w = 0" "aw_file_bytes_payload_size w = payload_size_for (ao_chunk_plain_size opts)"
    by (rule new_ArchiveWriter_Inr [OF assms(1)])
  have k: "aw_options ?w = aw_options w" "aw_file_bytes_payload_size ?w = aw_file_bytes_payload_size w"
    "aw_trailing_padding_record ?w = pad"
    using ff by (simp_all add: add_padding_def set_trailing_padding_record_def split: option.splits)
  have "stream_at view ?w []" unfolding stream_at_def using ff
    by (intro conjI exI [of _ "[]"]) (simp_all add: add_padding_def set_trailing_padding_record_def split: option.splits)
  note e = emits_stream_at [OF assms(2) this] and n = next_record_None [OF assms(3)]
  then obtain items where "list_all (item_ok view (aw_options w) (aw_file_bytes_payload_size w)) items"
    "outs = records_bytes (stream_records items @ [end_record]) @ trailing w2" "aw_bytes_produced w2 = of_nat (length (concat outs))"
    unfolding stream_at_def k by auto
  moreover have "trailing w2 = padding_list pad"
    using e n k(3) unfolding trailing_def padding_list_def stream_at_def by (cases pad) auto
  ultimately show ?thesis using ff(7) payload_size_bounds(2) by auto
qed

text \<open>C13: If the input does not change while it is archived, the planned plaintext size is exactly the
  size of the stream: after \<open>plan_plaintext_size\<close> has returned, \<open>next_record_bytes\<close> gives the records of
  all entries in order, with the contents of the files, then \<open>ArchiveEnd\<close> and the padding record,
  and then reports the end; it never throws, and the bytes it has counted are the planned size and
  the padding.\<close>
theorem planned_size_is_produced:
  assumes "quiet view t" "wf_tree t" "\<forall>q c. node_at t q = Some (File c) \<longrightarrow> length c < 2 ^ 63"
    "new_ArchiveWriter opts t walk_end = Inr w" "plan_plaintext_size view w = (Inr n, w1)"
  shows "\<exists>w2 w3. emits view (add_padding pad w1)
        (records_bytes (stream_records (archive_items view w t) @ [end_record]) @ padding_list pad) w2
    \<and> next_record_bytes view w2 = (Inr None, w3)
    \<and> n = total_size (stream_records (archive_items view w t) @ [end_record])
    \<and> aw_bytes_produced w3 = n + of_nat (length (concat (padding_list pad)))"
  by (rule planned_stream [OF assms])

text \<open>C39: The check of the error code in the loop over the input directory is dead code: whatever step of
  the iterator fails, the constructor never throws the error of the walk.  If the first \<open>k\<close> steps
  succeed and the next one fails, in a directory it accepts without a failure, it returns normally
  with the entries before the failure only; one entry fewer for every entry behind it that it
  otherwise keeps.\<close>
theorem walk_error_ignored:
  assumes "new_ArchiveWriter opts t None = Inr w"
  shows "new_ArchiveWriter opts t (Some k) \<noteq> Inl (InvalidArgument ''error while walking input directory: '')
    \<and> (\<exists>w' root. new_ArchiveWriter opts t (Some k) = Inr w' \<and> weakly_canonical t (ao_input_root opts) = Some root
        \<and> set (aw_entries w') = {e \<in> set (take k (directory_walk t root)). kept_entry (ao_include_symlinks opts) e}
        \<and> length (aw_entries w) = length (aw_entries w')
            + length (filter (kept_entry (ao_include_symlinks opts)) (drop k (directory_walk t root))))"
proof -
  obtain root where root: "weakly_canonical t (ao_input_root opts) = Some root"
    using assms by (auto simp: new_ArchiveWriter_def split: option.splits)
  let ?P = "kept_entry (ao_include_symlinks opts)" and ?es = "directory_walk t root"
  have split: "filter ?P ?es = filter ?P (take k ?es) @ filter ?P (drop k ?es)" by (simp flip: filter_append)
  then have sub: "set (filter ?P (take k ?es)) \<subseteq> set (filter ?P ?es)" "length (filter ?P (take k ?es)) \<le> length (filter ?P ?es)"
    by simp_all
  define bad where "bad es \<longleftrightarrow> (\<exists>e\<in>set es. 1 < length es \<and> relative_path t (de_path e) (absolute_path root) = None)" for es :: "directory_entry list"
  have "length (filter ?P ?es) = length (filter ?P (take k ?es)) + length (filter ?P (drop k ?es))"
    using arg_cong [OF split, of length] by simp
  moreover have "is_dir t root" "ao_input_root opts \<noteq> []" "\<not> bad (filter ?P ?es)" "length (aw_entries w) = length (filter ?P ?es)"
    using assms root by (auto simp: new_ArchiveWriter_def walk_directory_eq iterate_def walked_def bad_def split: if_splits)
  moreover from this(3) have "\<not> bad (filter ?P (take k ?es))" using sub unfolding bad_def by fastforce
  ultimately show ?thesis using root
    by (auto simp: new_ArchiveWriter_def walk_directory_eq iterate_def walked_def throw_if_def bad_def)
qed

subsection \<open>An example\<close>

definition sample_input :: file_tree where
  "sample_input = \<lparr>ft_entries = [([''in''], fresh Dir), ([''in'', ''f''], fresh (File [7]))],
     ft_cwd = [], ft_clock = 0, ft_fault = \<lambda>_. False\<rparr>"

definition sample_input_options :: ArchiveWriterOptions where
  "sample_input_options = \<lparr>ao_input_root = ''/in'', ao_chunk_plain_size = 0, ao_preserve_timestamps = False,
     ao_preserve_permissions = False, ao_include_symlinks = False\<rparr>"

definition sample_view :: input_view where
  "sample_view = \<lparr>iv_tree = \<lambda>_. sample_input, iv_mode = \<lambda>_ _. 0, iv_mtime = \<lambda>_ _. None\<rparr>"

definition sample_writer :: ArchiveWriter where
  "sample_writer = \<lparr>aw_options = sample_input_options, aw_entries = [\<lparr>de_path = ''/in/f'', de_kind = RegularEntry\<rparr>],
     aw_entry_index = 0, aw_emitted_begin = False, aw_emitted_end = False,
     aw_current_file = [], aw_current_file_eof = False, aw_current_file_open = False,
     aw_file_bytes_payload_size = 65536,
     aw_trailing_padding_record = None, aw_trailing_padding_emitted = False,
     aw_current_file_expected_bytes = 0, aw_current_file_bytes_read = 0, aw_current_file_pos = 0,
     aw_bytes_produced = 0, aw_calls = 0\<rparr>"

lemma sample_input_entries: "entry_at sample_input q =
    (if q = [''in''] then Some (fresh Dir) else if q = [''in'', ''f''] then Some (fresh (File [7])) else None)"
  by (simp add: entry_at_def sample_input_def)

lemma sample_input_ok: "wf_tree sample_input" "quiet sample_view sample_input"
    "node_at sample_input q = Some (File c) \<Longrightarrow> length c < 2 ^ 63"
proof -
  show "wf_tree sample_input"
    by (auto simp: wf_tree_def is_dir_def node_at_def sample_input_entries fresh_def proper_def is_name_def)
  show "quiet sample_view sample_input" by (simp add: quiet_def sample_view_def faulty_def sample_input_def)
  show "length c < 2 ^ 63" if "node_at sample_input q = Some (File c)"
    using that by (auto simp: node_at_def sample_input_entries fresh_def split: if_splits)
qed

lemma sample_canonical: "weakly_canonical sample_input ''/in'' = Some [''in'']"
    "weakly_canonical sample_input ''/in/f'' = Some [''in'', ''f'']"
  by code_simp+

lemma new_sample_writer: "new_ArchiveWriter sample_input_options sample_input None = Inr sample_writer"
proof -
  have it: "iterate sample_input [''in''] None = [\<lparr>de_path = ''/in/f'', de_kind = RegularEntry\<rparr>]"
    by code_simp
  have d: "is_dir sample_input [''in'']" by code_simp
  show ?thesis
    unfolding new_ArchiveWriter_def
    by (simp add: walk_directory_eq sample_input_options_def sample_canonical d it sample_writer_def payload_size_for_def
      absolute_path_def)
qed

lemma sample_metadata: "metadata_at sample_view sample_input_options n \<lparr>de_path = ''/in/f'', de_kind = RegularEntry\<rparr>
    = Inr \<lparr>em_kind = RegularFile, em_relative_path = ''f'', em_original_size = 1, em_posix_mode = 0,
        em_times = \<lparr>ft_modified_ns = 0, ft_accessed_ns = None, ft_created_ns = None\<rparr>, em_symlink_target = []\<rparr>"
  by code_simp


lemma sample_planned: "\<exists>n. plan_plaintext_size sample_view sample_writer = (Inr n, sample_writer\<lparr>aw_calls := 1\<rparr>)"
proof -
  have "\<exists>bs. serialize_entry_metadata \<lparr>em_kind = RegularFile, em_relative_path = ''f'', em_original_size = 1,
      em_posix_mode = 0, em_times = \<lparr>ft_modified_ns = 0, ft_accessed_ns = None, ft_created_ns = None\<rparr>,
      em_symlink_target = []\<rparr> = Inr bs"
  proof -
    have "generic_string ''f'' = ''f''" by code_simp
    then show ?thesis by (simp add: serialize_metadata_eq)
  qed
  then obtain bs where bs: "serialize_entry_metadata \<lparr>em_kind = RegularFile, em_relative_path = ''f'', em_original_size = 1,
      em_posix_mode = 0, em_times = \<lparr>ft_modified_ns = 0, ft_accessed_ns = None, ft_created_ns = None\<rparr>,
      em_symlink_target = []\<rparr> = Inr bs" ..
  show ?thesis
    by (simp add: plan_plaintext_size_def sample_writer_def getS_def bindS_def metadata_for_def sample_metadata bs
        liftS_def returnS_def Let_def)
qed

theorem planned_size_is_produced_witness:
  "\<exists>n w1 w2 w3. plan_plaintext_size sample_view sample_writer = (Inr n, w1)
    \<and> emits sample_view w1 (records_bytes (stream_records (archive_items sample_view sample_writer sample_input) @ [end_record])) w2
    \<and> next_record_bytes sample_view w2 = (Inr None, w3) \<and> aw_bytes_produced w3 = n"
proof -
  obtain n w1 where p: "plan_plaintext_size sample_view sample_writer = (Inr n, w1)" using sample_planned by blast
  show ?thesis
    using planned_size_is_produced [OF sample_input_ok(2,1) _ new_sample_writer p, of None] sample_input_ok(3) p
    by (auto simp: add_padding_def padding_list_def)
qed

theorem archive_stream_wellformed_witness:
  "\<exists>items outs w2. list_all (item_ok sample_view sample_input_options 65536) items
    \<and> emits sample_view (sample_writer\<lparr>aw_calls := 1\<rparr>) outs w2
    \<and> outs = records_bytes (stream_records items @ [end_record])
    \<and> aw_bytes_produced w2 = of_nat (length (concat outs))"
proof -
  obtain n where p: "plan_plaintext_size sample_view sample_writer = (Inr n, sample_writer\<lparr>aw_calls := 1\<rparr>)"
    using sample_planned by blast
  obtain outs w2 w3 where e: "emits sample_view (add_padding None (sample_writer\<lparr>aw_calls := 1\<rparr>)) outs w2"
    "next_record_bytes sample_view w2 = (Inr None, w3)"
    using planned_stream [OF sample_input_ok(2,1) _ new_sample_writer p, of None] sample_input_ok(3) by blast
  then show ?thesis
    using archive_stream_wellformed [OF new_sample_writer e]
    by (auto simp: add_padding_def padding_list_def sample_writer_def)
qed

theorem walk_error_ignored_witness:
  "\<exists>w'. new_ArchiveWriter sample_input_options sample_input (Some 0) = Inr w' \<and> aw_entries w' = []
     \<and> length (aw_entries sample_writer) = 1"
  using walk_error_ignored [OF new_sample_writer, of 0] by (auto simp: sample_writer_def)

end
