(* ===== verification/Encrypt_Pipeline.thy ===== *)
theory Encrypt_Pipeline
  imports Any_Shard_Writer Pipeline_Outcome Decrypt_Pipeline Archive_Writer Key_Schedule
begin

text \<open>
  \<^verbatim>\<open>src/pipeline/EncryptPipeline.hpp\<close> and \<^verbatim>\<open>EncryptPipeline.cpp\<close>: what the threads of the encryption
  compute.  The producer cuts the records of the \<open>ArchiveWriter\<close> into chunks and plans a frame for
  each, a worker encrypts one chunk, and the sink writes the frames.  Both ends share the shard
  writer: the producer touches only the members of the planner and the sink never does (lemmas
  \<open>plan_frame_apart\<close> and \<open>write_ignores_plan\<close>), so each has a writer of its own here.  The producer
  asks \<open>failed()\<close> before every record; here it asks before the first of the records that make up the
  next chunk, because nothing else sees the records it reads in between.
\<close>

record EncryptPipelineOptions =
  ep_chunk_plain_size :: u64
  ep_worker_count :: u32
  ep_queue_depth :: nat
  ep_archive_id :: bytes
  ep_per_shard_public_header_hashes :: "bytes list"
  ep_public_header_hash :: bytes
  ep_emit_final_chunk_when_empty :: bool
  ep_expected_plaintext_bytes :: u64

record PlainChunk =
  pj_index :: u64
  pj_frame_header :: ChunkFrameHeaderV1
  pj_frame_header_bytes :: bytes
  pj_bytes :: bytes

record CipherChunk =
  cj_index :: u64
  cj_frame_header :: ChunkFrameHeaderV1
  cj_frame_header_bytes :: bytes
  cj_ciphertext_and_tag :: bytes

definition checked_tag_size :: "CryptoBackend \<Rightarrow> u16 result" where
  "checked_tag_size be =
    throw_if (cb_tag_size be = 0 \<or> cb_tag_size be > 65535)
      (InvalidArgument ''AEAD tag size does not fit ChunkFrameHeaderV1'')
    (Inr (of_nat (cb_tag_size be)))"

definition select_public_header_hash :: "EncryptPipelineOptions \<Rightarrow> u32 \<Rightarrow> bytes" where
  "select_public_header_hash opts shard =
    (if ep_per_shard_public_header_hashes opts \<noteq> []
        \<and> unat shard < length (ep_per_shard_public_header_hashes opts)
     then ep_per_shard_public_header_hashes opts ! unat shard
     else ep_public_header_hash opts)"

definition make_aad :: "EncryptPipelineOptions \<Rightarrow> u32 \<Rightarrow> bytes \<Rightarrow> ChunkAad" where
  "make_aad opts shard frame_header_bytes =
     \<lparr>aad_public_header_hash = select_public_header_hash opts shard,
      aad_chunk_frame_header = frame_header_bytes\<rparr>"

definition validate_encrypt_pipeline_inputs ::
  "EncryptPipelineOptions \<Rightarrow> CryptoBackend \<Rightarrow> ExpandedKeys \<Rightarrow> unit result" where
  "validate_encrypt_pipeline_inputs opts be keys =
    bindr (checked_chunk_size (ep_chunk_plain_size opts)) (\<lambda>_.
    bindr (checked_tag_size be) (\<lambda>_.
    throw_if (length (ek_chunk_encryption_key keys) \<noteq> cb_key_size be)
      (InvalidArgument ''chunk encryption key size does not match selected AEAD backend'') (
    throw_if (ek_nonce_derivation_key keys = [])
      (InvalidArgument ''nonce derivation key must not be empty'')
    (Inr ()))))"

subsection \<open>The producer\<close>

text \<open>
  The local variables of \<open>producer_main\<close>.  \<open>cp_record\<close> is the part of the current record that
  \<open>append_record_bytes_to_chunks\<close> has not copied yet; when it is empty the thread is at the head of
  its loop.  After the last record the phase says what is left to do: the last chunk, or only the
  comparison of the number of bytes.
\<close>

datatype producer_phase = ReadRecords | LastChunk | CompareSize

record chunk_producer =
  cp_archive_writer :: ArchiveWriter
  cp_shard_writer :: AnyShardWriter
  cp_record :: bytes
  cp_current_chunk :: bytes
  cp_pending_full_chunk :: "bytes option"
  cp_next_chunk_index :: u64
  cp_phase :: producer_phase

text \<open>The part of \<open>enqueue_planned_chunk\<close> before the push.\<close>

definition planned_chunk :: "u16 \<Rightarrow> bytes \<Rightarrow> bool \<Rightarrow> (chunk_producer, PlainChunk) op" where
  "planned_chunk tag_size bs final_chunk p =
    (let chunk_index = cp_next_chunk_index p; plaintext_len = of_nat (length bs) in
     case any_plan_chunk_frame chunk_index plaintext_len plaintext_len tag_size final_chunk (cp_shard_writer p) of
       (Inl e, w) \<Rightarrow> (Inl e, p\<lparr>cp_shard_writer := w\<rparr>)
     | (Inr planned, w) \<Rightarrow>
         (Inr \<lparr>pj_index = chunk_index, pj_frame_header = pf_header planned,
               pj_frame_header_bytes = pf_header_bytes planned, pj_bytes = bs\<rparr>,
          p\<lparr>cp_shard_writer := w, cp_next_chunk_index := chunk_index + 1\<rparr>))"

text \<open>One round of the copying loop.\<close>

definition copy_bytes :: "nat \<Rightarrow> chunk_producer \<Rightarrow> chunk_producer" where
  "copy_bytes chunk_size p =
    (let to_copy = min (length (cp_record p)) (chunk_size - length (cp_current_chunk p)) in
     p\<lparr>cp_current_chunk := cp_current_chunk p @ take to_copy (cp_record p),
       cp_record := drop to_copy (cp_record p)\<rparr>)"

text \<open>A chunk that has become full takes the place of the one that was held back.\<close>

definition hold_back :: "chunk_producer \<Rightarrow> chunk_producer" where
  "hold_back p = p\<lparr>cp_pending_full_chunk := Some (cp_current_chunk p), cp_current_chunk := []\<rparr>"

text \<open>A record has bytes, unless it is the padding record, which is given once.\<close>

lemma next_record_progress:
  assumes "next_record_bytes view w = (Inr (Some rec), w')"
  shows "aw_trailing_padding_emitted w' = aw_trailing_padding_emitted w \<and> rec \<noteq> []
    \<or> \<not> aw_trailing_padding_emitted w \<and> aw_trailing_padding_emitted w'"
proof -
  have ne: "serialize_record r \<noteq> []" "[] \<noteq> serialize_record r" "make_record ty bs \<noteq> []" for r ty bs
    using length_serialize_record [of r] length_serialize_record [of "\<lparr>ar_type = ty, ar_payload = bs\<rparr>"]
    by (auto simp: make_record_def)
  consider "\<not> aw_emitted_begin w" | "aw_emitted_begin w" "aw_current_file_open w" | "aw_emitted_begin w" "\<not> aw_current_file_open w"
    by blast
  then show ?thesis
  proof cases
    case 1
    then show ?thesis using assms ne by (auto simp: next_record_bytes_def bindS_def op_defs produce_eq)
  next
    case 2
    then have "next_file_bytes_or_end view w = (Inr (Some rec), w')" using assms by (simp add: next_record_bytes_def getS_def)
    from next_file_bytes_or_end_Inr [OF this] show ?thesis using ne by (auto simp: same_archive_writer_def)
  next
    case 3
    then obtain r1 w1 where n: "next_entry view (drop (aw_entry_index w) (aw_entries w)) w = (Inr r1, w1)"
      using assms by (auto simp: next_record_bytes_def getS_def bindS_Inr)
    note out = next_entry_Inr [OF n, unfolded entry_outcome_def]
    show ?thesis
    proof (cases r1)
      case None
      then show ?thesis using assms 3 n ne out
        by (auto simp: next_record_bytes_def bindS_def op_defs produce_eq same_archive_writer_def split: if_splits option.splits)
    next
      case (Some r)
      then have "rec = r" "w' = w1" using assms 3 n by (auto simp: next_record_bytes_def bindS_def op_defs)
      then show ?thesis using out Some ne by (auto simp: same_archive_writer_def)
    qed
  qed
qed

text \<open>
  The records up to the next chunk that is not the last.  \<open>None\<close>: there are no more records.  The
  copying loop would not end with a current chunk that is already full, which does not occur.
\<close>

function next_full_chunk ::
  "input_view \<Rightarrow> nat \<Rightarrow> u16 \<Rightarrow> (chunk_producer, PlainChunk option) op" where
  "next_full_chunk view chunk_size tag_size p =
    (if chunk_size \<le> length (cp_current_chunk p) then (Inr None, p)
     else if cp_record p = [] then
       (case next_record_bytes view (cp_archive_writer p) of
          (Inl e, a) \<Rightarrow> (Inl e, p\<lparr>cp_archive_writer := a\<rparr>)
        | (Inr None, a) \<Rightarrow> (Inr None, p\<lparr>cp_archive_writer := a\<rparr>)
        | (Inr (Some rec), a) \<Rightarrow>
            next_full_chunk view chunk_size tag_size (p\<lparr>cp_archive_writer := a, cp_record := rec\<rparr>))
     else
       (let q = copy_bytes chunk_size p in
        if length (cp_current_chunk q) \<noteq> chunk_size then next_full_chunk view chunk_size tag_size q
        else (case cp_pending_full_chunk q of
                None \<Rightarrow> next_full_chunk view chunk_size tag_size (hold_back q)
              | Some bs \<Rightarrow> bindS (planned_chunk tag_size bs False) (\<lambda>c. returnS (Some c)) (hold_back q))))"
  by pat_completeness auto
termination
proof (relation "measures [\<lambda>(view, n, t, p). if cp_pending_full_chunk p = None then 1 else 0,
    \<lambda>(view, n, t, p). n - length (cp_current_chunk p),
    \<lambda>(view, n, t, p). if aw_trailing_padding_emitted (cp_archive_writer p) then 0 else 1,
    \<lambda>(view, n, t, p). if cp_record p = [] then 1 else 0]", goal_cases)
  case 2
  then show ?case by (auto dest!: next_record_progress [OF sym] split: if_splits)
next
  case (3 view n t p q)
  then have "q = copy_bytes n p" by simp
  moreover have "0 < length (cp_record p)" "length (cp_current_chunk p) < n" using 3(1,2) by auto
  ultimately show ?case by (cases "cp_record p") (auto simp: copy_bytes_def Let_def min_def)
next
  case (4 view n t p q)
  then have "q = copy_bytes n p" by simp
  then show ?case using 4 by (auto simp: copy_bytes_def hold_back_def Let_def)
qed simp

definition set_phase :: "producer_phase \<Rightarrow> chunk_producer \<Rightarrow> chunk_producer" where
  "set_phase ph p = p\<lparr>cp_phase := ph\<rparr>"

definition compare_size :: "EncryptPipelineOptions \<Rightarrow> (chunk_producer, PlainChunk option) op" where
  "compare_size opts =
    getS (\<lambda>p.
    bindS (guardS (ep_expected_plaintext_bytes opts > 0
        \<and> aw_bytes_produced (cp_archive_writer p) \<noteq> ep_expected_plaintext_bytes opts)
      (InvalidArgument ''archive content changed during encryption: expected '')) (\<lambda>_.
    returnS None))"

text \<open>The chunks that are left after the last record.\<close>

definition last_chunks :: "EncryptPipelineOptions \<Rightarrow> u16 \<Rightarrow> (chunk_producer, PlainChunk option) op" where
  "last_chunks opts tag_size =
    getS (\<lambda>p.
    if cp_current_chunk p \<noteq> [] then
      (case cp_pending_full_chunk p of
         Some bs \<Rightarrow>
           bindS (modifyS (\<lambda>p. p\<lparr>cp_pending_full_chunk := None, cp_phase := LastChunk\<rparr>)) (\<lambda>_.
           bindS (planned_chunk tag_size bs False) (\<lambda>c. returnS (Some c)))
       | None \<Rightarrow>
           bindS (modifyS (\<lambda>p. p\<lparr>cp_current_chunk := [], cp_phase := CompareSize\<rparr>)) (\<lambda>_.
           bindS (planned_chunk tag_size (cp_current_chunk p) True) (\<lambda>c. returnS (Some c))))
    else
      (case cp_pending_full_chunk p of
         Some bs \<Rightarrow>
           bindS (modifyS (\<lambda>p. p\<lparr>cp_pending_full_chunk := None, cp_phase := CompareSize\<rparr>)) (\<lambda>_.
           bindS (planned_chunk tag_size bs True) (\<lambda>c. returnS (Some c)))
       | None \<Rightarrow>
           bindS (modifyS (set_phase CompareSize)) (\<lambda>_.
           if ep_emit_final_chunk_when_empty opts
           then bindS (planned_chunk tag_size [] True) (\<lambda>c. returnS (Some c))
           else compare_size opts)))"

definition next_plain_chunk ::
  "input_view \<Rightarrow> EncryptPipelineOptions \<Rightarrow> u16 \<Rightarrow> (chunk_producer, PlainChunk option) op" where
  "next_plain_chunk view opts tag_size =
    getS (\<lambda>p.
    case cp_phase p of
      ReadRecords \<Rightarrow>
        bindS (next_full_chunk view (unat (ep_chunk_plain_size opts)) tag_size) (\<lambda>c.
        if c \<noteq> None then returnS c else last_chunks opts tag_size)
    | LastChunk \<Rightarrow>
        bindS (modifyS (\<lambda>p. p\<lparr>cp_current_chunk := [], cp_phase := CompareSize\<rparr>)) (\<lambda>_.
        bindS (planned_chunk tag_size (cp_current_chunk p) True) (\<lambda>c. returnS (Some c)))
    | CompareSize \<Rightarrow> compare_size opts)"

subsection \<open>Workers and writer\<close>

definition encrypt_plain_chunk ::
  "hkdf_lib \<Rightarrow> EncryptPipelineOptions \<Rightarrow> CryptoBackend \<Rightarrow> ExpandedKeys \<Rightarrow> PlainChunk \<Rightarrow> CipherChunk result" where
  "encrypt_plain_chunk lib opts be keys job =
    bindr (derive_chunk_nonce lib (ek_nonce_derivation_key keys)
      \<lparr>nc_suite = cb_suite be, nc_archive_id = ep_archive_id opts\<rparr> (pj_index job)) (\<lambda>nonce.
    bindr (cb_encrypt_chunk be
      \<lparr>er_key = ek_chunk_encryption_key keys, er_nonce = nonce, er_plaintext = pj_bytes job,
       er_aad = make_aad opts (fh_shard_index (pj_frame_header job)) (pj_frame_header_bytes job)\<rparr>) (\<lambda>ciphertext.
    let expected_size = fh_ciphertext_len (pj_frame_header job) + ucast (fh_tag_len (pj_frame_header job)) in
    throw_if (of_nat (length ciphertext) \<noteq> expected_size)
      (Error ''AEAD backend returned ciphertext length inconsistent with ChunkFrameHeaderV1'')
    (Inr \<lparr>cj_index = pj_index job, cj_frame_header = pj_frame_header job,
          cj_frame_header_bytes = pj_frame_header_bytes job, cj_ciphertext_and_tag = ciphertext\<rparr>)))"

definition write_cipher_chunk :: "(bytes \<Rightarrow> bytes \<Rightarrow> bytes option) \<Rightarrow> CipherChunk \<Rightarrow> (AnyShardWriter, unit) op" where
  "write_cipher_chunk hmac chunk =
    bindS (any_write_chunk_frame hmac (cj_frame_header chunk) (cj_frame_header_bytes chunk) (cj_ciphertext_and_tag chunk))
      (\<lambda>_. returnS ())"

definition encrypt_code ::
  "hkdf_lib \<Rightarrow> (bytes \<Rightarrow> bytes \<Rightarrow> bytes option) \<Rightarrow> EncryptPipelineOptions \<Rightarrow> CryptoBackend \<Rightarrow> ExpandedKeys \<Rightarrow> input_view
     \<Rightarrow> (chunk_producer, PlainChunk, CipherChunk, AnyShardWriter) pipe_code" where
  "encrypt_code lib hmac opts be keys view =
     \<lparr>pc_check = (\<lambda>p. cp_phase p = ReadRecords \<and> cp_record p = []),
      pc_next = next_plain_chunk view opts (projr (checked_tag_size be)),
      pc_ignores_refusal = (\<lambda>p. cp_phase p = CompareSize),
      pc_work = encrypt_plain_chunk lib opts be keys, pc_index = cj_index,
      pc_put = write_cipher_chunk hmac, pc_end = any_finish hmac,
      pc_stale = ''encrypt pipeline received a stale encrypted chunk'',
      pc_duplicate = ''encrypt pipeline received a duplicate encrypted chunk'',
      pc_missing = ''encrypt pipeline ended with missing encrypted chunks''\<rparr>"

definition new_chunk_producer :: "ArchiveWriter \<Rightarrow> AnyShardWriter \<Rightarrow> chunk_producer" where
  "new_chunk_producer a w =
     \<lparr>cp_archive_writer = a, cp_shard_writer = w, cp_record = [], cp_current_chunk = [],
      cp_pending_full_chunk = None, cp_next_chunk_index = 0, cp_phase = ReadRecords\<rparr>"

definition start_encrypt ::
  "u32 \<Rightarrow> EncryptPipelineOptions \<Rightarrow> ArchiveWriter \<Rightarrow> AnyShardWriter
     \<Rightarrow> (chunk_producer, PlainChunk, CipherChunk, AnyShardWriter) pipe_state" where
  "start_encrypt hardware_concurrency opts a w =
    (let worker_count = unat (resolve_worker_count hardware_concurrency (ep_worker_count opts)) in
     start_pipeline worker_count (resolve_queue_depth (ep_queue_depth opts) worker_count) (new_chunk_producer a w) w)"

text \<open>
  \<open>EncryptPipeline::run\<close> under a schedule of its threads.  \<open>None\<close>: the schedule is not one of the
  threads, or it stops before all of them have ended.
\<close>

definition run_encrypt ::
  "hkdf_lib \<Rightarrow> (bytes \<Rightarrow> bytes \<Rightarrow> bytes option) \<Rightarrow> u32 \<Rightarrow> EncryptPipelineOptions \<Rightarrow> CryptoBackend option \<Rightarrow> ExpandedKeys
     \<Rightarrow> input_view \<Rightarrow> thread list \<Rightarrow> ArchiveWriter \<Rightarrow> AnyShardWriter \<Rightarrow> (unit result \<times> AnyShardWriter) option" where
  "run_encrypt lib hmac hardware_concurrency opts backend keys view schedule a w =
    (case backend of
       None \<Rightarrow> Some (Inl (InvalidArgument ''encrypt pipeline requires a crypto backend''), w)
     | Some be \<Rightarrow>
       (case validate_encrypt_pipeline_inputs opts be keys of
          Inl e \<Rightarrow> Some (Inl e, w)
        | Inr _ \<Rightarrow>
          (case run_schedule (encrypt_code lib hmac opts be keys view) schedule
                  (start_encrypt hardware_concurrency opts a w) of
             None \<Rightarrow> None
           | Some s \<Rightarrow> if all_done s then Some (pipeline_result s, ps_snk s) else None)))"

subsection \<open>What the producer gives\<close>

declare next_full_chunk.simps [simp del]

text \<open>The chunks of a plaintext stream.\<close>

definition chunks_of :: "nat \<Rightarrow> bool \<Rightarrow> bytes \<Rightarrow> bytes list" where
  "chunks_of n emit_empty bs = (if bs = [] then (if emit_empty then [[]] else []) else pieces n bs)"

lemma pieces_full:
  "\<forall>c\<in>set cs. length c = n \<Longrightarrow> 0 < n \<Longrightarrow> l \<noteq> [] \<Longrightarrow> length l \<le> n \<Longrightarrow> pieces n (concat cs @ l) = cs @ [l]"
proof (induction cs)
  case Nil
  then show ?case by (simp add: pieces_Cons)
next
  case (Cons c cs)
  then have "c @ concat cs @ l \<noteq> []" by auto
  then show ?case using Cons by (simp add: pieces_Cons)
qed

text \<open>The job with number \<open>k\<close>.\<close>

definition planned_job :: "u16 \<Rightarrow> nat \<Rightarrow> bool \<Rightarrow> PlainChunk \<Rightarrow> bool" where
  "planned_job tag_size k final_chunk j \<longleftrightarrow> pj_index j = of_nat k
     \<and> frame_for (of_nat k) (of_nat (length (pj_bytes j))) (of_nat (length (pj_bytes j))) tag_size final_chunk (pj_frame_header j)
     \<and> pj_frame_header_bytes j = frame_bytes (pj_frame_header j)"

lemma planned_chunk_Inr:
  assumes "planned_chunk tag_size bs final_chunk p = (Inr c, p')" "cp_next_chunk_index p = of_nat k"
  shows "pj_bytes c = bs \<and> planned_job tag_size k final_chunk c
    \<and> (\<exists>w. p' = p\<lparr>cp_shard_writer := w, cp_next_chunk_index := of_nat (Suc k)\<rparr>)"
proof -
  let ?n = "of_nat (length bs) :: u64"
  from assms obtain pf w where pf: "any_plan_chunk_frame (of_nat k) ?n ?n tag_size final_chunk (cp_shard_writer p) = (Inr pf, w)"
    and c: "c = \<lparr>pj_index = of_nat k, pj_frame_header = pf_header pf, pj_frame_header_bytes = pf_header_bytes pf, pj_bytes = bs\<rparr>"
      "p' = p\<lparr>cp_shard_writer := w, cp_next_chunk_index := of_nat k + 1\<rparr>"
    by (auto simp: planned_chunk_def Let_def split: prod.splits sum.splits)
  show ?thesis using any_frames.plan_frame [OF pf] c by (auto simp: planned_job_def algebra_simps)
qed

text \<open>The bytes that have been read and not given yet.\<close>

definition unsent :: "chunk_producer \<Rightarrow> bytes" where
  "unsent p = (case cp_pending_full_chunk p of None \<Rightarrow> [] | Some bs \<Rightarrow> bs) @ cp_current_chunk p @ cp_record p"

definition full_jobs :: "nat \<Rightarrow> u16 \<Rightarrow> PlainChunk list \<Rightarrow> bool" where
  "full_jobs n tag_size js \<longleftrightarrow> (\<forall>k<length js. planned_job tag_size k False (js ! k) \<and> length (pj_bytes (js ! k)) = n)"

lemma full_jobs_snoc:
  "full_jobs n tag_size js \<Longrightarrow> planned_job tag_size (length js) False c \<Longrightarrow> length (pj_bytes c) = n
     \<Longrightarrow> full_jobs n tag_size (js @ [c])"
  by (auto simp: full_jobs_def nth_append less_Suc_eq)

lemma full_jobs_length: "full_jobs n tag_size js \<Longrightarrow> c \<in> set (map pj_bytes js) \<Longrightarrow> length c = n"
  by (auto simp: full_jobs_def in_set_conv_nth)

definition buffers_ok :: "nat \<Rightarrow> u16 \<Rightarrow> chunk_producer \<Rightarrow> PlainChunk list \<Rightarrow> bool" where
  "buffers_ok n tag_size p js \<longleftrightarrow> length (cp_current_chunk p) < n \<and> (\<forall>bs. cp_pending_full_chunk p = Some bs \<longrightarrow> length bs = n)
     \<and> cp_next_chunk_index p = of_nat (length js) \<and> full_jobs n tag_size js"

definition producing ::
  "input_view \<Rightarrow> ArchiveWriter \<Rightarrow> nat \<Rightarrow> u16 \<Rightarrow> chunk_producer \<Rightarrow> PlainChunk list \<Rightarrow> bool" where
  "producing view a n tag_size p js \<longleftrightarrow> cp_phase p = ReadRecords \<and> buffers_ok n tag_size p js
     \<and> (js = [] \<or> cp_pending_full_chunk p \<noteq> None)
     \<and> (\<exists>outs. emits view a outs (cp_archive_writer p) \<and> concat outs = concat (map pj_bytes js) @ unsent p)"

text \<open>The archive writer has come to its end.\<close>

definition all_emitted :: "input_view \<Rightarrow> ArchiveWriter \<Rightarrow> bytes list \<Rightarrow> ArchiveWriter \<Rightarrow> bool" where
  "all_emitted view a outs a' \<longleftrightarrow> (\<exists>a1. emits view a outs a1 \<and> next_record_bytes view a1 = (Inr None, a'))"

definition drained ::
  "input_view \<Rightarrow> ArchiveWriter \<Rightarrow> nat \<Rightarrow> u16 \<Rightarrow> chunk_producer \<Rightarrow> PlainChunk list \<Rightarrow> bool" where
  "drained view a n tag_size p js \<longleftrightarrow> buffers_ok n tag_size p js \<and> cp_record p = []
     \<and> (\<exists>outs. all_emitted view a outs (cp_archive_writer p) \<and> concat outs = concat (map pj_bytes js) @ unsent p)"

lemma unsent_copy [simp]: "unsent (copy_bytes n p) = unsent p"
  by (simp add: unsent_def copy_bytes_def Let_def)

lemma copy_bytes_sel [simp]:
  "cp_phase (copy_bytes n p) = cp_phase p" "cp_archive_writer (copy_bytes n p) = cp_archive_writer p"
  "cp_pending_full_chunk (copy_bytes n p) = cp_pending_full_chunk p"
  "cp_next_chunk_index (copy_bytes n p) = cp_next_chunk_index p"
  by (simp_all add: copy_bytes_def Let_def)

lemma copy_bytes_length: "length (cp_current_chunk p) \<le> n \<Longrightarrow> length (cp_current_chunk (copy_bytes n p)) \<le> n"
  by (auto simp: copy_bytes_def Let_def min_def)

lemma next_full_chunk_Inr:
  "next_full_chunk view n tag_size p = (Inr r, p') \<Longrightarrow> producing view a n tag_size p js \<Longrightarrow>
     (case r of Some c \<Rightarrow> producing view a n tag_size p' (js @ [c])
      | None \<Rightarrow> drained view a n tag_size p' js \<and> (js = [] \<or> cp_pending_full_chunk p' \<noteq> None))"
proof (induction view n tag_size p arbitrary: r p' rule: next_full_chunk.induct)
  case (1 view n tag_size p)
  have lt: "\<not> n \<le> length (cp_current_chunk p)" using 1(5) by (simp add: producing_def buffers_ok_def)
  obtain outs where outs: "emits view a outs (cp_archive_writer p)" "concat outs = concat (map pj_bytes js) @ unsent p"
    using 1(5) by (auto simp: producing_def)
  show ?case
  proof (cases "cp_record p = []")
    case True
    obtain x a1 where x: "next_record_bytes view (cp_archive_writer p) = (x, a1)" by fastforce
    show ?thesis
    proof (cases x)
      case (Inl e)
      then show ?thesis using 1(4) lt True x by (simp add: next_full_chunk.simps [of view n tag_size p])
    next
      case (Inr o1)
      show ?thesis
      proof (cases o1)
        case None
        then have "r = None" "p' = p\<lparr>cp_archive_writer := a1\<rparr>"
          using 1(4) lt True x Inr by (simp_all add: next_full_chunk.simps [of view n tag_size p])
        then show ?thesis using 1(5) outs x Inr None True
          by (auto simp: drained_def all_emitted_def producing_def buffers_ok_def unsent_def)
      next
        case (Some rec)
        let ?p = "p\<lparr>cp_archive_writer := a1, cp_record := rec\<rparr>"
        have "next_full_chunk view n tag_size ?p = (Inr r, p')"
          using 1(4) lt True x Inr Some by (simp add: next_full_chunk.simps [of view n tag_size p])
        moreover have "producing view a n tag_size ?p js"
          using 1(5) emits_next [OF outs(1), of rec a1] x Inr Some outs(2) True
          by (fastforce simp: producing_def buffers_ok_def unsent_def)
        ultimately show ?thesis using 1(1) [OF lt True x [symmetric] Inr Some] by blast
      qed
    qed
  next
    case False
    let ?q = "copy_bytes n p"
    have q: "producing view a n tag_size ?q js" if "length (cp_current_chunk ?q) \<noteq> n"
      using 1(5) that copy_bytes_length [of p n] lt by (auto simp: producing_def buffers_ok_def)
    show ?thesis
    proof (cases "length (cp_current_chunk ?q) = n")
      case F: False
      then have "next_full_chunk view n tag_size ?q = (Inr r, p')"
        using 1(4) lt False by (simp add: next_full_chunk.simps [of view n tag_size p] Let_def)
      then show ?thesis using 1(2) [OF lt False refl F] q [OF F] by blast
    next
      case T: True
      show ?thesis
      proof (cases "cp_pending_full_chunk ?q")
        case None
        then have "next_full_chunk view n tag_size (hold_back ?q) = (Inr r, p')"
          using 1(4) lt False T by (simp add: next_full_chunk.simps [of view n tag_size p] Let_def)
        moreover have "producing view a n tag_size (hold_back ?q) js"
          using 1(5) T None lt unsent_copy [of n p] by (auto simp: producing_def buffers_ok_def hold_back_def unsent_def)
        ultimately show ?thesis using 1(3) [OF lt False refl _ None] T by blast
      next
        case (Some bs)
        then obtain c where c: "planned_chunk tag_size bs False (hold_back ?q) = (Inr c, p')" "r = Some c"
          using 1(4) lt False T by (auto simp: next_full_chunk.simps [of view n tag_size p] Let_def bindS_Inr returnS_def)
        have k: "cp_next_chunk_index (hold_back ?q) = of_nat (length js)"
          using 1(5) by (simp add: hold_back_def producing_def buffers_ok_def)
        have len: "length bs = n" using 1(5) Some by (simp add: producing_def buffers_ok_def)
        note pc = planned_chunk_Inr [OF c(1) k]
        then have "full_jobs n tag_size (js @ [c])"
          using 1(5) len by (intro full_jobs_snoc) (simp_all add: producing_def buffers_ok_def)
        moreover have "concat outs = concat (map pj_bytes (js @ [c])) @ unsent p'"
          using pc outs(2) unsent_copy [of n p] Some by (auto simp: unsent_def hold_back_def)
        ultimately show ?thesis using pc 1(5) outs(1) T lt c(2)
          by (auto simp: producing_def buffers_ok_def hold_back_def)
      qed
    qed
  qed
qed

text \<open>The whole list of jobs.\<close>

definition jobs_complete ::
  "input_view \<Rightarrow> ArchiveWriter \<Rightarrow> EncryptPipelineOptions \<Rightarrow> u16 \<Rightarrow> PlainChunk list \<Rightarrow> ArchiveWriter \<Rightarrow> bool" where
  "jobs_complete view a opts tag_size js a' \<longleftrightarrow>
     (\<exists>outs. all_emitted view a outs a'
        \<and> map pj_bytes js = chunks_of (unat (ep_chunk_plain_size opts)) (ep_emit_final_chunk_when_empty opts) (concat outs))
     \<and> (\<forall>k<length js. planned_job tag_size k (Suc k = length js) (js ! k))"

definition producer_inv ::
  "input_view \<Rightarrow> ArchiveWriter \<Rightarrow> EncryptPipelineOptions \<Rightarrow> u16 \<Rightarrow> chunk_producer \<Rightarrow> PlainChunk list \<Rightarrow> bool" where
  "producer_inv view a opts tag_size p js \<longleftrightarrow> (let n = unat (ep_chunk_plain_size opts) in
     case cp_phase p of
       ReadRecords \<Rightarrow> producing view a n tag_size p js
     | LastChunk \<Rightarrow> drained view a n tag_size p js \<and> cp_current_chunk p \<noteq> [] \<and> cp_pending_full_chunk p = None
     | CompareSize \<Rightarrow> jobs_complete view a opts tag_size js (cp_archive_writer p))"

lemma jobs_complete_snoc:
  assumes "drained view a n tag_size p js" "n = unat (ep_chunk_plain_size opts)" "planned_job tag_size (length js) True c"
    "unsent p = pj_bytes c" "length (pj_bytes c) \<le> n" "0 < n"
    "pj_bytes c = [] \<longrightarrow> js = [] \<and> ep_emit_final_chunk_when_empty opts"
  shows "jobs_complete view a opts tag_size (js @ [c]) (cp_archive_writer p)"
proof -
  from assms(1) obtain outs where outs: "all_emitted view a outs (cp_archive_writer p)" "concat outs = concat (map pj_bytes js) @ unsent p"
    and f: "full_jobs n tag_size js" by (auto simp: drained_def buffers_ok_def)
  have "map pj_bytes (js @ [c]) = chunks_of n (ep_emit_final_chunk_when_empty opts) (concat outs)"
  proof (cases "pj_bytes c = []")
    case True
    then show ?thesis using assms(4,7) outs(2) by (simp add: chunks_of_def)
  next
    case False
    then show ?thesis
      using pieces_full [of "map pj_bytes js" n "pj_bytes c"] full_jobs_length [OF f] assms(4-6) outs(2)
      by (auto simp: chunks_of_def)
  qed
  then show ?thesis using outs(1) assms(2,3) f
    by (auto simp: jobs_complete_def full_jobs_def nth_append less_Suc_eq)
qed

lemma last_job:
  assumes "planned_chunk tag_size bs True (f p) = (Inr c, p')" "drained view a n tag_size p js" "n = unat (ep_chunk_plain_size opts)"
    "cp_next_chunk_index (f p) = cp_next_chunk_index p" "cp_archive_writer (f p) = cp_archive_writer p" "cp_phase (f p) = CompareSize"
    "unsent p = bs" "length bs \<le> n" "0 < n" "bs = [] \<longrightarrow> js = [] \<and> ep_emit_final_chunk_when_empty opts"
  shows "producer_inv view a opts tag_size p' (js @ [c])"
proof -
  have k: "cp_next_chunk_index (f p) = of_nat (length js)" using assms(2,4) by (simp add: drained_def buffers_ok_def)
  note pc = planned_chunk_Inr [OF assms(1) k]
  have "jobs_complete view a opts tag_size (js @ [c]) (cp_archive_writer p)"
    by (rule jobs_complete_snoc [OF assms(2,3)]) (use pc assms in auto)
  then show ?thesis using pc assms(5,6) by (auto simp: producer_inv_def Let_def)
qed

lemma compare_size_Inr: "compare_size opts p = (Inr r, p') \<longleftrightarrow> r = None \<and> p' = p
    \<and> (ep_expected_plaintext_bytes opts > 0 \<longrightarrow> aw_bytes_produced (cp_archive_writer p) = ep_expected_plaintext_bytes opts)"
  by (auto simp: compare_size_def bindS_def op_defs)

definition sizes_agree :: "EncryptPipelineOptions \<Rightarrow> ArchiveWriter \<Rightarrow> bool" where
  "sizes_agree opts a \<longleftrightarrow> (ep_expected_plaintext_bytes opts > 0 \<longrightarrow> aw_bytes_produced a = ep_expected_plaintext_bytes opts)"

definition producer_outcome ::
  "input_view \<Rightarrow> ArchiveWriter \<Rightarrow> EncryptPipelineOptions \<Rightarrow> u16 \<Rightarrow> PlainChunk option \<Rightarrow> chunk_producer \<Rightarrow> PlainChunk list \<Rightarrow> bool" where
  "producer_outcome view a opts tag_size r p js \<longleftrightarrow>
     (case r of Some c \<Rightarrow> producer_inv view a opts tag_size p (js @ [c])
      | None \<Rightarrow> jobs_complete view a opts tag_size js (cp_archive_writer p) \<and> sizes_agree opts (cp_archive_writer p))"

lemma last_chunks_Inr:
  assumes "last_chunks opts tag_size p = (Inr r, p')" "drained view a n tag_size p js" "n = unat (ep_chunk_plain_size opts)" "0 < n"
    "js = [] \<or> cp_pending_full_chunk p \<noteq> None"
  shows "producer_outcome view a opts tag_size r p' js"
proof -
  have b: "length (cp_current_chunk p) < n" "\<And>bs. cp_pending_full_chunk p = Some bs \<Longrightarrow> length bs = n" "cp_record p = []"
    using assms(2) by (auto simp: drained_def buffers_ok_def)
  show ?thesis
  proof (cases "cp_pending_full_chunk p")
    case (Some bs)
    show ?thesis
    proof (cases "cp_current_chunk p = []")
      case True
      let ?f = "\<lambda>p. p\<lparr>cp_pending_full_chunk := None, cp_phase := CompareSize\<rparr>"
      obtain c where c: "planned_chunk tag_size bs True (?f p) = (Inr c, p')" "r = Some c"
        using assms(1) Some True by (auto simp: last_chunks_def getS_def bindS_Inr modifyS_def returnS_def)
      have "bs \<noteq> []" using b(2) [OF Some] assms(4) by auto
      then show ?thesis
        using last_job [of tag_size bs ?f p c p' view a n js opts, OF c(1) assms(2,3)] b assms(4) Some True c(2)
        by (simp add: producer_outcome_def unsent_def)
    next
      case False
      let ?f = "p\<lparr>cp_pending_full_chunk := None, cp_phase := LastChunk\<rparr>"
      obtain c where c: "planned_chunk tag_size bs False ?f = (Inr c, p')" "r = Some c"
        using assms(1) Some False by (auto simp: last_chunks_def getS_def bindS_Inr modifyS_def returnS_def)
      have k: "cp_next_chunk_index ?f = of_nat (length js)" using assms(2) by (simp add: drained_def buffers_ok_def)
      note pc = planned_chunk_Inr [OF c(1) k]
      have "full_jobs n tag_size (js @ [c])"
        using pc assms(2) b(2) [OF Some] by (intro full_jobs_snoc) (simp_all add: drained_def buffers_ok_def)
      then have "drained view a n tag_size p' (js @ [c])"
        using assms(2) pc Some b(3) by (fastforce simp: drained_def buffers_ok_def unsent_def)
      then show ?thesis using pc False c(2) assms(3) by (auto simp: producer_outcome_def producer_inv_def Let_def)
    qed
  next
    case None
    then have js: "js = []" using assms(5) by simp
    show ?thesis
    proof (cases "cp_current_chunk p = []")
      case False
      let ?f = "\<lambda>p. p\<lparr>cp_current_chunk := [], cp_phase := CompareSize\<rparr>"
      obtain c where c: "planned_chunk tag_size (cp_current_chunk p) True (?f p) = (Inr c, p')" "r = Some c"
        using assms(1) None False by (auto simp: last_chunks_def getS_def bindS_Inr modifyS_def returnS_def)
      show ?thesis
        using last_job [of tag_size "cp_current_chunk p" ?f p c p' view a n js opts, OF c(1) assms(2,3)] b assms(4) None False c(2)
        by (simp add: producer_outcome_def unsent_def)
    next
      case True
      show ?thesis
      proof (cases "ep_emit_final_chunk_when_empty opts")
        case e: True
        obtain c where c: "planned_chunk tag_size [] True (set_phase CompareSize p) = (Inr c, p')" "r = Some c"
          using assms(1) None True e by (auto simp: last_chunks_def getS_def bindS_Inr modifyS_def returnS_def)
        show ?thesis
          using last_job [of tag_size "[]" "set_phase CompareSize" p c p' view a n js opts, OF c(1) assms(2,3)] b assms(4) None True c(2) js e
          by (simp add: producer_outcome_def unsent_def set_phase_def)
      next
        case e: False
        have cs: "compare_size opts (set_phase CompareSize p) = (Inr r, p')"
          using assms(1) None True e by (simp add: last_chunks_def getS_def bindS_def modifyS_def)
        obtain outs where "all_emitted view a outs (cp_archive_writer p)" "concat outs = []"
          using assms(2) js None True b(3) by (auto simp: drained_def unsent_def)
        then have "jobs_complete view a opts tag_size js (cp_archive_writer p)"
          using js e by (auto simp: jobs_complete_def chunks_of_def)
        then show ?thesis using cs by (auto simp: compare_size_Inr producer_outcome_def set_phase_def sizes_agree_def)
      qed
    qed
  qed
qed

lemma producer_step:
  assumes "next_plain_chunk view opts tag_size p = (Inr r, p')" "producer_inv view a opts tag_size p js" "0 < ep_chunk_plain_size opts"
  shows "producer_outcome view a opts tag_size r p' js"
proof -
  let ?n = "unat (ep_chunk_plain_size opts)"
  have n: "0 < ?n" using assms(3) unat_gt_0 by (metis word_neq_0_conv)
  show ?thesis
  proof (cases "cp_phase p")
    case ReadRecords
    then obtain r1 p1 where p1: "next_full_chunk view ?n tag_size p = (Inr r1, p1)"
      "(if r1 \<noteq> None then returnS r1 else last_chunks opts tag_size) p1 = (Inr r, p')"
      using assms(1) by (auto simp: next_plain_chunk_def getS_def bindS_Inr)
    have pr: "producing view a ?n tag_size p js" using assms(2) ReadRecords by (simp add: producer_inv_def Let_def)
    note nf = next_full_chunk_Inr [OF p1(1) pr]
    show ?thesis
    proof (cases r1)
      case None
      then have "last_chunks opts tag_size p1 = (Inr r, p')" "drained view a ?n tag_size p1 js"
        "js = [] \<or> cp_pending_full_chunk p1 \<noteq> None" using p1(2) nf by simp_all
      from last_chunks_Inr [OF this(1,2) refl n this(3)] show ?thesis .
    next
      case (Some c)
      then have "r = Some c" "p' = p1" "producing view a ?n tag_size p1 (js @ [c])" using p1(2) nf by (auto simp: returnS_def)
      then show ?thesis by (simp add: producer_outcome_def producer_inv_def producing_def Let_def)
    qed
  next
    case LastChunk
    let ?f = "\<lambda>p. p\<lparr>cp_current_chunk := [], cp_phase := CompareSize\<rparr>"
    obtain c where c: "planned_chunk tag_size (cp_current_chunk p) True (?f p) = (Inr c, p')" "r = Some c"
      using assms(1) LastChunk by (auto simp: next_plain_chunk_def getS_def bindS_Inr modifyS_def returnS_def)
    have d: "drained view a ?n tag_size p js" "cp_current_chunk p \<noteq> []" "cp_pending_full_chunk p = None"
      using assms(2) LastChunk by (simp_all add: producer_inv_def Let_def)
    then have "length (cp_current_chunk p) < ?n" "cp_record p = []" by (simp_all add: drained_def buffers_ok_def)
    then show ?thesis
      using last_job [of tag_size "cp_current_chunk p" ?f p c p' view a ?n js opts, OF c(1) d(1) refl] d n c(2)
      by (simp add: producer_outcome_def unsent_def)
  next
    case CompareSize
    then have "compare_size opts p = (Inr r, p')" using assms(1) by (simp add: next_plain_chunk_def getS_def)
    then show ?thesis using assms(2) CompareSize
      by (auto simp: compare_size_Inr producer_outcome_def producer_inv_def sizes_agree_def Let_def)
  qed
qed

lemma producer_inv_start:
  "0 < ep_chunk_plain_size opts \<Longrightarrow> cp_next_chunk_index (new_chunk_producer a w) = 0
     \<Longrightarrow> producer_inv view a opts tag_size (new_chunk_producer a w) []"
  by (auto simp: producer_inv_def Let_def producing_def buffers_ok_def new_chunk_producer_def full_jobs_def unsent_def
      unat_gt_0 word_neq_0_conv intro: emits_none intro!: exI [of _ "[]"])

lemma encrypt_code_sel [simp]:
  "pc_next (encrypt_code lib hmac opts be keys view) = next_plain_chunk view opts (projr (checked_tag_size be))"
  "pc_work (encrypt_code lib hmac opts be keys view) = encrypt_plain_chunk lib opts be keys"
  "pc_index (encrypt_code lib hmac opts be keys view) = cj_index"
  "pc_put (encrypt_code lib hmac opts be keys view) = write_cipher_chunk hmac"
  "pc_end (encrypt_code lib hmac opts be keys view) = any_finish hmac"
  by (simp_all add: encrypt_code_def)

lemma encrypt_yields:
  assumes "yields (encrypt_code lib hmac opts be keys view) (new_chunk_producer a w) js p" "0 < ep_chunk_plain_size opts"
  shows "producer_inv view a opts (projr (checked_tag_size be)) p js"
  using assms(1)
proof (induction rule: yields.induct)
  case yields_none
  show ?case using assms(2) by (intro producer_inv_start) (simp_all add: new_chunk_producer_def)
next
  case (yields_next js p j p')
  then show ?case using producer_step [OF _ yields_next.IH assms(2), of "Some j" p'] by (simp add: producer_outcome_def)
qed

lemma length_concat_same: "\<forall>c\<in>set cs. length c = n \<Longrightarrow> length (concat cs) = length cs * n"
  by (induction cs) auto

text \<open>The number of chunks is bounded by the number of bytes.\<close>

lemma producer_inv_length:
  assumes "producer_inv view a opts tag_size p js" "0 < ep_chunk_plain_size opts"
    "\<forall>outs a'. emits view a outs a' \<longrightarrow> length (concat outs) < 2 ^ 64"
  shows "length js < 2 ^ 64 \<and> (\<forall>k<length js. pj_index (js ! k) = of_nat k)"
proof -
  let ?n = "unat (ep_chunk_plain_size opts)"
  have n: "0 < ?n" using assms(2) unat_gt_0 by (metis word_neq_0_conv)
  have full: "length js < 2 ^ 64 \<and> (\<forall>k<length js. pj_index (js ! k) = of_nat k)"
    if "full_jobs ?n tag_size js" "emits view a outs a'" "concat outs = concat (map pj_bytes js) @ x" for outs a' x
  proof -
    have "length (concat (map pj_bytes js)) = length js * ?n"
      using length_concat_same [of "map pj_bytes js" ?n] full_jobs_length [OF that(1)] by auto
    then have "length js * ?n \<le> length (concat outs)" using that(3) by simp
    moreover have "length js \<le> length js * ?n" using n by simp
    ultimately have "length js \<le> length (concat outs)" by (rule order_trans [rotated])
    also have "length (concat outs) < 2 ^ 64" using assms(3) that(2) by blast
    finally show ?thesis using that(1) by (simp add: full_jobs_def planned_job_def)
  qed
  show ?thesis
  proof (cases "cp_phase p")
    case ReadRecords
    then show ?thesis using assms(1) full by (auto simp: producer_inv_def Let_def producing_def buffers_ok_def)
  next
    case LastChunk
    then show ?thesis using assms(1) full
      by (auto simp: producer_inv_def Let_def drained_def buffers_ok_def all_emitted_def)
  next
    case CompareSize
    then obtain outs a1 where c: "emits view a outs a1"
      "map pj_bytes js = chunks_of ?n (ep_emit_final_chunk_when_empty opts) (concat outs)"
      "\<forall>k<length js. planned_job tag_size k (Suc k = length js) (js ! k)"
      using assms(1) by (auto simp: producer_inv_def Let_def jobs_complete_def all_emitted_def)
    have "length (pieces ?n xs) \<le> length xs" for xs
    proof (induction ?n xs rule: pieces.induct)
      case (1 xs)
      show ?case
      proof (cases "xs = []")
        case False
        then have "length (pieces ?n (drop ?n xs)) \<le> length xs - ?n" "Suc 0 \<le> length xs"
          using 1 n by (simp_all add: Suc_le_eq)
        then have "Suc (length (pieces ?n (drop ?n xs))) \<le> length xs" using n by linarith
        then show ?thesis using n False by (simp add: pieces_Cons)
      qed simp
    qed
    then have "length (chunks_of ?n e bs) \<le> max 1 (length bs)" for e bs
      by (simp add: chunks_of_def le_max_iff_disj)
    then have "length js \<le> max 1 (length (concat outs))" using arg_cong [OF c(2), of length] by simp
    then have "length js < 2 ^ 64" using assms(3) c(1) by fastforce
    then show ?thesis using c(3) by (simp add: planned_job_def)
  qed
qed

lemma encrypt_indexed:
  assumes "0 < ep_chunk_plain_size opts" "\<forall>outs a'. emits view a outs a' \<longrightarrow> length (concat outs) < 2 ^ 64"
  shows "indexed (encrypt_code lib hmac opts be keys view) (new_chunk_producer a w)"
  unfolding indexed_def
proof (intro allI impI conjI)
  fix js p
  assume y: "yields (encrypt_code lib hmac opts be keys view) (new_chunk_producer a w) js p"
  note l = producer_inv_length [OF encrypt_yields [OF y assms(1)] assms]
  show "length js < 2 ^ 64" using l by simp
  fix k r
  assume k: "k < length js" and w: "pc_work (encrypt_code lib hmac opts be keys view) (js ! k) = Inr r"
  then have "cj_index r = of_nat k" using l by (auto simp: encrypt_plain_chunk_def bindr_eq_Inr Let_def)
  then show "unat (pc_index (encrypt_code lib hmac opts be keys view) r) = k"
    using k l by (simp add: unat_of_nat_u64)
qed

subsection \<open>The outcome of an encryption\<close>

text \<open>
  A frame of the archive: the header of chunk \<open>k\<close>, and the plaintext encrypted under the key, the nonce
  of the chunk index, and the header hash of the shard and the frame header as associated data.
\<close>

definition frame_of_chunk ::
  "hkdf_lib \<Rightarrow> EncryptPipelineOptions \<Rightarrow> CryptoBackend \<Rightarrow> ExpandedKeys \<Rightarrow> nat \<Rightarrow> bool \<Rightarrow> bytes \<Rightarrow> CipherChunk \<Rightarrow> bool" where
  "frame_of_chunk lib opts be keys k final_chunk bs c \<longleftrightarrow>
     cj_index c = of_nat k
     \<and> frame_for (of_nat k) (of_nat (length bs)) (of_nat (length bs)) (of_nat (cb_tag_size be)) final_chunk (cj_frame_header c)
     \<and> cj_frame_header_bytes c = frame_bytes (cj_frame_header c)
     \<and> (\<exists>nonce. derive_chunk_nonce lib (ek_nonce_derivation_key keys)
           \<lparr>nc_suite = cb_suite be, nc_archive_id = ep_archive_id opts\<rparr> (of_nat k) = Inr nonce
         \<and> cb_encrypt_chunk be
            \<lparr>er_key = ek_chunk_encryption_key keys, er_nonce = nonce, er_plaintext = bs,
             er_aad = make_aad opts (fh_shard_index (cj_frame_header c)) (cj_frame_header_bytes c)\<rparr>
             = Inr (cj_ciphertext_and_tag c))"

fun write_all :: "(bytes \<Rightarrow> bytes \<Rightarrow> bytes option) \<Rightarrow> CipherChunk list \<Rightarrow> (AnyShardWriter, unit) op" where
  "write_all hmac [] = returnS ()"
| "write_all hmac (c # cs) = bindS (write_cipher_chunk hmac c) (\<lambda>_. write_all hmac cs)"

lemma put_all_write_all: "put_all (encrypt_code lib hmac opts be keys view) cs = write_all hmac cs"
  by (induction cs) simp_all

text \<open>The archive of a stream: its chunks in order, each as a frame, the last one marked.\<close>

definition frames_of_stream ::
  "hkdf_lib \<Rightarrow> EncryptPipelineOptions \<Rightarrow> CryptoBackend \<Rightarrow> ExpandedKeys \<Rightarrow> bytes \<Rightarrow> CipherChunk list \<Rightarrow> bool" where
  "frames_of_stream lib opts be keys stream cs \<longleftrightarrow>
     (let chunks = chunks_of (unat (ep_chunk_plain_size opts)) (ep_emit_final_chunk_when_empty opts) stream in
      length cs = length chunks
      \<and> (\<forall>k<length cs. frame_of_chunk lib opts be keys k (Suc k = length cs) (chunks ! k) (cs ! k)))"

lemma encrypt_plain_chunk_Inr:
  assumes "encrypt_plain_chunk lib opts be keys j = Inr c"
  shows "cj_index c = pj_index j \<and> cj_frame_header c = pj_frame_header j \<and> cj_frame_header_bytes c = pj_frame_header_bytes j
    \<and> (\<exists>nonce. derive_chunk_nonce lib (ek_nonce_derivation_key keys)
           \<lparr>nc_suite = cb_suite be, nc_archive_id = ep_archive_id opts\<rparr> (pj_index j) = Inr nonce
         \<and> cb_encrypt_chunk be
            \<lparr>er_key = ek_chunk_encryption_key keys, er_nonce = nonce, er_plaintext = pj_bytes j,
             er_aad = make_aad opts (fh_shard_index (pj_frame_header j)) (pj_frame_header_bytes j)\<rparr>
             = Inr (cj_ciphertext_and_tag c))"
  using assms by (cases c) (auto simp: encrypt_plain_chunk_def bindr_eq_Inr Let_def)

lemma jobs_frames:
  assumes "jobs_complete view a opts tag_size js a'" "results_of (encrypt_code lib hmac opts be keys view) js cs"
    "length cs = length js" "checked_tag_size be = Inr tag_size"
  shows "\<exists>outs. all_emitted view a outs a' \<and> frames_of_stream lib opts be keys (concat outs) cs"
proof -
  from assms(1) obtain outs where outs: "all_emitted view a outs a'"
    "map pj_bytes js = chunks_of (unat (ep_chunk_plain_size opts)) (ep_emit_final_chunk_when_empty opts) (concat outs)"
    and j: "\<forall>k<length js. planned_job tag_size k (Suc k = length js) (js ! k)"
    by (auto simp: jobs_complete_def)
  have tag: "tag_size = of_nat (cb_tag_size be)" using assms(4) by (auto simp: checked_tag_size_def)
  have "frame_of_chunk lib opts be keys k (Suc k = length cs) (map pj_bytes js ! k) (cs ! k)" if k: "k < length cs" for k
  proof -
    have "encrypt_plain_chunk lib opts be keys (js ! k) = Inr (cs ! k)"
      using assms(2) k by (simp add: results_of_def)
    moreover have "planned_job tag_size k (Suc k = length js) (js ! k)" using j k assms(3) by simp
    ultimately show ?thesis using encrypt_plain_chunk_Inr [of lib opts be keys "js ! k" "cs ! k"] k assms(3) tag
      by (auto simp: frame_of_chunk_def planned_job_def)
  qed
  moreover have "length cs = length (map pj_bytes js)" using assms(3) by simp
  ultimately show ?thesis using outs by (auto simp: frames_of_stream_def Let_def intro!: exI [of _ outs])
qed

lemma encryption_outcome:
  assumes "run_encrypt lib hmac hw opts (Some be) keys view schedule a w = Some (Inr (), w')"
    "\<forall>outs a'. emits view a outs a' \<longrightarrow> length (concat outs) < 2 ^ 64"
  shows "0 < ep_chunk_plain_size opts \<and> (\<exists>outs a' cs. all_emitted view a outs a' \<and> sizes_agree opts a'
    \<and> frames_of_stream lib opts be keys (concat outs) cs
    \<and> bindS (write_all hmac cs) (\<lambda>_. any_finish hmac) w = (Inr (), w'))"
proof -
  let ?code = "encrypt_code lib hmac opts be keys view"
  obtain s where run: "run_schedule ?code schedule (start_encrypt hw opts a w) = Some s"
    and s: "all_done s" "pipeline_result s = Inr ()" "ps_snk s = w'"
    and v: "validate_encrypt_pipeline_inputs opts be keys = Inr ()"
    using assms(1) by (auto simp: run_encrypt_def split: option.splits sum.splits if_splits)
  from v have c: "0 < ep_chunk_plain_size opts" and t: "\<exists>t. checked_tag_size be = Inr t"
    by (auto simp: validate_encrypt_pipeline_inputs_def bindr_eq_Inr checked_chunk_size_def word_neq_0_conv)
  have fin: "ps_failure s = None" "ps_sink s = SinkDone"
    using s by (auto simp: all_done_def pipeline_result_def split: option.splits)
  have "pipe_inv ?code (new_chunk_producer a w) w s"
    by (rule run_schedule_inv [OF run _ encrypt_indexed [OF c assms(2)]])
       (simp add: start_encrypt_def Let_def start_inv [OF resolve_worker_count_pos])
  from pipe_inv_delivered [OF this] fin s(3) obtain js rs where rs: "results_of ?code js rs" "length rs = length js"
    and g: "all_given ?code (new_chunk_producer a w) js"
    and e: "bindS (put_all ?code rs) (\<lambda>_. pc_end ?code) w = (Inr (), w')"
    by blast
  from g obtain p p' where p: "yields ?code (new_chunk_producer a w) js p" "next_plain_chunk view opts (projr (checked_tag_size be)) p = (Inr None, p')"
    unfolding all_given_def encrypt_code_sel by (metis eq_fst_iff)
  note o = producer_step [OF p(2) encrypt_yields [OF p(1) c] c]
  then have "\<exists>outs. all_emitted view a outs (cp_archive_writer p') \<and> frames_of_stream lib opts be keys (concat outs) rs"
    using t by (intro jobs_frames [OF _ rs]) (auto simp: producer_outcome_def)
  moreover have "sizes_agree opts (cp_archive_writer p')" using o by (simp add: producer_outcome_def)
  ultimately show ?thesis using e c by (auto simp: put_all_write_all)
qed

subsection \<open>Encryption\<close>

text \<open>C5: A successful encryption, whatever the schedule of its threads, has cut exactly the bytes that
  the \<open>ArchiveWriter\<close> has given, up to its end, into chunks of the configured size, and has written
  them through the shard writer in order as frames numbered from 0, the last one marked as final,
  each encrypted under the nonce of its number with the header hash of its shard and its own frame
  header as associated data, and has completed the writer; if a size was planned, the writer has
  produced that number of bytes.\<close>
theorem encryption_covers_stream:
  assumes "run_encrypt lib hmac hw opts (Some be) keys view schedule a w = Some (Inr (), w')"
    "\<forall>outs a'. emits view a outs a' \<longrightarrow> length (concat outs) < 2 ^ 64"
  shows "\<exists>outs a' cs. all_emitted view a outs a'
    \<and> frames_of_stream lib opts be keys (concat outs) cs
    \<and> bindS (write_all hmac cs) (\<lambda>_. any_finish hmac) w = (Inr (), w')
    \<and> (ep_expected_plaintext_bytes opts > 0 \<longrightarrow> aw_bytes_produced a' = ep_expected_plaintext_bytes opts)"
  using encryption_outcome [OF assms] unfolding sizes_agree_def by blast

subsection \<open>Decryption of what was encrypted\<close>

text \<open>The record a reader makes of a frame.\<close>

definition record_of_frame :: "Encrypt_Pipeline.CipherChunk \<Rightarrow> ChunkRecord" where
  "record_of_frame c =
     \<lparr>cr_chunk_index = cj_index c, cr_shard_index = fh_shard_index (cj_frame_header c),
      cr_plaintext_size = ucast (fh_plaintext_len (cj_frame_header c)),
      cr_frame_flags = fh_frame_flags (cj_frame_header c), cr_frame_header_bytes = cj_frame_header_bytes c,
      cr_ciphertext = cj_ciphertext_and_tag c\<rparr>"

definition same_archive_options :: "EncryptPipelineOptions \<Rightarrow> DecryptPipelineOptions \<Rightarrow> u32 \<Rightarrow> bool" where
  "same_archive_options eopts dopts shard \<longleftrightarrow> dp_archive_id dopts = ep_archive_id eopts
     \<and> Decrypt_Pipeline.select_public_header_hash dopts shard = Encrypt_Pipeline.select_public_header_hash eopts shard"

lemma concat_chunks_of: "0 < n \<Longrightarrow> concat (chunks_of n e bs) = bs"
  by (simp add: chunks_of_def concat_pieces)

lemma pieces_length: "0 < n \<Longrightarrow> c \<in> set (pieces n xs) \<Longrightarrow> length c \<le> n"
proof (induction n xs rule: pieces.induct)
  case (1 n xs)
  then show ?case by (cases "xs = []") (auto simp: pieces_Cons)
qed

lemma frame_decrypts:
  assumes "frame_of_chunk lib eopts be keys k f bs c" "backend_roundtrip be" "length bs < 2 ^ 64"
    "same_archive_options eopts dopts (fh_shard_index (cj_frame_header c))"
  shows "decrypt_cipher_chunk lib dopts be keys (cipher_chunk (record_of_frame c)) = Inr \<lparr>pl_index = of_nat k, pl_bytes = bs\<rparr>"
proof -
  from assms(1) obtain nonce where n: "derive_chunk_nonce lib (ek_nonce_derivation_key keys)
       \<lparr>nc_suite = cb_suite be, nc_archive_id = ep_archive_id eopts\<rparr> (of_nat k) = Inr nonce"
    and e: "cb_encrypt_chunk be \<lparr>er_key = ek_chunk_encryption_key keys, er_nonce = nonce, er_plaintext = bs,
         er_aad = Encrypt_Pipeline.make_aad eopts (fh_shard_index (cj_frame_header c)) (cj_frame_header_bytes c)\<rparr> = Inr (cj_ciphertext_and_tag c)"
    and c: "cj_index c = of_nat k" "frame_for (of_nat k) (of_nat (length bs)) (of_nat (length bs)) (of_nat (cb_tag_size be)) f (cj_frame_header c)"
    by (auto simp: frame_of_chunk_def)
  from assms(2) e have "cb_decrypt_chunk be \<lparr>dr_key = ek_chunk_encryption_key keys, dr_nonce = nonce,
      dr_ciphertext_and_tag = cj_ciphertext_and_tag c,
      dr_aad = Encrypt_Pipeline.make_aad eopts (fh_shard_index (cj_frame_header c)) (cj_frame_header_bytes c)\<rparr> = Inr bs"
    by (fastforce simp: backend_roundtrip_def decrypt_request_def)
  moreover have "Decrypt_Pipeline.make_aad dopts (fh_shard_index (cj_frame_header c)) (cj_frame_header_bytes c)
      = Encrypt_Pipeline.make_aad eopts (fh_shard_index (cj_frame_header c)) (cj_frame_header_bytes c)"
    using assms(4) by (simp add: Decrypt_Pipeline.make_aad_def Encrypt_Pipeline.make_aad_def same_archive_options_def)
  moreover have "of_nat (length bs) = (ucast (fh_plaintext_len (cj_frame_header c)) :: u64)"
  proof -
    have len: "length bs < 2 ^ 32" using c(2) assms(3) by (simp add: frame_for_def unat_of_nat_u64)
    have "fh_plaintext_len (cj_frame_header c) = ucast (of_nat (length bs) :: u64)"
      using c(2) unfolding frame_for_def by (metis ChunkFrameHeaderV1.select_convs(4))
    then show ?thesis using len by (simp add: word_unat_eq_iff unat_of_nat_u64 unsigned_ucast_eq take_bit_nat_eq_self)
  qed
  ultimately show ?thesis using n c(1) assms(4)
    by (simp add: decrypt_cipher_chunk_def cipher_chunk_def record_of_frame_def same_archive_options_def)
qed

lemma stream_decrypts:
  assumes "frames_of_stream lib eopts be keys stream cs" "backend_roundtrip be" "0 < ep_chunk_plain_size eopts"
    "\<forall>c\<in>set cs. same_archive_options eopts dopts (fh_shard_index (cj_frame_header c))"
  shows "\<exists>ps. length ps = length cs \<and> concat ps = stream \<and> (\<forall>k<length cs.
    decrypt_cipher_chunk lib dopts be keys (cipher_chunk (record_of_frame (cs ! k))) = Inr \<lparr>pl_index = of_nat k, pl_bytes = ps ! k\<rparr>)"
proof -
  let ?n = "unat (ep_chunk_plain_size eopts)"
  let ?ps = "chunks_of ?n (ep_emit_final_chunk_when_empty eopts) stream"
  have n: "0 < ?n" using assms(3) unat_gt_0 by (metis word_neq_0_conv)
  have l: "length cs = length ?ps" using assms(1) by (simp add: frames_of_stream_def Let_def)
  have "length c < 2 ^ 64" if "c \<in> set ?ps" for c
  proof -
    have "length c \<le> ?n" using that pieces_length [OF n] by (auto simp: chunks_of_def split: if_splits)
    then show ?thesis using unat_u64_lt [of "ep_chunk_plain_size eopts"] by linarith
  qed
  then have "decrypt_cipher_chunk lib dopts be keys (cipher_chunk (record_of_frame (cs ! k))) = Inr \<lparr>pl_index = of_nat k, pl_bytes = ?ps ! k\<rparr>"
    if "k < length cs" for k
    using that assms(1,4) l by (intro frame_decrypts [OF _ assms(2)]) (auto simp: frames_of_stream_def Let_def)
  then show ?thesis using l concat_chunks_of [OF n] by (intro exI [of _ ?ps]) auto
qed

text \<open>C6: Decryption undoes encryption: every frame that a successful encryption has written is decrypted,
  by a worker of the decryption with the same keys, archive id and header hashes, to the chunk it
  was made from, and the chunks together are the byte stream the \<open>ArchiveWriter\<close> has given.\<close>
theorem decryption_inverts_encryption:
  assumes "run_encrypt lib hmac hw opts (Some be) keys view schedule a w = Some (Inr (), w')"
    "\<forall>outs a'. emits view a outs a' \<longrightarrow> length (concat outs) < 2 ^ 64"
    "backend_roundtrip be" "\<forall>shard. same_archive_options opts dopts shard"
  shows "\<exists>outs a' cs ps. all_emitted view a outs a' \<and> bindS (write_all hmac cs) (\<lambda>_. any_finish hmac) w = (Inr (), w')
    \<and> length ps = length cs \<and> concat ps = concat outs
    \<and> (\<forall>k<length cs. decrypt_cipher_chunk lib dopts be keys (cipher_chunk (record_of_frame (cs ! k)))
         = Inr \<lparr>pl_index = of_nat k, pl_bytes = ps ! k\<rparr>)"
proof -
  from encryption_outcome [OF assms(1,2)] obtain outs a' cs where
    o: "all_emitted view a outs a'" "frames_of_stream lib opts be keys (concat outs) cs"
    "bindS (write_all hmac cs) (\<lambda>_. any_finish hmac) w = (Inr (), w')" "0 < ep_chunk_plain_size opts" by blast
  from stream_decrypts [OF o(2) assms(3) o(4)] assms(4) show ?thesis using o(1,3) by blast
qed

subsection \<open>A concrete encryption\<close>

definition tiny_view :: input_view where
  "tiny_view = \<lparr>iv_tree = \<lambda>_. \<lparr>ft_entries = [], ft_cwd = [], ft_clock = 0, ft_fault = \<lambda>_. False\<rparr>,
     iv_mode = \<lambda>_ _. 0, iv_mtime = \<lambda>_ _. None\<rparr>"

text \<open>An archive writer with nothing left but its padding record.\<close>

definition tiny_archive_writer :: "bool \<Rightarrow> ArchiveWriter" where
  "tiny_archive_writer padded = \<lparr>aw_options = sample_input_options, aw_entries = [], aw_entry_index = 0,
     aw_emitted_begin = True, aw_emitted_end = True, aw_current_file = [], aw_current_file_eof = False,
     aw_current_file_open = False, aw_file_bytes_payload_size = 65536,
     aw_trailing_padding_record = Some [3], aw_trailing_padding_emitted = padded,
     aw_current_file_expected_bytes = 0, aw_current_file_bytes_read = 0, aw_current_file_pos = 0,
     aw_bytes_produced = (if padded then 1 else 0), aw_calls = 0\<rparr>"

lemma tiny_records:
  "next_record_bytes tiny_view (tiny_archive_writer False) = (Inr (Some [3]), tiny_archive_writer True)"
  "next_record_bytes tiny_view (tiny_archive_writer True) = (Inr None, tiny_archive_writer True)"
  by (simp_all add: next_record_bytes_def tiny_archive_writer_def bindS_def op_defs produce_eq)

lemma tiny_emits: "emits tiny_view (tiny_archive_writer False) outs a \<Longrightarrow>
    outs = [] \<and> a = tiny_archive_writer False \<or> outs = [[3]] \<and> a = tiny_archive_writer True"
  by (induction rule: emits.induct) (auto simp: tiny_records)

definition tiny_encrypt_options :: EncryptPipelineOptions where
  "tiny_encrypt_options = \<lparr>ep_chunk_plain_size = 4, ep_worker_count = 1, ep_queue_depth = 0,
     ep_archive_id = replicate 32 0, ep_per_shard_public_header_hashes = [replicate 32 8],
     ep_public_header_hash = [], ep_emit_final_chunk_when_empty = True, ep_expected_plaintext_bytes = 1\<rparr>"

definition tiny_stream_writer :: StdoutShardWriter where
  "tiny_stream_writer = \<lparr>sd_options = \<lparr>oo_global_header = sample_global, oo_header_authentication_key = replicate 32 5,
       oo_per_shard_public_header_hashes = [replicate 32 8]\<rparr>,
     sd_out = \<lparr>os_written = [], os_good = True, os_clock = 0, os_fault = \<lambda>_. None\<rparr>,
     sd_buffer = replicate 272 0, sd_payload_offset = 0, sd_chunk_count = 0, sd_next_expected_chunk_index = 0,
     sd_final_chunk_plaintext_len = 0, sd_planned_payload_offset = 0, sd_planned_next_chunk_index = 0,
     sd_finished = False, sd_aborted = False\<rparr>"

definition tiny_header :: ChunkFrameHeaderV1 where
  "tiny_header = \<lparr>fh_frame_flags = 1, fh_shard_index = 0, fh_global_chunk_index = 0,
     fh_plaintext_len = 1, fh_ciphertext_len = 1, fh_tag_len = 16\<rparr>"

definition tiny_planned :: StdoutShardWriter where
  "tiny_planned = tiny_stream_writer\<lparr>sd_planned_payload_offset := 57, sd_planned_next_chunk_index := 1\<rparr>"

lemma tiny_header_bytes: "chunk_frame_v1_encoded_size tiny_header = Inr 57"
    "serialize_chunk_frame_header_v1 tiny_header = Inr (frame_bytes tiny_header)"
  by code_simp+

lemma tiny_plan:
  "stdout_plan_chunk_frame 0 1 1 16 True tiny_stream_writer
     = (Inr \<lparr>pf_position = \<lparr>wp_shard_index = 0, wp_record_offset = 0, wp_chunk_index = 0\<rparr>, pf_header = tiny_header,
             pf_header_bytes = frame_bytes tiny_header\<rparr>, tiny_planned)"
proof -
  have "ucast u32_max \<noteq> (0 :: u64)" by code_simp
  then show ?thesis
    using tiny_header_bytes
    by (simp add: stdout_plan_chunk_frame_def tiny_planned_def tiny_stream_writer_def bindS_def op_defs Let_def
        sample_global_def tiny_header_def linorder_not_less)
qed

definition tiny_job :: Encrypt_Pipeline.PlainChunk where
  "tiny_job = \<lparr>pj_index = 0, pj_frame_header = tiny_header, pj_frame_header_bytes = frame_bytes tiny_header, pj_bytes = [3]\<rparr>"

definition tiny_producer :: chunk_producer where
  "tiny_producer = \<lparr>cp_archive_writer = tiny_archive_writer True, cp_shard_writer = StreamWriter tiny_planned, cp_record = [],
     cp_current_chunk = [], cp_pending_full_chunk = None, cp_next_chunk_index = 1, cp_phase = CompareSize\<rparr>"

lemma tiny_produces:
  "next_plain_chunk tiny_view tiny_encrypt_options 16 (new_chunk_producer (tiny_archive_writer False) (StreamWriter tiny_stream_writer))
     = (Inr (Some tiny_job), tiny_producer)"
  "next_plain_chunk tiny_view tiny_encrypt_options 16 tiny_producer = (Inr None, tiny_producer)"
proof -
  have plan: "on_stream_writer (stdout_plan_chunk_frame 0 1 1 16 True) tiny_stream_writer
     = (Inr \<lparr>pf_position = \<lparr>wp_shard_index = 0, wp_record_offset = 0, wp_chunk_index = 0\<rparr>, pf_header = tiny_header,
             pf_header_bytes = frame_bytes tiny_header\<rparr>, StreamWriter tiny_planned)"
    by (simp add: on_stream_writer_def tiny_plan)
  let ?p = "new_chunk_producer (tiny_archive_writer False) (StreamWriter tiny_stream_writer)"
  have "next_full_chunk tiny_view 4 16 ?p = (Inr None, ?p\<lparr>cp_archive_writer := tiny_archive_writer True, cp_current_chunk := [3]\<rparr>)"
    by (subst next_full_chunk.simps, simp add: new_chunk_producer_def tiny_records, subst next_full_chunk.simps,
        simp add: copy_bytes_def, subst next_full_chunk.simps, simp add: tiny_records)
  then show "next_plain_chunk tiny_view tiny_encrypt_options 16 ?p = (Inr (Some tiny_job), tiny_producer)"
    by (simp add: next_plain_chunk_def getS_def bindS_def new_chunk_producer_def tiny_encrypt_options_def last_chunks_def
        modifyS_def planned_chunk_def plan tiny_job_def tiny_producer_def returnS_def Let_def)
  show "next_plain_chunk tiny_view tiny_encrypt_options 16 tiny_producer = (Inr None, tiny_producer)"
    by (simp add: next_plain_chunk_def getS_def bindS_def tiny_producer_def compare_size_def guardS_def returnS_def
        tiny_encrypt_options_def tiny_archive_writer_def)
qed

definition tiny_frame :: Encrypt_Pipeline.CipherChunk where
  "tiny_frame = \<lparr>cj_index = 0, cj_frame_header = tiny_header, cj_frame_header_bytes = frame_bytes tiny_header,
     cj_ciphertext_and_tag = 3 # replicate 16 3\<rparr>"

lemma tiny_encrypts: "encrypt_plain_chunk sample_hkdf tiny_encrypt_options tiny_backend tiny_keys tiny_job = Inr tiny_frame"
  by code_simp

definition tiny_written :: StdoutShardWriter where
  "tiny_written = tiny_stream_writer\<lparr>sd_buffer := replicate 272 0 @ frame_bytes tiny_header @ replicate 17 3,
     sd_payload_offset := 57, sd_chunk_count := 1, sd_next_expected_chunk_index := 1, sd_final_chunk_plaintext_len := 1\<rparr>"

abbreviation (input) tiny_hmac :: "bytes \<Rightarrow> bytes \<Rightarrow> bytes option" where "tiny_hmac \<equiv> \<lambda>_ _. Some (replicate 32 0)"

lemma tiny_write: "stdout_write_chunk_frame tiny_header (frame_bytes tiny_header) (3 # replicate 16 3) tiny_stream_writer
    = (Inr \<lparr>wp_shard_index = 0, wp_record_offset = 0, wp_chunk_index = 0\<rparr>, tiny_written)"
proof -
  have "replicate 17 (3 :: byte) = 3 # replicate 16 3" by (simp add: numeral_eq_Suc)
  then show ?thesis
    using tiny_header_bytes
    by (simp add: stdout_write_chunk_frame_def stdout_write_checks_def tiny_written_def tiny_stream_writer_def bindS_def op_defs Let_def
        sample_global_def tiny_header_def)
qed

lemma tiny_finish_stream: "\<exists>w. stdout_finish tiny_hmac tiny_written = (Inr (), w)"
proof (rule stdout_finish_ok)
  let ?g = "sample_global\<lparr>gh_global_chunk_count := 1, gh_final_plaintext_chunk_len := 1, gh_padded_plaintext_size := 1\<rparr>"
  show "stdout_global_header tiny_written = Inr ?g" by code_simp
  show g: "global_arrays ?g" by (simp add: global_arrays_def sample_global_def)
  show "compute_shard_header_mac tiny_hmac (oo_header_authentication_key (sd_options tiny_written)) ?g (stdout_shard_header tiny_written)
      = Inr (replicate 32 0)"
    using g by (simp add: compute_shard_header_mac_def serialize_global_eq serialize_shard_for_mac_eq checked_int_size_def
        tiny_written_def tiny_stream_writer_def stdout_shard_header_def shard_arrays_def)
qed (simp_all add: tiny_written_def tiny_stream_writer_def)

lemma tiny_stream_short: "emits tiny_view (tiny_archive_writer False) outs a \<Longrightarrow> length (concat outs) < 2 ^ 64"
  using tiny_emits [of outs a] by auto

lemma tiny_encryption:
  "\<exists>ts w. run_encrypt sample_hkdf tiny_hmac 0 tiny_encrypt_options (Some tiny_backend) tiny_keys tiny_view ts
     (tiny_archive_writer False) (StreamWriter tiny_stream_writer) = Some (Inr (), w)"
proof -
  let ?code = "encrypt_code sample_hkdf tiny_hmac tiny_encrypt_options tiny_backend tiny_keys tiny_view"
  let ?src = "new_chunk_producer (tiny_archive_writer False) (StreamWriter tiny_stream_writer)"
  let ?snk = "StreamWriter tiny_stream_writer"
  have tag: "checked_tag_size tiny_backend = Inr 16"
    by (simp add: checked_tag_size_def tiny_backend_def XChaCha20Poly1305Backend_def)
  then have v: "validate_encrypt_pipeline_inputs tiny_encrypt_options tiny_backend tiny_keys = Inr ()"
    by (simp add: validate_encrypt_pipeline_inputs_def checked_chunk_size_def tiny_encrypt_options_def tiny_backend_def
        XChaCha20Poly1305Backend_def tiny_keys_def)
  obtain w where w: "stdout_finish tiny_hmac tiny_written = (Inr (), w)" using tiny_finish_stream by blast
  have "yields ?code ?src [tiny_job] tiny_producer"
    using yields_next [OF yields_none [of ?code ?src], of tiny_job tiny_producer] by (simp add: tag tiny_produces)
  then have "all_given ?code ?src [tiny_job]" by (auto simp: all_given_def tag tiny_produces intro!: exI [of _ tiny_producer])
  moreover have "results_of ?code [tiny_job] [tiny_frame]" by (simp add: results_of_def tiny_encrypts)
  moreover have "bindS (put_all ?code [tiny_frame]) (\<lambda>_. pc_end ?code) ?snk = (Inr (), StreamWriter w)"
    by (simp add: bindS_def write_cipher_chunk_def tiny_frame_def on_stream_writer_def tiny_write w returnS_def)
  ultimately have seq: "sequential_run ?code ?src ?snk [tiny_job] [tiny_frame] (StreamWriter w)" by (simp add: sequential_run_def)
  have idx: "indexed ?code ?src"
    by (rule encrypt_indexed) (use tiny_stream_short in \<open>auto simp: tiny_encrypt_options_def\<close>)
  from complete_schedule [OF seq idx resolve_worker_count_pos [of 0 1], of "resolve_queue_depth 0 (unat (resolve_worker_count 0 1))"]
  obtain ts s where "run_schedule ?code ts (start_encrypt 0 tiny_encrypt_options (tiny_archive_writer False) ?snk) = Some s"
    "all_done s" "pipeline_result s = Inr ()" "ps_snk s = StreamWriter w"
    unfolding start_encrypt_def Let_def by (fastforce simp: tiny_encrypt_options_def)
  then have "run_encrypt sample_hkdf tiny_hmac 0 tiny_encrypt_options (Some tiny_backend) tiny_keys tiny_view ts
     (tiny_archive_writer False) (StreamWriter tiny_stream_writer) = Some (Inr (), StreamWriter w)"
    by (simp only: run_encrypt_def v option.case sum.case if_True)
  then show ?thesis by blast
qed

lemma tiny_backend_roundtrip: "backend_roundtrip tiny_backend"
  unfolding tiny_backend_def by (rule xchacha_roundtrip) (simp add: sodium_aead_ok_def)

theorem encryption_covers_stream_witness:
  "\<exists>w' cs. bindS (write_all tiny_hmac cs) (\<lambda>_. any_finish tiny_hmac) (StreamWriter tiny_stream_writer) = (Inr (), w')
    \<and> frames_of_stream sample_hkdf tiny_encrypt_options tiny_backend tiny_keys [3] cs"
proof -
  obtain ts w where e: "run_encrypt sample_hkdf tiny_hmac 0 tiny_encrypt_options (Some tiny_backend) tiny_keys tiny_view ts
     (tiny_archive_writer False) (StreamWriter tiny_stream_writer) = Some (Inr (), w)" using tiny_encryption by blast
  obtain outs a' cs where o: "all_emitted tiny_view (tiny_archive_writer False) outs a'"
    "frames_of_stream sample_hkdf tiny_encrypt_options tiny_backend tiny_keys (concat outs) cs"
    "bindS (write_all tiny_hmac cs) (\<lambda>_. any_finish tiny_hmac) (StreamWriter tiny_stream_writer) = (Inr (), w)"
    using encryption_covers_stream [OF e] tiny_stream_short by blast
  have "outs = [[3]]" using o(1) tiny_emits by (fastforce simp: all_emitted_def tiny_records)
  then show ?thesis using o(2,3) by auto
qed

theorem decryption_inverts_encryption_witness:
  "\<exists>w' cs ps. bindS (write_all tiny_hmac cs) (\<lambda>_. any_finish tiny_hmac) (StreamWriter tiny_stream_writer) = (Inr (), w')
    \<and> concat ps = [3 :: byte]
    \<and> list_all2 (\<lambda>c p. \<exists>i. decrypt_cipher_chunk sample_hkdf tiny_decrypt_options tiny_backend tiny_keys
          (cipher_chunk (record_of_frame c)) = Inr \<lparr>pl_index = i, pl_bytes = p\<rparr>) cs ps"
proof -
  obtain ts w where e: "run_encrypt sample_hkdf tiny_hmac 0 tiny_encrypt_options (Some tiny_backend) tiny_keys tiny_view ts
     (tiny_archive_writer False) (StreamWriter tiny_stream_writer) = Some (Inr (), w)" using tiny_encryption by blast
  have s: "\<forall>shard. same_archive_options tiny_encrypt_options (tiny_decrypt_options\<lparr>dp_public_header_hash := []\<rparr>) shard"
    by (auto simp: same_archive_options_def tiny_encrypt_options_def tiny_decrypt_options_def word_less_nat_alt
      Decrypt_Pipeline.select_public_header_hash_def Encrypt_Pipeline.select_public_header_hash_def)
  then have s: "\<forall>shard. same_archive_options tiny_encrypt_options tiny_decrypt_options shard"
    by (simp add: tiny_decrypt_options_def)
  obtain outs a' cs ps where o: "all_emitted tiny_view (tiny_archive_writer False) outs a'"
    "bindS (write_all tiny_hmac cs) (\<lambda>_. any_finish tiny_hmac) (StreamWriter tiny_stream_writer) = (Inr (), w)"
    "length ps = length cs" "concat ps = concat outs"
    "\<forall>k<length cs. decrypt_cipher_chunk sample_hkdf tiny_decrypt_options tiny_backend tiny_keys (cipher_chunk (record_of_frame (cs ! k)))
         = Inr \<lparr>pl_index = of_nat k, pl_bytes = ps ! k\<rparr>"
    using decryption_inverts_encryption [OF e _ tiny_backend_roundtrip s] tiny_stream_short by blast
  have "outs = [[3]]" using o(1) tiny_emits by (fastforce simp: all_emitted_def tiny_records)
  then show ?thesis using o(2-5)
    by (intro exI [of _ w] exI [of _ cs] exI [of _ ps]) (auto simp: list_all2_conv_all_nth)
qed

end
