(* ===== verification/Stored_Stream.thy ===== *)
theory Stored_Stream
  imports Encrypt_Pipeline Core_Plan
begin

unbundle bit_operations_syntax

text \<open>
  Lemmas that join the writing side to the reading side.  The frames that an encryption writes to a
  \<open>StdoutShardWriter\<close>, behind headers that are the planned ones, are a file that \<open>read_shard_info\<close> and
  \<open>new_ShardReader\<close> accept and that holds the frames as its stored records; and a decryption of stored
  files whose records decrypt to the pieces of a stream gives the archive reader that stream,
  whatever the schedule of its threads, and ends for some schedule.
\<close>

subsection \<open>The payload of a stream\<close>

lemma pieces_shape:
  assumes "0 < n" "xs \<noteq> []"
  shows "pieces n xs \<noteq> [] \<and> (\<forall>k. Suc k < length (pieces n xs) \<longrightarrow> length (pieces n xs ! k) = n)
    \<and> 0 < length (last (pieces n xs)) \<and> length (last (pieces n xs)) \<le> n
    \<and> length xs = (length (pieces n xs) - 1) * n + length (last (pieces n xs))"
  using assms
proof (induction n xs rule: pieces.induct)
  case (1 n xs)
  show ?case
  proof (cases "drop n xs = []")
    case True
    then show ?thesis using 1(2,3) by (simp add: pieces_Cons)
  next
    case False
    then have IH: "pieces n (drop n xs) \<noteq> []"
      "\<forall>k. Suc k < length (pieces n (drop n xs)) \<longrightarrow> length (pieces n (drop n xs) ! k) = n"
      "0 < length (last (pieces n (drop n xs)))" "length (last (pieces n (drop n xs))) \<le> n"
      "length xs - n = (length (pieces n (drop n xs)) - 1) * n + length (last (pieces n (drop n xs)))"
      using 1 by auto
    have l: "n < length xs" using False by (simp add: not_le)
    obtain p ps where ps: "pieces n (drop n xs) = p # ps" using IH(1) by (cases "pieces n (drop n xs)") auto
    have full: "length (pieces n xs ! k) = n" if "Suc k < length (pieces n xs)" for k
    proof (cases k)
      case 0
      then show ?thesis using 1(2,3) l by (simp add: pieces_Cons)
    next
      case (Suc j)
      then show ?thesis using that IH(2) by (simp add: pieces_Cons [OF 1(3,2)])
    qed
    have all: "length xs = length (pieces n (drop n xs)) * n + length (last (pieces n (drop n xs)))"
    proof -
      have "length xs - n = length ps * n + length (last (pieces n (drop n xs)))" using IH(5) unfolding ps length_Cons diff_Suc_1 .
      moreover have "length (pieces n (drop n xs)) * n = length ps * n + n" unfolding ps length_Cons mult_Suc by (rule add.commute)
      ultimately show ?thesis using l by linarith
    qed
    have p: "pieces n xs = take n xs # pieces n (drop n xs)" by (rule pieces_Cons [OF 1(3,2)])
    then have "last (pieces n xs) = last (pieces n (drop n xs))" "length (pieces n xs) - 1 = length (pieces n (drop n xs))"
      using IH(1) by simp_all
    then show ?thesis using IH(3,4) full all p by (metis list.distinct(1))
  qed
qed

lemma mixed_radix_unique:
  fixes a b n l f :: nat
  assumes "a * n + l = b * n + f" "0 < l" "l \<le> n" "0 < f" "f \<le> n"
  shows "a = b \<and> l = f"
proof -
  obtain r q where r: "l = Suc r" "f = Suc q" "r < n" "q < n" using assms(2-5) by (cases l; cases f) auto
  have e: "r + a * n = q + b * n" using assms(1) r by simp
  have "a = (r + a * n) div n" "b = (q + b * n) div n" using r(3,4) by simp_all
  then have "a = b" by (simp only: e)
  then show ?thesis using e r by simp
qed

lemma frame_image_record_of_frame [simp]:
  "frame_image (record_of_frame c) = cj_frame_header_bytes c @ cj_ciphertext_and_tag c"
  by (simp add: frame_image_def record_of_frame_def)

text \<open>A frame that the stream writer has accepted.\<close>

definition accepted_frame :: "CipherChunk \<Rightarrow> bool" where
  "accepted_frame c \<longleftrightarrow> fh_shard_index (cj_frame_header c) = 0
     \<and> cj_frame_header_bytes c = frame_bytes (cj_frame_header c)
     \<and> (\<exists>n. chunk_frame_v1_encoded_size (cj_frame_header c) = Inr n
          \<and> of_nat (length (cj_ciphertext_and_tag c)) = n - 40)"

definition marks_end :: "u64 \<Rightarrow> CipherChunk \<Rightarrow> u64" where
  "marks_end l c = (if fh_frame_flags (cj_frame_header c) AND 1 \<noteq> 0 then ucast (fh_plaintext_len (cj_frame_header c)) else l)"

definition after_frames :: "CipherChunk list \<Rightarrow> StdoutShardWriter \<Rightarrow> StdoutShardWriter" where
  "after_frames cs w = w\<lparr>
     sd_buffer := sd_buffer w @ payload (map record_of_frame cs),
     sd_payload_offset := sd_payload_offset w + of_nat (length (payload (map record_of_frame cs))),
     sd_chunk_count := sd_chunk_count w + of_nat (length cs),
     sd_next_expected_chunk_index := sd_next_expected_chunk_index w + of_nat (length cs),
     sd_final_chunk_plaintext_len := foldl marks_end (sd_final_chunk_plaintext_len w) cs\<rparr>"

lemma stream_frame_written:
  assumes "write_cipher_chunk hmac c (StreamWriter w) = (Inr (), sw)"
  shows "accepted_frame c \<and> sw = StreamWriter (after_frames [c] w)"
proof -
  let ?h = "cj_frame_header c" and ?ct = "cj_ciphertext_and_tag c"
  obtain n where n: "stdout_write_checks w ?h (cj_frame_header_bytes c) ?ct = Inr n"
    and sw: "sw = StreamWriter (w\<lparr>
        sd_buffer := sd_buffer w @ cj_frame_header_bytes c @ ?ct,
        sd_payload_offset := sd_payload_offset w + n,
        sd_chunk_count := sd_chunk_count w + 1,
        sd_next_expected_chunk_index := sd_next_expected_chunk_index w + 1,
        sd_final_chunk_plaintext_len := marks_end (sd_final_chunk_plaintext_len w) c\<rparr>)"
    using assms by (auto simp: write_cipher_chunk_def bindS_Inr on_stream_writer_Inr stdout_write_chunk_frame_def
        op_defs marks_end_def)
  from n have a: "accepted_frame c" "chunk_frame_v1_encoded_size ?h = Inr n" "of_nat (length ?ct) = n - 40"
    by (auto simp: stdout_write_checks_def accepted_frame_def bindr_eq_Inr serialize_frame_Inr Let_def)
  have "n = 40 + of_nat (length ?ct)" using a(3) by simp
  then have "n = of_nat (length (payload [record_of_frame c]))"
    using a(1) by (simp add: payload_def accepted_frame_def)
  then show ?thesis using a(1) sw by (simp add: after_frames_def payload_def)
qed

lemma stream_frames_written:
  "write_all hmac cs (StreamWriter w) = (Inr (), sw) \<Longrightarrow>
     list_all accepted_frame cs \<and> sw = StreamWriter (after_frames cs w)"
proof (induction cs arbitrary: w)
  case Nil
  then show ?case by (simp add: returnS_def after_frames_def payload_def)
next
  case (Cons c cs)
  then obtain s1 where s1: "write_cipher_chunk hmac c (StreamWriter w) = (Inr (), s1)" "write_all hmac cs s1 = (Inr (), sw)"
    by (auto simp: bindS_Inr)
  note f = stream_frame_written [OF s1(1)]
  have "list_all accepted_frame cs \<and> sw = StreamWriter (after_frames cs (after_frames [c] w))"
    using Cons.IH s1(2) f by blast
  moreover have "after_frames cs (after_frames [c] w) = after_frames (c # cs) w"
    by (simp add: after_frames_def payload_def algebra_simps)
  ultimately show ?case using f by simp
qed

text \<open>The header of the frame of chunk \<open>k\<close> of \<open>m\<close>.\<close>

definition stream_frame :: "nat \<Rightarrow> nat \<Rightarrow> bytes \<Rightarrow> ChunkFrameHeaderV1" where
  "stream_frame m k p =
     \<lparr>fh_frame_flags = (if Suc k = m then 1 else 0), fh_shard_index = 0, fh_global_chunk_index = of_nat k,
      fh_plaintext_len = of_nat (length p), fh_ciphertext_len = of_nat (length p), fh_tag_len = 16\<rparr>"

lemma ucast_of_nat_u32: "(ucast (of_nat x :: u64) :: u32) = of_nat x"
  by (rule bit_word_eqI) (simp add: bit_simps)

lemma stream_frame_of_chunk:
  assumes "frame_of_chunk lib opts be keys k (Suc k = m) p c" "accepted_frame c" "cb_tag_size be = 16"
    "length p < 2 ^ 64" "length (cj_ciphertext_and_tag c) < 2 ^ 64"
  shows "cj_frame_header c = stream_frame m k p \<and> length p < 2 ^ 32 \<and> cj_index c = of_nat k
    \<and> cj_frame_header_bytes c = frame_bytes (stream_frame m k p)
    \<and> length (cj_ciphertext_and_tag c) = length p + 16"
proof -
  let ?h = "cj_frame_header c" and ?ct = "cj_ciphertext_and_tag c"
  have h: "frame_for (of_nat k) (of_nat (length p)) (of_nat (length p)) 16 (Suc k = m) ?h" and i: "cj_index c = of_nat k"
    using assms(1,3) by (simp_all add: frame_of_chunk_def)
  have short: "length p < 2 ^ 32" using h assms(4) by (simp add: frame_for_def unat_of_nat_u64)
  have "?h = stream_frame m k p"
    using h assms(2) unfolding frame_for_def stream_frame_def accepted_frame_def by (metis ucast_of_nat_u32)
  moreover obtain n where n: "chunk_frame_v1_encoded_size ?h = Inr n" "of_nat (length ?ct) = n - 40"
    using assms(2) by (auto simp: accepted_frame_def)
  ultimately have "unat n = 40 + length p + 16"
    using short by (auto simp: encoded_size_eq bindr_eq_Inr stream_frame_def unat_of_nat_u64 dest!: frame_size_unat)
  moreover have "n = of_nat (unat n)" by simp
  ultimately have "n = of_nat (40 + (length p + 16))" by (metis add.assoc)
  then have "(of_nat (length ?ct) :: u64) = of_nat (length p + 16)" using n(2) by simp
  then have "length ?ct = length p + 16"
    using assms(5) short unat_of_nat_u64 [of "length ?ct"] unat_of_nat_u64 [of "length p + 16"] by simp
  then show ?thesis using \<open>?h = stream_frame m k p\<close> short i assms(2) by (simp add: accepted_frame_def)
qed

lemma length_payload:
  "length (payload (map record_of_frame cs)) = (\<Sum>c\<leftarrow>cs. length (cj_frame_header_bytes c) + length (cj_ciphertext_and_tag c))"
  by (induction cs) (simp_all add: payload_def)

text \<open>The frames of a stream of more than zero bytes that the writer has accepted.\<close>

definition stream_frames_ok :: "nat \<Rightarrow> bytes \<Rightarrow> CipherChunk list \<Rightarrow> bool" where
  "stream_frames_ok n stream cs \<longleftrightarrow> length cs = length (pieces n stream)
     \<and> (\<forall>k<length cs. cj_frame_header (cs ! k) = stream_frame (length cs) k (pieces n stream ! k)
          \<and> cj_index (cs ! k) = of_nat k
          \<and> cj_frame_header_bytes (cs ! k) = frame_bytes (stream_frame (length cs) k (pieces n stream ! k))
          \<and> length (cj_ciphertext_and_tag (cs ! k)) = length (pieces n stream ! k) + 16)"

lemma frames_of_stream_ok:
  assumes "frames_of_stream lib opts be keys stream cs" "list_all accepted_frame cs" "cb_tag_size be = 16"
    "stream \<noteq> []" "length stream < 2 ^ 64" "length (payload (map record_of_frame cs)) < 2 ^ 64"
  shows "stream_frames_ok (unat (ep_chunk_plain_size opts)) stream cs \<and> (\<forall>p\<in>set (pieces (unat (ep_chunk_plain_size opts)) stream). length p < 2 ^ 32)"
proof -
  let ?n = "unat (ep_chunk_plain_size opts)" and ?m = "length cs"
  let ?ps = "pieces ?n stream"
  have f: "?m = length ?ps" "\<And>k. k < ?m \<Longrightarrow> frame_of_chunk lib opts be keys k (Suc k = ?m) (?ps ! k) (cs ! k)"
  proof -
    have "chunks_of ?n (ep_emit_final_chunk_when_empty opts) stream = ?ps" using assms(4) by (simp add: chunks_of_def)
    then show "?m = length ?ps" "\<And>k. k < ?m \<Longrightarrow> frame_of_chunk lib opts be keys k (Suc k = ?m) (?ps ! k) (cs ! k)"
      using assms(1) unfolding frames_of_stream_def Let_def by metis+
  qed
  have len: "length p \<le> length (concat ps)" if "p \<in> set ps" for p :: bytes and ps
    using that by (induction ps) auto
  have "length (?ps ! k) < 2 ^ 64" if "k < ?m" for k
  proof (cases "?n = 0")
    case True
    then have "?ps = [stream]" using assms(4) by (simp add: pieces.simps)
    then show ?thesis using that f(1) assms(5) by simp
  next
    case False
    then show ?thesis using len [of "?ps ! k" ?ps] that f(1) assms(5) by (simp add: concat_pieces)
  qed
  moreover have "length (cj_ciphertext_and_tag (cs ! k)) < 2 ^ 64" if "k < ?m" for k
  proof -
    have "length (cj_frame_header_bytes (cs ! k)) + length (cj_ciphertext_and_tag (cs ! k)) \<le> length (payload (map record_of_frame cs))"
      unfolding length_payload using that by (intro member_le_sum_list) simp_all
    then show ?thesis using assms(6) by simp
  qed
  moreover have "accepted_frame (cs ! k)" if "k < ?m" for k using assms(2) that by (simp add: list_all_length)
  ultimately have "cj_frame_header (cs ! k) = stream_frame ?m k (?ps ! k) \<and> length (?ps ! k) < 2 ^ 32 \<and> cj_index (cs ! k) = of_nat k
    \<and> cj_frame_header_bytes (cs ! k) = frame_bytes (stream_frame ?m k (?ps ! k))
    \<and> length (cj_ciphertext_and_tag (cs ! k)) = length (?ps ! k) + 16" if "k < ?m" for k
    using stream_frame_of_chunk [OF f(2) _ assms(3)] that by blast
  then show ?thesis using f(1) unfolding stream_frames_ok_def by (metis in_set_conv_nth)
qed

text \<open>The payload is as long as the plan says.\<close>

lemma stream_payload_length:
  assumes "stream_frames_ok n stream cs" "0 < n" "stream \<noteq> []"
  shows "length (payload (map record_of_frame cs))
     = sum (frame_len (length cs) n (length (last (pieces n stream))) 16) {0..<length cs}"
proof -
  let ?ps = "pieces n stream" and ?m = "length cs"
  have m: "?m = length ?ps" and ps: "?ps \<noteq> []"
    using assms pieces_shape [OF assms(2,3)] by (simp_all add: stream_frames_ok_def)
  have "length (cj_frame_header_bytes (cs ! k)) + length (cj_ciphertext_and_tag (cs ! k)) = frame_len ?m n (length (last ?ps)) 16 k"
    if "k < ?m" for k
  proof (cases "Suc k = ?m")
    case True
    then have "?ps ! k = last ?ps" using ps m by (metis diff_Suc_1 last_conv_nth)
    then show ?thesis using assms(1) that True by (auto simp: stream_frames_ok_def frame_len_def)
  next
    case False
    then have "length (?ps ! k) = n" using pieces_shape [OF assms(2,3)] that m by auto
    then show ?thesis using assms(1) that False by (auto simp: stream_frames_ok_def frame_len_def)
  qed
  then have "(\<Sum>k<?m. length (cj_frame_header_bytes (cs ! k)) + length (cj_ciphertext_and_tag (cs ! k)))
      = sum (frame_len ?m n (length (last ?ps)) 16) {0..<?m}"
    by (intro sum.cong) auto
  then show ?thesis by (simp add: length_payload sum_list_sum_nth atLeast0LessThan)
qed

text \<open>The headers of a completed stream are the planned ones.\<close>

definition planned_header :: "GlobalPublicHeaderV1 \<Rightarrow> bytes \<Rightarrow> bool" where
  "planned_header g stream \<longleftrightarrow> valid_global g \<and> gh_shard_count g = 1
     \<and> unat (gh_padded_plaintext_size g) = length stream
     \<and> length stream = (unat (gh_global_chunk_count g) - 1) * unat (gh_chunk_plain_size g) + unat (gh_final_plaintext_chunk_len g)"

definition fresh_stream :: "StdoutShardWriter \<Rightarrow> bool" where
  "fresh_stream w \<longleftrightarrow> sd_buffer w = replicate 272 0 \<and> sd_payload_offset w = 0
     \<and> sd_next_expected_chunk_index w = 0 \<and> sd_final_chunk_plaintext_len w = 0 \<and> \<not> sd_finished w"

lemma new_stream_fresh: "new_StdoutShardWriter opts (Some out) = Inr w \<Longrightarrow>
    fresh_stream w \<and> sd_options w = opts \<and> sd_out w = out \<and> length (oo_per_shard_public_header_hashes opts) = 1"
  by (auto simp: new_StdoutShardWriter_def validate_stdout_options_def bindr_eq_Inr fresh_stream_def Let_def)

lemma valid_global_sizes:
  assumes "valid_global g"
  shows "gh_global_chunk_count g \<noteq> 0" "gh_final_plaintext_chunk_len g \<noteq> 0" "gh_chunk_plain_size g \<noteq> 0"
    "gh_final_plaintext_chunk_len g \<le> gh_chunk_plain_size g" "global_arrays g"
    "gh_padded_plaintext_size g = (gh_global_chunk_count g - 1) * ucast (gh_chunk_plain_size g) + ucast (gh_final_plaintext_chunk_len g)"
  using assms by (auto simp: valid_global_def check_global_header_def bindr_eq_Inr)

lemma planned_layout:
  assumes "planned_header g stream" "stream_frames_ok (unat (gh_chunk_plain_size g)) stream cs"
  shows "unat (gh_global_chunk_count g) = length cs" "0 < length cs"
    "unat (gh_final_plaintext_chunk_len g) = length (last (pieces (unat (gh_chunk_plain_size g)) stream))"
proof -
  let ?n = "unat (gh_chunk_plain_size g)"
  have v: "valid_global g" using assms(1) by (simp add: planned_header_def)
  note s = valid_global_sizes [OF v]
  have n: "0 < ?n" "0 < unat (gh_final_plaintext_chunk_len g)" "0 < unat (gh_global_chunk_count g)"
    using s by (simp_all add: unat_gt_0)
  have le: "unat (gh_final_plaintext_chunk_len g) \<le> ?n" using s(4) by (simp add: word_le_nat_alt)
  have st: "stream \<noteq> []" using assms(1) n(2) by (auto simp: planned_header_def)
  note p = pieces_shape [OF n(1) st]
  have "(length (pieces ?n stream) - 1) * ?n + length (last (pieces ?n stream))
      = (unat (gh_global_chunk_count g) - 1) * ?n + unat (gh_final_plaintext_chunk_len g)"
    using p assms(1) by (simp add: planned_header_def)
  from mixed_radix_unique [OF this] p n le
  have "length (pieces ?n stream) - 1 = unat (gh_global_chunk_count g) - 1"
    "length (last (pieces ?n stream)) = unat (gh_final_plaintext_chunk_len g)" by blast+
  then show "unat (gh_global_chunk_count g) = length cs" "0 < length cs"
    "unat (gh_final_plaintext_chunk_len g) = length (last (pieces ?n stream))"
    using p n(3) assms(2) by (auto simp: stream_frames_ok_def simp flip: length_greater_0_conv)
qed

lemma ucast_u32_u64_u32 [simp]: "(ucast (ucast (x :: u32) :: u64) :: u32) = x"
  by (rule bit_word_eqI) (simp add: bit_simps)

lemma stream_headers:
  assumes "planned_header g stream" "stream_frames_ok (unat (gh_chunk_plain_size g)) stream cs"
    "fresh_stream w" "oo_global_header (sd_options w) = g"
  shows "stdout_global_header (after_frames cs w) = Inr g"
    "stdout_shard_header (after_frames cs w) =
       \<lparr>sh_shard_magic = kShardHeaderV1Magic, sh_shard_header_len = 80, sh_shard_index = 0,
        sh_first_global_chunk_index = 0, sh_shard_chunk_count = gh_global_chunk_count g,
        sh_shard_payload_len = of_nat (length (payload (map record_of_frame cs))),
        sh_header_mac = replicate 32 0, sh_reserved0 = 0\<rparr>"
proof -
  let ?n = "unat (gh_chunk_plain_size g)" and ?c = "gh_global_chunk_count g" and ?f = "gh_final_plaintext_chunk_len g"
  note L = planned_layout [OF assms(1,2)]
  have v: "valid_global g" using assms(1) by (simp add: planned_header_def)
  note s = valid_global_sizes [OF v]
  have cnt: "of_nat (length cs) = ?c" using L(1) by (metis of_nat_unat ucast_id)
  define k where "k = length cs - 1"
  have k: "k < length cs" "Suc k = length cs" using L(2) by (simp_all add: k_def)
  have lst: "pieces ?n stream ! k = last (pieces ?n stream)"
    using assms(2) L(2) by (simp add: stream_frames_ok_def k_def last_conv_nth flip: length_greater_0_conv)
  have hd: "cj_frame_header (last cs) = stream_frame (length cs) k (last (pieces ?n stream))"
    using assms(2) k lst L(2) by (simp add: stream_frames_ok_def k_def last_conv_nth flip: length_greater_0_conv)
  have "of_nat (length (last (pieces ?n stream))) = ?f" using L(3) by (metis of_nat_unat ucast_id)
  then have e: "marks_end l (last cs) = ucast ?f" for l
    using hd k(2) by (simp add: marks_end_def stream_frame_def)
  have ne: "cs \<noteq> []" using L(2) by auto
  have "foldl marks_end 0 cs = foldl marks_end 0 (butlast cs @ [last cs])" using ne by simp
  then have fin: "foldl marks_end 0 cs = ucast ?f" by (simp only: foldl_append foldl.simps e)
  have w1: "sd_next_expected_chunk_index (after_frames cs w) = ?c" "sd_final_chunk_plaintext_len (after_frames cs w) = ucast ?f"
    "sd_options (after_frames cs w) = sd_options w" "sd_payload_offset (after_frames cs w) = of_nat (length (payload (map record_of_frame cs)))"
    using assms(3) cnt fin by (simp_all add: after_frames_def fresh_stream_def)
  show "stdout_shard_header (after_frames cs w) =
       \<lparr>sh_shard_magic = kShardHeaderV1Magic, sh_shard_header_len = 80, sh_shard_index = 0,
        sh_first_global_chunk_index = 0, sh_shard_chunk_count = gh_global_chunk_count g,
        sh_shard_payload_len = of_nat (length (payload (map record_of_frame cs))),
        sh_header_mac = replicate 32 0, sh_reserved0 = 0\<rparr>"
    by (simp add: stdout_shard_header_def w1)
  have c1: "unat (?c - 1) = unat ?c - 1" using s(1) by (simp add: unat_minus_one)
  have len: "length stream < 2 ^ 64" using assms(1) unat_u64_lt [of "gh_padded_plaintext_size g"] by (simp add: planned_header_def)
  have u: "unat (ucast ?f :: u64) = unat ?f" "unat (ucast (gh_chunk_plain_size g) :: u64) = ?n" by simp_all
  have prod: "unat (?c - 1) * ?n + unat ?f < 2 ^ 64" using assms(1) len c1 by (simp add: planned_header_def)
  have pos: "?c > 0" "(ucast ?f :: u64) > 0" using s(1,2) u(1) by (simp_all add: word_neq_0_conv [symmetric] word_unat_eq_iff)
  have m: "checked_mul_u64 (?c - 1) (ucast (gh_chunk_plain_size g)) msg = Inr ((?c - 1) * ucast (gh_chunk_plain_size g))" for msg
    unfolding checked_mul_u64_Inr using prod u by simp
  have "unat ((?c - 1) * ucast (gh_chunk_plain_size g)) = unat (?c - 1) * ?n"
    by (subst unat_mult_no_overflow) (use prod u in simp_all)
  then have a: "checked_add_u64 ((?c - 1) * ucast (gh_chunk_plain_size g)) (ucast ?f) msg
      = Inr ((?c - 1) * ucast (gh_chunk_plain_size g) + ucast ?f)" for msg
    unfolding checked_add_u64_Inr using prod u by simp
  have "g\<lparr>gh_global_chunk_count := ?c, gh_shard_count := 1, gh_final_plaintext_chunk_len := ?f,
      gh_padded_plaintext_size := gh_padded_plaintext_size g\<rparr> = g"
    using assms(1) by (simp add: planned_header_def)
  then show "stdout_global_header (after_frames cs w) = Inr g"
    using pos s(6) assms(4) by (simp add: stdout_global_header_def w1 Let_def m a)
qed

subsection \<open>Decrypting a stored archive\<close>

text \<open>The producer of the decryption gives the records of unchanging files that hold an archive.\<close>

lemma stored_yields:
  assumes "reader_at r 0" "ranges_ok r" "stored files (sr_shards r) css" "stream_ok files css r"
    "\<forall>n<unat (sr_expected_total_chunk_count r). record_ok (sr_shards r) (sr_expected_total_chunk_count r) n (concat css ! n)"
    "length (concat css) = unat (sr_expected_total_chunk_count r)" "m \<le> length (concat css)"
  shows "\<exists>r' k. yields (decrypt_code lib opts be keys (\<lambda>_. files)) (r, 0) (map cipher_chunk (take m (concat css))) (r', k)
    \<and> reads r (take m (concat css)) r' \<and> stream_ok files css r'"
  using assms(7)
proof (induction m)
  case 0
  then show ?case using assms(4) by (auto intro: reads_none yields_none)
next
  case (Suc m)
  let ?code = "decrypt_code lib opts be keys (\<lambda>_. files)" and ?X = "concat css"
  obtain r1 k where r1: "yields ?code (r, 0) (map cipher_chunk (take m ?X)) (r1, k)" "reads r (take m ?X) r1" "stream_ok files css r1"
    using Suc by auto
  note R = reads_reader_at [OF r1(2) assms(1,2)]
  then have arch: "sr_shards r1 = sr_shards r" "sr_expected_total_chunk_count r1 = sr_expected_total_chunk_count r"
    "ranges_ok r1" "reader_at r1 m"
    using Suc.prems assms(2) by (simp_all add: same_archive_def ranges_ok_def min_def)
  obtain r2 where r2: "read_next_chunk_record files r1 = (Inr (Some (?X ! m)), r2)" "stream_ok files css r2"
    using read_next_stored [OF arch(4,3), of files css] r1(3) assms(3,5,6) Suc.prems arch(1,2) by auto
  have t: "take (Suc m) ?X = take m ?X @ [?X ! m]" using Suc.prems by (simp add: take_Suc_conv_app_nth)
  have "pc_next ?code (r1, k) = (Inr (Some (cipher_chunk (?X ! m))), (r2, k + 1))" using r2(1) by (simp add: next_cipher_chunk_def)
  from yields_next [OF r1(1) this] reads_next [OF r1(2) r2(1)] r2(2) show ?case unfolding t by auto
qed

lemma consume_pieces:
  assumes "bindS (consume (concat ps)) (\<lambda>_. m) r = (Inr x, r')" "ps \<noteq> []"
  shows "\<exists>r1. consume_all ps r = (Inr (), r1) \<and> m r1 = (Inr x, r')"
proof -
  obtain u r1 where c: "consume (concat ps) r = (Inr u, r1)" "m r1 = (Inr x, r')" using assms(1) by (auto simp: bindS_Inr)
  have "same_effect (consume_all ps r) (consume (concat ps) r)" by (rule consume_all_concat [OF assms(2)])
  then show ?thesis using c by (cases "consume_all ps r") (auto simp: same_effect_def)
qed

lemma put_all_of_consume:
  "consume_all (map pl_bytes rs) (pt_archive_reader c) = (Inr (), r1) \<Longrightarrow>
     put_all (decrypt_code lib opts be keys files) rs c = (Inr (), c\<lparr>pt_archive_reader := r1,
       pt_total_plaintext_bytes := pt_total_plaintext_bytes c + of_nat (length (concat (map pl_bytes rs)))\<rparr>)"
proof (induction rs arbitrary: c)
  case Nil
  then show ?case by (simp add: returnS_def)
next
  case (Cons p rs)
  then obtain r2 where r2: "consume (pl_bytes p) (pt_archive_reader c) = (Inr (), r2)" "consume_all (map pl_bytes rs) r2 = (Inr (), r1)"
    by (auto simp: bindS_Inr)
  let ?c = "c\<lparr>pt_archive_reader := r2, pt_total_plaintext_bytes := pt_total_plaintext_bytes c + of_nat (length (pl_bytes p))\<rparr>"
  have "put_all (decrypt_code lib opts be keys files) rs ?c = (Inr (), ?c\<lparr>pt_archive_reader := r1,
       pt_total_plaintext_bytes := pt_total_plaintext_bytes ?c + of_nat (length (concat (map pl_bytes rs)))\<rparr>)"
    by (rule Cons.IH) (simp add: r2(2))
  then show ?case using r2(1) by (simp add: bindS_def consume_plain_chunk_eq algebra_simps)
qed

text \<open>
  The archive of the files as one stream: the plaintexts of its records, if every record is decrypted
  to the plaintext with its number.
\<close>

definition archive_decrypts ::
  "hkdf_lib \<Rightarrow> DecryptPipelineOptions \<Rightarrow> CryptoBackend \<Rightarrow> ExpandedKeys \<Rightarrow> ChunkRecord list \<Rightarrow> bytes list \<Rightarrow> bool" where
  "archive_decrypts lib opts be keys recs ps \<longleftrightarrow> length ps = length recs
     \<and> (\<forall>n<length recs. decrypt_cipher_chunk lib opts be keys (cipher_chunk (recs ! n)) = Inr \<lparr>pl_index = of_nat n, pl_bytes = ps ! n\<rparr>)
     \<and> (dp_padded_plaintext_size opts \<noteq> 0 \<longrightarrow> of_nat (length (concat ps)) = dp_padded_plaintext_size opts)"

lemma stored_archive_decrypts:
  assumes "new_ShardReader hmac shards key v = Inr sr" "stored files (sr_shards sr) css"
    "\<forall>n<length (concat css). record_ok (sr_shards sr) (gh_global_chunk_count (si_global_header (hd shards))) n (concat css ! n)"
    "archive_decrypts lib opts be keys (concat css) ps" "ps \<noteq> []"
    "bindS (consume (concat ps)) (\<lambda>_. finish) xr = (Inr (), xr')"
  shows "\<exists>js rs. sequential_run (decrypt_code lib opts be keys (\<lambda>_. files)) (sr, 0)
      \<lparr>pt_archive_reader = xr, pt_total_plaintext_bytes = 0\<rparr> js rs
      \<lparr>pt_archive_reader = xr', pt_total_plaintext_bytes = of_nat (length (concat ps))\<rparr>
    \<and> indexed (decrypt_code lib opts be keys (\<lambda>_. files)) (sr, 0)"
proof -
  let ?code = "decrypt_code lib opts be keys (\<lambda>_. files)" and ?X = "concat css"
  let ?t = "sr_expected_total_chunk_count sr"
  note n = new_ShardReader_Inr [OF assms(1)]
  have l: "length ?X = unat ?t"
    using stored_length [OF assms(2) [unfolded stored_def]] n by (simp add: ranges_ok_def)
  have t: "gh_global_chunk_count (si_global_header (hd shards)) = ?t" using n by simp
  have "sr_current_stream sr = None"
    using assms(1) by (auto simp: new_ShardReader_def bindr_eq_Inr throw_if_eq_Inr new_reader_def)
  then have s: "stream_ok files css sr" by (simp add: stream_ok_def)
  have start: "reader_at sr 0" "ranges_ok sr" using n by simp_all
  obtain r' k where r': "yields ?code (sr, 0) (map cipher_chunk ?X) (r', k)" "reads sr ?X r'" "stream_ok files css r'"
    using stored_yields [OF start assms(2) s, of "length ?X" lib opts be keys] assms(3) l t by auto
  have "sr_shards r' = sr_shards sr" "sr_expected_total_chunk_count r' = ?t" "ranges_ok r'" "reader_at r' (unat ?t)"
    using reads_reader_at [OF r'(2) start] start(2) l by (simp_all add: same_archive_def ranges_ok_def)
  then obtain r'' where "read_next_chunk_record files r' = (Inr None, r'')"
    using read_end_stored [of r' files css] r'(3) assms(2) by auto
  then have "fst (pc_next ?code (r', k)) = Inr None" by (simp add: next_cipher_chunk_def)
  then have g: "all_given ?code (sr, 0) (map cipher_chunk ?X)" using r'(1) by (auto simp: all_given_def)
  define rs where "rs = map (\<lambda>n. \<lparr>pl_index = of_nat n, pl_bytes = ps ! n\<rparr>) [0..<length ?X]"
  have len: "length ps = length ?X" using assms(4) by (simp add: archive_decrypts_def)
  have ps: "map pl_bytes rs = ps" using len unfolding rs_def by (intro nth_equalityI) simp_all
  have r: "results_of ?code (map cipher_chunk ?X) rs" using assms(4) by (simp add: archive_decrypts_def results_of_def rs_def)
  obtain r1 where r1: "consume_all ps xr = (Inr (), r1)" "finish r1 = (Inr (), xr')"
    using consume_pieces [OF assms(6,5)] by blast
  let ?c = "\<lparr>pt_archive_reader = xr, pt_total_plaintext_bytes = 0\<rparr>"
  have "put_all ?code rs ?c = (Inr (), \<lparr>pt_archive_reader = r1, pt_total_plaintext_bytes = of_nat (length (concat ps))\<rparr>)"
    using put_all_of_consume [of rs ?c r1 lib opts be keys "\<lambda>_. files"] r1(1) by (simp add: ps)
  then have "bindS (put_all ?code rs) (\<lambda>_. pc_end ?code) ?c
      = (Inr (), \<lparr>pt_archive_reader = xr', pt_total_plaintext_bytes = of_nat (length (concat ps))\<rparr>)"
    using assms(4) r1(2) by (auto simp: bindS_def finish_plaintext_eq archive_decrypts_def)
  moreover have "length rs = length (map cipher_chunk ?X)" by (simp add: rs_def)
  ultimately have "sequential_run ?code (sr, 0) ?c (map cipher_chunk ?X) rs
      \<lparr>pt_archive_reader = xr', pt_total_plaintext_bytes = of_nat (length (concat ps))\<rparr>"
    using g r by (simp only: sequential_run_def simp_thms)
  then show ?thesis using decrypt_indexed [OF start] by blast
qed

lemma run_decrypt_stored:
  assumes "new_ShardReader hmac shards key v = Inr sr" "stored files (sr_shards sr) css"
    "\<forall>n<length (concat css). record_ok (sr_shards sr) (gh_global_chunk_count (si_global_header (hd shards))) n (concat css ! n)"
    "archive_decrypts lib opts be keys (concat css) ps" "ps \<noteq> []"
    "bindS (consume (concat ps)) (\<lambda>_. finish) xr = (Inr (), xr')"
    "validate_decrypt_pipeline_inputs opts be keys = Inr ()"
    "run_decrypt lib hw opts (Some be) keys (\<lambda>_. files) schedule sr xr = Some (res, xr'')"
  shows "res = Inr () \<and> xr'' = xr'"
proof -
  let ?code = "decrypt_code lib opts be keys (\<lambda>_. files)"
  obtain s where s: "run_schedule ?code schedule (start_decrypt hw opts sr xr) = Some s" "all_done s"
    "res = pipeline_result s" "xr'' = pt_archive_reader (ps_snk s)"
    using assms(7,8) by (auto simp: run_decrypt_def split: option.splits if_splits)
  from stored_archive_decrypts [OF assms(1-6)] obtain js rs where
    q: "sequential_run ?code (sr, 0) \<lparr>pt_archive_reader = xr, pt_total_plaintext_bytes = 0\<rparr> js rs
      \<lparr>pt_archive_reader = xr', pt_total_plaintext_bytes = of_nat (length (concat ps))\<rparr>" and i: "indexed ?code (sr, 0)"
    by blast
  show ?thesis using schedules_agree [OF s(1) [unfolded start_decrypt_def Let_def] q i resolve_worker_count_pos s(2)] s(3,4) by simp
qed

subsection \<open>The bytes of a stream as an archive\<close>

definition stream_shard :: "GlobalPublicHeaderV1 \<Rightarrow> bytes \<Rightarrow> bytes \<Rightarrow> ShardPublicHeaderV1" where
  "stream_shard g pay mac =
     \<lparr>sh_shard_magic = kShardHeaderV1Magic, sh_shard_header_len = 80, sh_shard_index = 0,
      sh_first_global_chunk_index = 0, sh_shard_chunk_count = gh_global_chunk_count g,
      sh_shard_payload_len = of_nat (length pay), sh_header_mac = mac, sh_reserved0 = 0\<rparr>"

lemma stream_shard_sel [simp]:
  "sh_shard_index (stream_shard g pay mac) = 0" "sh_first_global_chunk_index (stream_shard g pay mac) = 0"
  "sh_shard_chunk_count (stream_shard g pay mac) = gh_global_chunk_count g"
  "sh_shard_payload_len (stream_shard g pay mac) = of_nat (length pay)" "sh_header_mac (stream_shard g pay mac) = mac"
  by (simp_all add: stream_shard_def)

lemma stream_shard_arrays: "length mac = 32 \<Longrightarrow> shard_arrays (stream_shard g pay mac)"
  by (simp add: shard_arrays_def stream_shard_def)

lemma stdout_header_arrays:
  "stdout_global_header w = Inr g \<Longrightarrow> global_arrays g \<longleftrightarrow> global_arrays (oo_global_header (sd_options w))"
  by (auto simp: stdout_global_header_def Let_def bindr_eq_Inr global_arrays_def split: if_splits)

lemma stream_image:
  assumes "frames_of_stream lib opts be keys stream cs" "cb_tag_size be = 16"
    "bindS (write_all hmac cs) (\<lambda>_. any_finish hmac) (StreamWriter w) = (Inr (), StreamWriter w')"
    "fresh_stream w" "planned_header (oo_global_header (sd_options w)) stream"
    "ep_chunk_plain_size opts = ucast (gh_chunk_plain_size (oo_global_header (sd_options w)))"
    "length (os_written (sd_out w')) < 2 ^ 63"
  defines "g \<equiv> oo_global_header (sd_options w)" and "pay \<equiv> payload (map record_of_frame cs)"
  shows "\<exists>mac. os_written (sd_out w') = os_written (sd_out w) @ global_bytes g @ shard_bytes (stream_shard g pay mac) @ pay
    \<and> length mac = 32 \<and> verify_shard_header_mac hmac (oo_header_authentication_key (sd_options w)) g (stream_shard g pay mac) = Inr True
    \<and> oo_header_authentication_key (sd_options w) \<noteq> []
    \<and> stream_frames_ok (unat (gh_chunk_plain_size g)) stream cs \<and> 272 + length pay < 2 ^ 63 \<and> sd_finished w'"
proof -
  let ?w = "after_frames cs w" and ?key = "oo_header_authentication_key (sd_options w)"
  obtain s1 where s1: "write_all hmac cs (StreamWriter w) = (Inr (), s1)" "any_finish hmac s1 = (Inr (), StreamWriter w')"
    using assms(3) by (auto simp: bindS_Inr)
  from stream_frames_written [OF s1(1)] have acc: "list_all accepted_frame cs" and "s1 = StreamWriter ?w" by auto
  then have fin: "stdout_finish hmac ?w = (Inr (), w')" using s1(2) by (simp add: on_stream_writer_Inr)
  have keep: "sd_options ?w = sd_options w" "sd_out ?w = sd_out w" "\<not> sd_finished ?w" "sd_buffer ?w = replicate 272 0 @ pay"
    using assms(4) by (simp_all add: after_frames_def fresh_stream_def pay_def)
  have v: "valid_global g" and len: "length stream < 2 ^ 64"
    using assms(5) unat_u64_lt [of "gh_padded_plaintext_size g"] by (simp_all add: g_def planned_header_def)
  have "0 < unat (gh_final_plaintext_chunk_len g)" using valid_global_sizes(2) [OF v] by (simp add: unat_gt_0)
  then have st: "stream \<noteq> []" using assms(5) by (auto simp: g_def planned_header_def)
  obtain g1 where g1: "stdout_global_header ?w = Inr g1"
    using fin keep(3) by (auto simp: stdout_finish_def getS_def bindS_Inr liftS_def)
  have arr: "global_arrays g1" using stdout_header_arrays [OF g1] valid_global_sizes(5) [OF v] keep(1) by (simp add: g_def)
  obtain mac where mac: "compute_shard_header_mac hmac ?key g1 (stdout_shard_header ?w) = Inr mac"
    "os_written (sd_out w') = os_written (sd_out w) @ shard_image g1 mac ?w" "sd_finished w'"
    using stdout_finish_Inr [OF fin keep(3) g1 arr] keep(1,2) by metis
  have l: "length mac = 32" by (rule shard_header_mac_length [OF mac(1)])
  have img: "shard_image g1 mac ?w = global_bytes g1 @ shard_bytes (completed_shard mac ?w) @ pay"
    by (simp add: shard_image_def keep(4))
  then have small: "272 + length pay < 2 ^ 63"
    using assms(7) mac(2) length_global_bytes [OF arr] length_shard_bytes [OF completed_shard_arrays [OF l, of ?w]] by simp
  have n: "unat (ep_chunk_plain_size opts) = unat (gh_chunk_plain_size g)" using assms(6) by (simp add: g_def)
  have ok: "stream_frames_ok (unat (gh_chunk_plain_size g)) stream cs"
    using frames_of_stream_ok [OF assms(1) acc assms(2) st len] small by (simp add: n pay_def)
  note H = stream_headers [OF assms(5) ok [unfolded g_def] assms(4) refl]
  then have "g1 = g" using g1 by (simp add: g_def)
  moreover have "completed_shard mac ?w = stream_shard g pay mac"
    by (simp add: completed_shard_def H(2) stream_shard_def g_def pay_def)
  moreover have "compute_shard_header_mac hmac ?key g (stream_shard g pay mac) = Inr mac"
    using mac(1) shard_header_mac_ignores_mac [of hmac ?key g mac "stdout_shard_header ?w"] \<open>g1 = g\<close>
      \<open>completed_shard mac ?w = stream_shard g pay mac\<close> by (simp add: completed_shard_def)
  moreover have "?key \<noteq> []" using mac(1) by (auto simp: compute_shard_header_mac_def)
  ultimately show ?thesis using mac l img small ok
    by (intro exI [of _ mac]) (simp add: verify_shard_header_mac_def stream_shard_def)
qed

definition stream_info :: "(bytes \<Rightarrow> bytes) \<Rightarrow> path \<Rightarrow> GlobalPublicHeaderV1 \<Rightarrow> bytes \<Rightarrow> bytes \<Rightarrow> ShardInfo" where
  "stream_info blake3 p g pay mac =
     \<lparr>si_path = p, si_global_header = g, si_shard_header = stream_shard g pay mac,
      si_public_header_hash = blake3 (kPublicHeaderHashDomain @ auth_input g (stream_shard g pay mac)),
      si_file_size = of_nat (272 + length pay)\<rparr>"

lemma read_stream_info:
  assumes "files p = Some (global_bytes g @ shard_bytes (stream_shard g pay mac) @ pay)" "length mac = 32"
    "valid_global g" "gh_shard_count g = 1" "0 < length pay" "272 + length pay < 2 ^ 63"
  shows "read_shard_info blake3 files p = Inr (stream_info blake3 p g pay mac)"
proof -
  let ?s = "stream_shard g pay mac" and ?c = "global_bytes g @ shard_bytes (stream_shard g pay mac) @ pay"
  have arr: "global_arrays g" "gh_magic g = kGlobalHeaderV1Magic" "check_global_header g = Inr ()"
    using assms(3) by (simp_all add: valid_global_def)
  note sarr = stream_shard_arrays [OF assms(2), of g pay]
  have len: "length (global_bytes g) = 192" "length (shard_bytes ?s) = 80"
    using length_global_bytes [OF arr(1)] length_shard_bytes [OF sarr] .
  have r1: "read_exact (?c, 0) 192 msg = Inr (global_bytes g, (?c, 192))" for msg
    using len by (simp add: read_exact_def)
  have r2: "read_exact (?c, 192) 80 msg = Inr (shard_bytes ?s, (?c, 272))" for msg
    using len by (simp add: read_exact_def)
  have p1: "parse_global_public_header (global_bytes g) = Inr g" using parse_global_append [OF arr, of "[]"] by simp
  have cnt: "gh_global_chunk_count g \<noteq> 0" using valid_global_sizes [OF assms(3)] by simp
  have "(of_nat (length pay) :: u64) \<noteq> 0" using assms(5,6) by (simp add: word_unat_eq_iff unat_of_nat_u64)
  then have p2: "parse_shard_public_header (shard_bytes ?s) = Inr ?s"
    using parse_shard_append [OF sarr, of "[]"] cnt by (simp add: stream_shard_def check_shard_header_iff)
  have hash: "compute_public_header_hash blake3 g ?s = Inr (blake3 (kPublicHeaderHashDomain @ auth_input g ?s))"
    by (rule public_header_hash_eq [OF arr(1) sarr])
  show ?thesis
    using len by (simp add: read_shard_info_def assms(1,4) r1 r2 p1 p2 hash stream_info_def Let_def)
qed

definition stream_validation :: "GlobalPublicHeaderV1 \<Rightarrow> ShardReaderValidation" where
  "stream_validation g = \<lparr>rv_suite_id = Some (gh_aead_alg_id g), rv_archive_id = Some (gh_archive_id g),
     rv_chunk_plain_size = Some (ucast (gh_chunk_plain_size g)), rv_public_header_hash = None\<rparr>"

lemma stream_info_sel [simp]:
  "shard_index (stream_info blake3 p g pay mac) = 0" "first_chunk_index (stream_info blake3 p g pay mac) = 0"
  "chunk_count (stream_info blake3 p g pay mac) = gh_global_chunk_count g"
  "shard_payload_len (stream_info blake3 p g pay mac) = of_nat (length pay)"
  "si_global_header (stream_info blake3 p g pay mac) = g"
  "si_shard_header (stream_info blake3 p g pay mac) = stream_shard g pay mac"
  "si_path (stream_info blake3 p g pay mac) = p"
  by (simp_all add: stream_info_def shard_index_def first_chunk_index_def chunk_count_def shard_payload_len_def)

lemma stream_reader:
  assumes "valid_global g" "gh_shard_count g = 1" "length key = 32" "\<not> all_zero key"
    "verify_shard_header_mac hmac key g (stream_shard g pay mac) = Inr True"
  shows "new_ShardReader hmac [stream_info blake3 p g pay mac] key (stream_validation g)
     = Inr (new_reader (stream_validation g) key ([stream_info blake3 p g pay mac], gh_global_chunk_count g))"
proof -
  let ?si = "stream_info blake3 p g pay mac"
  have g: "serialize_global_public_header g = Inr (global_bytes g)"
    using assms(1) serialize_global_eq by (simp add: valid_global_def)
  have "check_shard hmac key (stream_validation g) (Suc 0) (global_bytes g) {} ?si = Inr ()"
    using assms(3,5) by (auto simp: check_shard_def g stream_validation_def)
  moreover have "check_ranges 0 [?si] = Inr (gh_global_chunk_count g)"
    using unat_u64_lt [of "gh_global_chunk_count g"] by (simp add: checked_range_end_def throw_if_def)
  ultimately show ?thesis using assms(2-4)
    by (simp add: new_ShardReader_def validate_shards_def g Let_def)
qed

lemma stream_stored:
  assumes "planned_header g stream" "stream_frames_ok (unat (gh_chunk_plain_size g)) stream cs"
    "files p = Some (global_bytes g @ shard_bytes (stream_shard g (payload (map record_of_frame cs)) mac) @ payload (map record_of_frame cs))"
    "length mac = 32" "272 + length (payload (map record_of_frame cs)) < 2 ^ 63"
  shows "stored files [stream_info blake3 p g (payload (map record_of_frame cs)) mac] [map record_of_frame cs]"
proof -
  let ?pay = "payload (map record_of_frame cs)"
  have "length (global_bytes g @ shard_bytes (stream_shard g ?pay mac)) = 272"
    using assms(1) length_global_bytes [of g] length_shard_bytes [OF stream_shard_arrays [OF assms(4), of g ?pay]]
    by (simp add: planned_header_def valid_global_def)
  moreover have "unat (of_nat (length ?pay) :: u64) = length ?pay" using assms(5) by (simp add: unat_of_nat_u64)
  moreover have "unat (gh_global_chunk_count g) = length cs" by (rule planned_layout(1) [OF assms(1,2)])
  ultimately show ?thesis
    using assms(3,5) by (auto simp: stored_def stored_shard_def simp del: length_append
        intro!: exI [of _ "global_bytes g @ shard_bytes (stream_shard g ?pay mac)"])
qed

lemma stream_records_ok:
  assumes "planned_header g stream" "stream_frames_ok (unat (gh_chunk_plain_size g)) stream cs" "k < length cs"
  shows "record_ok [stream_info blake3 p g pay mac] (gh_global_chunk_count g) k (record_of_frame (cs ! k))"
proof -
  let ?n = "unat (gh_chunk_plain_size g)" and ?p = "pieces (unat (gh_chunk_plain_size g)) stream ! k"
  note L = planned_layout [OF assms(1,2)]
  have v: "valid_global g" using assms(1) by (simp add: planned_header_def)
  have n: "0 < ?n" "0 < unat (gh_final_plaintext_chunk_len g)" using valid_global_sizes(2,3) [OF v] by (simp_all add: unat_gt_0)
  have st: "stream \<noteq> []" using assms(1) n(2) by (auto simp: planned_header_def)
  have m: "length cs = length (pieces ?n stream)" using assms(2) by (simp add: stream_frames_ok_def)
  note s = pieces_shape [OF n(1) st]
  have plen: "length ?p \<le> ?n" "Suc k < length cs \<Longrightarrow> length ?p = ?n"
  proof -
    show eq: "length ?p = ?n" if "Suc k < length cs" using s that m by simp
    have "?p = last (pieces ?n stream)" if "\<not> Suc k < length cs"
    proof -
      have "k = length (pieces ?n stream) - 1" using that assms(3) m by simp
      then show ?thesis using s by (simp add: last_conv_nth)
    qed
    then show "length ?p \<le> ?n" using s eq by (cases "Suc k < length cs") auto
  qed
  have lt: "length ?p < 2 ^ 32" using plen(1) unat_u32_lt [of "gh_chunk_plain_size g"] by linarith
  have u: "unat (ucast (of_nat (length ?p) :: u32) :: u64) = length ?p" using lt by (simp add: unat_of_nat_u32)
  then have w: "(ucast (of_nat (length ?p) :: u32) :: u64) = of_nat (length ?p)"
    using lt by (simp add: word_unat_eq_iff unat_of_nat_u64)
  have b: "(of_nat (length ?p) :: u64) \<le> ucast (gh_chunk_plain_size g)"
    using plen(1) lt by (simp add: word_le_nat_alt unat_of_nat_u64)
  have full: "(of_nat (length ?p) :: u64) = ucast (gh_chunk_plain_size g)" if "Suc k < length cs"
    using plen(2) [OF that] lt by (simp add: word_unat_eq_iff unat_of_nat_u64)
  have c: "cj_frame_header (cs ! k) = stream_frame (length cs) k ?p" "cj_index (cs ! k) = of_nat k"
    "cj_frame_header_bytes (cs ! k) = frame_bytes (stream_frame (length cs) k ?p)"
    "length (cj_ciphertext_and_tag (cs ! k)) = length ?p + 16"
    using assms(2,3) by (simp_all add: stream_frames_ok_def)
  have u64: "unat (of_nat (length ?p) :: u64) = length ?p" using lt by (simp add: unat_of_nat_u64)
  show ?thesis unfolding record_ok_def record_of_frame_def c
    using assms(3) L(1) b full u64 by (simp add: stream_frame_def chunks_before_def w ucast_of_nat_u32 c(4))
qed

lemma stream_archive_decrypts:
  assumes "frames_of_stream lib eopts be keys stream cs" "backend_roundtrip be" "0 < ep_chunk_plain_size eopts"
    "stream_frames_ok n stream cs" "same_archive_options eopts dopts 0"
    "dp_padded_plaintext_size dopts = of_nat (length stream)"
  shows "\<exists>ps. archive_decrypts lib dopts be keys (map record_of_frame cs) ps \<and> concat ps = stream"
proof -
  have "fh_shard_index (cj_frame_header c) = 0" if "c \<in> set cs" for c
    using that assms(4) by (auto simp: stream_frames_ok_def in_set_conv_nth stream_frame_def)
  then obtain ps where "length ps = length cs" "concat ps = stream"
    "\<forall>k<length cs. decrypt_cipher_chunk lib dopts be keys (cipher_chunk (record_of_frame (cs ! k))) = Inr \<lparr>pl_index = of_nat k, pl_bytes = ps ! k\<rparr>"
    using stream_decrypts [OF assms(1-3), of dopts] assms(5) by auto
  then show ?thesis using assms(6) by (intro exI [of _ ps]) (simp add: archive_decrypts_def)
qed

end
