(* ===== verification/Core_Api.thy ===== *)
theory Core_Api
  imports Encrypt_Pipeline Core_Plan
begin

text \<open>
  The rest of \<^verbatim>\<open>src/app/CoreApi.cpp\<close>: \<open>core_encrypt\<close> and \<open>core_decrypt\<close>, which put the components
  together, and \<^verbatim>\<open>src/platform/ProcessMemoryLock.cpp\<close>.  What a call meets outside of the program (the
  answer of \<open>mlockall\<close>, random bytes, files, the schedule of the threads, the libraries) is a record
  that is passed to it.  The callbacks and the standard error stream are a list of events, oldest
  first; a callback that is not set gets none.
\<close>

subsection \<open>Locking the memory of the process\<close>

datatype ProcessMemoryLockResult = LockSuccess | LockPermissionDenied | LockUnsupported

fun process_memory_lock_result_message :: "ProcessMemoryLockResult \<Rightarrow> string" where
  "process_memory_lock_result_message LockSuccess = ''process memory locked''"
| "process_memory_lock_result_message LockPermissionDenied =
     ''mlockall failed: permission denied '' @ [CHR 0xE2, CHR 0x80, CHR 0x94]
     @ '' RLIMIT_MEMLOCK may be too low (check `ulimit -l`); raise it in /etc/security/limits.conf or run with CAP_IPC_LOCK''"
| "process_memory_lock_result_message LockUnsupported = ''mlockall is not supported on this platform''"

datatype ProgressPhase = Validating | KdfPhase | Planning | Encrypting | Decrypting | PhaseDone

datatype core_event = StandardError string | WarningEvent string | ProgressEvent ProgressPhase u64 u32

definition emit :: "core_event \<Rightarrow> (core_event list, unit) op" where
  "emit e = modifyS (\<lambda>es. es @ [e])"

definition enforce_memory_lock_policy :: "bool \<Rightarrow> bool \<Rightarrow> ProcessMemoryLockResult \<Rightarrow> (core_event list, unit) op" where
  "enforce_memory_lock_policy lock_memory require_lock_memory lock_result =
    (if \<not> lock_memory then returnS ()
     else if lock_result = LockSuccess then returnS ()
     else if require_lock_memory
       then throwS (Error (''--require-lock-memory: '' @ process_memory_lock_result_message lock_result))
     else emit (StandardError (''bseal: warning: --lock-memory: '' @ process_memory_lock_result_message lock_result @ [CHR 0x0A])))"

definition fire_progress :: "bool \<Rightarrow> ProgressPhase \<Rightarrow> u64 \<Rightarrow> u32 \<Rightarrow> (core_event list, unit) op" where
  "fire_progress on_progress phase total_bytes total_shards =
     (if on_progress then emit (ProgressEvent phase total_bytes total_shards) else returnS ())"

definition warn :: "bool \<Rightarrow> string \<Rightarrow> (core_event list, unit) op" where
  "warn on_warning message = (if on_warning then emit (WarningEvent (message @ [CHR 0x0A])) else returnS ())"

subsection \<open>Keys and contexts\<close>

fun make_backend :: "sodium_lib \<Rightarrow> evp_gcm_lib \<Rightarrow> CipherSuite \<Rightarrow> CryptoBackend result" where
  "make_backend sodium gcm XChaCha20Poly1305 = Inr (XChaCha20Poly1305Backend sodium)"
| "make_backend sodium gcm Aes256Gcm = AesGcmBackend gcm"

definition derive_expanded_keys :: "kdf_libs \<Rightarrow> ArchiveOpenContext \<Rightarrow> bytes \<Rightarrow> path list \<Rightarrow> ExpandedKeys result" where
  "derive_expanded_keys libs context passphrase keyfiles =
    bindr (derive_master_seed libs
      \<lparr>ki_passphrase = passphrase, ki_keyfiles = keyfiles, ki_salt = ac_kdf_salt context,
       ki_archive_id = ac_archive_id context, ki_params = ac_kdf_params context\<rparr>) (\<lambda>master_seed.
    expand_keys (kl_hkdf libs) master_seed (ac_suite context))"

definition make_decrypt_context_from_shards :: "ShardInfo list \<Rightarrow> ArchiveOpenContext result" where
  "make_decrypt_context_from_shards shards =
    (case find (\<lambda>s. shard_index s = 0) shards of
       None \<Rightarrow> Inl (InvalidArgument ''missing shard_index 0; cannot open archive global header'')
     | Some first \<Rightarrow>
       let gh = si_global_header first in
       bindr (suite_from_aead_alg_id (gh_aead_alg_id gh)) (\<lambda>suite.
       let kdf_params = \<lparr>kp_preset = Custom, kp_memory_kib = gh_argon2_memory_kib gh,
             kp_iterations = gh_argon2_iterations gh, kp_parallelism = gh_argon2_parallelism gh,
             kp_output_bytes = kArgon2OutputBytesDefault\<rparr> in
       bindr (validate_kdf_params kdf_params) (\<lambda>_.
       Inr \<lparr>ac_suite = suite, ac_kdf_params = kdf_params, ac_kdf_salt = gh_kdf_salt gh,
            ac_archive_id = gh_archive_id gh, ac_chunk_plain_size = ucast (gh_chunk_plain_size gh),
            ac_global_header = gh\<rparr>)))"

fun verify_all_shard_header_macs ::
  "(bytes \<Rightarrow> bytes \<Rightarrow> bytes option) \<Rightarrow> ShardInfo list \<Rightarrow> bytes \<Rightarrow> unit result" where
  "verify_all_shard_header_macs hmac [] key = Inr ()"
| "verify_all_shard_header_macs hmac (shard # shards) key =
     bindr (verify_shard_header_mac hmac key (si_global_header shard) (si_shard_header shard)) (\<lambda>ok.
     throw_if (\<not> ok) AuthenticationFailed (verify_all_shard_header_macs hmac shards key))"

fun to_archive_hardened_mode :: "CliHardenedExtractMode \<Rightarrow> HardenedExtractMode" where
  "to_archive_hardened_mode CliHardenedAuto = HardenedAuto"
| "to_archive_hardened_mode CliHardenedOn = HardenedOn"
| "to_archive_hardened_mode CliHardenedOff = HardenedOff"

subsection \<open>Encryption\<close>

text \<open>
  What \<open>core_encrypt\<close> meets.  \<open>ew_random n k\<close> is the answer of the \<open>n\<close>-th call for \<open>k\<close> random bytes.
  The tree is the one the constructor of the \<open>ArchiveWriter\<close> sees, with the point where its walk
  fails, if it does; the view is what the writer sees afterwards.
\<close>

record encrypt_world =
  ew_lock :: ProcessMemoryLockResult
  ew_fs :: fs_view
  ew_create_output_ok :: bool
  ew_random :: "nat \<Rightarrow> nat \<Rightarrow> bytes result"
  ew_sodium :: sodium_lib
  ew_gcm :: evp_gcm_lib
  ew_libs :: kdf_libs
  ew_hmac :: "bytes \<Rightarrow> bytes \<Rightarrow> bytes option"
  ew_tree :: file_tree
  ew_walk_end :: "nat option"
  ew_view :: input_view
  ew_stream :: ostream
  ew_disk :: disk
  ew_fsync :: fsync_os
  ew_hardware_concurrency :: u32
  ew_schedule :: "thread list"

record encrypt_job =
  ej_backend :: CryptoBackend
  ej_keys :: ExpandedKeys
  ej_archive_writer :: ArchiveWriter
  ej_shard_writer :: AnyShardWriter
  ej_options :: EncryptPipelineOptions
  ej_raw_plaintext_size :: u64
  ej_plan :: EncryptPlan

definition shard_writer_for ::
  "encrypt_world \<Rightarrow> CoreEncryptParams \<Rightarrow> EncryptPlan \<Rightarrow> bytes \<Rightarrow> AnyShardWriter result" where
  "shard_writer_for world params plan header_authentication_key =
    (let hashes = map sp_public_header_hash (pl_shards plan) in
     if ep_stdout_stream params then
       bindr (new_StdoutShardWriter
         \<lparr>oo_global_header = pl_global_header plan, oo_header_authentication_key = header_authentication_key,
          oo_per_shard_public_header_hashes = hashes\<rparr> (Some (ew_stream world))) (\<lambda>w. Inr (StreamWriter w))
     else
       bindr (new_ShardWriter
         \<lparr>wo_output_dir = ep_output params, wo_max_shard_payload_len = effective_shard_size params,
          wo_filename_extension = ''.bin'', wo_global_header = pl_global_header plan,
          wo_header_authentication_key = header_authentication_key, wo_per_shard_public_header_hashes = hashes,
          wo_durability_mode = ep_durability_mode params,
          wo_durability_hooks = hooks_production (ew_fsync world), wo_before_chunk_write = None\<rparr>
         (ew_disk world)) (\<lambda>w. Inr (FileWriter w)))"

definition encrypt_options_for :: "CoreEncryptParams \<Rightarrow> ArchiveOpenContext \<Rightarrow> EncryptPlan \<Rightarrow> EncryptPipelineOptions" where
  "encrypt_options_for params context plan =
    (let hashes = map sp_public_header_hash (pl_shards plan) in
     \<lparr>ep_chunk_plain_size = ep_chunk_size params, ep_worker_count = 0, ep_queue_depth = 0,
      ep_archive_id = ac_archive_id context, ep_per_shard_public_header_hashes = hashes,
      ep_public_header_hash = (if hashes = [] then replicate 32 0 else hashes ! 0),
      ep_emit_final_chunk_when_empty = True,
      ep_expected_plaintext_bytes = pl_padded_plaintext_size plan\<rparr>)"

text \<open>The padding record, which is drawn before the limit of the output stream is checked.\<close>

definition padding_record :: "encrypt_world \<Rightarrow> CoreEncryptParams \<Rightarrow> ArchiveOpenContext \<Rightarrow> u64 \<Rightarrow> bytes option result" where
  "padding_record world params context raw_plaintext_size =
    bindr (compute_padding raw_plaintext_size (ac_chunk_plain_size context) (ep_padding params)) (\<lambda>pad.
    if pr_target_size pad > raw_plaintext_size then
      bindr (ew_random world 2 (unat (pr_target_size pad - raw_plaintext_size - 9))) (\<lambda>bs.
      Inr (Some (serialize_record \<lparr>ar_type = RandomPadding, ar_payload = bs\<rparr>)))
    else Inr None)"

text \<open>Everything up to the construction of the pipeline.\<close>

definition plan_encryption ::
  "encrypt_world \<Rightarrow> CoreEncryptParams \<Rightarrow> ArchiveOpenContext \<Rightarrow> CryptoBackend \<Rightarrow> ExpandedKeys \<Rightarrow> encrypt_job result" where
  "plan_encryption world params context backend keys =
    bindr (new_ArchiveWriter
      \<lparr>ao_input_root = ep_input params, ao_chunk_plain_size = ep_chunk_size params, ao_preserve_timestamps = True,
       ao_preserve_permissions = True, ao_include_symlinks = False\<rparr> (ew_tree world) (ew_walk_end world)) (\<lambda>a.
    (case plan_plaintext_size (ew_view world) a of (planned, a) \<Rightarrow>
    bindr planned (\<lambda>raw_plaintext_size.
    bindr (padding_record world params context raw_plaintext_size) (\<lambda>padding.
    let a = (case padding of None \<Rightarrow> a | Some rec \<Rightarrow> set_trailing_padding_record rec a) in
    bindr (encrypt_plan (kl_blake3 (ew_libs world)) params context raw_plaintext_size) (\<lambda>plan.
    bindr (shard_writer_for world params plan (ek_header_authentication_key keys)) (\<lambda>w.
    Inr \<lparr>ej_backend = backend, ej_keys = keys\<lparr>ek_header_authentication_key := []\<rparr>, ej_archive_writer = a,
         ej_shard_writer = w, ej_options = encrypt_options_for params context plan,
         ej_raw_plaintext_size = raw_plaintext_size, ej_plan = plan\<rparr>))))))"

definition prepare_encrypt :: "encrypt_world \<Rightarrow> CoreEncryptParams \<Rightarrow> (core_event list, encrypt_job) op" where
  "prepare_encrypt world params =
    bindS (enforce_memory_lock_policy (ep_lock_memory params) (ep_require_lock_memory params) (ew_lock world)) (\<lambda>_.
    bindS (warn (ep_kdf_preset params = Fast \<and> ep_on_warning params)
      ''WARNING: --kdf fast uses 256 MiB / 3 iterations. This is suitable for low-value data or testing only. Use --kdf strong or --kdf paranoid for valuable long-term secrets.'') (\<lambda>_.
    bindS (fire_progress (ep_on_progress params) Validating 0 0) (\<lambda>_.
    bindS (liftS (validate_encrypt_params (ew_fs world) params)) (\<lambda>_.
    bindS (guardS (\<not> ep_stdout_stream params \<and> \<not> ew_create_output_ok world)
      (SystemError ''filesystem error: cannot create directories'')) (\<lambda>_.
    bindS (liftS (ew_random world 0 32)) (\<lambda>salt.
    bindS (liftS (ew_random world 1 32)) (\<lambda>archive_id.
    bindS (liftS (make_encrypt_context salt archive_id params)) (\<lambda>context.
    bindS (liftS (make_backend (ew_sodium world) (ew_gcm world) (ac_suite context))) (\<lambda>backend.
    bindS (fire_progress (ep_on_progress params) KdfPhase 0 0) (\<lambda>_.
    bindS (liftS (derive_expanded_keys (ew_libs world) context (ep_passphrase params) (ep_keyfiles params))) (\<lambda>keys.
    bindS (fire_progress (ep_on_progress params) Planning 0 0) (\<lambda>_.
    liftS (plan_encryption world params context backend keys)))))))))))))"

fun any_destroy :: "(bytes \<Rightarrow> bytes \<Rightarrow> bytes option) \<Rightarrow> AnyShardWriter \<Rightarrow> AnyShardWriter" where
  "any_destroy hmac (FileWriter w) = FileWriter (destroy_ShardWriter hmac w)"
| "any_destroy hmac (StreamWriter w) = StreamWriter (destroy_StdoutShardWriter hmac w)"

text \<open>
  The outcome, the events, and what is left of the shard writer, if it came to that.  \<open>None\<close>: the
  schedule is not one of the pipeline, or it stops too early.
\<close>

definition core_encrypt ::
  "encrypt_world \<Rightarrow> CoreEncryptParams \<Rightarrow> (unit result \<times> core_event list \<times> AnyShardWriter option) option" where
  "core_encrypt world params =
    (case prepare_encrypt world params [] of
       (Inl e, es) \<Rightarrow> Some (Inl e, es, None)
     | (Inr job, es) \<Rightarrow>
       let progress = (\<lambda>phase. fire_progress (ep_on_progress params) phase (pl_padded_plaintext_size (ej_plan job))
                                 (of_nat (length (pl_shards (ej_plan job)))));
           es = snd (progress Encrypting es) in
       (case run_encrypt (kl_hkdf (ew_libs world)) (ew_hmac world) (ew_hardware_concurrency world) (ej_options job)
               (Some (ej_backend job)) (ej_keys job) (ew_view world) (ew_schedule world)
               (ej_archive_writer job) (ej_shard_writer job) of
          None \<Rightarrow> None
        | Some (Inl e, w) \<Rightarrow> Some (Inl e, es, Some (any_destroy (ew_hmac world) (any_abort w)))
        | Some (Inr _, w) \<Rightarrow> Some (Inr (), snd (progress PhaseDone es), Some (any_destroy (ew_hmac world) w))))"

subsection \<open>Decryption\<close>

text \<open>
  What \<open>core_decrypt\<close> meets: the shard directory and its files, which may be different at every read,
  and the tree it extracts into.
\<close>

record decrypt_world =
  dw_lock :: ProcessMemoryLockResult
  dw_fs :: fs_view
  dw_dir :: "(path \<times> bool) list option"
  dw_files :: file_store
  dw_reads :: "nat \<Rightarrow> file_store"
  dw_sodium :: sodium_lib
  dw_gcm :: evp_gcm_lib
  dw_libs :: kdf_libs
  dw_hmac :: "bytes \<Rightarrow> bytes \<Rightarrow> bytes option"
  dw_temp_suffix :: string
  dw_fsync :: fsync_os
  dw_hardware_concurrency :: u32
  dw_schedule :: "thread list"

text \<open>The vector of header hashes by shard index.\<close>

definition shard_hashes :: "ShardInfo list \<Rightarrow> bytes list" where
  "shard_hashes shards =
    (let size = (if shards = [] then 0 else unat (Max (shard_index ` set shards) + 1)) in
     foldl (\<lambda>hashes shard. hashes[unat (shard_index shard) := si_public_header_hash shard])
       (replicate size (replicate 32 0)) shards)"

record decrypt_job =
  dj_context :: ArchiveOpenContext
  dj_keys :: ExpandedKeys
  dj_reader :: ShardReader
  dj_options :: DecryptPipelineOptions

definition decrypt_options_for :: "ArchiveOpenContext \<Rightarrow> bytes list \<Rightarrow> DecryptPipelineOptions" where
  "decrypt_options_for context hashes =
     \<lparr>dp_chunk_plain_size = ac_chunk_plain_size context, dp_worker_count = 0, dp_queue_depth = 0,
      dp_archive_id = ac_archive_id context,
      dp_public_header_hash = (if hashes = [] then replicate 32 0 else hd hashes),
      dp_per_shard_public_header_hashes = hashes,
      dp_padded_plaintext_size = gh_padded_plaintext_size (ac_global_header context)\<rparr>"

text \<open>From the discovery of the shards to the \<open>ShardReader\<close>.\<close>

definition open_archive :: "decrypt_world \<Rightarrow> CoreDecryptParams \<Rightarrow> (core_event list, decrypt_job) op" where
  "open_archive world params =
    bindS (liftS (discover (kl_blake3 (dw_libs world)) (dw_files world) (dw_dir world))) (\<lambda>shards.
    bindS (liftS (make_decrypt_context_from_shards shards)) (\<lambda>context.
    bindS (liftS (check_kdf_params_against_policy (ac_kdf_params context) (dp_kdf_policy params))) (\<lambda>_.
    bindS (fire_progress (dp_on_progress params) KdfPhase 0 0) (\<lambda>_.
    bindS (liftS (derive_expanded_keys (dw_libs world) context (dp_passphrase params) (dp_keyfiles params))) (\<lambda>keys.
    bindS (liftS (verify_all_shard_header_macs (dw_hmac world) shards (ek_header_authentication_key keys))) (\<lambda>_.
    bindS (liftS (new_ShardReader (dw_hmac world) shards (ek_header_authentication_key keys)
      \<lparr>rv_suite_id = Some (suite_to_aead_alg_id (ac_suite context)), rv_archive_id = Some (ac_archive_id context),
       rv_chunk_plain_size = Some (ac_chunk_plain_size context), rv_public_header_hash = None\<rparr>)) (\<lambda>reader.
    returnS \<lparr>dj_context = context, dj_keys = keys\<lparr>ek_header_authentication_key := []\<rparr>, dj_reader = reader,
             dj_options = decrypt_options_for context (shard_hashes shards)\<rparr>)))))))"

definition extraction_options :: "decrypt_world \<Rightarrow> CoreDecryptParams \<Rightarrow> ArchiveReaderOptions" where
  "extraction_options world params =
     \<lparr>xo_output_root = dp_output params, xo_overwrite_existing = dp_overwrite params,
      xo_restore_timestamps = True, xo_restore_permissions = True, xo_allow_symlinks = False,
      xo_hardened_extract_mode = to_archive_hardened_mode (dp_hardened_extract params),
      xo_durability_mode = dp_durability_mode params,
      xo_durability_hooks = hooks_production (dw_fsync world)\<rparr>"

text \<open>
  The pipeline with its progress events.  \<open>shards\<close> has been moved from, so its size is reported as 0.
  An exception of \<open>make_backend\<close> destroys the \<open>ArchiveReader\<close> like the pipeline does.
\<close>

definition extract_archive ::
  "decrypt_world \<Rightarrow> CoreDecryptParams \<Rightarrow> decrypt_job \<Rightarrow> core_event list \<Rightarrow> file_tree
     \<Rightarrow> (unit result \<times> core_event list \<times> file_tree) option" where
  "extract_archive world params job es tree =
    (case new_ArchiveReader (extraction_options world params) (dw_temp_suffix world) tree of
       (Inl e, tree) \<Rightarrow> Some (Inl e, es, tree)
     | (Inr xr, tree) \<Rightarrow>
       (case make_backend (dw_sodium world) (dw_gcm world) (ac_suite (dj_context job)) of
          Inl e \<Rightarrow> Some (Inl e, es, xr_tree (destroy_ArchiveReader xr))
        | Inr backend \<Rightarrow>
          let progress = (\<lambda>phase. fire_progress (dp_on_progress params) phase
                (gh_padded_plaintext_size (ac_global_header (dj_context job))) 0);
              es = snd (progress Decrypting es) in
          (case run_decrypt (kl_hkdf (dw_libs world)) (dw_hardware_concurrency world) (dj_options job) (Some backend)
                  (dj_keys job) (dw_reads world) (dw_schedule world) (dj_reader job) xr of
             None \<Rightarrow> None
           | Some (Inl e, xr) \<Rightarrow> Some (Inl e, es, xr_tree (destroy_ArchiveReader xr))
           | Some (Inr _, xr) \<Rightarrow> Some (Inr (), snd (progress PhaseDone es), xr_tree (destroy_ArchiveReader xr)))))"

text \<open>The handler: an output directory that was not there before is removed again if it is empty.\<close>

definition output_empty :: "file_tree \<Rightarrow> path \<Rightarrow> bool" where
  "output_empty t p =
    (case resolve t p True of
       None \<Rightarrow> False
     | Some q \<Rightarrow> (case node_at t q of
           Some Dir \<Rightarrow> filter (\<lambda>r. r \<noteq> q) (entries_beneath t q) = []
         | Some (File bs) \<Rightarrow> bs = []
         | _ \<Rightarrow> False))"

definition remove_entry :: "path \<Rightarrow> (file_tree, bool) op" where
  "remove_entry p t =
    (case resolve t p False of
       None \<Rightarrow> (Inr False, t)
     | Some q \<Rightarrow> sys_call (\<lambda>t. node_at t q \<noteq> None \<and> filter (\<lambda>r. r \<noteq> q) (entries_beneath t q) = [])
                   (\<lambda>t. touch (butlast q) (drop_entry q t)) t)"

definition remove_empty_output :: "bool \<Rightarrow> path \<Rightarrow> file_tree \<Rightarrow> file_tree" where
  "remove_empty_output existed_before output t =
     (if \<not> existed_before \<and> output_empty t output then snd (remove_entry output t) else t)"

definition core_decrypt ::
  "decrypt_world \<Rightarrow> CoreDecryptParams \<Rightarrow> file_tree \<Rightarrow> (unit result \<times> core_event list \<times> file_tree) option" where
  "core_decrypt world params tree =
    (case bindS (enforce_memory_lock_policy (dp_lock_memory params) (dp_require_lock_memory params) (dw_lock world)) (\<lambda>_.
          bindS (warn (dp_hardened_extract params = CliHardenedOff \<and> dp_on_warning params)
            ''WARNING: --hardened-extract=off disables TOCTOU-hardened extraction. The portable backend is not protected against symlink races. Use the default (auto) or --hardened-extract=on for untrusted archives.'') (\<lambda>_.
          bindS (fire_progress (dp_on_progress params) Validating 0 0) (\<lambda>_.
          liftS (validate_decrypt_params (dw_fs world) params)))) [] of
       (Inl e, es) \<Rightarrow> Some (Inl e, es, tree)
     | (Inr _, es) \<Rightarrow>
       let existed_before = status_of tree (dp_output params) True \<noteq> None in
       (case create_directories (dp_output params) tree of
          (Inr True, tree) \<Rightarrow>
            (case (case open_archive world params es of
                     (Inl e, es) \<Rightarrow> Some (Inl e, es, tree)
                   | (Inr job, es) \<Rightarrow> extract_archive world params job es tree) of
               Some (Inl e, es, tree) \<Rightarrow> Some (Inl e, es, remove_empty_output existed_before (dp_output params) tree)
             | x \<Rightarrow> x)
        | (_, tree) \<Rightarrow> Some (Inl (SystemError ''filesystem error: cannot create directories''), es, tree)))"


subsection \<open>A padding record that no reader accepts\<close>

text \<open>After any records, a record whose first bytes are refused makes the reader fail.\<close>

lemma refused_record_stops:
  assumes "encoded_record_size_if_complete bad = Inl e" "\<forall>x\<in>set recs. length (ar_payload x) < 2 ^ 64"
    "xr_pending r = concat (map serialize_record recs) @ bad"
  shows "\<exists>e. fst (consume_records r) = Inl e"
  using assms(2,3)
proof (induction recs arbitrary: r)
  case Nil
  then show ?case using assms(1) by (simp add: consume_records.simps [of r])
next
  case (Cons x recs)
  let ?more = "concat (map serialize_record recs) @ bad"
  have pend: "xr_pending r = record_type_code (ar_type x) # le_bytes 8 (of_nat (length (ar_payload x)) :: u64) @ ar_payload x @ ?more"
    using Cons.prems(2) serialize_record_eq [of x] by simp
  have len: "unat (of_nat (length (ar_payload x)) :: u64) = length (ar_payload x)"
    using Cons.prems(1) by (intro unat_of_nat_u64) simp
  show ?case
  proof (cases "length (ar_payload x) \<le> kMaxRecordPayloadBytes")
    case False
    then have "encoded_record_size_if_complete (xr_pending r) = Inl (InvalidArgument ''archive record payload exceeds maximum allowed size'')"
      unfolding pend encoded_size_prefix len by simp
    then show ?thesis by (simp add: consume_records.simps [of r])
  next
    case True
    then have enc: "encoded_record_size_if_complete (xr_pending r) = Inr (Some (9 + length (ar_payload x)))"
      unfolding pend encoded_size_prefix len by simp
    have n: "length (serialize_record x) = 9 + length (ar_payload x)" by (simp add: serialize_record_eq)
    have cut: "take (9 + length (ar_payload x)) (xr_pending r) = serialize_record x"
      "drop (9 + length (ar_payload x)) (xr_pending r) = ?more"
      using n Cons.prems(2) by simp_all
    obtain res r' where pr: "process_record x (r\<lparr>xr_pending := ?more\<rparr>) = (res, r')" by fastforce
    have "xr_pending r' = ?more"
      using process_record_preserves(1) [of x] pr by (auto simp: preserves_def dest: spec [of _ "r\<lparr>xr_pending := ?more\<rparr>"])
    moreover have "parse_record (serialize_record x) = Inr x" using True by (simp add: parse_record_iff)
    ultimately show ?thesis using Cons.IH [of r'] Cons.prems(1) enc cut pr
      by (cases res) (simp_all add: consume_records.simps [of r])
  qed
qed

text \<open>
  C37: Power-of-two padding can make an archive that no reader accepts.  If the size of the archive lies
  above \<open>2^k\<close> and more than 128 MiB and nine bytes below \<open>2^(k+1)\<close>, with a chunk size of at most 64 MiB,
  \<open>core_encrypt\<close> plans without an error one padding record that fills the gap; an archive reader that is
  given any records and then this one, in whatever pieces, fails.
\<close>

theorem power2_padding_unreadable:
  assumes "pp_kind (ep_padding params) = PaddingPower2" "ac_chunk_plain_size context \<le> 2 ^ 26"
    "2 ^ k < unat raw" "unat raw + 2 ^ 27 + 9 < 2 ^ (k + 1)" "k < 63"
    "\<forall>m. \<exists>bs. ew_random world 2 m = Inr bs \<and> length bs = m"
  shows "\<exists>rec. padding_record world params context raw = Inr (Some rec) \<and>
    (\<forall>recs rest chunks r. (\<forall>x\<in>set recs. length (ar_payload x) < 2 ^ 64) \<and> xr_pending r = []
       \<and> concat chunks = concat (map serialize_record recs) @ rec @ rest
       \<longrightarrow> (\<exists>e. fst (consume_all chunks r) = Inl e))"
proof -
  have c: "unat (ac_chunk_plain_size context) \<le> 2 ^ (k + 1)"
    using assms(2,4) by (simp add: word_le_nat_alt)
  obtain pad where pad: "compute_padding raw (ac_chunk_plain_size context) (ep_padding params) = Inr pad"
    "unat (pr_target_size pad) = 2 ^ (k + 1)"
    using power2_padding_target [OF assms(1,3) _ assms(5) c] assms(4) by auto
  have le: "raw \<le> pr_target_size pad" "(9 :: u64) \<le> pr_target_size pad - raw"
    using pad(2) assms(4) by (simp_all add: word_le_nat_alt unat_sub)
  define m where "m = unat (pr_target_size pad - raw - 9)"
  have m: "kMaxRecordPayloadBytes < m"
    using pad(2) assms(4) le unfolding m_def
    by (simp add: unat_sub word_le_nat_alt kMaxRecordPayloadBytes_def)
  have m64: "m < 2 ^ 64" unfolding m_def using unat_u64_lt [of "pr_target_size pad - raw - 9"] by simp
  obtain bs where bs: "ew_random world 2 m = Inr bs" "length bs = m" using assms(6) by blast
  let ?rec = "serialize_record \<lparr>ar_type = RandomPadding, ar_payload = bs\<rparr>"
  have gt: "raw < pr_target_size pad" using pad(2) assms(4) by (simp add: word_less_nat_alt)
  have enc: "encoded_record_size_if_complete (?rec @ rest) = Inl (InvalidArgument ''archive record payload exceeds maximum allowed size'')" for rest
    using m m64 bs(2) valid_record_type_code [of RandomPadding] by (simp add: serialize_record_eq encoded_size_prefix unat_of_nat_u64)
  have "\<exists>e. fst (consume_all chunks r) = Inl e"
    if "\<forall>x\<in>set recs. length (ar_payload x) < 2 ^ 64" "xr_pending r = []"
      "concat chunks = concat (map serialize_record recs) @ ?rec @ rest" for recs rest chunks r
  proof -
    have "chunks \<noteq> []" using that(3) by (auto simp: serialize_record_eq)
    then have "fst (consume_all chunks r) = fst (consume (concat chunks) r)"
      using consume_all_concat by (simp add: same_effect_def)
    then show ?thesis using refused_record_stops [OF enc that(1), of "r\<lparr>xr_pending := concat chunks\<rparr>" rest] that(2,3)
      by (auto simp: consume_eq)
  qed
  moreover have "padding_record world params context raw = Inr (Some ?rec)"
    using gt pad(1) bs(1) unfolding padding_record_def m_def by simp
  ultimately show ?thesis by blast
qed

text \<open>An archive of 257 MiB with the default chunk size of 16 MiB.\<close>

theorem power2_padding_unreadable_witness:
  "\<forall>world context r. \<exists>rec. padding_record (world\<lparr>ew_random := \<lambda>_ m. Inr (replicate m 7)\<rparr>)
        (sample_params\<lparr>ep_padding := \<lparr>pp_kind = PaddingPower2, pp_fixed_size_bytes = 0\<rparr>\<rparr>)
        (context\<lparr>ac_chunk_plain_size := 16777216\<rparr>) 269484032 = Inr (Some rec)
     \<and> (\<exists>e. fst (consume_all [serialize_record begin_record, rec] (r\<lparr>xr_pending := []\<rparr>)) = Inl e)"
proof (intro allI)
  fix world :: encrypt_world and "context" :: ArchiveOpenContext and r :: ArchiveReader
  have rng: "\<forall>m. \<exists>bs. ew_random (world\<lparr>ew_random := \<lambda>_ m. Inr (replicate m 7)\<rparr>) 2 m = Inr bs \<and> length bs = m" by simp
  from power2_padding_unreadable [of "sample_params\<lparr>ep_padding := \<lparr>pp_kind = PaddingPower2, pp_fixed_size_bytes = 0\<rparr>\<rparr>"
      "context\<lparr>ac_chunk_plain_size := 16777216\<rparr>" 28 269484032, OF _ _ _ _ _ rng]
  obtain rec where rec: "padding_record (world\<lparr>ew_random := \<lambda>_ m. Inr (replicate m 7)\<rparr>)
        (sample_params\<lparr>ep_padding := \<lparr>pp_kind = PaddingPower2, pp_fixed_size_bytes = 0\<rparr>\<rparr>)
        (context\<lparr>ac_chunk_plain_size := 16777216\<rparr>) 269484032 = Inr (Some rec)"
    "\<And>recs rest chunks (r :: ArchiveReader). (\<forall>x\<in>set recs. length (ar_payload x) < 2 ^ 64) \<and> xr_pending r = []
       \<and> concat chunks = concat (map serialize_record recs) @ rec @ rest
       \<Longrightarrow> \<exists>e. fst (consume_all chunks r) = Inl e" by auto
  show "\<exists>rec. padding_record (world\<lparr>ew_random := \<lambda>_ m. Inr (replicate m 7)\<rparr>)
        (sample_params\<lparr>ep_padding := \<lparr>pp_kind = PaddingPower2, pp_fixed_size_bytes = 0\<rparr>\<rparr>)
        (context\<lparr>ac_chunk_plain_size := 16777216\<rparr>) 269484032 = Inr (Some rec)
     \<and> (\<exists>e. fst (consume_all [serialize_record begin_record, rec] (r\<lparr>xr_pending := []\<rparr>)) = Inl e)"
    by (intro exI [of _ rec] conjI rec(1) rec(2) [of "[begin_record]" _ _ "[]"]) (simp_all add: begin_record_def append_simps)
qed

end
