(* ===== verification/Archive_Roundtrip.thy ===== *)
theory Archive_Roundtrip
  imports Stored_Stream Core_Api
begin

text \<open>
  The two halves of \<^verbatim>\<open>CoreApi.cpp\<close> together: the plan of an encryption fits the frames it writes, the
  keys and the context that a decryption makes from the headers are those of the encryption, and so
  an archive written to a stream is extracted again.
\<close>

subsection \<open>What encryption plans\<close>

lemma next_record_counts:
  assumes "next_record_bytes view w = (Inr (Some rec), w')"
  shows "aw_bytes_produced w' = aw_bytes_produced w + of_nat (length rec)"
proof -
  consider "\<not> aw_emitted_begin w" | "aw_emitted_begin w" "aw_current_file_open w" | "aw_emitted_begin w" "\<not> aw_current_file_open w"
    by blast
  then show ?thesis
  proof cases
    case 1
    then show ?thesis using assms by (auto simp: next_record_bytes_def bindS_def op_defs produce_eq)
  next
    case 2
    then have "next_file_bytes_or_end view w = (Inr (Some rec), w')" using assms by (simp add: next_record_bytes_def getS_def)
    from next_file_bytes_or_end_Inr [OF this] show ?thesis by auto
  next
    case 3
    then obtain r1 w1 where n: "next_entry view (drop (aw_entry_index w) (aw_entries w)) w = (Inr r1, w1)"
      using assms by (auto simp: next_record_bytes_def getS_def bindS_Inr)
    note out = next_entry_Inr [OF n, unfolded entry_outcome_def]
    show ?thesis
    proof (cases r1)
      case None
      then show ?thesis using assms 3 n out
        by (auto simp: next_record_bytes_def bindS_def op_defs produce_eq split: if_splits option.splits)
    next
      case (Some r)
      then have "rec = r" "w' = w1" using assms 3 n by (auto simp: next_record_bytes_def bindS_def op_defs)
      then show ?thesis using out Some by auto
    qed
  qed
qed

lemma emits_counts: "emits view a outs a' \<Longrightarrow> aw_bytes_produced a' = aw_bytes_produced a + of_nat (length (concat outs))"
  by (induction rule: emits.induct) (simp_all add: next_record_counts algebra_simps)

lemma all_emitted_counts:
  "all_emitted view a outs a' \<Longrightarrow> aw_bytes_produced a' = aw_bytes_produced a + of_nat (length (concat outs))"
  by (auto simp: all_emitted_def dest!: emits_counts next_record_None)

lemma plan_entries_counts: "preserves aw_bytes_produced (plan_entries view es n)"
proof (induction view es n rule: plan_entries.induct)
  case (2 view e es n)
  have m: "preserves aw_bytes_produced (metadata_for view e)"
    by (simp add: preserves_def metadata_for_def)
  show ?case
    by (cases "de_kind e")
       (use 2 in \<open>auto simp: serialized_metadata_def Let_def intro!: preserves_intros m\<close>)
qed (simp add: preserves_intros)

lemma planned_writer_counts:
  assumes "new_ArchiveWriter opts t e = Inr a" "plan_plaintext_size view a = (Inr raw, a1)"
  shows "aw_bytes_produced (case padding of None \<Rightarrow> a1 | Some rec \<Rightarrow> set_trailing_padding_record rec a1) = 0"
proof -
  have "preserves aw_bytes_produced (plan_plaintext_size view)"
    unfolding plan_plaintext_size_def by (intro preserves_intros plan_entries_counts)
  moreover have "aw_bytes_produced a = 0" using new_ArchiveWriter_Inr [OF assms(1)] by metis
  ultimately have "aw_bytes_produced a1 = 0" using assms(2) by (metis preserves_def snd_conv)
  then show ?thesis by (simp add: set_trailing_padding_record_def split: option.split)
qed

text \<open>What \<open>core_encrypt\<close> hands to the pipeline when it writes to a stream.\<close>

definition stream_job ::
  "encrypt_world \<Rightarrow> CoreEncryptParams \<Rightarrow> encrypt_job \<Rightarrow> ArchiveOpenContext \<Rightarrow> ExpandedKeys \<Rightarrow> StdoutShardWriter \<Rightarrow> bool" where
  "stream_job world params job ctx keys w \<longleftrightarrow>
     (\<exists>salt archive_id. ew_random world 0 32 = Inr salt \<and> ew_random world 1 32 = Inr archive_id
        \<and> make_encrypt_context salt archive_id params = Inr ctx)
     \<and> validate_encrypt_params (ew_fs world) params = Inr ()
     \<and> make_backend (ew_sodium world) (ew_gcm world) (ac_suite ctx) = Inr (ej_backend job)
     \<and> derive_expanded_keys (ew_libs world) ctx (ep_passphrase params) (ep_keyfiles params) = Inr keys
     \<and> ej_keys job = keys\<lparr>ek_header_authentication_key := []\<rparr>
     \<and> encrypt_plan (kl_blake3 (ew_libs world)) params ctx (ej_raw_plaintext_size job) = Inr (ej_plan job)
     \<and> new_StdoutShardWriter
         \<lparr>oo_global_header = pl_global_header (ej_plan job),
          oo_header_authentication_key = ek_header_authentication_key keys,
          oo_per_shard_public_header_hashes = map sp_public_header_hash (pl_shards (ej_plan job))\<rparr>
         (Some (ew_stream world)) = Inr w
     \<and> ej_shard_writer job = StreamWriter w
     \<and> ej_options job = encrypt_options_for params ctx (ej_plan job)
     \<and> aw_bytes_produced (ej_archive_writer job) = 0"

lemma plan_encryption_Inr:
  assumes "plan_encryption world params ctx backend keys = Inr job" "ep_stdout_stream params"
  shows "\<exists>w. ej_backend job = backend \<and> ej_keys job = keys\<lparr>ek_header_authentication_key := []\<rparr>
     \<and> encrypt_plan (kl_blake3 (ew_libs world)) params ctx (ej_raw_plaintext_size job) = Inr (ej_plan job)
     \<and> new_StdoutShardWriter
         \<lparr>oo_global_header = pl_global_header (ej_plan job),
          oo_header_authentication_key = ek_header_authentication_key keys,
          oo_per_shard_public_header_hashes = map sp_public_header_hash (pl_shards (ej_plan job))\<rparr>
         (Some (ew_stream world)) = Inr w
     \<and> ej_shard_writer job = StreamWriter w
     \<and> ej_options job = encrypt_options_for params ctx (ej_plan job)
     \<and> aw_bytes_produced (ej_archive_writer job) = 0"
proof -
  let ?opts = "\<lparr>ao_input_root = ep_input params, ao_chunk_plain_size = ep_chunk_size params, ao_preserve_timestamps = True,
       ao_preserve_permissions = True, ao_include_symlinks = False\<rparr>"
  from assms(1) obtain a raw a1 padding plan sw where
    a: "new_ArchiveWriter ?opts (ew_tree world) (ew_walk_end world) = Inr a" "plan_plaintext_size (ew_view world) a = (Inr raw, a1)"
    and p: "encrypt_plan (kl_blake3 (ew_libs world)) params ctx raw = Inr plan"
    and w: "shard_writer_for world params plan (ek_header_authentication_key keys) = Inr sw"
    and job: "job = \<lparr>ej_backend = backend, ej_keys = keys\<lparr>ek_header_authentication_key := []\<rparr>,
         ej_archive_writer = (case padding of None \<Rightarrow> a1 | Some rec \<Rightarrow> set_trailing_padding_record rec a1),
         ej_shard_writer = sw, ej_options = encrypt_options_for params ctx plan, ej_raw_plaintext_size = raw, ej_plan = plan\<rparr>"
  proof -
    obtain a where a: "new_ArchiveWriter ?opts (ew_tree world) (ew_walk_end world) = Inr a"
      using assms(1) by (auto simp: plan_encryption_def bindr_eq_Inr)
    obtain r a1 where "plan_plaintext_size (ew_view world) a = (r, a1)" by fastforce
    then show thesis using a assms(1) that by (auto simp: plan_encryption_def bindr_eq_Inr Let_def)
  qed
  from w assms(2) obtain v where "sw = StreamWriter v" "new_StdoutShardWriter
         \<lparr>oo_global_header = pl_global_header plan, oo_header_authentication_key = ek_header_authentication_key keys,
          oo_per_shard_public_header_hashes = map sp_public_header_hash (pl_shards plan)\<rparr> (Some (ew_stream world)) = Inr v"
    by (auto simp: shard_writer_for_def Let_def bindr_eq_Inr)
  then show ?thesis using p planned_writer_counts [OF a, of padding] by (simp add: job)
qed

lemma prepare_encrypt_stream:
  assumes "prepare_encrypt world params es = (Inr job, es')" "ep_stdout_stream params"
  shows "\<exists>ctx keys w. stream_job world params job ctx keys w"
proof -
  from assms(1) obtain salt archive_id ctx backend keys where
    "validate_encrypt_params (ew_fs world) params = Inr ()" "ew_random world 0 32 = Inr salt" "ew_random world 1 32 = Inr archive_id"
    "make_encrypt_context salt archive_id params = Inr ctx"
    "make_backend (ew_sodium world) (ew_gcm world) (ac_suite ctx) = Inr backend"
    "derive_expanded_keys (ew_libs world) ctx (ep_passphrase params) (ep_keyfiles params) = Inr keys"
    and p: "plan_encryption world params ctx backend keys = Inr job"
    unfolding prepare_encrypt_def bindS_Inr liftS_def by auto
  moreover obtain w where "ej_backend job = backend" "ej_keys job = keys\<lparr>ek_header_authentication_key := []\<rparr>"
     "encrypt_plan (kl_blake3 (ew_libs world)) params ctx (ej_raw_plaintext_size job) = Inr (ej_plan job)"
     "new_StdoutShardWriter
         \<lparr>oo_global_header = pl_global_header (ej_plan job),
          oo_header_authentication_key = ek_header_authentication_key keys,
          oo_per_shard_public_header_hashes = map sp_public_header_hash (pl_shards (ej_plan job))\<rparr>
         (Some (ew_stream world)) = Inr w"
     "ej_shard_writer job = StreamWriter w"
     "ej_options job = encrypt_options_for params ctx (ej_plan job)"
     "aw_bytes_produced (ej_archive_writer job) = 0"
    using plan_encryption_Inr [OF p assms(2)] by blast
  ultimately show ?thesis unfolding stream_job_def by blast
qed

lemma planned_padded:
  assumes "validate_encrypt_params fs params = Inr ()" "make_encrypt_context salt archive_id params = Inr ctx"
    "encrypt_plan blake3 params ctx raw = Inr pl" "raw \<noteq> 0"
  shows "pl_padded_plaintext_size pl = gh_padded_plaintext_size (pl_global_header pl) \<and> pl_padded_plaintext_size pl \<noteq> 0"
proof -
  from validated_params [OF assms(1)] obtain k where k: "16 \<le> k" "k \<le> 26" and uc: "unat (ep_chunk_size params) = 2 ^ k" by blast
  have ctx: "ac_chunk_plain_size ctx = ep_chunk_size params" by (rule encrypt_context_fields(1) [OF assms(2)])
  from assms(3) obtain pad cl where pad: "compute_padding raw (ep_chunk_size params) (ep_padding params) = Inr pad"
    and cl: "chunk_layout (pr_target_size pad) (ep_chunk_size params) = Inr cl"
    and pl: "gh_padded_plaintext_size (pl_global_header pl) = cl_effective_padded_size cl" "pl_padded_plaintext_size pl = pr_target_size pad"
    by (rule encrypt_plan_Inr) (simp add: ctx)
  have pok: "padding_ok (unat raw) (unat (ep_chunk_size params)) pad" by (rule compute_padding_ok [OF pad assms(4) uc k])
  have "0 < unat raw" using assms(4) by (simp add: unat_gt_0)
  then have "pr_target_size pad \<noteq> 0" using pok by (auto simp: padding_ok_def Let_def)
  then show ?thesis using cl pl by (auto simp: chunk_layout_def bindr_eq_Inr Let_def)
qed

lemma planned_fields:
  assumes "encrypt_plan blake3 params ctx raw = Inr pl"
  shows "gh_archive_id (pl_global_header pl) = gh_archive_id (ac_global_header ctx)"
    "gh_aead_alg_id (pl_global_header pl) = gh_aead_alg_id (ac_global_header ctx)"
    "gh_kdf_salt (pl_global_header pl) = gh_kdf_salt (ac_global_header ctx)"
    "gh_argon2_memory_kib (pl_global_header pl) = gh_argon2_memory_kib (ac_global_header ctx)"
    "gh_argon2_iterations (pl_global_header pl) = gh_argon2_iterations (ac_global_header ctx)"
    "gh_argon2_parallelism (pl_global_header pl) = gh_argon2_parallelism (ac_global_header ctx)"
    "gh_chunk_plain_size (pl_global_header pl) = gh_chunk_plain_size (ac_global_header ctx)"
  by (rule encrypt_plan_Inr [OF assms], simp)+

text \<open>The plan of an archive for a stream: one shard, whose header hash is the one the reader computes.\<close>

lemma stream_plan:
  assumes "validate_encrypt_params fs params = Inr ()" "make_encrypt_context salt archive_id params = Inr ctx"
    "length salt = 32" "length archive_id = 32" "encrypt_plan blake3 params ctx raw = Inr pl" "raw \<noteq> 0"
    "length (pl_shards pl) = 1"
  defines "g \<equiv> pl_global_header pl"
  shows "valid_global g" "gh_shard_count g = 1" "gh_chunk_plain_size g = ucast (ep_chunk_size params)"
    "unat (gh_padded_plaintext_size g) = (unat (gh_global_chunk_count g) - 1) * unat (gh_chunk_plain_size g) + unat (gh_final_plaintext_chunk_len g)"
    "length mac = 32 \<Longrightarrow> length pay = sum (frame_len (unat (gh_global_chunk_count g)) (unat (gh_chunk_plain_size g))
          (unat (gh_final_plaintext_chunk_len g)) 16) {0..<unat (gh_global_chunk_count g)} \<Longrightarrow>
      map sp_public_header_hash (pl_shards pl) = [blake3 (kPublicHeaderHashDomain @ auth_input g (stream_shard g pay mac))]"
proof -
  obtain sp where sp: "pl_shards pl = [sp]" using assms(7) by (metis One_nat_def length_0_conv length_Suc_conv)
  have P: "valid_global g \<and> unat (gh_shard_count g) = length (pl_shards pl)
    \<and> unat (gh_padded_plaintext_size g) =
        (unat (gh_global_chunk_count g) - 1) * unat (gh_chunk_plain_size g) + unat (gh_final_plaintext_chunk_len g)
    \<and> shard_partition (frame_len (unat (gh_global_chunk_count g)) (unat (gh_chunk_plain_size g)) (unat (gh_final_plaintext_chunk_len g)) 16)
        (unat (effective_shard_size params)) (unat (gh_global_chunk_count g)) 0 0 (pl_shards pl)
    \<and> list_all (\<lambda>sp. compute_public_header_hash blake3 g (planned_shard_header sp) = Inr (sp_public_header_hash sp)) (pl_shards pl)"
    unfolding g_def by (rule planned_header_ok [OF assms(1-6)]) (simp add: assms(7))
  then show "valid_global g" "unat (gh_padded_plaintext_size g) = (unat (gh_global_chunk_count g) - 1) * unat (gh_chunk_plain_size g) + unat (gh_final_plaintext_chunk_len g)"
    by simp_all
  show "gh_shard_count g = 1" using P assms(7) by (simp add: word_unat_eq_iff)
  show "gh_chunk_plain_size g = ucast (ep_chunk_size params)"
    using planned_fields(7) [OF assms(5)] encrypt_context_constants(15) [OF assms(2)] by (simp add: g_def)
  assume l: "length mac = 32" "length pay = sum (frame_len (unat (gh_global_chunk_count g)) (unat (gh_chunk_plain_size g))
          (unat (gh_final_plaintext_chunk_len g)) 16) {0..<unat (gh_global_chunk_count g)}"
  have s: "sp_shard_index sp = 0" "sp_first_chunk_index sp = 0" "sp_chunk_count sp = gh_global_chunk_count g"
    "unat (sp_payload_len sp) = length pay"
    using P l(2) by (auto simp: sp Let_def word_unat_eq_iff)
  then have "sp_payload_len sp = of_nat (length pay)" by (metis of_nat_unat ucast_id)
  then have "planned_shard_header sp = stream_shard g pay (replicate 32 0)"
    using s by (simp add: planned_shard_header_def stream_shard_def)
  moreover have "global_arrays g" using P by (simp add: valid_global_def)
  moreover have "auth_input g (stream_shard g pay (replicate 32 0)) = auth_input g (stream_shard g pay mac)"
    by (simp add: auth_input_def stream_shard_def)
  ultimately show "map sp_public_header_hash (pl_shards pl) = [blake3 (kPublicHeaderHashDomain @ auth_input g (stream_shard g pay mac))]"
    using P public_header_hash_eq [OF _ stream_shard_arrays, of g "replicate 32 0" blake3 g pay] by (simp add: sp)
qed

subsection \<open>The keys of the reader\<close>

lemma ucast_chunk_size:
  assumes "validate_encrypt_params fs params = Inr ()"
  shows "ucast (ucast (ep_chunk_size params) :: u32) = ep_chunk_size params" "0 < ep_chunk_size params"
proof -
  obtain k where k: "k \<le> 26" "unat (ep_chunk_size params) = 2 ^ k" using validated_params [OF assms] by blast
  have "(2 :: nat) ^ k \<le> 2 ^ 26" using k(1) by (intro power_increasing) simp_all
  then have s: "unat (ep_chunk_size params) < 2 ^ 32" using k(2) by simp
  then have "unat (ucast (ep_chunk_size params) :: u32) = unat (ep_chunk_size params)" by (rule unat_ucast_small)
  then show "ucast (ucast (ep_chunk_size params) :: u32) = ep_chunk_size params" by (simp add: word_unat_eq_iff)
  have "0 < unat (ep_chunk_size params)" using k(2) by simp
  then show "0 < ep_chunk_size params" by (simp add: unat_gt_0 word_neq_0_conv)
qed

lemma preset_of_context:
  assumes "make_encrypt_context salt archive_id params = Inr ctx"
  shows "ac_suite ctx = ep_suite params" "ac_kdf_params ctx = preset_params (ep_kdf_preset params)"
    "ac_kdf_salt ctx = salt" "ac_archive_id ctx = archive_id"
    "gh_archive_id (ac_global_header ctx) = archive_id" "gh_kdf_salt (ac_global_header ctx) = salt"
    "gh_aead_alg_id (ac_global_header ctx) = suite_to_aead_alg_id (ep_suite params)"
    "gh_argon2_memory_kib (ac_global_header ctx) = kp_memory_kib (preset_params (ep_kdf_preset params))"
    "gh_argon2_iterations (ac_global_header ctx) = kp_iterations (preset_params (ep_kdf_preset params))"
    "gh_argon2_parallelism (ac_global_header ctx) = kp_parallelism (preset_params (ep_kdf_preset params))"
  using assms by (auto simp: make_encrypt_context_def Let_def bindr_eq_Inr)

lemma preset_output_bytes: "kp_output_bytes (preset_params p) = 32"
  by (cases p) (simp_all add: default_kdf_params_def)

lemma suite_roundtrip: "suite_from_aead_alg_id (suite_to_aead_alg_id s) = Inr s"
  by (cases s) (simp_all add: suite_from_aead_alg_id_def)

definition reader_context :: "ArchiveOpenContext \<Rightarrow> GlobalPublicHeaderV1 \<Rightarrow> ArchiveOpenContext" where
  "reader_context ctx g = ctx\<lparr>ac_kdf_params := (ac_kdf_params ctx)\<lparr>kp_preset := Custom\<rparr>, ac_global_header := g\<rparr>"

lemma reader_context_found:
  assumes "make_encrypt_context salt archive_id params = Inr ctx" "encrypt_plan blake3 params ctx raw = Inr pl"
    "validate_encrypt_params fs params = Inr ()" "shard_index si = 0" "si_global_header si = pl_global_header pl"
  shows "make_decrypt_context_from_shards [si] = Inr (reader_context ctx (pl_global_header pl))"
proof -
  let ?p = "preset_params (ep_kdf_preset params)"
  note P = preset_of_context [OF assms(1)] and F = planned_fields [OF assms(2)]
  have "validate_kdf_params (?p\<lparr>kp_preset := Custom\<rparr>) = validate_kdf_params ?p" by (simp add: validate_kdf_params_def)
  then have v: "validate_kdf_params (?p\<lparr>kp_preset := Custom\<rparr>) = Inr ()" using presets_accepted [of "ep_kdf_preset params"] by simp
  have k: "\<lparr>kp_preset = Custom, kp_memory_kib = kp_memory_kib ?p, kp_iterations = kp_iterations ?p,
      kp_parallelism = kp_parallelism ?p, kp_output_bytes = 32\<rparr> = ?p\<lparr>kp_preset := Custom\<rparr>"
    using preset_output_bytes [of "ep_kdf_preset params"] by (cases ?p) simp
  have c: "ucast (gh_chunk_plain_size (pl_global_header pl)) = ac_chunk_plain_size ctx"
    using F(7) encrypt_context_constants(15) [OF assms(1)] encrypt_context_fields(1) [OF assms(1)] ucast_chunk_size(1) [OF assms(3)] by simp
  show ?thesis
    using assms(4,5) by (simp add: make_decrypt_context_from_shards_def F P suite_roundtrip k v c [simplified F P] Let_def reader_context_def)
qed

lemma derive_master_seed_preset:
  "derive_master_seed libs \<lparr>ki_passphrase = pw, ki_keyfiles = kfs, ki_salt = salt, ki_archive_id = aid, ki_params = p\<lparr>kp_preset := x\<rparr>\<rparr>
   = derive_master_seed libs \<lparr>ki_passphrase = pw, ki_keyfiles = kfs, ki_salt = salt, ki_archive_id = aid, ki_params = p\<rparr>"
proof -
  have "validate_kdf_params (p\<lparr>kp_preset := x\<rparr>) = validate_kdf_params p"
    "validate_kdf_security_floor (p\<lparr>kp_preset := x\<rparr>) = validate_kdf_security_floor p"
    by (simp_all add: validate_kdf_params_def validate_kdf_security_floor_def)
  then show ?thesis by (simp add: derive_master_seed_def cong: option.case_cong)
qed

lemma reader_keys:
  "derive_expanded_keys libs (reader_context ctx g) passphrase keyfiles = derive_expanded_keys libs ctx passphrase keyfiles"
  by (simp add: derive_expanded_keys_def reader_context_def derive_master_seed_preset)

lemma expanded_header_key: "derive_expanded_keys libs ctx pass kfs = Inr keys \<Longrightarrow> length (ek_header_authentication_key keys) = 32"
  by (auto simp: derive_expanded_keys_def expand_keys_def bindr_eq_Inr dest: hkdf_length)

lemma made_backend:
  assumes "make_backend sodium gcm suite = Inr be" "sodium_aead_ok sodium" "evp_gcm_ok gcm"
  shows "backend_roundtrip be" "cb_tag_size be = 16"
  using assms xchacha_roundtrip aesgcm_roundtrip
  by (cases suite; auto simp: XChaCha20Poly1305Backend_def AesGcmBackend_def)+

lemma read_entries_single:
  assumes "filter (\<lambda>(p, regular). regular \<and> has_bin_extension p) entries = [(p, True)]"
    "read_shard_info blake3 files p = Inr si"
  shows "read_entries blake3 files entries = Inr [si]"
proof -
  have none: "read_entries blake3 files es = Inr []" if "filter (\<lambda>(p, regular). regular \<and> has_bin_extension p) es = []" for es
    using that by (induction es) (auto split: if_splits)
  show ?thesis using assms
  proof (induction entries)
    case (Cons e es)
    then show ?case using none by (cases e) (auto split: if_splits)
  qed simp
qed

lemma shard_hashes_single: "shard_index si = 0 \<Longrightarrow> shard_hashes [si] = [si_public_header_hash si]"
  by (simp add: shard_hashes_def)

subsection \<open>What is on the stream after an encryption\<close>

lemma stdout_finish_finished: "stdout_finish hmac w = (Inr (), w') \<Longrightarrow> sd_finished w'"
  by (auto simp: stdout_finish_def getS_def bindS_Inr liftS_def Let_def returnS_def modifyS_def split: if_splits)

lemma produced_stream_length:
  assumes "sizes_agree opts a'" "aw_bytes_produced a' = of_nat (length stream)" "length stream < 2 ^ 64"
    "ep_expected_plaintext_bytes opts \<noteq> 0"
  shows "unat (ep_expected_plaintext_bytes opts) = length stream"
proof -
  have "ep_expected_plaintext_bytes opts = of_nat (length stream)"
    using assms(1,2,4) by (simp add: sizes_agree_def word_neq_0_conv)
  then show ?thesis using assms(3) by (simp add: unat_of_nat_u64)
qed

lemma planned_not_empty: "planned_header g stream \<Longrightarrow> 0 < unat (gh_chunk_plain_size g) \<and> stream \<noteq> []"
  using valid_global_sizes(2,3) [of g] by (auto simp: planned_header_def unat_gt_0 unat_eq_zero)

text \<open>The stream of records of a job, and the frames it is stored in.\<close>

definition stream_encrypted ::
  "encrypt_world \<Rightarrow> CoreEncryptParams \<Rightarrow> encrypt_job \<Rightarrow> ArchiveOpenContext \<Rightarrow> ExpandedKeys \<Rightarrow> bytes \<Rightarrow> CipherChunk list \<Rightarrow> bytes \<Rightarrow> bytes \<Rightarrow> bool" where
  "stream_encrypted ew ep job ctx keys stream cs mac file \<longleftrightarrow>
     (\<exists>w. stream_job ew ep job ctx keys w)
     \<and> (\<exists>outs a'. all_emitted (ew_view ew) (ej_archive_writer job) outs a' \<and> stream = concat outs)
     \<and> validate_encrypt_pipeline_inputs (ej_options job) (ej_backend job) (ej_keys job) = Inr ()
     \<and> frames_of_stream (kl_hkdf (ew_libs ew)) (ej_options job) (ej_backend job) (ej_keys job) stream cs
     \<and> planned_header (pl_global_header (ej_plan job)) stream
     \<and> gh_chunk_plain_size (pl_global_header (ej_plan job)) = ucast (ep_chunk_size ep)
     \<and> stream_frames_ok (unat (gh_chunk_plain_size (pl_global_header (ej_plan job)))) stream cs
     \<and> map sp_public_header_hash (pl_shards (ej_plan job))
        = [kl_blake3 (ew_libs ew) (kPublicHeaderHashDomain @ auth_input (pl_global_header (ej_plan job))
             (stream_shard (pl_global_header (ej_plan job)) (payload (map record_of_frame cs)) mac))]
     \<and> file = global_bytes (pl_global_header (ej_plan job))
          @ shard_bytes (stream_shard (pl_global_header (ej_plan job)) (payload (map record_of_frame cs)) mac)
          @ payload (map record_of_frame cs)
     \<and> length mac = 32
     \<and> verify_shard_header_mac (ew_hmac ew) (ek_header_authentication_key keys) (pl_global_header (ej_plan job))
          (stream_shard (pl_global_header (ej_plan job)) (payload (map record_of_frame cs)) mac) = Inr True
     \<and> 272 + length (payload (map record_of_frame cs)) < 2 ^ 63"

lemma core_encrypt_stream:
  assumes prep: "prepare_encrypt ew ep [] = (Inr job, es0)" and enc: "core_encrypt ew ep = Some (Inr (), es, Some (StreamWriter w'))"
    and to_stream: "ep_stdout_stream ep" and start: "os_written (ew_stream ew) = []" and small: "length (os_written (sd_out w')) < 2 ^ 63"
    and short: "\<forall>outs a'. emits (ew_view ew) (ej_archive_writer job) outs a' \<longrightarrow> length (concat outs) < 2 ^ 64"
    and raw: "ej_raw_plaintext_size job \<noteq> 0" and random: "\<forall>n k bs. ew_random ew n k = Inr bs \<longrightarrow> length bs = k"
    and libs: "sodium_aead_ok (ew_sodium ew)" "evp_gcm_ok (ew_gcm ew)"
  shows "\<exists>ctx keys stream cs mac. stream_encrypted ew ep job ctx keys stream cs mac (os_written (sd_out w'))"
proof -
  obtain ctx keys w where job: "stream_job ew ep job ctx keys w" using prepare_encrypt_stream [OF prep to_stream] by blast
  let ?g = "pl_global_header (ej_plan job)" and ?lib = "kl_hkdf (ew_libs ew)"
  from job obtain salt archive_id where ctx: "make_encrypt_context salt archive_id ep = Inr ctx"
    and salt: "length salt = 32" "length archive_id = 32" using random by (auto simp: stream_job_def)
  from job have v: "validate_encrypt_params (ew_fs ew) ep = Inr ()"
    and be: "make_backend (ew_sodium ew) (ew_gcm ew) (ac_suite ctx) = Inr (ej_backend job)"
    and pl: "encrypt_plan (kl_blake3 (ew_libs ew)) ep ctx (ej_raw_plaintext_size job) = Inr (ej_plan job)"
    and sw: "ej_shard_writer job = StreamWriter w" and opts: "ej_options job = encrypt_options_for ep ctx (ej_plan job)"
    and a0: "aw_bytes_produced (ej_archive_writer job) = 0"
    by (simp_all add: stream_job_def)
  from job have new: "new_StdoutShardWriter
         \<lparr>oo_global_header = ?g, oo_header_authentication_key = ek_header_authentication_key keys,
          oo_per_shard_public_header_hashes = map sp_public_header_hash (pl_shards (ej_plan job))\<rparr> (Some (ew_stream ew)) = Inr w"
    by (simp add: stream_job_def)
  note w = new_stream_fresh [OF new]
  then have w_opts: "oo_global_header (sd_options w) = ?g" "oo_header_authentication_key (sd_options w) = ek_header_authentication_key keys"
    "length (pl_shards (ej_plan job)) = 1" by simp_all
  from enc obtain s where s: "run_encrypt ?lib (ew_hmac ew) (ew_hardware_concurrency ew) (ej_options job)
      (Some (ej_backend job)) (ej_keys job) (ew_view ew) (ew_schedule ew) (ej_archive_writer job) (StreamWriter w) = Some (Inr (), s)"
    "any_destroy (ew_hmac ew) s = StreamWriter w'"
    by (auto simp: core_encrypt_def prep sw Let_def split: option.splits sum.splits)
  from s(1) have inputs: "validate_encrypt_pipeline_inputs (ej_options job) (ej_backend job) (ej_keys job) = Inr ()"
    by (auto simp: run_encrypt_def split: sum.splits)
  from encryption_outcome [OF s(1) short] obtain outs a' cs where
    outs: "all_emitted (ew_view ew) (ej_archive_writer job) outs a'" and sizes: "sizes_agree (ej_options job) a'"
    and frames: "frames_of_stream ?lib (ej_options job) (ej_backend job) (ej_keys job) (concat outs) cs"
    and written: "bindS (write_all (ew_hmac ew) cs) (\<lambda>_. any_finish (ew_hmac ew)) (StreamWriter w) = (Inr (), s)" by blast
  obtain w0 where w0: "s = StreamWriter w0" using s(2) by (cases s) auto
  have "sd_finished w0"
  proof -
    obtain s1 where "write_all (ew_hmac ew) cs (StreamWriter w) = (Inr (), s1)" "any_finish (ew_hmac ew) s1 = (Inr (), StreamWriter w0)"
      using written by (auto simp: bindS_Inr w0)
    then show ?thesis using stream_frames_written by (fastforce simp: on_stream_writer_Inr dest: stdout_finish_finished)
  qed
  then have same: "w0 = w'" using s(2) by (simp add: w0 destroy_StdoutShardWriter_def)
  have len: "length (concat outs) < 2 ^ 64"
    using outs short by (auto simp: all_emitted_def)
  note P = stream_plan [OF v ctx salt pl raw w_opts(3)]
  note Q = planned_padded [OF v ctx pl raw]
  have exp: "ep_expected_plaintext_bytes (ej_options job) = gh_padded_plaintext_size ?g"
    "ep_chunk_plain_size (ej_options job) = ep_chunk_size ep"
    using Q by (simp_all add: opts encrypt_options_for_def Let_def)
  have "unat (gh_padded_plaintext_size ?g) = length (concat outs)"
    using produced_stream_length [OF sizes _ len] all_emitted_counts [OF outs] Q a0 by (auto simp: exp)
  then have planned: "planned_header ?g (concat outs)" using P(1,2,4) by (simp add: planned_header_def)
  have size: "ep_chunk_plain_size (ej_options job) = ucast (gh_chunk_plain_size ?g)"
    using ucast_chunk_size(1) [OF v] by (simp add: P(3) exp(2))
  have tag: "cb_tag_size (ej_backend job) = 16" by (rule made_backend(2) [OF be libs])
  from stream_image [OF frames tag written [unfolded w0 same]] w w_opts planned size small obtain mac where
    img: "os_written (sd_out w') = os_written (sd_out w) @ global_bytes ?g @ shard_bytes (stream_shard ?g (payload (map record_of_frame cs)) mac)
       @ payload (map record_of_frame cs)"
    and m: "length mac = 32" "verify_shard_header_mac (ew_hmac ew) (ek_header_authentication_key keys) ?g
        (stream_shard ?g (payload (map record_of_frame cs)) mac) = Inr True"
    and ok: "stream_frames_ok (unat (gh_chunk_plain_size ?g)) (concat outs) cs"
    and sm: "272 + length (payload (map record_of_frame cs)) < 2 ^ 63" by metis
  have nz: "0 < unat (gh_chunk_plain_size ?g)" "concat outs \<noteq> []"
    using planned_not_empty [OF planned] by simp_all
  have "length (payload (map record_of_frame cs)) = sum (frame_len (unat (gh_global_chunk_count ?g)) (unat (gh_chunk_plain_size ?g))
          (unat (gh_final_plaintext_chunk_len ?g)) 16) {0..<unat (gh_global_chunk_count ?g)}"
    using stream_payload_length [OF ok nz] planned_layout [OF planned ok] by simp
  note hashes = P(5) [OF m(1) this]
  have "stream_encrypted ew ep job ctx keys (concat outs) cs mac (os_written (sd_out w'))"
    unfolding stream_encrypted_def
    apply (intro conjI)
    subgoal using job by blast
    subgoal using outs by blast
    using inputs frames planned P(3) ok hashes img m sm start w by simp_all
  then show ?thesis by blast
qed

subsection \<open>Reading the stream back\<close>

text \<open>The stream as the only shard file of a directory that does not change, with the same libraries and secrets.\<close>

definition reads_back :: "encrypt_world \<Rightarrow> CoreEncryptParams \<Rightarrow> decrypt_world \<Rightarrow> CoreDecryptParams \<Rightarrow> bytes \<Rightarrow> bool" where
  "reads_back ew ep dw dp file \<longleftrightarrow>
     (\<exists>dir p. dw_dir dw = Some dir \<and> filter (\<lambda>(q, regular). regular \<and> has_bin_extension q) dir = [(p, True)]
        \<and> dw_files dw p = Some file)
     \<and> dw_reads dw = (\<lambda>_. dw_files dw) \<and> dw_sodium dw = ew_sodium ew \<and> dw_gcm dw = ew_gcm ew
     \<and> dw_libs dw = ew_libs ew \<and> dw_hmac dw = ew_hmac ew
     \<and> dp_passphrase dp = ep_passphrase ep \<and> dp_keyfiles dp = ep_keyfiles ep
     \<and> check_kdf_params_against_policy (preset_params (ep_kdf_preset ep)) (dp_kdf_policy dp) = Inr ()"

lemma fire_progress_runs: "\<exists>es'. fire_progress b phase n k es = (Inr (), es')"
  by (simp add: fire_progress_def emit_def modifyS_def returnS_def)

lemma warn_runs: "\<exists>es'. warn b msg es = (Inr (), es')"
  by (simp add: warn_def emit_def modifyS_def returnS_def)

lemma policy_of_reader_context:
  "check_kdf_params_against_policy (ac_kdf_params (reader_context ctx g)) policy
     = check_kdf_params_against_policy (ac_kdf_params ctx) policy"
  by (simp add: reader_context_def check_kdf_params_against_policy_def)

text \<open>What the archive of a stream is opened as.\<close>

definition stream_decrypt_job ::
  "encrypt_world \<Rightarrow> encrypt_job \<Rightarrow> ArchiveOpenContext \<Rightarrow> ExpandedKeys \<Rightarrow> ShardInfo \<Rightarrow> decrypt_job" where
  "stream_decrypt_job ew job ctx keys si =
     \<lparr>dj_context = reader_context ctx (pl_global_header (ej_plan job)), dj_keys = ej_keys job,
      dj_reader = new_reader (stream_validation (pl_global_header (ej_plan job))) (ek_header_authentication_key keys)
         ([si], gh_global_chunk_count (pl_global_header (ej_plan job))),
      dj_options = decrypt_options_for (reader_context ctx (pl_global_header (ej_plan job))) [si_public_header_hash si]\<rparr>"

lemma archive_opens:
  assumes "stream_encrypted ew ep job ctx keys stream cs mac file" "reads_back ew ep dw dp file"
    "\<not> all_zero (ek_header_authentication_key keys)"
  defines "g \<equiv> pl_global_header (ej_plan job)" and "pay \<equiv> payload (map record_of_frame cs)"
  shows "\<exists>p es'. dw_files dw p = Some file
     \<and> open_archive dw dp es = (Inr (stream_decrypt_job ew job ctx keys (stream_info (kl_blake3 (ew_libs ew)) p g pay mac)), es')"
proof -
  from assms(2) obtain dir p where dir: "dw_dir dw = Some dir" "filter (\<lambda>(q, regular). regular \<and> has_bin_extension q) dir = [(p, True)]"
    "dw_files dw p = Some file" and same: "dw_libs dw = ew_libs ew" "dw_hmac dw = ew_hmac ew"
    "dp_passphrase dp = ep_passphrase ep" "dp_keyfiles dp = ep_keyfiles ep"
    and policy: "check_kdf_params_against_policy (preset_params (ep_kdf_preset ep)) (dp_kdf_policy dp) = Inr ()"
    by (auto simp: reads_back_def)
  let ?si = "stream_info (kl_blake3 (ew_libs ew)) p g pay mac"
  from assms(1) obtain w where job: "stream_job ew ep job ctx keys w" by (auto simp: stream_encrypted_def)
  from job obtain salt archive_id where ctx: "make_encrypt_context salt archive_id ep = Inr ctx" by (auto simp: stream_job_def)
  from job have v: "validate_encrypt_params (ew_fs ew) ep = Inr ()"
    and pl: "encrypt_plan (kl_blake3 (ew_libs ew)) ep ctx (ej_raw_plaintext_size job) = Inr (ej_plan job)"
    and keys: "derive_expanded_keys (ew_libs ew) ctx (ep_passphrase ep) (ep_keyfiles ep) = Inr keys"
    "ej_keys job = keys\<lparr>ek_header_authentication_key := []\<rparr>"
    by (simp_all add: stream_job_def)
  from assms(1) have h: "planned_header g stream" "stream_frames_ok (unat (gh_chunk_plain_size g)) stream cs"
    and image: "file = global_bytes g @ shard_bytes (stream_shard g pay mac) @ pay" and mac: "length mac = 32"
    "verify_shard_header_mac (ew_hmac ew) (ek_header_authentication_key keys) g (stream_shard g pay mac) = Inr True"
    and small: "272 + length pay < 2 ^ 63"
    unfolding stream_encrypted_def g_def pay_def by blast+
  from h(1) have g: "valid_global g" "gh_shard_count g = 1" by (simp_all add: planned_header_def)
  have "0 < length pay" using stream_payload_length [OF h(2)] planned_not_empty [OF h(1)] planned_layout(2) [OF h]
    by (simp add: pay_def frame_len_def sum.atLeast_Suc_lessThan)
  then have info: "read_shard_info (kl_blake3 (ew_libs ew)) (dw_files dw) p = Inr ?si"
    using read_stream_info [OF _ mac(1) g] dir(3) image small by simp
  have disc: "discover (kl_blake3 (ew_libs ew)) (dw_files dw) (Some dir) = Inr [?si]"
    using read_entries_single [OF dir(2) info] by (simp add: discover_def)
  have found: "make_decrypt_context_from_shards [?si] = Inr (reader_context ctx g)"
    unfolding g_def by (rule reader_context_found [OF ctx pl v]) simp_all
  have pol: "check_kdf_params_against_policy (ac_kdf_params (reader_context ctx g)) (dp_kdf_policy dp) = Inr ()"
    using policy preset_of_context(2) [OF ctx] by (simp add: policy_of_reader_context)
  have dkeys: "derive_expanded_keys (ew_libs ew) (reader_context ctx g) (ep_passphrase ep) (ep_keyfiles ep) = Inr keys"
    using keys by (simp add: reader_keys)
  have val: "\<lparr>rv_suite_id = Some (suite_to_aead_alg_id (ac_suite (reader_context ctx g))),
        rv_archive_id = Some (ac_archive_id (reader_context ctx g)),
        rv_chunk_plain_size = Some (ac_chunk_plain_size (reader_context ctx g)), rv_public_header_hash = None\<rparr> = stream_validation g"
    using preset_of_context [OF ctx] planned_fields [OF pl] encrypt_context_fields(1) [OF ctx] encrypt_context_constants(15) [OF ctx]
      ucast_chunk_size(1) [OF v] by (simp add: stream_validation_def reader_context_def g_def)
  have reader: "new_ShardReader (ew_hmac ew) [?si] (ek_header_authentication_key keys) (stream_validation g)
      = Inr (new_reader (stream_validation g) (ek_header_authentication_key keys) ([?si], gh_global_chunk_count g))"
    by (rule stream_reader [OF g expanded_header_key [OF keys(1)] assms(3) mac(2)])
  obtain es' where "fire_progress (dp_on_progress dp) KdfPhase 0 0 es = (Inr (), es')" using fire_progress_runs by blast
  then have "open_archive dw dp es = (Inr (stream_decrypt_job ew job ctx keys ?si), es')"
    by (simp add: open_archive_def bindS_def liftS_def returnS_def dir(1) same disc found pol dkeys mac(2) val reader
        stream_decrypt_job_def keys(2) shard_hashes_single flip: g_def)
  then show ?thesis using dir(3) by blast
qed

lemma stream_ready:
  assumes "stream_encrypted ew ep job ctx keys stream cs mac img" "files p = Some img"
    "\<not> all_zero (ek_header_authentication_key keys)" "sodium_aead_ok (ew_sodium ew)" "evp_gcm_ok (ew_gcm ew)"
  defines "g \<equiv> pl_global_header (ej_plan job)" and "pay \<equiv> payload (map record_of_frame cs)"
  defines "si \<equiv> stream_info (kl_blake3 (ew_libs ew)) p g pay mac"
  defines "dj \<equiv> stream_decrypt_job ew job ctx keys si"
  shows "new_ShardReader (ew_hmac ew) [si] (ek_header_authentication_key keys) (stream_validation g) = Inr (dj_reader dj)
    \<and> stored files (sr_shards (dj_reader dj)) [map record_of_frame cs]
    \<and> (\<forall>n<length (concat [map record_of_frame cs]). record_ok (sr_shards (dj_reader dj))
          (gh_global_chunk_count (si_global_header (hd [si]))) n (concat [map record_of_frame cs] ! n))
    \<and> validate_decrypt_pipeline_inputs (dj_options dj) (ej_backend job) (dj_keys dj) = Inr ()
    \<and> (\<exists>ps. archive_decrypts (kl_hkdf (ew_libs ew)) (dj_options dj) (ej_backend job) (dj_keys dj)
          (concat [map record_of_frame cs]) ps \<and> ps \<noteq> [] \<and> concat ps = stream)"
proof -
  let ?lib = "kl_hkdf (ew_libs ew)"
  from assms(1) obtain w where job: "stream_job ew ep job ctx keys w" by (auto simp: stream_encrypted_def)
  from job obtain salt archive_id where ctx: "make_encrypt_context salt archive_id ep = Inr ctx" by (auto simp: stream_job_def)
  from job have v: "validate_encrypt_params (ew_fs ew) ep = Inr ()"
    and be: "make_backend (ew_sodium ew) (ew_gcm ew) (ac_suite ctx) = Inr (ej_backend job)"
    and keys: "derive_expanded_keys (ew_libs ew) ctx (ep_passphrase ep) (ep_keyfiles ep) = Inr keys"
    "ej_keys job = keys\<lparr>ek_header_authentication_key := []\<rparr>"
    and opts: "ej_options job = encrypt_options_for ep ctx (ej_plan job)"
    by (simp_all add: stream_job_def)
  from assms(1) have h: "planned_header g stream" "stream_frames_ok (unat (gh_chunk_plain_size g)) stream cs"
    and image: "img = global_bytes g @ shard_bytes (stream_shard g pay mac) @ pay" and mac: "length mac = 32"
    "verify_shard_header_mac (ew_hmac ew) (ek_header_authentication_key keys) g (stream_shard g pay mac) = Inr True"
    and small: "272 + length pay < 2 ^ 63" and inputs: "validate_encrypt_pipeline_inputs (ej_options job) (ej_backend job) (ej_keys job) = Inr ()"
    and frames: "frames_of_stream ?lib (ej_options job) (ej_backend job) (ej_keys job) stream cs"
    and hashes: "map sp_public_header_hash (pl_shards (ej_plan job)) = [si_public_header_hash si]"
    unfolding stream_encrypted_def si_def g_def pay_def stream_info_def ShardInfo.simps by blast+
  from h(1) have g: "valid_global g" "gh_shard_count g = 1" "unat (gh_padded_plaintext_size g) = length stream" by (simp_all add: planned_header_def)
  have chunk: "ac_chunk_plain_size ctx = ep_chunk_size ep" by (rule encrypt_context_fields(1) [OF ctx])
  have eopts: "ep_chunk_plain_size (ej_options job) = ep_chunk_size ep" "ep_archive_id (ej_options job) = ac_archive_id ctx"
    "Encrypt_Pipeline.select_public_header_hash (ej_options job) 0 = si_public_header_hash si"
    using hashes by (simp_all add: opts encrypt_options_for_def Let_def Encrypt_Pipeline.select_public_header_hash_def)
  have dopts: "dp_chunk_plain_size (dj_options dj) = ep_chunk_size ep" "dp_archive_id (dj_options dj) = ac_archive_id ctx"
    "Decrypt_Pipeline.select_public_header_hash (dj_options dj) 0 = si_public_header_hash si"
    "dp_padded_plaintext_size (dj_options dj) = gh_padded_plaintext_size g"
    by (simp_all add: dj_def stream_decrypt_job_def decrypt_options_for_def reader_context_def chunk g_def
        Decrypt_Pipeline.select_public_header_hash_def)
  have "same_archive_options (ej_options job) (dj_options dj) 0" using eopts dopts by (simp add: same_archive_options_def)
  moreover have "dp_padded_plaintext_size (dj_options dj) = of_nat (length stream)" using g(3) dopts(4) by (metis of_nat_unat ucast_id)
  moreover have "0 < ep_chunk_plain_size (ej_options job)" using ucast_chunk_size(2) [OF v] by (simp add: eopts)
  ultimately obtain ps where ps: "archive_decrypts ?lib (dj_options dj) (ej_backend job) (ej_keys job) (map record_of_frame cs) ps"
    "concat ps = stream"
    using stream_archive_decrypts [OF frames made_backend(1) [OF be assms(4,5)] _ h(2)] by blast
  have "ps \<noteq> []" using ps(2) planned_not_empty [OF h(1)] by auto
  have reader: "new_ShardReader (ew_hmac ew) [si] (ek_header_authentication_key keys) (stream_validation g) = Inr (dj_reader dj)"
    using stream_reader [OF g(1,2) expanded_header_key [OF keys(1)] assms(3) mac(2)]
    by (simp add: dj_def stream_decrypt_job_def g_def si_def)
  have "sr_shards (dj_reader dj) = [si]" by (simp add: dj_def stream_decrypt_job_def new_reader_def)
  then have stored: "stored files (sr_shards (dj_reader dj)) [map record_of_frame cs]"
    using stream_stored [OF h _ mac(1), of files p "kl_blake3 (ew_libs ew)"] assms(2) image small by (simp add: pay_def si_def)
  have ok: "\<forall>n<length (concat [map record_of_frame cs]). record_ok (sr_shards (dj_reader dj))
      (gh_global_chunk_count (si_global_header (hd [si]))) n (concat [map record_of_frame cs] ! n)"
    using stream_records_ok [OF h] \<open>sr_shards (dj_reader dj) = [si]\<close> by (simp add: si_def)
  have "validate_decrypt_pipeline_inputs (dj_options dj) (ej_backend job) (ej_keys job) = Inr ()"
    using inputs by (simp add: validate_encrypt_pipeline_inputs_def validate_decrypt_pipeline_inputs_def bindr_eq_Inr eopts dopts)
  moreover have "dj_keys dj = ej_keys job" by (simp add: dj_def stream_decrypt_job_def)
  ultimately show ?thesis using reader stored ok ps \<open>ps \<noteq> []\<close> by auto
qed

text \<open>Some schedule of the pipeline completes, and every one that does has the same outcome.\<close>

lemma run_decrypt_stored_ends:
  assumes "new_ShardReader hmac shards key v = Inr sr" "stored files (sr_shards sr) css"
    "\<forall>n<length (concat css). record_ok (sr_shards sr) (gh_global_chunk_count (si_global_header (hd shards))) n (concat css ! n)"
    "archive_decrypts lib opts be keys (concat css) ps" "ps \<noteq> []"
    "bindS (consume (concat ps)) (\<lambda>_. finish) xr = (Inr (), xr')"
    "validate_decrypt_pipeline_inputs opts be keys = Inr ()"
  shows "\<exists>ts. run_decrypt lib hw opts (Some be) keys (\<lambda>_. files) ts sr xr = Some (Inr (), xr')"
proof -
  let ?code = "decrypt_code lib opts be keys (\<lambda>_. files)"
  from stored_archive_decrypts [OF assms(1-6)] obtain js rs where
    q: "sequential_run ?code (sr, 0) \<lparr>pt_archive_reader = xr, pt_total_plaintext_bytes = 0\<rparr> js rs
      \<lparr>pt_archive_reader = xr', pt_total_plaintext_bytes = of_nat (length (concat ps))\<rparr>" and i: "indexed ?code (sr, 0)"
    by blast
  obtain ts s where "run_schedule ?code ts (start_decrypt hw opts sr xr) = Some s" "all_done s" "pipeline_result s = Inr ()"
      "ps_snk s = \<lparr>pt_archive_reader = xr', pt_total_plaintext_bytes = of_nat (length (concat ps))\<rparr>"
    unfolding start_decrypt_def Let_def using complete_schedule [OF q i resolve_worker_count_pos] by fastforce
  then have "run_decrypt lib hw opts (Some be) keys (\<lambda>_. files) ts sr xr = Some (Inr (), xr')"
    by (simp only: run_decrypt_def assms(7) option.case sum.case if_True plaintext_consumer.simps)
  then show ?thesis by blast
qed

lemma stream_extracted:
  assumes "stream_encrypted ew ep job ctx keys stream cs mac img" "reads_back ew ep dw dp img"
    "\<not> all_zero (ek_header_authentication_key keys)" "sodium_aead_ok (ew_sodium ew)" "evp_gcm_ok (ew_gcm ew)"
    "\<not> (dp_lock_memory dp \<and> dp_require_lock_memory dp)" "validate_decrypt_params (dw_fs dw) dp = Inr ()"
    "create_directories (dp_output dp) tree = (Inr True, tree1)"
    "new_ArchiveReader (extraction_options dw dp) (dw_temp_suffix dw) tree1 = (Inr xr, tree2)"
    "bindS (consume stream) (\<lambda>_. finish) xr = (Inr (), xr')"
  shows "(\<exists>ts des. core_decrypt (dw\<lparr>dw_schedule := ts\<rparr>) dp tree = Some (Inr (), des, xr_tree (destroy_ArchiveReader xr')))
    \<and> (\<forall>res des tree'. core_decrypt dw dp tree = Some (res, des, tree') \<longrightarrow>
         res = Inr () \<and> tree' = xr_tree (destroy_ArchiveReader xr'))"
proof -
  have "\<exists>es. enforce_memory_lock_policy (dp_lock_memory dp) (dp_require_lock_memory dp) (dw_lock dw) [] = (Inr (), es)"
    using assms(6) by (simp add: enforce_memory_lock_policy_def emit_def modifyS_def returnS_def)
  then obtain es1 where e1: "enforce_memory_lock_policy (dp_lock_memory dp) (dp_require_lock_memory dp) (dw_lock dw) [] = (Inr (), es1)"
    by blast
  obtain es2 where e2: "warn (dp_hardened_extract dp = CliHardenedOff \<and> dp_on_warning dp)
            ''WARNING: --hardened-extract=off disables TOCTOU-hardened extraction. The portable backend is not protected against symlink races. Use the default (auto) or --hardened-extract=on for untrusted archives.'' es1 = (Inr (), es2)"
    using warn_runs by blast
  obtain es3 where e3: "fire_progress (dp_on_progress dp) Validating 0 0 es2 = (Inr (), es3)" using fire_progress_runs by blast
  let ?g = "pl_global_header (ej_plan job)" and ?pay = "payload (map record_of_frame cs)"
  obtain p es4 where p: "dw_files dw p = Some img" "open_archive dw dp es3 = (Inr (stream_decrypt_job ew job ctx keys
       (stream_info (kl_blake3 (ew_libs ew)) p ?g ?pay mac)), es4)"
    using archive_opens [OF assms(1-3), of es3] by blast
  let ?dj = "stream_decrypt_job ew job ctx keys (stream_info (kl_blake3 (ew_libs ew)) p ?g ?pay mac)"
  from assms(2) have same: "dw_reads dw = (\<lambda>_. dw_files dw)" "dw_sodium dw = ew_sodium ew" "dw_gcm dw = ew_gcm ew" "dw_libs dw = ew_libs ew"
    by (simp_all add: reads_back_def)
  from assms(1) obtain w where job: "stream_job ew ep job ctx keys w" by (auto simp: stream_encrypted_def)
  then have be: "make_backend (ew_sodium ew) (ew_gcm ew) (ac_suite (dj_context ?dj)) = Inr (ej_backend job)"
    by (simp add: stream_job_def stream_decrypt_job_def reader_context_def)
  from stream_ready [where files = "dw_files dw" and p = p, OF assms(1) p(1) assms(3-5)] obtain ps where ready:
    "new_ShardReader (ew_hmac ew) [stream_info (kl_blake3 (ew_libs ew)) p ?g ?pay mac] (ek_header_authentication_key keys)
       (stream_validation ?g) = Inr (dj_reader ?dj)"
    "stored (dw_files dw) (sr_shards (dj_reader ?dj)) [map record_of_frame cs]"
    "\<forall>n<length (concat [map record_of_frame cs]). record_ok (sr_shards (dj_reader ?dj))
          (gh_global_chunk_count (si_global_header (hd [stream_info (kl_blake3 (ew_libs ew)) p ?g ?pay mac]))) n
          (concat [map record_of_frame cs] ! n)"
    "archive_decrypts (kl_hkdf (ew_libs ew)) (dj_options ?dj) (ej_backend job) (dj_keys ?dj) (concat [map record_of_frame cs]) ps"
    "ps \<noteq> []" "bindS (consume (concat ps)) (\<lambda>_. finish) xr = (Inr (), xr')"
    and valid: "validate_decrypt_pipeline_inputs (dj_options ?dj) (ej_backend job) (dj_keys ?dj) = Inr ()"
    using assms(10) by blast
  let ?run = "\<lambda>ts. run_decrypt (kl_hkdf (ew_libs ew)) (dw_hardware_concurrency dw) (dj_options ?dj) (Some (ej_backend job)) (dj_keys ?dj)
       (\<lambda>_. dw_files dw) ts (dj_reader ?dj) xr"
  have open_same: "open_archive (dw\<lparr>dw_schedule := ts\<rparr>) = open_archive dw" "extraction_options (dw\<lparr>dw_schedule := ts\<rparr>) = extraction_options dw" for ts
    by (simp_all add: fun_eq_iff open_archive_def extraction_options_def)
  obtain ts where "?run ts = Some (Inr (), xr')" using run_decrypt_stored_ends [OF ready valid] by blast
  then have "\<exists>des. core_decrypt (dw\<lparr>dw_schedule := ts\<rparr>) dp tree = Some (Inr (), des, xr_tree (destroy_ArchiveReader xr'))"
    by (simp add: core_decrypt_def bindS_def liftS_def returnS_def e1 e2 e3 p(2) assms(7-9) extract_archive_def same be Let_def open_same)
  moreover have "res = Inr () \<and> tree' = xr_tree (destroy_ArchiveReader xr')" if "core_decrypt dw dp tree = Some (res, des, tree')" for res des tree'
  proof -
    from that obtain r x' where run: "?run (dw_schedule dw) = Some (r, x')"
      and res: "r = Inr () \<longrightarrow> res = Inr () \<and> tree' = xr_tree (destroy_ArchiveReader x')"
      by (auto simp: core_decrypt_def bindS_def liftS_def returnS_def e1 e2 e3 p(2) assms(7-9) extract_archive_def same be Let_def
          split: option.splits sum.splits)
    from run_decrypt_stored [OF ready valid run] res show ?thesis by simp
  qed
  ultimately show ?thesis by blast
qed

subsection \<open>The round trip\<close>

lemma stream_writer_key:
  "new_StdoutShardWriter opts out = Inr w \<Longrightarrow> \<not> all_zero (oo_header_authentication_key opts)"
  by (auto simp: new_StdoutShardWriter_def validate_stdout_options_def bindr_eq_Inr split: option.splits)

lemma core_stream_extracts:
  assumes "prepare_encrypt ew ep [] = (Inr job, es0)" "core_encrypt ew ep = Some (Inr (), es, Some (StreamWriter w'))"
    "ep_stdout_stream ep" "os_written (ew_stream ew) = []" "length (os_written (sd_out w')) < 2 ^ 63"
    "\<forall>outs a'. emits (ew_view ew) (ej_archive_writer job) outs a' \<longrightarrow> length (concat outs) < 2 ^ 64"
    "ej_raw_plaintext_size job \<noteq> 0" "\<forall>n k bs. ew_random ew n k = Inr bs \<longrightarrow> length bs = k"
    "sodium_aead_ok (ew_sodium ew)" "evp_gcm_ok (ew_gcm ew)"
    "reads_back ew ep dw dp (os_written (sd_out w'))"
    "\<not> (dp_lock_memory dp \<and> dp_require_lock_memory dp)" "validate_decrypt_params (dw_fs dw) dp = Inr ()"
  shows "\<exists>outs a'. all_emitted (ew_view ew) (ej_archive_writer job) outs a'
    \<and> (\<forall>tree tree1 xr tree2 xr'. create_directories (dp_output dp) tree = (Inr True, tree1)
        \<longrightarrow> new_ArchiveReader (extraction_options dw dp) (dw_temp_suffix dw) tree1 = (Inr xr, tree2)
        \<longrightarrow> bindS (consume (concat outs)) (\<lambda>_. finish) xr = (Inr (), xr')
        \<longrightarrow> (\<exists>ts des. core_decrypt (dw\<lparr>dw_schedule := ts\<rparr>) dp tree = Some (Inr (), des, xr_tree (destroy_ArchiveReader xr')))
          \<and> (\<forall>res des tree'. core_decrypt dw dp tree = Some (res, des, tree') \<longrightarrow>
               res = Inr () \<and> tree' = xr_tree (destroy_ArchiveReader xr')))"
proof -
  obtain ctx keys stream cs mac where e: "stream_encrypted ew ep job ctx keys stream cs mac (os_written (sd_out w'))"
    using core_encrypt_stream [OF assms(1-10)] by blast
  then have "\<not> all_zero (ek_header_authentication_key keys)"
    by (auto simp: stream_encrypted_def stream_job_def dest!: stream_writer_key)
  from stream_extracted [OF e assms(11) this assms(9,10,12,13)] e show ?thesis
    unfolding stream_encrypted_def by blast
qed

text \<open>C3: What \<open>core_encrypt\<close> writes to an output stream, \<open>core_decrypt\<close> extracts.  Let an encryption to a
  stream succeed, under whatever schedule of its threads, and let the bytes on the stream be the
  only \<open>.bin\<close> file of the directory given to a decryption with the same passphrase, keyfiles and
  libraries.  Then the records of the archive that were encrypted are such that, whenever an
  \<open>ArchiveReader\<close> takes them as one stream without an error, some schedule of the decryption completes, and
  every schedule that completes succeeds and leaves the tree that this \<open>ArchiveReader\<close> leaves.\<close>

theorem core_stream_roundtrip:
  assumes "prepare_encrypt ew ep [] = (Inr job, es0)" "core_encrypt ew ep = Some (Inr (), es, Some (StreamWriter w'))"
    "ep_stdout_stream ep" "os_written (ew_stream ew) = []" "length (os_written (sd_out w')) < 2 ^ 63"
    "\<forall>outs a'. emits (ew_view ew) (ej_archive_writer job) outs a' \<longrightarrow> length (concat outs) < 2 ^ 64"
    "ej_raw_plaintext_size job \<noteq> 0" "\<forall>n k bs. ew_random ew n k = Inr bs \<longrightarrow> length bs = k"
    "sodium_aead_ok (ew_sodium ew)" "evp_gcm_ok (ew_gcm ew)"
    "reads_back ew ep dw dp (os_written (sd_out w'))"
    "\<not> (dp_lock_memory dp \<and> dp_require_lock_memory dp)" "validate_decrypt_params (dw_fs dw) dp = Inr ()"
  shows "\<exists>outs a'. all_emitted (ew_view ew) (ej_archive_writer job) outs a'
    \<and> (\<forall>tree tree1 xr tree2 xr'. create_directories (dp_output dp) tree = (Inr True, tree1)
        \<longrightarrow> new_ArchiveReader (extraction_options dw dp) (dw_temp_suffix dw) tree1 = (Inr xr, tree2)
        \<longrightarrow> bindS (consume (concat outs)) (\<lambda>_. finish) xr = (Inr (), xr')
        \<longrightarrow> (\<exists>ts des. core_decrypt (dw\<lparr>dw_schedule := ts\<rparr>) dp tree = Some (Inr (), des, xr_tree (destroy_ArchiveReader xr')))
          \<and> (\<forall>res des tree'. core_decrypt dw dp tree = Some (res, des, tree') \<longrightarrow>
               res = Inr () \<and> tree' = xr_tree (destroy_ArchiveReader xr')))"
  by (rule core_stream_extracts [OF assms])

subsection \<open>A concrete round trip\<close>

text \<open>An empty directory, its archive on a stream, and a stub for every library.\<close>

definition trip_input :: file_tree where
  "trip_input = \<lparr>ft_entries = [([''in''], fresh Dir)], ft_cwd = [], ft_clock = 0, ft_fault = \<lambda>_. False\<rparr>"

definition trip_view :: input_view where
  "trip_view = \<lparr>iv_tree = \<lambda>_. trip_input, iv_mode = \<lambda>_ _. 0, iv_mtime = \<lambda>_ _. None\<rparr>"

definition trip_params :: CoreEncryptParams where
  "trip_params = sample_params\<lparr>ep_input := ''/in'', ep_stdout_stream := True,
     ep_padding := \<lparr>pp_kind = PaddingNone, pp_fixed_size_bytes = 0\<rparr>\<rparr>"

definition trip_sodium :: sodium_lib where
  "trip_sodium = \<lparr>so_init = 0, so_encrypt = \<lambda>k n a m. Some (m @ replicate 16 3), so_decrypt = \<lambda>k n a c. Some (take (length c - 16) c)\<rparr>"

definition trip_gcm :: evp_gcm_lib where
  "trip_gcm = \<lparr>eg_has_hardware_aes = True, eg_step_ok = \<lambda>_. True, eg_encrypt = \<lambda>k n a m. (m, replicate 16 3),
     eg_decrypt = \<lambda>k n a c t. Some c\<rparr>"

definition trip_stream :: ostream where
  "trip_stream = \<lparr>os_written = [], os_good = True, os_clock = 0, os_fault = \<lambda>_. None\<rparr>"

definition trip_encrypt_world :: "disk \<Rightarrow> fsync_os \<Rightarrow> thread list \<Rightarrow> encrypt_world" where
  "trip_encrypt_world d fs ts = \<lparr>ew_lock = LockSuccess, ew_fs = sample_fs, ew_create_output_ok = True,
     ew_random = \<lambda>n k. Inr (replicate k 4), ew_sodium = trip_sodium, ew_gcm = trip_gcm, ew_libs = sample_kdf_libs,
     ew_hmac = tiny_hmac, ew_tree = trip_input, ew_walk_end = None, ew_view = trip_view, ew_stream = trip_stream,
     ew_disk = d, ew_fsync = fs, ew_hardware_concurrency = 0, ew_schedule = ts\<rparr>"

definition trip_writer :: ArchiveWriter where
  "trip_writer = \<lparr>aw_options = \<lparr>ao_input_root = ''/in'', ao_chunk_plain_size = 65536, ao_preserve_timestamps = True,
       ao_preserve_permissions = True, ao_include_symlinks = False\<rparr>, aw_entries = [],
     aw_entry_index = 0, aw_emitted_begin = False, aw_emitted_end = False,
     aw_current_file = [], aw_current_file_eof = False, aw_current_file_open = False,
     aw_file_bytes_payload_size = payload_size_for 65536,
     aw_trailing_padding_record = None, aw_trailing_padding_emitted = False,
     aw_current_file_expected_bytes = 0, aw_current_file_bytes_read = 0, aw_current_file_pos = 0,
     aw_bytes_produced = 0, aw_calls = 0\<rparr>"

lemma trip_new_writer:
  "new_ArchiveWriter \<lparr>ao_input_root = ''/in'', ao_chunk_plain_size = 65536, ao_preserve_timestamps = True,
       ao_preserve_permissions = True, ao_include_symlinks = False\<rparr> trip_input None = Inr trip_writer"
proof -
  have "weakly_canonical trip_input ''/in'' = Some [''in'']" "is_dir trip_input [''in'']" "iterate trip_input [''in''] None = []"
    by code_simp+
  then show ?thesis unfolding new_ArchiveWriter_def by (simp add: walk_directory_eq trip_writer_def absolute_path_def)
qed

lemma trip_planned: "plan_plaintext_size trip_view trip_writer = (Inr 22, trip_writer)"
  by (simp add: plan_plaintext_size_def trip_writer_def getS_def bindS_def returnS_def)

definition trip_context :: ArchiveOpenContext where
  "trip_context = (case make_encrypt_context (replicate 32 4) (replicate 32 4) trip_params of Inr c \<Rightarrow> c)"

lemma trip_context_eq:
  "make_encrypt_context (replicate 32 4) (replicate 32 4) trip_params = Inr trip_context"
  by (simp add: trip_context_def make_encrypt_context_def trip_params_def sample_params_def Let_def
      validate_kdf_params_def require_u32_range_def)

definition trip_header :: GlobalPublicHeaderV1 where
  "trip_header = (ac_global_header trip_context)
          \<lparr>gh_padding_policy_id := 0, gh_padding_policy_value := 0, gh_global_chunk_count := 1,
           gh_padded_plaintext_size := 22, gh_final_plaintext_chunk_len := 22,
           gh_max_shard_payload_len := effective_shard_size trip_params, gh_shard_count := 1\<rparr>"

definition trip_plan :: EncryptPlan where
  "trip_plan = \<lparr>pl_global_header = trip_header,
     pl_shards = [\<lparr>sp_shard_index = 0, sp_first_chunk_index = 0, sp_chunk_count = 1, sp_payload_len = 78,
        sp_public_header_hash = replicate 32 1\<rparr>],
     pl_padded_plaintext_size = 22, pl_padding_payload = None\<rparr>"

lemma trip_plan_shards: "gh_final_plaintext_chunk_len gh = 22 \<Longrightarrow> plan_shards 1 65536 16 (effective_shard_size trip_params) gh
    = Inr [\<lparr>sp_shard_index = 0, sp_first_chunk_index = 0, sp_chunk_count = 1, sp_payload_len = 78,
        sp_public_header_hash = replicate 32 0\<rparr>]"
proof -
  have l: "plan_shards_loop 1 65536 22 16 u64_max 0 0 = Inr [\<lparr>sp_shard_index = 0, sp_first_chunk_index = 0, sp_chunk_count = 1,
     sp_payload_len = 78, sp_public_header_hash = replicate 32 0\<rparr>]" by code_simp
  have "effective_shard_size trip_params = u64_max" by (simp add: effective_shard_size_def trip_params_def)
  then show ?thesis if "gh_final_plaintext_chunk_len gh = 22" using l that
    by (simp add: plan_shards_def chunk_frame_v1_encoded_size_from_params_def Let_def)
qed

lemma trip_context_fields: "ac_chunk_plain_size trip_context = 65536" "global_arrays (ac_global_header trip_context)"
    "gh_chunk_plain_size (ac_global_header trip_context) = 65536" "ac_suite trip_context = XChaCha20Poly1305"
    "ac_kdf_salt trip_context = replicate 32 4" "ac_archive_id trip_context = replicate 32 4"
    "ac_kdf_params trip_context = preset_params Strong"
  using encrypt_context_fields [OF trip_context_eq] encrypt_context_constants [OF trip_context_eq] preset_of_context [OF trip_context_eq]
  by (simp_all add: trip_params_def sample_params_def)

lemma trip_header_arrays: "global_arrays trip_header"
  using trip_context_fields(2) by (simp add: trip_header_def global_arrays_def)

lemma trip_encrypt_plan: "encrypt_plan (\<lambda>_. replicate 32 1) trip_params trip_context 22 = Inr trip_plan"
proof -
  have p: "compute_padding 22 65536 (ep_padding trip_params) = Inr \<lparr>pr_target_size = 22, pr_policy_id = 0, pr_policy_value = 0\<rparr>"
    by (simp add: compute_padding_def trip_params_def)
  have c: "chunk_layout 22 65536 = Inr \<lparr>cl_global_chunk_count = 1, cl_final_plaintext_chunk_len = 22, cl_effective_padded_size = 22\<rparr>"
    by (simp add: chunk_layout_def checked_ceil_div_u64_def Let_def)
  have h: "compute_public_header_hash blake3 trip_header (planned_shard_header sp) = Inr (blake3 (kPublicHeaderHashDomain
      @ auth_input trip_header (planned_shard_header sp)))" for sp blake3
    by (rule public_header_hash_eq [OF trip_header_arrays]) (simp add: planned_shard_header_def shard_arrays_def)
  show ?thesis unfolding encrypt_plan_def Let_def
    by (simp add: trip_context_fields p c trip_plan_shards trip_plan_def h flip: trip_header_def)
qed

definition trip_keys :: ExpandedKeys where
  "trip_keys = \<lparr>ek_chunk_encryption_key = replicate 32 3, ek_manifest_key = replicate 32 3,
     ek_header_authentication_key = replicate 32 3, ek_nonce_derivation_key = replicate 32 3\<rparr>"

lemma trip_derived_keys: "derive_expanded_keys sample_kdf_libs trip_context [112] [] = Inr trip_keys"
proof -
  have "validate_kdf_params (preset_params Strong) = Inr ()" "validate_kdf_security_floor (preset_params Strong) = Inr ()"
    by (simp_all add: validate_kdf_params_def require_u32_range_def validate_kdf_security_floor_def)
  then have "derive_master_seed sample_kdf_libs \<lparr>ki_passphrase = [112], ki_keyfiles = [], ki_salt = replicate 32 4,
       ki_archive_id = replicate 32 4, ki_params = preset_params Strong\<rparr> = Inr (replicate 32 3)"
    by (simp add: derive_master_seed_def sample_kdf_libs_def mix_keyfile_digests_def sample_hkdf_eq ascii_def)
  moreover have "expand_keys sample_hkdf (replicate 32 3) XChaCha20Poly1305 = Inr trip_keys"
    by code_simp
  ultimately show ?thesis by (simp add: derive_expanded_keys_def trip_context_fields) (simp add: sample_kdf_libs_def)
qed

definition trip_stream_options :: StdoutShardWriterOptions where
  "trip_stream_options = \<lparr>oo_global_header = trip_header, oo_header_authentication_key = replicate 32 3,
     oo_per_shard_public_header_hashes = [replicate 32 1]\<rparr>"

definition trip_stream_writer :: StdoutShardWriter where
  "trip_stream_writer = \<lparr>sd_options = trip_stream_options, sd_out = trip_stream,
     sd_buffer = replicate 272 0, sd_payload_offset = 0, sd_chunk_count = 0, sd_next_expected_chunk_index = 0,
     sd_final_chunk_plaintext_len = 0, sd_planned_payload_offset = 0, sd_planned_next_chunk_index = 0,
     sd_finished = False, sd_aborted = False\<rparr>"

lemma trip_new_stream: "new_StdoutShardWriter trip_stream_options (Some trip_stream) = Inr trip_stream_writer"
proof -
  have "\<not> all_zero (replicate 32 (3 :: byte))" "\<not> all_zero (replicate 32 (1 :: byte))" by code_simp+
  moreover have "gh_chunk_plain_size trip_header \<noteq> 0" by (simp add: trip_header_def trip_context_fields)
  ultimately show ?thesis
    by (simp add: new_StdoutShardWriter_def validate_stdout_options_def trip_stream_options_def trip_stream_writer_def)
qed

definition trip_options :: EncryptPipelineOptions where
  "trip_options = \<lparr>ep_chunk_plain_size = 65536, ep_worker_count = 0, ep_queue_depth = 0,
      ep_archive_id = replicate 32 4, ep_per_shard_public_header_hashes = [replicate 32 1],
      ep_public_header_hash = replicate 32 1, ep_emit_final_chunk_when_empty = True, ep_expected_plaintext_bytes = 22\<rparr>"

definition trip_backend :: CryptoBackend where
  "trip_backend = XChaCha20Poly1305Backend trip_sodium"

definition trip_pipeline_keys :: ExpandedKeys where
  "trip_pipeline_keys = trip_keys\<lparr>ek_header_authentication_key := []\<rparr>"

definition trip_job :: encrypt_job where
  "trip_job = \<lparr>ej_backend = trip_backend, ej_keys = trip_pipeline_keys, ej_archive_writer = trip_writer,
     ej_shard_writer = StreamWriter trip_stream_writer, ej_options = trip_options, ej_raw_plaintext_size = 22, ej_plan = trip_plan\<rparr>"

lemma trip_plan_job: "plan_encryption (trip_encrypt_world d fs ts) trip_params trip_context trip_backend trip_keys = Inr trip_job"
proof -
  have pad: "padding_record world trip_params trip_context 22 = Inr None" for world
    by (simp add: padding_record_def compute_padding_def trip_params_def)
  have p: "ep_input trip_params = ''/in''" "ep_chunk_size trip_params = 65536" "ep_stdout_stream trip_params"
    by (simp_all add: trip_params_def sample_params_def)
  have w: "ew_tree (trip_encrypt_world d fs ts) = trip_input" "ew_walk_end (trip_encrypt_world d fs ts) = None"
    "ew_view (trip_encrypt_world d fs ts) = trip_view" "ew_libs (trip_encrypt_world d fs ts) = sample_kdf_libs"
    "ew_stream (trip_encrypt_world d fs ts) = trip_stream"
    by (simp_all add: trip_encrypt_world_def)
  have b: "kl_blake3 sample_kdf_libs = (\<lambda>_. replicate 32 1)" by (simp add: sample_kdf_libs_def)
  have sw: "shard_writer_for (trip_encrypt_world d fs ts) trip_params trip_plan (replicate 32 3) = Inr (StreamWriter trip_stream_writer)"
    using trip_new_stream by (simp add: shard_writer_for_def p w trip_plan_def trip_stream_options_def)
  have o: "encrypt_options_for trip_params trip_context trip_plan = trip_options"
    by (simp add: encrypt_options_for_def trip_options_def p trip_context_fields trip_plan_def)
  show ?thesis unfolding plan_encryption_def p w
    by (simp add: trip_new_writer trip_planned pad trip_encrypt_plan b sw o trip_job_def trip_pipeline_keys_def trip_keys_def)
qed

lemma trip_prepared: "prepare_encrypt (trip_encrypt_world d fs ts) trip_params [] = (Inr trip_job, [])"
proof -
  have v: "validate_encrypt_params sample_fs trip_params = Inr ()"
    by (simp add: validate_encrypt_params_def trip_params_def sample_params_def sample_fs_def require_directory_def
      require_path_exists_def Let_def)
  have p: "\<not> ep_lock_memory trip_params" "\<not> ep_on_warning trip_params" "\<not> ep_on_progress trip_params" "ep_stdout_stream trip_params"
    "ep_passphrase trip_params = [112]" "ep_keyfiles trip_params = []"
    by (simp_all add: trip_params_def sample_params_def)
  have w: "ew_fs (trip_encrypt_world d fs ts) = sample_fs" "ew_random (trip_encrypt_world d fs ts) = (\<lambda>n k. Inr (replicate k 4))"
    "ew_sodium (trip_encrypt_world d fs ts) = trip_sodium" "ew_libs (trip_encrypt_world d fs ts) = sample_kdf_libs"
    by (simp_all add: trip_encrypt_world_def)
  show ?thesis
    by (simp add: prepare_encrypt_def enforce_memory_lock_policy_def warn_def fire_progress_def bindS_def liftS_def returnS_def
        guardS_def p v w trip_context_eq trip_context_fields trip_derived_keys trip_plan_job flip: trip_backend_def)
qed

definition trip_begun :: ArchiveWriter where
  "trip_begun = trip_writer\<lparr>aw_emitted_begin := True, aw_bytes_produced := 13\<rparr>"

definition trip_ended :: ArchiveWriter where
  "trip_ended = trip_writer\<lparr>aw_emitted_begin := True, aw_emitted_end := True, aw_bytes_produced := 22\<rparr>"

definition trip_begin :: bytes where "trip_begin = make_record ArchiveBegin (append_u32_le [] kArchiveFormatVersion)"
definition trip_end :: bytes where "trip_end = make_record ArchiveEnd []"

lemma trip_lengths: "length trip_begin = 13" "length trip_end = 9"
  by code_simp+

lemma trip_records:
  "next_record_bytes trip_view trip_writer = (Inr (Some trip_begin), trip_begun)"
  "next_record_bytes trip_view trip_begun = (Inr (Some trip_end), trip_ended)"
  "next_record_bytes trip_view trip_ended = (Inr None, trip_ended)"
  using trip_lengths
  by (simp_all add: next_record_bytes_def trip_writer_def trip_begun_def trip_ended_def bindS_def op_defs produce_eq
      trip_begin_def [symmetric] trip_end_def [symmetric])

lemma trip_emits: "emits trip_view trip_writer outs a \<Longrightarrow>
    outs = [] \<and> a = trip_writer \<or> outs = [trip_begin] \<and> a = trip_begun \<or> outs = [trip_begin, trip_end] \<and> a = trip_ended"
  by (induction rule: emits.induct) (auto simp: trip_records)

lemma trip_emits_short: "emits trip_view trip_writer outs a \<Longrightarrow> length (concat outs) < 2 ^ 64"
  using trip_emits [of outs a] trip_lengths by auto

lemma trip_all_emitted: "all_emitted trip_view trip_writer outs a \<Longrightarrow> concat outs = trip_begin @ trip_end"
  by (auto simp: all_emitted_def trip_records dest!: trip_emits)

definition trip_frame_header :: ChunkFrameHeaderV1 where
  "trip_frame_header = \<lparr>fh_frame_flags = 1, fh_shard_index = 0, fh_global_chunk_index = 0,
     fh_plaintext_len = 22, fh_ciphertext_len = 22, fh_tag_len = 16\<rparr>"

definition trip_stream_planned :: StdoutShardWriter where
  "trip_stream_planned = trip_stream_writer\<lparr>sd_planned_payload_offset := 78, sd_planned_next_chunk_index := 1\<rparr>"

lemma trip_frame_bytes: "chunk_frame_v1_encoded_size trip_frame_header = Inr 78"
    "serialize_chunk_frame_header_v1 trip_frame_header = Inr (frame_bytes trip_frame_header)"
  by code_simp+

lemma trip_plan_frame:
  "stdout_plan_chunk_frame 0 22 22 16 True trip_stream_writer
     = (Inr \<lparr>pf_position = \<lparr>wp_shard_index = 0, wp_record_offset = 0, wp_chunk_index = 0\<rparr>, pf_header = trip_frame_header,
             pf_header_bytes = frame_bytes trip_frame_header\<rparr>, trip_stream_planned)"
proof -
  have "ucast u32_max \<noteq> (0 :: u64)" "\<not> (22 :: u64) > ucast u32_max" "gh_chunk_plain_size trip_header = 65536"
    using trip_context_fields by (code_simp, code_simp, simp add: trip_header_def)
  then show ?thesis
    using trip_frame_bytes
    by (simp add: stdout_plan_chunk_frame_def trip_stream_planned_def trip_stream_writer_def bindS_def op_defs Let_def
        trip_stream_options_def trip_frame_header_def)
qed

definition trip_chunk :: Encrypt_Pipeline.PlainChunk where
  "trip_chunk = \<lparr>pj_index = 0, pj_frame_header = trip_frame_header, pj_frame_header_bytes = frame_bytes trip_frame_header,
     pj_bytes = trip_begin @ trip_end\<rparr>"

definition trip_producer :: chunk_producer where
  "trip_producer = \<lparr>cp_archive_writer = trip_ended, cp_shard_writer = StreamWriter trip_stream_planned, cp_record = [],
     cp_current_chunk = [], cp_pending_full_chunk = None, cp_next_chunk_index = 1, cp_phase = CompareSize\<rparr>"

lemma trip_produces:
  "next_plain_chunk trip_view trip_options 16 (new_chunk_producer trip_writer (StreamWriter trip_stream_writer))
     = (Inr (Some trip_chunk), trip_producer)"
  "next_plain_chunk trip_view trip_options 16 trip_producer = (Inr None, trip_producer)"
proof -
  have plan: "on_stream_writer (stdout_plan_chunk_frame 0 22 22 16 True) trip_stream_writer
     = (Inr \<lparr>pf_position = \<lparr>wp_shard_index = 0, wp_record_offset = 0, wp_chunk_index = 0\<rparr>, pf_header = trip_frame_header,
             pf_header_bytes = frame_bytes trip_frame_header\<rparr>, StreamWriter trip_stream_planned)"
    by (simp add: on_stream_writer_def trip_plan_frame)
  let ?p = "new_chunk_producer trip_writer (StreamWriter trip_stream_writer)"
  have ne: "trip_begin \<noteq> []" "trip_end \<noteq> []" using trip_lengths by auto
  have "next_full_chunk trip_view 65536 16 ?p = (Inr None, ?p\<lparr>cp_archive_writer := trip_ended, cp_current_chunk := trip_begin @ trip_end\<rparr>)"
    using ne trip_lengths
    by (subst next_full_chunk.simps, simp add: new_chunk_producer_def trip_records, subst next_full_chunk.simps,
        simp add: copy_bytes_def, subst next_full_chunk.simps, simp add: trip_records, subst next_full_chunk.simps,
        simp add: copy_bytes_def, subst next_full_chunk.simps, simp add: trip_records)
  then show "next_plain_chunk trip_view trip_options 16 ?p = (Inr (Some trip_chunk), trip_producer)"
    using trip_lengths ne
    by (simp add: next_plain_chunk_def getS_def bindS_def new_chunk_producer_def trip_options_def last_chunks_def
        modifyS_def planned_chunk_def plan trip_chunk_def trip_producer_def returnS_def Let_def)
  show "next_plain_chunk trip_view trip_options 16 trip_producer = (Inr None, trip_producer)"
    by (simp add: next_plain_chunk_def getS_def bindS_def trip_producer_def compare_size_def guardS_def returnS_def
        trip_options_def trip_ended_def)
qed

definition trip_frame :: Encrypt_Pipeline.CipherChunk where
  "trip_frame = \<lparr>cj_index = 0, cj_frame_header = trip_frame_header, cj_frame_header_bytes = frame_bytes trip_frame_header,
     cj_ciphertext_and_tag = trip_begin @ trip_end @ replicate 16 3\<rparr>"

lemma trip_encrypts: "encrypt_plain_chunk sample_hkdf trip_options trip_backend trip_pipeline_keys trip_chunk = Inr trip_frame"
  by code_simp

definition trip_written :: StdoutShardWriter where
  "trip_written = trip_stream_writer\<lparr>sd_buffer := replicate 272 0 @ frame_bytes trip_frame_header @ trip_begin @ trip_end @ replicate 16 3,
     sd_payload_offset := 78, sd_chunk_count := 1, sd_next_expected_chunk_index := 1, sd_final_chunk_plaintext_len := 22\<rparr>"

lemma trip_write: "stdout_write_chunk_frame trip_frame_header (frame_bytes trip_frame_header) (trip_begin @ trip_end @ replicate 16 3) trip_stream_writer
    = (Inr \<lparr>wp_shard_index = 0, wp_record_offset = 0, wp_chunk_index = 0\<rparr>, trip_written)"
  using trip_frame_bytes trip_lengths
  by (simp add: stdout_write_chunk_frame_def stdout_write_checks_def trip_written_def trip_stream_writer_def bindS_def op_defs Let_def
        trip_stream_options_def trip_frame_header_def trip_header_def trip_context_fields)

lemma trip_finished: "\<exists>w. stdout_finish tiny_hmac trip_written = (Inr (), w) \<and> sd_finished w \<and> length (os_written (sd_out w)) = 350"
proof -
  have g: "stdout_global_header trip_written = Inr trip_header"
    by (simp add: stdout_global_header_def trip_written_def trip_stream_writer_def trip_stream_options_def Let_def
        checked_mul_u64_def checked_add_u64_def trip_header_def)
  have m: "compute_shard_header_mac tiny_hmac (oo_header_authentication_key (sd_options trip_written)) trip_header (stdout_shard_header trip_written)
      = Inr (replicate 32 0)"
    using trip_header_arrays by (simp add: compute_shard_header_mac_def serialize_global_eq serialize_shard_for_mac_eq checked_int_size_def
        trip_written_def trip_stream_writer_def trip_stream_options_def stdout_shard_header_def shard_arrays_def)
  have s: "\<not> sd_finished trip_written" "os_good (sd_out trip_written)" "\<And>n. os_fault (sd_out trip_written) n = None"
    by (simp_all add: trip_written_def trip_stream_writer_def trip_stream_def)
  obtain w where w: "stdout_finish tiny_hmac trip_written = (Inr (), w)"
    using stdout_finish_ok [OF s(1) g trip_header_arrays m s(2,3)] by blast
  obtain mac where mac: "compute_shard_header_mac tiny_hmac (oo_header_authentication_key (sd_options trip_written)) trip_header
      (stdout_shard_header trip_written) = Inr mac" "os_written (sd_out w) = os_written (sd_out trip_written) @ shard_image trip_header mac trip_written"
    "sd_finished w" by (rule stdout_finish_Inr [OF w s(1) g trip_header_arrays])
  have "length (shard_image trip_header mac trip_written) = 350"
    using length_global_bytes [OF trip_header_arrays] length_shard_bytes [OF completed_shard_arrays [OF shard_header_mac_length [OF mac(1)], of trip_written]]
      trip_lengths length_frame_bytes [of trip_frame_header] by (simp add: shard_image_def trip_written_def trip_stream_writer_def)
  then show ?thesis using w mac by (auto simp: trip_written_def trip_stream_writer_def trip_stream_def)
qed

lemma trip_run:
  "\<exists>ts w. run_encrypt sample_hkdf tiny_hmac 0 trip_options (Some trip_backend) trip_pipeline_keys trip_view ts
     trip_writer (StreamWriter trip_stream_writer) = Some (Inr (), StreamWriter w)
     \<and> sd_finished w \<and> length (os_written (sd_out w)) = 350"
proof -
  let ?code = "encrypt_code sample_hkdf tiny_hmac trip_options trip_backend trip_pipeline_keys trip_view"
  let ?src = "new_chunk_producer trip_writer (StreamWriter trip_stream_writer)" and ?snk = "StreamWriter trip_stream_writer"
  have tag: "checked_tag_size trip_backend = Inr 16"
    by (simp add: checked_tag_size_def trip_backend_def XChaCha20Poly1305Backend_def)
  then have v: "validate_encrypt_pipeline_inputs trip_options trip_backend trip_pipeline_keys = Inr ()"
    by (simp add: validate_encrypt_pipeline_inputs_def checked_chunk_size_def trip_options_def trip_backend_def
        XChaCha20Poly1305Backend_def trip_pipeline_keys_def trip_keys_def)
  obtain w where w: "stdout_finish tiny_hmac trip_written = (Inr (), w)" "sd_finished w" "length (os_written (sd_out w)) = 350"
    using trip_finished by blast
  have "yields ?code ?src [trip_chunk] trip_producer"
    using yields_next [OF yields_none [of ?code ?src], of trip_chunk trip_producer] by (simp add: tag trip_produces)
  then have "all_given ?code ?src [trip_chunk]" by (auto simp: all_given_def tag trip_produces intro!: exI [of _ trip_producer])
  moreover have "results_of ?code [trip_chunk] [trip_frame]" by (simp add: results_of_def trip_encrypts)
  moreover have "bindS (put_all ?code [trip_frame]) (\<lambda>_. pc_end ?code) ?snk = (Inr (), StreamWriter w)"
    by (simp add: bindS_def write_cipher_chunk_def trip_frame_def on_stream_writer_def trip_write returnS_def w(1))
  ultimately have seq: "sequential_run ?code ?src ?snk [trip_chunk] [trip_frame] (StreamWriter w)" by (simp add: sequential_run_def)
  have idx: "indexed ?code ?src"
    by (rule encrypt_indexed) (use trip_emits_short in \<open>auto simp: trip_options_def\<close>)
  from complete_schedule [OF seq idx resolve_worker_count_pos [of 0 0], of "resolve_queue_depth 0 (unat (resolve_worker_count 0 0))"]
  obtain ts s where "run_schedule ?code ts (start_encrypt 0 trip_options trip_writer ?snk) = Some s"
    "all_done s" "pipeline_result s = Inr ()" "ps_snk s = StreamWriter w"
    unfolding start_encrypt_def Let_def by (fastforce simp: trip_options_def)
  then have "run_encrypt sample_hkdf tiny_hmac 0 trip_options (Some trip_backend) trip_pipeline_keys trip_view ts
     trip_writer (StreamWriter trip_stream_writer) = Some (Inr (), StreamWriter w)"
    by (simp only: run_encrypt_def v option.case sum.case if_True)
  then show ?thesis using w by blast
qed

lemma trip_core_encrypt:
  "\<exists>ts es w. core_encrypt (trip_encrypt_world d fs ts) trip_params = Some (Inr (), es, Some (StreamWriter w))
     \<and> length (os_written (sd_out w)) = 350"
proof -
  obtain ts w where run: "run_encrypt sample_hkdf tiny_hmac 0 trip_options (Some trip_backend) trip_pipeline_keys trip_view ts
     trip_writer (StreamWriter trip_stream_writer) = Some (Inr (), StreamWriter w)" "sd_finished w" "length (os_written (sd_out w)) = 350"
    using trip_run by blast
  have "kl_hkdf sample_kdf_libs = sample_hkdf" by (simp add: sample_kdf_libs_def)
  then have "\<exists>es. core_encrypt (trip_encrypt_world d fs ts) trip_params = Some (Inr (), es, Some (StreamWriter w))"
    using run(1,2) by (simp add: core_encrypt_def trip_prepared Let_def trip_job_def)
      (simp add: trip_encrypt_world_def destroy_StdoutShardWriter_def)
  then show ?thesis using run(3) by blast
qed

definition trip_decrypt_params :: CoreDecryptParams where
  "trip_decrypt_params = \<lparr>dp_input = ''shards'', dp_output = ''/out'', dp_passphrase = [112], dp_keyfiles = [], dp_overwrite = False,
     dp_kdf_policy = default_resource_policy, dp_hardened_extract = CliHardenedAuto, dp_durability_mode = DurabilityBestEffort,
     dp_lock_memory = False, dp_require_lock_memory = False, dp_on_warning = False, dp_on_progress = False\<rparr>"

definition trip_fsync :: fsync_os where
  "trip_fsync = \<lparr>os_open_ok = \<lambda>_ _. True, os_fsync_ok = \<lambda>_ _. True\<rparr>"

definition trip_files :: "bytes \<Rightarrow> file_store" where
  "trip_files written = (\<lambda>p. if p = ''shards/a.bin'' then Some written else None)"

definition trip_decrypt_world :: "bytes \<Rightarrow> thread list \<Rightarrow> decrypt_world" where
  "trip_decrypt_world written ts = \<lparr>dw_lock = LockSuccess, dw_fs = sample_fs, dw_dir = Some [(''shards/a.bin'', True)],
     dw_files = trip_files written, dw_reads = \<lambda>_. trip_files written, dw_sodium = trip_sodium, dw_gcm = trip_gcm, dw_libs = sample_kdf_libs,
     dw_hmac = tiny_hmac, dw_temp_suffix = ''x'', dw_fsync = trip_fsync, dw_hardware_concurrency = 0, dw_schedule = ts\<rparr>"

definition trip_disk :: disk where
  "trip_disk = \<lparr>dk_files = \<lambda>_. None, dk_clock = 0, dk_fault = \<lambda>_. None, dk_names = \<lambda>_. [], dk_drawn = 0\<rparr>"

text \<open>The extraction, on its own.\<close>

lemma tree_op:
  assumes "fst (m t) = r" "ft_entries (snd (m t)) = ft_entries t'" "ft_cwd (snd (m t)) = ft_cwd t'" "ft_clock (snd (m t)) = ft_clock t'"
    "\<And>n. ft_fault (snd (m t)) n = ft_fault t' n"
  shows "m t = (r, t' :: file_tree)"
  using assms by (intro prod_eqI file_tree.equality) (simp_all add: fun_eq_iff)

definition trip_made :: file_tree where
  "trip_made = \<lparr>ft_entries = [([''out''], fresh Dir), ([''in''], fresh Dir)], ft_cwd = [], ft_clock = 1, ft_fault = \<lambda>_. False\<rparr>"

definition trip_staged :: file_tree where
  "trip_staged = \<lparr>ft_entries = [([''out''], fresh Dir), ([''out'', ''.bseal-extract-tmp.x''], fresh Dir), ([''in''], fresh Dir)],
     ft_cwd = [], ft_clock = 3, ft_fault = \<lambda>_. False\<rparr>"

lemma trip_create: "create_directories ''/out'' trip_input = (Inr True, trip_made)"
    "create_directories ''/out'' trip_made = (Inr True, trip_made)"
    "make_temp_root_hardened ''/out'' ''.bseal-extract-tmp.x'' trip_made = (Inr (), trip_staged)"
  by (rule tree_op; code_simp)+

definition trip_reader :: ArchiveReader where
  "trip_reader = initial_reader ((extraction_options (trip_decrypt_world [] []) trip_decrypt_params)\<lparr>xo_output_root := ''/out''\<rparr>)
     ''/out/.bseal-extract-tmp.x'' trip_staged"

lemma trip_new_reader:
  "new_ArchiveReader (extraction_options (trip_decrypt_world written ts) trip_decrypt_params) ''x'' trip_made = (Inr trip_reader, trip_staged)"
proof -
  have "weakly_canonical trip_made ''/out'' = Some [''out'']" "absolute_path [''out''] = ''/out''"
    "path_append ''/out'' ''.bseal-extract-tmp.x'' = ''/out/.bseal-extract-tmp.x''" "want_hardened HardenedAuto" by code_simp+
  then show ?thesis
    by (simp add: new_ArchiveReader_def extraction_options_def trip_decrypt_params_def trip_decrypt_world_def trip_create
        bindS_def guardS_def returnS_def getS_def Let_def temp_dir_name_def trip_reader_def)
qed

definition trip_consumed :: ArchiveReader where
  "trip_consumed = trip_reader\<lparr>xr_archive_begin_seen := True, xr_archive_end_seen := True\<rparr>"

lemma trip_parsed: "encoded_record_size_if_complete (trip_begin @ trip_end) = Inr (Some 13)"
    "take 13 (trip_begin @ trip_end) = trip_begin" "drop 13 (trip_begin @ trip_end) = trip_end"
    "parse_record trip_begin = Inr begin_record"
    "encoded_record_size_if_complete trip_end = Inr (Some 9)" "take 9 trip_end = trip_end" "drop 9 trip_end = []"
    "parse_record trip_end = Inr end_record" "encoded_record_size_if_complete [] = Inr None"
  by code_simp+

lemma consume_records_step:
  assumes "encoded_record_size_if_complete (xr_pending r) = Inr (Some n)" "parse_record (take n (xr_pending r)) = Inr rec"
    "process_record rec (r\<lparr>xr_pending := drop n (xr_pending r)\<rparr>) = (Inr u, r')"
  shows "consume_records r = consume_records r'"
  using assms by (subst consume_records.simps) simp

lemma trip_consume: "consume (trip_begin @ trip_end) trip_reader = (Inr (), trip_consumed)"
proof -
  have first: "process_record begin_record r
      = (Inr (), r\<lparr>xr_archive_begin_seen := True\<rparr>)" if "\<not> xr_archive_begin_seen r" "\<not> xr_archive_end_seen r" for r
  proof -
    have "length (append_u32_le [] kArchiveFormatVersion) = 4" "(read_le (append_u32_le [] kArchiveFormatVersion) :: u32) = kArchiveFormatVersion"
      by code_simp+
    then show ?thesis using that
      by (simp add: begin_record_def process_record_def begin_archive_def getS_def bindS_def guardS_def modifyS_def returnS_def liftS_def)
  qed
  have last: "process_record end_record r
      = (Inr (), r\<lparr>xr_archive_end_seen := True\<rparr>)" if "xr_archive_begin_seen r" "\<not> xr_archive_end_seen r" "\<not> xr_current_file_open r" for r
    using that by (simp add: end_record_def process_record_def archive_end_def getS_def bindS_def guardS_def modifyS_def returnS_def)
  let ?r = "trip_reader\<lparr>xr_pending := trip_begin @ trip_end\<rparr>"
  let ?s = "trip_reader\<lparr>xr_pending := trip_end, xr_archive_begin_seen := True\<rparr>"
  have r: "xr_pending trip_reader = []" "\<not> xr_archive_begin_seen trip_reader" "\<not> xr_archive_end_seen trip_reader"
    "\<not> xr_current_file_open trip_reader" "\<not> xr_finished trip_reader" by (simp_all add: trip_reader_def initial_reader_def)
  have "consume_records ?r = consume_records ?s"
    by (rule consume_records_step [where n = 13 and rec = begin_record]) (use r trip_parsed in \<open>simp_all add: first del: take_append drop_append\<close>)
  also have "\<dots> = consume_records trip_consumed"
    by (rule consume_records_step [where n = 9 and rec = end_record]) (use r trip_parsed in \<open>simp_all add: last trip_consumed_def\<close>)
  also have "\<dots> = (Inr (), trip_consumed)"
    by (subst consume_records.simps) (simp add: trip_consumed_def r trip_parsed)
  finally show ?thesis by (simp add: consume_eq r)
qed

definition trip_committing :: file_tree where
  "trip_committing = trip_staged\<lparr>ft_clock := 4\<rparr>"

definition trip_tree :: file_tree where
  "trip_tree = trip_made\<lparr>ft_clock := 5\<rparr>"

lemma trip_temp: "resolve trip_committing ''/out/.bseal-extract-tmp.x'' follow = Some [''out'', ''.bseal-extract-tmp.x'']"
    "is_dir trip_committing [''out'', ''.bseal-extract-tmp.x'']"
    "temp_entries trip_committing [''out'', ''.bseal-extract-tmp.x''] = []"
    "posix_fsync trip_fsync ''/out'' DurabilityBestEffort True = Inr True"
proof -
  have p: "path_names ''/out/.bseal-extract-tmp.x'' = [''out'', ''.bseal-extract-tmp.x'']" 
  proof -
    have "list_all is_name [''out'', ''.bseal-extract-tmp.x'']" "absolute_path [''out'', ''.bseal-extract-tmp.x''] = ''/out/.bseal-extract-tmp.x''"
      by (simp_all add: is_name_def absolute_path_def join_slash.simps)
    then show ?thesis by (metis path_names_absolute)
  qed
  have "node_at trip_committing [''out''] = Some Dir" "node_at trip_committing [''out'', ''.bseal-extract-tmp.x''] = Some Dir" by code_simp+
  then have w: "walk trip_committing 40 [] [''out'', ''.bseal-extract-tmp.x''] f = At [''out'', ''.bseal-extract-tmp.x'']" for f
    by simp
  show "resolve trip_committing ''/out/.bseal-extract-tmp.x'' follow = Some [''out'', ''.bseal-extract-tmp.x'']"
    unfolding resolve_def p max_links_def by (simp add: start_of_def is_absolute_def w del: walk.simps)
  show  "is_dir trip_committing [''out'', ''.bseal-extract-tmp.x'']"
    "temp_entries trip_committing [''out'', ''.bseal-extract-tmp.x''] = []"
    "posix_fsync trip_fsync ''/out'' DurabilityBestEffort True = Inr True"
    by code_simp+
qed

lemma trip_commit:
  "new_SafeOutputTree ''/out'' HardenedAuto trip_staged
     = (Inr \<lparr>so_root_fd = [''out''], so_root_path = ''/out'', so_hardened = True\<rparr>, trip_committing)"
  by (rule tree_op; code_simp)

lemma trip_cleanup: "remove_all ''/out/.bseal-extract-tmp.x'' trip_committing = (Inr True, trip_tree)"
proof -
  have "remove_entries (rev (sort_key length (entries_beneath trip_committing [''out'', ''.bseal-extract-tmp.x'']))) trip_committing = (Inr True, trip_tree)"
    by (rule tree_op; code_simp)
  then show ?thesis by (simp add: remove_all_def trip_temp)
qed

lemma trip_finish: "finish trip_consumed = (Inr (), trip_consumed\<lparr>xr_tree := trip_tree, xr_finished := True\<rparr>)"
  by (simp add: finish_def trip_consumed_def trip_reader_def initial_reader_def extraction_options_def trip_decrypt_params_def
      trip_decrypt_world_def getS_def bindS_def guardS_def returnS_def modifyS_def commit_temp_tree_def on_tree_def trip_commit
      trip_temp trip_cleanup flush_promoted_def hooks_production_def liftS_def apply_deferred_directory_metadata_def cleanup_temp_tree_def)

lemma trip_reads_back: "reads_back (trip_encrypt_world d fs ts) trip_params (trip_decrypt_world written ts') trip_decrypt_params written"
proof -
  have "has_bin_extension ''shards/a.bin''" by code_simp
  moreover have "check_kdf_params_against_policy (preset_params Strong) default_resource_policy = Inr ()"
    by (simp add: check_kdf_params_against_policy_def default_resource_policy_def)
  ultimately show ?thesis
    by (simp add: reads_back_def trip_encrypt_world_def trip_decrypt_world_def trip_params_def sample_params_def
        trip_decrypt_params_def trip_files_def)
qed

lemma trip_hypotheses:
  fixes ts :: "thread list"
  assumes "length (os_written (sd_out w)) = 350"
  defines "ew \<equiv> trip_encrypt_world trip_disk trip_fsync ts" and "dw \<equiv> trip_decrypt_world (os_written (sd_out w)) []"
  shows "ep_stdout_stream trip_params" "os_written (ew_stream ew) = []" "length (os_written (sd_out w)) < 2 ^ 63"
    "\<forall>outs a'. emits (ew_view ew) (ej_archive_writer trip_job) outs a' \<longrightarrow> length (concat outs) < 2 ^ 64"
    "ej_raw_plaintext_size trip_job \<noteq> 0" "\<forall>n k bs. ew_random ew n k = Inr bs \<longrightarrow> length bs = k"
    "sodium_aead_ok (ew_sodium ew)" "evp_gcm_ok (ew_gcm ew)" "reads_back ew trip_params dw trip_decrypt_params (os_written (sd_out w))"
    "\<not> (dp_lock_memory trip_decrypt_params \<and> dp_require_lock_memory trip_decrypt_params)"
    "validate_decrypt_params (dw_fs dw) trip_decrypt_params = Inr ()"
proof -
  have ew: "ew_view ew = trip_view" "ew_stream ew = trip_stream" "ew_sodium ew = trip_sodium" "ew_gcm ew = trip_gcm"
    "ew_random ew = (\<lambda>n k. Inr (replicate k 4))" by (simp_all add: ew_def trip_encrypt_world_def)
  have job: "ej_archive_writer trip_job = trip_writer" by (simp add: trip_job_def)
  show "ep_stdout_stream trip_params" "ej_raw_plaintext_size trip_job \<noteq> 0"
    "\<not> (dp_lock_memory trip_decrypt_params \<and> dp_require_lock_memory trip_decrypt_params)"
    by (simp_all add: trip_params_def trip_job_def trip_decrypt_params_def)
  show "os_written (ew_stream ew) = []" "length (os_written (sd_out w)) < 2 ^ 63" using assms(1) by (simp_all add: ew trip_stream_def)
  show "\<forall>outs a'. emits (ew_view ew) (ej_archive_writer trip_job) outs a' \<longrightarrow> length (concat outs) < 2 ^ 64"
    using trip_emits_short by (simp add: ew job)
  show "\<forall>n k bs. ew_random ew n k = Inr bs \<longrightarrow> length bs = k" by (auto simp: ew)
  show "sodium_aead_ok (ew_sodium ew)" "evp_gcm_ok (ew_gcm ew)"
    by (simp_all add: ew sodium_aead_ok_def trip_sodium_def evp_gcm_ok_def trip_gcm_def)
  show "reads_back ew trip_params dw trip_decrypt_params (os_written (sd_out w))" unfolding ew_def dw_def by (rule trip_reads_back)
  show "validate_decrypt_params (dw_fs dw) trip_decrypt_params = Inr ()"
    by (simp add: dw_def validate_decrypt_params_def trip_decrypt_params_def trip_decrypt_world_def sample_fs_def require_directory_def
        require_path_exists_def validate_kdf_resource_policy_def default_resource_policy_def)
qed

text \<open>The decryption of the stream into a tree, given what the round trip says of its records.\<close>

lemma trip_decrypts:
  assumes "\<exists>outs a'. all_emitted (ew_view (trip_encrypt_world d fs us)) (ej_archive_writer trip_job) outs a'
    \<and> (\<forall>tree tree1 xr tree2 xr'. create_directories (dp_output trip_decrypt_params) tree = (Inr True, tree1)
        \<longrightarrow> new_ArchiveReader (extraction_options (trip_decrypt_world written []) trip_decrypt_params)
              (dw_temp_suffix (trip_decrypt_world written [])) tree1 = (Inr xr, tree2)
        \<longrightarrow> bindS (consume (concat outs)) (\<lambda>_. finish) xr = (Inr (), xr')
        \<longrightarrow> (\<exists>ts des. core_decrypt ((trip_decrypt_world written [])\<lparr>dw_schedule := ts\<rparr>) trip_decrypt_params tree
                = Some (Inr (), des, xr_tree (destroy_ArchiveReader xr')))
          \<and> (\<forall>res des tree'. core_decrypt (trip_decrypt_world written []) trip_decrypt_params tree = Some (res, des, tree') \<longrightarrow>
               res = Inr () \<and> tree' = xr_tree (destroy_ArchiveReader xr')))"
    "create_directories ''/out'' tree = (Inr True, trip_made)"
  shows "\<exists>ts des. core_decrypt (trip_decrypt_world written ts) trip_decrypt_params tree = Some (Inr (), des, trip_tree)"
proof -
  have d: "dp_output trip_decrypt_params = ''/out''" "dw_temp_suffix (trip_decrypt_world written []) = ''x''"
    "(trip_decrypt_world written [])\<lparr>dw_schedule := ts\<rparr> = trip_decrypt_world written ts"
    "ew_view (trip_encrypt_world d fs us) = trip_view" "ej_archive_writer trip_job = trip_writer" for ts
    by (simp_all add: trip_decrypt_params_def trip_decrypt_world_def trip_encrypt_world_def trip_job_def)
  from assms(1) obtain outs a' where o: "all_emitted trip_view trip_writer outs a'"
    and run: "\<And>tree tree1 xr tree2 xr'. create_directories ''/out'' tree = (Inr True, tree1)
        \<Longrightarrow> new_ArchiveReader (extraction_options (trip_decrypt_world written []) trip_decrypt_params) ''x'' tree1 = (Inr xr, tree2)
        \<Longrightarrow> bindS (consume (concat outs)) (\<lambda>_. finish) xr = (Inr (), xr')
        \<Longrightarrow> \<exists>ts des. core_decrypt (trip_decrypt_world written ts) trip_decrypt_params tree = Some (Inr (), des, xr_tree (destroy_ArchiveReader xr'))"
    unfolding d by blast
  have "bindS (consume (concat outs)) (\<lambda>_. finish) trip_reader = (Inr (), trip_consumed\<lparr>xr_tree := trip_tree, xr_finished := True\<rparr>)"
    using trip_all_emitted [OF o] by (simp add: bindS_def trip_consume trip_finish)
  from run [OF assms(2) trip_new_reader this] show ?thesis by (simp add: destroy_ArchiveReader_def)
qed

theorem core_stream_roundtrip_witness:
  "\<exists>ts ts' es w des tree. core_encrypt (trip_encrypt_world trip_disk trip_fsync ts) trip_params = Some (Inr (), es, Some (StreamWriter w))
     \<and> core_decrypt (trip_decrypt_world (os_written (sd_out w)) ts') trip_decrypt_params trip_input = Some (Inr (), des, tree)
     \<and> ft_entries tree = [([''out''], fresh Dir), ([''in''], fresh Dir)]"
proof -
  obtain ts es w where enc: "core_encrypt (trip_encrypt_world trip_disk trip_fsync ts) trip_params = Some (Inr (), es, Some (StreamWriter w))"
    and len: "length (os_written (sd_out w)) = 350" using trip_core_encrypt [of trip_disk trip_fsync] by blast
  from trip_decrypts [OF core_stream_roundtrip [OF trip_prepared enc trip_hypotheses [OF len]] trip_create(1)] obtain ts' des where
    "core_decrypt (trip_decrypt_world (os_written (sd_out w)) ts') trip_decrypt_params trip_input = Some (Inr (), des, trip_tree)" by blast
  moreover have "ft_entries trip_tree = [([''out''], fresh Dir), ([''in''], fresh Dir)]" by (simp add: trip_tree_def trip_made_def)
  ultimately show ?thesis using enc by metis
qed

subsection \<open>The table of header hashes\<close>

lemma read_shard_info_index: "read_shard_info blake3 files p = Inr si \<Longrightarrow> unat (shard_index si) + 1 < 2 ^ 32"
proof -
  assume "read_shard_info blake3 files p = Inr si"
  then have "shard_index si < gh_shard_count (si_global_header si)"
    by (auto simp: read_shard_info_def Let_def bindr_eq_Inr shard_index_def linorder_not_le split: option.splits)
  then show ?thesis using unat_u32_lt [of "gh_shard_count (si_global_header si)"] by (simp add: word_less_nat_alt)
qed

lemma read_entries_indices:
  "read_entries blake3 files es = Inr sis \<Longrightarrow> si \<in> set sis \<Longrightarrow> unat (shard_index si) + 1 < 2 ^ 32"
proof (induction es arbitrary: sis)
  case (Cons e es)
  then show ?case by (cases e) (use read_shard_info_index in \<open>fastforce simp: bindr_eq_Inr split: if_splits\<close>)
qed simp

lemma foldl_update_length: "length (foldl (\<lambda>hs s. hs[f s := g s]) hs ss) = length hs"
  by (induction ss arbitrary: hs) auto

lemma foldl_update_nth:
  "distinct (map f ss) \<Longrightarrow> s \<in> set ss \<Longrightarrow> f s < length hs \<Longrightarrow> foldl (\<lambda>hs s. hs[f s := g s]) hs ss ! f s = g s"
proof (induction ss arbitrary: hs)
  case (Cons a ss)
  have keep: "foldl (\<lambda>hs s. hs[f s := g s]) hs ss ! n = hs ! n" if "n \<notin> f ` set ss" for n hs
    using that by (induction ss arbitrary: hs) auto
  from Cons show ?case by (cases "s = a") (auto simp: keep)
qed simp

text \<open>C25: The table of header hashes that \<open>core_decrypt\<close> fills before the set of shards is checked is large
  enough: for shards that \<open>discover\<close> has accepted, every write goes to a place inside the vector, whose
  size does not wrap around, and if the indices are distinct each shard finds its own hash there.\<close>

theorem shard_hashes_in_bounds:
  assumes "discover blake3 files dir = Inr shards" "s \<in> set shards"
  shows "unat (shard_index s) < length (shard_hashes shards)
    \<and> (distinct (map shard_index shards) \<longrightarrow> shard_hashes shards ! unat (shard_index s) = si_public_header_hash s)"
proof -
  have small: "unat (shard_index x) + 1 < 2 ^ 32" if "x \<in> set shards" for x
    using assms(1) that by (auto simp: discover_def bindr_eq_Inr dest: read_entries_indices split: option.splits)
  let ?m = "Max (shard_index ` set shards)"
  have ne: "shards \<noteq> []" using assms(2) by auto
  have "?m \<in> shard_index ` set shards" using ne by (intro Max_in) auto
  then have "unat ?m + 1 < 2 ^ 32" using small by auto
  then have u: "unat (?m + 1) = unat ?m + 1" by (simp add: unat_word_ariths)
  have "shard_index s \<le> ?m" using assms(2) by (intro Max_ge) auto
  then have "unat (shard_index s) < unat (?m + 1)" by (simp add: u word_le_nat_alt)
  moreover have "distinct (map (\<lambda>s. unat (shard_index s)) shards)" if "distinct (map shard_index shards)"
    using that by (auto simp: distinct_map inj_on_def word_unat_eq_iff)
  ultimately show ?thesis using ne assms(2)
    by (auto simp: shard_hashes_def foldl_update_length intro: foldl_update_nth [of "\<lambda>s. unat (shard_index s)"])
qed

theorem shard_hashes_in_bounds_witness:
  "shard_hashes [tiny_info] ! 0 = replicate 32 8"
proof -
  have "unat (shard_index tiny_info) < length (shard_hashes [tiny_info])
    \<and> (distinct (map shard_index [tiny_info]) \<longrightarrow> shard_hashes [tiny_info] ! unat (shard_index tiny_info) = si_public_header_hash tiny_info)"
    by (rule shard_hashes_in_bounds [OF tiny_discover]) simp
  then show ?thesis by (simp add: tiny_info_def shard_index_def tiny_shard_def sample_shard_def)
qed

end
