(* ===== verification/Extraction_Safety.thy ===== *)
theory Extraction_Safety
  imports Archive_Reader
begin

text \<open>
  What the extraction of an archive may change.  While records are consumed, only entries beneath the
  temporary directory change; when the archive is finished in hardened mode, only entries beneath the
  output root.  The portable mode gives no such guarantee: what it does through a link in the output
  root that leads outside is stated at the end.
\<close>

subsection \<open>The paths of extracted entries\<close>

definition entry_names :: "path \<Rightarrow> names" where
  "entry_names p = filter (\<lambda>n. n \<noteq> ''.'') (path_names p)"

lemma normal_names_plain:
  "\<forall>d\<in>set (path_names p). d \<noteq> ''.'' \<and> d \<noteq> ''..'' \<Longrightarrow> normal_names p = path_names p"
  using foldl_norm_no_dotdot [of "path_names p" "is_absolute p" "[]"] path_names_is_name [of p]
  by (auto simp: normal_names_eq list_all_iff is_name_def filter_id_conv)

lemma safe_output_path_leads:
  assumes "make_safe_output_path root p = Inr q" "is_absolute root" "normal_names root = ns" "ns \<noteq> []"
    "''..'' \<notin> set ns"
  shows "is_absolute q" "path_names q = ns @ entry_names p"
    "list_all proper (entry_names p)"
    "leads_into ns q" "leads_into ns (parent_path q)" "is_safe_relative_path p"
proof -
  have "root \<noteq> []" using assms(2) by (auto simp: is_absolute_def)
  then obtain trailing where names: "list_all proper (entry_names p)"
    and q: "q = render_path True (ns @ entry_names p) trailing" and t: "trailing = (last (path_elements p) = ''.'')"
    and pn: "path_names q = ns @ entry_names p"
    using safe_output_path_shape [of root p q] assms by (auto simp: entry_names_def list_all_iff proper_def)
  show safe: "is_safe_relative_path p" using assms(1) by (simp add: make_safe_output_path_def)
  show "list_all proper (entry_names p)" by (rule names)
  show "path_names q = ns @ entry_names p" by (rule pn)
  show abs: "is_absolute q" by (simp add: q render_path_def is_absolute_def)
  have dd: "''..'' \<notin> set (entry_names p)" using names by (auto simp: list_all_iff proper_def)
  with abs pn show "leads_into ns q" by (auto simp: leads_into_def)
  let ?ms = "ns @ entry_names p"
  have isn: "list_all is_name ?ms"
    using normal_names_is_name [OF path_names_is_name [of root], of "[]" "is_absolute root"] assms(3) names
    by (auto simp: normal_names_eq list_all_iff proper_def)
  have ms: "?ms \<noteq> []" using assms(4) by simp
  show "leads_into ns (parent_path q)"
  proof (cases "trailing \<and> last ?ms \<noteq> ''..''")
    case True
    then have "parent_path q = absolute_path ?ms"
      using parent_absolute_path_slash [OF ms isn] by (simp add: q render_path_absolute [OF ms])
    then show ?thesis using dd isn by (auto simp: leads_into_def path_names_absolute)
  next
    case False
    then have eq: "parent_path q = absolute_path (butlast ?ms)"
      using parent_absolute_path [OF ms isn] by (auto simp: q render_path_absolute [OF ms])
    have "entry_names p \<noteq> []"
    proof
      assume n: "entry_names p = []"
      note sp = safe_path_cases [OF safe]
      have "path_names p \<noteq> []" using safe by (rule safe_elements_nonempty)
      then have "last (path_names p) \<in> set (path_names p)" by simp
      then have "last (path_elements p) = ''.''" using n sp(3) by (auto simp: entry_names_def filter_empty_conv)
      then have "last ns = ''..''" using False n t by simp
      then show False using assms(4,5) last_in_set by metis
    qed
    then have "butlast ?ms = ns @ butlast (entry_names p)" by (simp add: butlast_append)
    moreover have "list_all is_name (butlast ?ms)" using isn by (auto simp: list_all_iff dest: in_set_butlastD)
    moreover have "''..'' \<notin> set (butlast (entry_names p))" using dd by (auto dest: in_set_butlastD)
    ultimately show ?thesis by (auto simp: eq leads_into_def path_names_absolute)
  qed
qed

subsection \<open>Unpacking stays beneath the temporary directory\<close>

text \<open>The targets of the links that the reader creates.\<close>

definition link_policy :: "bool \<Rightarrow> path \<Rightarrow> bool" where
  "link_policy allowed p \<longleftrightarrow> allowed \<and> is_safe_relative_path p"

lemma link_policy_inner: "link_policy a p \<Longrightarrow> inner_path p"
  using safe_path_cases [of p] by (auto simp: link_policy_def inner_path_def list_all_iff)

text \<open>
  The reader unpacks into the directory \<open>T\<close> of a tree that was \<open>t0\<close> when unpacking began: elsewhere
  nothing has changed, the open file lies beneath \<open>T\<close>, and the directories to be finished later exist,
  if there are no links.
\<close>

definition has_dirs :: "file_tree \<Rightarrow> names \<Rightarrow> names \<Rightarrow> bool" where
  "has_dirs t base ns \<longleftrightarrow> (\<forall>n\<le>length ns. is_dir t (base @ take n ns))"

definition unpacking :: "bool \<Rightarrow> names \<Rightarrow> file_tree \<Rightarrow> ArchiveReader \<Rightarrow> bool" where
  "unpacking a T t0 r \<longleftrightarrow>
     is_absolute (xr_temp_root r) \<and> path_names (xr_temp_root r) = T \<and> T \<noteq> []
     \<and> xo_allow_symlinks (xr_options r) = a
     \<and> sane (link_policy a) T (xr_tree r) \<and> wf_tree (xr_tree r) \<and> local (link_policy a) T t0 (xr_tree r)
     \<and> (xr_current_file_open r \<longrightarrow> is_beneath T (xr_current_file r))
     \<and> (\<not> a \<longrightarrow> (\<forall>m\<in>set (xr_deferred_directory_metadata r).
           is_safe_relative_path (em_relative_path m) \<and> em_kind m = Directory
           \<and> has_dirs (xr_tree r) T (entry_names (em_relative_path m))))"

lemma local_has_dirs: "local P r t t' \<Longrightarrow> has_dirs t base ns \<Longrightarrow> has_dirs t' base ns"
  by (simp add: has_dirs_def local_def)

lemma unpacking_tree:
  "unpacking a T t0 r \<Longrightarrow> local (link_policy a) T (xr_tree r) t \<Longrightarrow> unpacking a T t0 (r\<lparr>xr_tree := t\<rparr>)"
  unfolding unpacking_def by (auto intro: local_trans local_sane local_has_dirs local_wf)

lemma stable_on_tree [stable_intros]:
  "keeps (link_policy a) T m \<Longrightarrow> stable (unpacking a T t0) (on_tree m)"
proof -
  assume k: "keeps (link_policy a) T m"
  have "unpacking a T t0 (snd (on_tree m r))" if r: "unpacking a T t0 r" for r
  proof -
    have "sane (link_policy a) T (xr_tree r)" using r by (simp add: unpacking_def)
    then have "local (link_policy a) T (xr_tree r) (snd (m (xr_tree r)))" using k by (simp add: keeps_def)
    then have "unpacking a T t0 (r\<lparr>xr_tree := snd (m (xr_tree r))\<rparr>)" by (rule unpacking_tree [OF r])
    then show ?thesis by (cases "m (xr_tree r)") (simp add: on_tree_def)
  qed
  then show ?thesis by (simp add: stable_def)
qed

lemma unpacking_temp_path:
  assumes "unpacking a T t0 r" "temp_path_for r p = Inr q"
  shows "leads_into T q" "leads_into T (parent_path q)" "is_absolute q" "path_names q = T @ entry_names p"
    "list_all proper (entry_names p)" "is_safe_relative_path p"
proof -
  have dd: "''..'' \<notin> set T" using assms(1) by (auto simp: unpacking_def sane_def rooted_def)
  have "rooted T (xr_tree r)" using assms(1) by (simp add: unpacking_def sane_def)
  then have "normal_names (xr_temp_root r) = T"
    using assms(1) normal_names_plain [of "xr_temp_root r"] by (auto simp: unpacking_def rooted_def)
  with dd show "leads_into T q" "leads_into T (parent_path q)" "is_absolute q" "path_names q = T @ entry_names p"
    "list_all proper (entry_names p)" "is_safe_relative_path p"
    using assms safe_output_path_leads [of "xr_temp_root r" p q T] by (auto simp: unpacking_def temp_path_for_def)
qed

lemma apply_metadata_unpacks [stable_intros]:
  "leads_into T path \<Longrightarrow> stable (unpacking a T t0) (apply_metadata_to_path path m)"
  unfolding apply_metadata_to_path_def by (intro stable_intros keeps_attributes; assumption)

lemma stable_modify_unpacking:
  "(\<And>r. xr_temp_root (f r) = xr_temp_root r \<and> xr_options (f r) = xr_options r \<and> xr_tree (f r) = xr_tree r
      \<and> xr_deferred_directory_metadata (f r) = xr_deferred_directory_metadata r
      \<and> (xr_current_file_open (f r) \<longrightarrow> xr_current_file_open r \<and> xr_current_file (f r) = xr_current_file r))
     \<Longrightarrow> stable (unpacking a T t0) (modifyS f)"
  by (rule stable_modifyS) (simp add: unpacking_def)

lemma begin_archive_unpacks [stable_intros]: "stable (unpacking a T t0) (begin_archive rec)"
  unfolding begin_archive_def by (intro stable_intros stable_modify_unpacking; simp)

lemma archive_end_unpacks [stable_intros]: "stable (unpacking a T t0) archive_end"
  unfolding archive_end_def by (intro stable_intros stable_modify_unpacking; simp)

lemma end_file_unpacks [stable_intros]: "stable (unpacking a T t0) end_file"
  unfolding end_file_def
  by (intro stable_intros keeps_sys_ok stable_modify_unpacking; (erule (1) unpacking_temp_path | simp))

lemma write_file_bytes_unpacks [stable_intros]: "stable (unpacking a T t0) (write_file_bytes bs)"
  unfolding write_file_bytes_def
  by (intro stable_intros keeps_append_file stable_modify_unpacking; simp add: unpacking_def)

lemma create_symlink_unpacks [stable_intros]: "stable (unpacking a T t0) (create_symlink m)"
  unfolding create_symlink_def Let_def
  by (intro stable_intros keeps_create_directories keeps_create_symlink_at;
      (erule (1) unpacking_temp_path | simp add: unpacking_def link_policy_def))

lemma open_file_unpacks:
  assumes "leads_into T path"
    "\<And>q r. is_beneath T q \<Longrightarrow> unpacking a T t0 r \<Longrightarrow> unpacking a T t0 (f q r)"
  shows "stable (unpacking a T t0) (bindS (on_tree (open_trunc path)) (\<lambda>opened.
    case opened of None \<Rightarrow> throwS e | Some q \<Rightarrow> modifyS (f q)))"
proof (rule stable_bindS_result [OF stable_on_tree [OF keeps_open_trunc [OF assms(1)]]])
  fix x s s' assume s: "unpacking a T t0 s" "on_tree (open_trunc path) s = (Inr x, s')"
  show "stable (unpacking a T t0) (case x of None \<Rightarrow> throwS e | Some q \<Rightarrow> modifyS (f q))"
  proof (cases x)
    case (Some q)
    then obtain t' where "open_trunc path (xr_tree s) = (Inr (Some q), t')"
      using s(2) by (auto simp: on_tree_def split: prod.splits)
    then have "is_beneath T q" using open_trunc_beneath [OF _ assms(1)] s(1) by (auto simp: unpacking_def)
    then show ?thesis using Some assms(2) by (auto intro: stable_modifyS)
  qed (simp add: stable_basic)
qed

lemma begin_file_unpacks [stable_intros]: "stable (unpacking a T t0) (begin_file m)"
  unfolding begin_file_def
  by (intro stable_getS stable_bind_guardS stable_bind_liftS stable_bindS [OF stable_on_tree [OF keeps_create_directories]] open_file_unpacks;
      (erule (1) unpacking_temp_path | simp add: unpacking_def))

lemma make_at_dirs: "is_dir t q \<Longrightarrow> is_dir (snd (make_at p n t)) q"
  by (auto simp: make_at_def sys_call_def is_dir_def make_entry_def)

lemma make_dirs_dirs: "is_dir t q \<Longrightarrow> is_dir (snd (make_dirs base cs t)) q"
proof (induction cs arbitrary: base t)
  case (Cons c cs)
  show ?case
  proof (cases "walk t max_links base [c] True")
    case (At p)
    obtain res t1 where m: "make_at p Dir t = (res, t1)" by (cases "make_at p Dir t")
    then have d: "is_dir t1 q" using make_at_dirs [OF Cons.prems, of p Dir] by simp
    have eq: "make_dirs base (c # cs) t =
        (if is_dir t p then make_dirs p cs t
         else if node_at t p = None \<and> p = base @ [c] then
           (case res of Inr True \<Rightarrow> make_dirs p cs t1 | _ \<Rightarrow> (Inr False, t1))
         else (Inr False, t))"
      using At m by (auto simp del: walk.simps split: sum.split bool.split)
    show ?thesis
      unfolding eq using Cons.IH [OF d, of p] Cons.IH [OF Cons.prems, of p] Cons.prems d
      by (auto split: sum.split bool.split)
  qed (use Cons.prems in \<open>simp_all del: walk.simps\<close>)
qed simp

text \<open>Without links, directories are created where their names say.\<close>

lemma make_dirs_has_dirs:
  "links_ok (\<lambda>_. False) r t \<Longrightarrow> is_beneath r base \<Longrightarrow> is_dir t base \<Longrightarrow> list_all proper cs
     \<Longrightarrow> make_dirs base cs t = (Inr True, t') \<Longrightarrow> has_dirs t' base cs"
proof (induction cs arbitrary: base t)
  case (Cons c cs)
  have c: "c \<noteq> ''.''" "c \<noteq> ''..''" "proper c" "list_all proper cs"
    using Cons.prems(4) by (auto simp: list_all_iff proper_def)
  have b: "is_beneath r (base @ [c])" using Cons.prems(2) by (rule is_beneath_append)
  have nl: "node_at t (base @ [c]) \<noteq> Some (Link p)" for p using Cons.prems(1) b by (auto simp: links_ok_def)
  then have w: "walk t max_links base [c] True = At (base @ [c])"
    using c by (auto split: option.splits node.splits)
  obtain t1 where t1: "make_dirs (base @ [c]) cs t1 = (Inr True, t')" "is_dir t1 (base @ [c])"
      "local (\<lambda>_. False) r t t1"
  proof (cases "is_dir t (base @ [c])")
    case True
    then show ?thesis using Cons.prems(5) w that [of t] by (simp del: walk.simps)
  next
    case False
    then obtain t1 where m: "make_at (base @ [c]) Dir t = (Inr True, t1)" "make_dirs (base @ [c]) cs t1 = (Inr True, t')"
      using Cons.prems(5) w by (auto simp del: walk.simps split: if_splits prod.splits sum.splits bool.splits)
    moreover have "is_dir t1 (base @ [c])" "local (\<lambda>_. False) r t t1"
      using m(1) local_make_entry [of r "base @ [c]" t Dir "\<lambda>_. False"] Cons.prems(2) c(3)
      by (auto simp: make_at_def sys_call_def is_dir_def make_entry_def fresh_def split: if_splits)
    ultimately show ?thesis using that by blast
  qed
  have "has_dirs t' (base @ [c]) cs"
    using Cons.IH [OF local_links [OF t1(3) Cons.prems(1)] b t1(2) c(4) t1(1)] .
  moreover have "is_dir t' base"
    using make_dirs_dirs [OF Cons.prems(3), of base "c # cs"] Cons.prems(5) by simp
  ultimately show ?case
    unfolding has_dirs_def by (intro allI impI) (rename_tac n, case_tac n, auto)
qed (simp add: has_dirs_def)

lemma link_policy_False [simp]: "link_policy False = (\<lambda>_. False)"
  by (simp add: link_policy_def fun_eq_iff)

lemma create_directories_has_dirs:
  assumes "sane (\<lambda>_. False) r t" "is_absolute p" "path_names p = r @ ns" "p \<noteq> []"
    "list_all proper ns" "create_directories p t = (Inr True, t')"
  shows "has_dirs t' r ns"
proof -
  have "make_dirs r ns t = (Inr True, t')"
    using assms make_dirs_rooted [of r t ns] by (simp add: create_directories_def start_of_def sane_def)
  then show ?thesis using make_dirs_has_dirs [of r t r ns] assms(1,5) sane_is_dir [OF assms(1)] by (auto simp: sane_def)
qed

lemma create_directory_unpacks [stable_intros]: "stable (unpacking a T t0) (create_directory m)"
proof -
  have "unpacking a T t0 (snd (create_directory m r))" if r: "unpacking a T t0 r" for r
  proof (cases "xr_archive_begin_seen r \<and> em_kind m = Directory")
    case False
    then show ?thesis using r by (auto simp: create_directory_def getS_def bindS_def guardS_def)
  next
    case True
    show ?thesis
    proof (cases "temp_path_for r (em_relative_path m)")
      case (Inl e)
      then show ?thesis using r True by (simp add: create_directory_def getS_def bindS_def guardS_def liftS_def)
    next
      case (Inr path)
      note p = unpacking_temp_path [OF r Inr]
      obtain ok t' where c: "create_directories path (xr_tree r) = (ok, t')" by (cases "create_directories path (xr_tree r)")
      have u: "unpacking a T t0 (r\<lparr>xr_tree := t'\<rparr>)"
        using stableD [OF stable_on_tree [OF keeps_create_directories [OF p(1)]] r] c by (auto simp: on_tree_def)
      have s: "snd (create_directory m r) = (if ok = Inr True then r\<lparr>xr_tree := t', xr_deferred_directory_metadata :=
            xr_deferred_directory_metadata r @ [m]\<rparr> else r\<lparr>xr_tree := t'\<rparr>)"
        using True Inr c by (auto simp: create_directory_def getS_def bindS_def guardS_def liftS_def on_tree_def modifyS_def split: sum.split)
      have "has_dirs t' T (entry_names (em_relative_path m))" if "\<not> a" "ok = Inr True"
      proof (rule create_directories_has_dirs)
        show "sane (\<lambda>_. False) T (xr_tree r)" using r \<open>\<not> a\<close> by (auto simp: unpacking_def)
        show "create_directories path (xr_tree r) = (Inr True, t')" using c that by simp
      qed (use p in \<open>auto simp: is_absolute_def list_all_iff\<close>)
      then show ?thesis using u p(6) True unfolding s by (auto simp: unpacking_def)
    qed
  qed
  then show ?thesis by (simp add: stable_def)
qed

lemma process_record_unpacks: "stable (unpacking a T t0) (process_record rec)"
  unfolding process_record_def
  by (rule stable_getS, rule stable_bind_guardS, cases "ar_type rec"; simp; intro stable_intros)

lemma unpacking_pending [simp]: "unpacking a T t0 (r\<lparr>xr_pending := p\<rparr>) = unpacking a T t0 r"
  by (simp add: unpacking_def)

lemma consume_records_stable:
  assumes "\<And>rec. stable I (process_record rec)" "\<And>r p. I r \<Longrightarrow> I (r\<lparr>xr_pending := p\<rparr>)"
  shows "stable I consume_records"
proof -
  have "I r \<Longrightarrow> I (snd (consume_records r))" for r
  proof (induction r rule: consume_records.induct)
    case (1 r)
    note p = stableD [OF assms(1) assms(2) [OF 1(2)]]
    have IH: "I (snd (consume_records r'))"
      if "encoded_record_size_if_complete (xr_pending r) = Inr (Some n)" "parse_record (take n (xr_pending r)) = Inr rec"
        "process_record rec (r\<lparr>xr_pending := drop n (xr_pending r)\<rparr>) = (Inr u, r')" for n rec u r'
      using 1(1) [OF that(1) refl that(2) that(3) [symmetric] refl p [OF that(3)]] .
    show ?case
      by (subst consume_records.simps) (auto split: sum.splits option.splits prod.splits dest: p IH simp: 1(2))
  qed
  then show ?thesis by (simp add: stable_def)
qed

lemma consume_records_unpacks: "stable (unpacking a T t0) consume_records"
  by (rule consume_records_stable [OF process_record_unpacks]) simp

lemma consume_unpacks: "stable (unpacking a T t0) (consume bs)"
  by (simp add: stable_def consume_eq consume_records_unpacks [unfolded stable_def, rule_format])

lemma consume_all_unpacks: "stable (unpacking a T t0) (consume_all chunks)"
  by (induction chunks) (auto intro: stable_intros consume_unpacks)

subsection \<open>Paths without links\<close>

definition plain :: "file_tree \<Rightarrow> names \<Rightarrow> bool" where
  "plain t q \<longleftrightarrow> list_all proper q \<and> (\<forall>n\<le>length q. \<forall>p. node_at t (take n q) \<noteq> Some (Link p))"

lemma walk_plain:
  "list_all proper cs \<Longrightarrow> (\<And>n p. n \<le> length cs \<Longrightarrow> node_at t (base @ take n cs) \<noteq> Some (Link p))
     \<Longrightarrow> walk t links base cs follow \<in> {At (base @ cs), NoEntry}"
proof (induction cs arbitrary: base)
  case (Cons c cs)
  have c: "c \<noteq> ''.''" "c \<noteq> ''..''" using Cons.prems(1) by (auto simp: proper_def)
  have nl: "node_at t (base @ [c]) \<noteq> Some (Link p)" for p using Cons.prems(2) [of 1] by simp
  have IH: "walk t links (base @ [c]) cs follow \<in> {At ((base @ [c]) @ cs), NoEntry}"
    by (rule Cons.IH) (use Cons.prems(1) Cons.prems(2) [of "Suc n" for n] in auto)
  then show ?case using c nl by (auto split: option.splits node.splits)
qed simp

lemma walk_plain_dirs:
  assumes "list_all proper q" "\<And>n. n < length q \<Longrightarrow> is_dir t (take n q)" "\<And>p. node_at t q \<noteq> Some (Link p)"
  shows "walk t links [] q follow = At q"
proof -
  have nl: "node_at t ([] @ take n q) \<noteq> Some (Link p)" if "n \<le> length q" for n p
    using that assms(2) [of n] assms(3) by (cases "n = length q") (auto simp: is_dir_def)
  have p: "proper c" if "c \<in> set q" for c using assms(1) that by (auto simp: list_all_iff)
  show ?thesis
  proof (cases q rule: rev_cases)
    case (snoc ds d)
    have "walk t links [] (ds @ [d]) follow = walk t links ([] @ ds) [d] follow"
      by (rule walk_beneath_dirs) (use assms(2) p snoc in \<open>auto simp: proper_def\<close>)
    also have "\<dots> = At q"
      using p [of d] snoc assms(3) by (auto simp: proper_def split: option.splits node.splits)
    finally show ?thesis by (simp add: snoc)
  qed simp
qed

lemma canonical_prefix_plain:
  assumes "plain t q" "seen @ cs = q"
  shows "\<exists>k. canonical_prefix t [] seen seen cs = Some (seen @ take k cs, drop k cs)"
  using assms
proof (induction cs arbitrary: seen)
  case (Cons c cs)
  have pl: "plain t (seen @ [c])"
  proof -
    have "take n (seen @ [c]) = take n q" if "n \<le> length (seen @ [c])" for n
      using that Cons.prems(2) by (cases "n = Suc (length seen)") auto
    then show ?thesis using Cons.prems(1) Cons.prems(2) by (auto simp: plain_def)
  qed
  have w: "walk t max_links [] (seen @ [c]) True \<in> {At (seen @ [c]), NoEntry}"
    using walk_plain [of "seen @ [c]" t "[]" max_links True] pl by (auto simp: plain_def)
  obtain k where k: "canonical_prefix t [] (seen @ [c]) (seen @ [c]) cs = Some ((seen @ [c]) @ take k cs, drop k cs)"
    using Cons.IH [of "seen @ [c]"] Cons.prems by auto
  have "canonical_prefix t [] seen seen (c # cs) = Some (seen, c # cs)
      \<or> canonical_prefix t [] seen seen (c # cs) = canonical_prefix t [] (seen @ [c]) (seen @ [c]) cs"
    using w by auto
  then show ?case
  proof
    assume "canonical_prefix t [] seen seen (c # cs) = Some (seen, c # cs)"
    then show ?thesis by (intro exI [of _ 0]) simp
  next
    assume "canonical_prefix t [] seen seen (c # cs) = canonical_prefix t [] (seen @ [c]) (seen @ [c]) cs"
    then show ?thesis using k by (intro exI [of _ "Suc k"]) simp
  qed
qed simp

lemma weakly_canonical_plain:
  assumes "plain t q" "is_absolute p" "path_names p = q"
  shows "weakly_canonical t p = Some q"
proof -
  obtain k where k: "canonical_prefix t [] [] [] q = Some (take k q, drop k q)"
    using canonical_prefix_plain [OF assms(1), of "[]" q] by auto
  have "list_all (\<lambda>n. n \<noteq> ''..'' \<and> n \<noteq> []) (drop k q)" "filter (\<lambda>n. n \<noteq> ''.'') (drop k q) = drop k q"
    using assms(1) by (auto simp: plain_def list_all_iff proper_def is_name_def filter_id_conv dest: in_set_dropD)
  then have "foldl (norm_step True) (take k q) (drop k q) = q" by (simp add: foldl_norm_no_dotdot)
  then show ?thesis using k assms by (simp add: weakly_canonical_def start_of_def)
qed

lemma relative_names_append: "relative_names (b @ ms) b = ms"
  by (induction b) auto

lemma wf_tree_above:
  "wf_tree t \<Longrightarrow> entry_at t q \<noteq> None \<Longrightarrow> list_all proper q \<and> (\<forall>n<length q. is_dir t (take n q))"
proof (induction q rule: rev_induct)
  case (snoc c q)
  have c: "proper c" "is_dir t q" using snoc.prems by (auto simp: wf_tree_def dest!: spec [of _ "q @ [c]"])
  show ?case
  proof (cases "q = []")
    case False
    then have "entry_at t q \<noteq> None" using c(2) by (auto simp: is_dir_def node_at_def)
    then show ?thesis using snoc c by (auto simp: less_Suc_eq)
  qed (use c in \<open>simp add: is_dir_def\<close>)
qed simp

subsection \<open>Promotion in hardened mode stays beneath the output root\<close>

text \<open>Building directories: nothing but directories is new, and what is not a directory stays the same.\<close>

definition builds :: "names \<Rightarrow> file_tree \<Rightarrow> file_tree \<Rightarrow> bool" where
  "builds R t t' \<longleftrightarrow> local (\<lambda>_. False) R t t'
     \<and> (\<forall>q. node_at t q \<noteq> None \<longrightarrow> \<not> is_dir t q \<longrightarrow> entry_at t' q = entry_at t q)"

lemma builds_refl [simp]: "builds R t t" by (simp add: builds_def)

lemma builds_tick [simp]: "builds R t (tick t') = builds R t t'" "builds R (tick t) t' = builds R t t'"
  by (simp_all add: builds_def local_def is_dir_def)

lemma builds_trans: "builds R t t' \<Longrightarrow> builds R t' t'' \<Longrightarrow> builds R t t''"
proof -
  assume b: "builds R t t'" "builds R t' t''"
  have "entry_at t'' q = entry_at t q" if "node_at t q \<noteq> None" "\<not> is_dir t q" for q
  proof -
    have e: "entry_at t' q = entry_at t q" using b(1) that by (simp add: builds_def)
    then have "node_at t' q = node_at t q" by (simp add: node_at_def)
    then show ?thesis using b(2) that e by (simp add: builds_def is_dir_def)
  qed
  then show ?thesis using b local_trans by (auto simp: builds_def)
qed

lemma builds_make_at:
  assumes "is_beneath R cur" "proper c" "is_dir t cur"
  shows "builds R t (snd (make_at (cur @ [c]) Dir t))"
proof (cases "node_at t (cur @ [c]) = None \<and> \<not> faulty t")
  case False
  then show ?thesis by (auto simp: make_at_def sys_call_def)
next
  case True
  then have "snd (make_at (cur @ [c]) Dir t) = tick (make_entry (cur @ [c]) Dir t)"
    using assms by (simp add: make_at_def sys_call_def)
  moreover have "builds R t (make_entry (cur @ [c]) Dir t)"
    using True assms local_make_entry [of R "cur @ [c]" t Dir "\<lambda>_. False"]
    by (auto simp: builds_def make_entry_def is_dir_def)
  ultimately show ?thesis by simp
qed

text \<open>The names that the loop over the components enters.\<close>

definition entered :: "string list \<Rightarrow> names" where
  "entered cs = filter (\<lambda>c. c \<noteq> [] \<and> c \<noteq> ''.'') cs"

lemma open_components_builds:
  assumes "open_components cur cs t = (res, t')" "is_beneath R cur" "is_dir t cur"
    "\<forall>c\<in>set cs. c = [] \<or> is_name c"
  shows "builds R t t' \<and> (\<forall>fd. res = Inr fd \<longrightarrow> fd = cur @ entered cs \<and> has_dirs t' cur (entered cs))"
  using assms
proof (induction cs arbitrary: cur t)
  case Nil
  then show ?case by (auto simp: returnS_def entered_def has_dirs_def)
next
  case (Cons c cs)
  have rest: "\<forall>c\<in>set cs. c = [] \<or> is_name c" using Cons.prems(4) by simp
  consider "c = [] \<or> c = ''.''" | "c = ''..''" | "proper c" using Cons.prems(4) by (auto simp: proper_def)
  then show ?case
  proof cases
    case 1
    then show ?thesis using Cons.IH [OF _ Cons.prems(2,3) rest] Cons.prems(1) by (auto simp: entered_def)
  next
    case 2
    then show ?thesis using Cons.prems(1) by (auto simp: throwS_def)
  next
    case 3
    have c: "c \<noteq> []" "c \<noteq> ''.''" "c \<noteq> ''..''" "c \<noteq> ''/''" using 3 by (auto simp: proper_def is_name_def)
    let ?e = "cur @ [c]"
    obtain made t1 where m: "make_at ?e Dir t = (made, t1)" by (cases "make_at ?e Dir t")
    have b: "builds R t t1" using builds_make_at [OF Cons.prems(2) 3 Cons.prems(3)] m by simp
    show ?thesis
    proof (cases "is_dir t1 ?e \<and> \<not> faulty t1 \<and> is_ok res")
      case False
      have "t' \<in> {t1, tick t1} \<and> (\<forall>fd. res \<noteq> Inr fd) \<or> (is_dir t1 ?e \<and> \<not> faulty t1 \<and> open_components ?e cs (tick t1) = (res, t'))"
        using Cons.prems(1) c m
        by (auto simp: getS_def bindS_def guardS_def throwS_def sys_ok_def is_dir_def Let_def
            split: sum.splits option.splits node.splits if_splits)
      then show ?thesis
      proof
        assume "t' \<in> {t1, tick t1} \<and> (\<forall>fd. res \<noteq> Inr fd)"
        then show ?thesis using b by auto
      next
        assume o: "is_dir t1 ?e \<and> \<not> faulty t1 \<and> open_components ?e cs (tick t1) = (res, t')"
        then have "builds R (tick t1) t'" using Cons.IH [of ?e "tick t1"] Cons.prems(2) rest
          by (auto simp: is_beneath_append is_dir_def)
        moreover have "builds R t (tick t1)" using b by simp
        ultimately have "builds R t t'" by (rule builds_trans [rotated])
        moreover have "\<forall>fd. res \<noteq> Inr fd" using False o by (auto simp: is_ok_def split: sum.splits)
        ultimately show ?thesis by simp
      qed
    next
      case True
      then have o: "open_components ?e cs (tick t1) = (res, t')"
        using Cons.prems(1) c m
        by (auto simp: getS_def bindS_def guardS_def throwS_def sys_ok_def is_dir_def Let_def
            split: sum.splits if_splits)
      have IH: "builds R (tick t1) t' \<and> (\<forall>fd. res = Inr fd \<longrightarrow> fd = ?e @ entered cs \<and> has_dirs t' ?e (entered cs))"
        using Cons.IH [OF o _ _ rest] Cons.prems(2) True by (auto simp: is_beneath_append is_dir_def)
      have bt: "builds R t t'" using builds_trans [of R t "tick t1" t'] b IH by simp
      then have "is_dir t' cur" using Cons.prems(3) by (auto simp: builds_def local_def)
      moreover have "has_dirs t' ?e ns \<Longrightarrow> is_dir t' cur \<Longrightarrow> has_dirs t' cur (c # ns)" for ns
        unfolding has_dirs_def by (intro allI impI) (rename_tac n, case_tac n, auto)
      ultimately show ?thesis using bt IH c by (auto simp: entered_def)
    qed
  qed
qed

text \<open>
  The state of a promotion from \<open>T\<close> into \<open>R\<close> that began with the tree \<open>t0\<close>; \<open>w\<close> is the permission to
  overwrite.
\<close>

definition promoting :: "names \<Rightarrow> names \<Rightarrow> bool \<Rightarrow> file_tree \<Rightarrow> file_tree \<Rightarrow> bool" where
  "promoting R T w t0 t \<longleftrightarrow> wf_tree t \<and> rooted T t \<and> is_beneath R T
     \<and> (\<forall>q p. is_beneath T q \<longrightarrow> node_at t q \<noteq> Some (Link p))
     \<and> (\<forall>q. \<not> is_beneath R q \<longrightarrow> entry_at t q = entry_at t0 q)
     \<and> (\<forall>q. is_dir t0 q \<longrightarrow> is_dir t q)
     \<and> (\<not> w \<longrightarrow> (\<forall>q. \<not> is_beneath T q \<longrightarrow> node_at t0 q \<noteq> None \<longrightarrow> \<not> is_dir t0 q \<longrightarrow> entry_at t q = entry_at t0 q))"

lemma rooted_beneath: "rooted T t \<Longrightarrow> is_beneath R T \<Longrightarrow> rooted R t"
  unfolding rooted_def is_beneath_iff
  by (elim exE conjE, intro conjI allI impI) (metis append_eq_conv_conj le_trans length_append le_add1 take_append take_take min_def append_Nil2 diff_is_0_eq take_0, auto)

lemma builds_promoting:
  assumes "builds R t t'" "promoting R T w t0 t"
  shows "promoting R T w t0 t'"
proof -
  have l: "local (\<lambda>_. False) R t t'" using assms(1) by (simp add: builds_def)
  have "entry_at t' q = entry_at t0 q" if "\<not> w" "\<not> is_beneath T q" "node_at t0 q \<noteq> None" "\<not> is_dir t0 q" for q
  proof -
    have e: "entry_at t q = entry_at t0 q" using assms(2) that by (simp add: promoting_def)
    then have "node_at t q = node_at t0 q" by (simp add: node_at_def)
    then show ?thesis using assms(1) that e by (simp add: builds_def is_dir_def)
  qed
  moreover have "node_at t' q \<noteq> Some (Link p)" if "is_beneath T q" for q p
    using l assms(2) that is_beneath_trans [of R T q] unfolding local_def promoting_def by metis
  ultimately show ?thesis
    using assms(2) local_wf [OF l] local_rooted [OF l] l by (auto simp: promoting_def local_def)
qed

lemma promoting_tick [simp]: "promoting R T w t0 (tick t) = promoting R T w t0 t"
  by (simp add: promoting_def wf_tree_def rooted_def is_dir_def)

text \<open>Removing an entry that is not a directory.\<close>

lemma drop_promoting:
  assumes "promoting R T w t0 t" "w \<or> is_beneath T q" "is_beneath R (butlast q)" "entry_at t q \<noteq> None" "\<not> is_dir t q"
  shows "promoting R T w t0 (touch (butlast q) (drop_entry q t))"
proof -
  have above: "q \<noteq> []" "is_dir t (butlast q)" using assms(1,4) by (auto simp: promoting_def wf_tree_def)
  have R: "is_beneath R q" using assms(3) above is_beneath_append [of R "butlast q" "[last q]"] by simp
  have "wf_tree (touch (butlast q) (drop_entry q t))"
    using assms(1,5) by (auto simp: promoting_def wf_tree_def is_dir_def split: if_splits)
  moreover have "p \<noteq> q" if "is_dir t0 p" for p using assms(1,5) that by (auto simp: promoting_def)
  moreover have "rooted T (touch (butlast q) (drop_entry q t))"
    using assms(1,5) by (auto simp: promoting_def rooted_def is_dir_def)
  moreover have "entry_at (touch (butlast q) (drop_entry q t)) p = entry_at t0 p"
    if "\<not> w" "\<not> is_beneath T p" "node_at t0 p \<noteq> None" "\<not> is_dir t0 p" for p
  proof -
    have e: "entry_at t p = entry_at t0 p" using assms(1) that by (simp add: promoting_def)
    have "p \<noteq> butlast q" 
    using above(2) e that by (auto simp: node_at_def is_dir_def split: if_splits)
    then show ?thesis using e assms(2) that by auto
  qed
  ultimately show ?thesis using assms R by (auto simp: promoting_def is_dir_def)
qed

text \<open>A new entry that is not a directory.\<close>

lemma put_promoting:
  assumes "promoting R T w t0 t" "entry_at t q = None" "q \<noteq> []" "is_dir t (butlast q)" "proper (last q)"
    "is_beneath R (butlast q)" "\<And>p. in_node i \<noteq> Link p"
  shows "promoting R T w t0 (touch (butlast q) (put_entry q i t))"
proof -
  have R: "is_beneath R q" using assms(3,6) is_beneath_append [of R "butlast q" "[last q]"] by simp
  have nb: "butlast q \<noteq> q" using assms(3) by (metis append_butlast_last_id not_Cons_self2 append_self_conv)
  have nd: "\<not> is_dir t q" using assms(2,3) by (simp add: is_dir_def node_at_def)
  have "wf_tree (touch (butlast q) (put_entry q i t))"
    using assms(1-5) nd by (auto simp: promoting_def wf_tree_def is_dir_def split: if_splits)
  moreover have "p \<noteq> q" if "is_dir t0 p" for p using assms(1) nd that by (auto simp: promoting_def)
  moreover have "rooted T (touch (butlast q) (put_entry q i t))"
    using assms(1) nd by (auto simp: promoting_def rooted_def is_dir_def)
  moreover have "entry_at (touch (butlast q) (put_entry q i t)) p = entry_at t0 p"
    if "\<not> w" "\<not> is_beneath T p" "node_at t0 p \<noteq> None" "\<not> is_dir t0 p" for p
  proof -
    have e: "entry_at t p = entry_at t0 p" using assms(1) that by (simp add: promoting_def)
    have "p \<noteq> butlast q" "p \<noteq> q"
      using assms(2,4) e that by (auto simp: node_at_def is_dir_def split: if_splits)
    then show ?thesis using e by simp
  qed
  ultimately show ?thesis using assms R by (auto simp: promoting_def is_dir_def)
qed

lemma promoting_cong: "(\<And>q. entry_at t' q = entry_at t q) \<Longrightarrow> promoting R T w t0 t \<Longrightarrow> promoting R T w t0 t'"
  using node_at_cong [of t' t] by (simp add: promoting_def wf_tree_def rooted_def is_dir_def)

lemma move_promoting:
  assumes "promoting R T w t0 t" "is_beneath T q" "q \<noteq> T" "entry_at t q = Some i" "in_node i \<noteq> Dir"
    "entry_at t r = None" "r \<noteq> []" "is_dir t (butlast r)" "proper (last r)" "is_beneath R (butlast r)"
  shows "promoting R T w t0 (move_entry q r t)"
proof -
  have T: "is_beneath R T" using assms(1) by (simp add: promoting_def)
  have q: "q \<noteq> []" "is_dir t (butlast q)" "node_at t q = Some (in_node i)" using assms(1,4) by (auto simp: promoting_def wf_tree_def node_at_def)
  let ?t = "touch (butlast q) (drop_entry q t)"
  have p: "promoting R T w t0 ?t"
    using assms(1) by (rule drop_promoting)
      (use assms q is_beneath_trans [OF T is_beneath_butlast [OF assms(2,3)]] in \<open>auto simp: is_dir_def\<close>)
  have rq: "butlast r \<noteq> q" using assms(5,8) q(3) by (auto simp: is_dir_def)
  have br: "butlast q \<noteq> r" using q(2) assms(6,7) by (auto simp: is_dir_def node_at_def)
  have "promoting R T w t0 (touch (butlast r) (put_entry r i ?t))"
  proof (rule put_promoting [OF p])
    show "in_node i \<noteq> Link l" for l using assms(1,2) q(3) by (auto simp: promoting_def)
  qed (use assms rq br in \<open>auto simp: is_dir_def\<close>)
  then show ?thesis
    by (rule promoting_cong [rotated]) (use assms(4) br in \<open>auto simp: move_entry_def\<close>)
qed

lemma proper_is_name: "list_all proper ns \<Longrightarrow> list_all is_name ns"
  by (auto simp: list_all_iff proper_def)

lemma path_elements_join: "list_all proper ms \<Longrightarrow> path_elements (join_slash ms) = ms"
proof (cases "ms = []")
  case False
  assume p: "list_all proper ms"
  have "join_slash ms \<noteq> []" "\<not> is_absolute (join_slash ms)"
    using join_slash_start [OF False proper_is_name [OF p]] by (auto simp: is_absolute_def)
  then show ?thesis using relative_elements_join [OF False proper_is_name [OF p]] by (simp add: path_elements_def)
qed (simp add: path_elements_def)

lemma entered_proper: "list_all proper ms \<Longrightarrow> entered ms = ms"
  by (auto simp: entered_def list_all_iff proper_def is_name_def filter_id_conv)

lemma promoting_is_dir: "promoting R T w t0 t \<Longrightarrow> is_dir t R"
  using rooted_beneath [of T t R] by (auto simp: promoting_def rooted_def)

lemma open_dir_promoting:
  assumes "promoting R T w t0 t" "so_root_fd st = R" "list_all proper ms"
    "open_dir_hardened st (join_slash ms) t = (res, t')"
  shows "builds R t t' \<and> promoting R T w t0 t' \<and> (\<forall>fd. res = Inr fd \<longrightarrow> fd = R @ ms \<and> has_dirs t' R ms)"
proof -
  have d: "is_dir (tick t) R" using promoting_is_dir [OF assms(1)] by (simp add: is_dir_def)
  have "t' = tick t \<and> (\<forall>fd. res \<noteq> Inr fd) \<or> open_components R ms (tick t) = (res, t')"
    using assms(2-4) by (auto simp: open_dir_hardened_def sys_ok_def bindS_def guardS_def path_elements_join split: if_splits)
  then have "builds R t t' \<and> (\<forall>fd. res = Inr fd \<longrightarrow> fd = R @ ms \<and> has_dirs t' R ms)"
  proof
    assume "open_components R ms (tick t) = (res, t')"
    from open_components_builds [OF this is_beneath_refl d] show ?thesis
      using assms(3) proper_is_name [OF assms(3)] by (auto simp: entered_proper list_all_iff)
  qed simp
  then show ?thesis using builds_promoting assms(1) by blast
qed

lemma ensure_dirs_promoting:
  assumes "promoting R T w t0 t" "so_root_fd st = R" "so_hardened st" "list_all proper ms" "ms \<noteq> []"
    "ensure_dirs st (join_slash ms) t = (res, t')"
  shows "builds R t t' \<and> promoting R T w t0 t' \<and> (is_ok res \<longrightarrow> has_dirs t' R ms)"
proof -
  have "join_slash ms \<noteq> []" using join_slash_start [OF assms(5) proper_is_name [OF assms(4)]] by simp
  then obtain res' where "open_dir_hardened st (join_slash ms) t = (res', t')" "is_ok res \<longrightarrow> (\<exists>fd. res' = Inr fd)"
    using assms(3,6) by (auto simp: ensure_dirs_def bindS_def returnS_def split: prod.splits sum.splits)
  then show ?thesis using open_dir_promoting [OF assms(1,2,4)] by blast
qed

lemma unlink_promoting:
  assumes "promoting R T w t0 t" "w" "is_beneath R (butlast q)" "unlink_at q t = (res, t')"
  shows "promoting R T w t0 t' \<and> (res = Inr True \<longrightarrow> entry_at t' q = None) \<and> (\<forall>p. is_dir t p \<longrightarrow> is_dir t' p)
    \<and> (\<forall>p. p \<noteq> q \<longrightarrow> node_at t' p = node_at t p)"
proof (cases "node_at t q \<noteq> None \<and> \<not> is_dir t q \<and> \<not> faulty t")
  case False
  then show ?thesis using assms(1,4) by (auto simp: unlink_at_def sys_call_def is_dir_def split: if_splits)
next
  case True
  then have e: "entry_at t q \<noteq> None" by (auto simp: node_at_def is_dir_def split: if_splits)
  have "q \<noteq> []" using True by (auto simp: is_dir_def)
  then have "butlast q \<noteq> q" by (metis append_butlast_last_id not_Cons_self2 append_self_conv)
  then show ?thesis
    using True assms(4) drop_promoting [OF assms(1) _ assms(3) e] assms(2)
    by (auto simp: unlink_at_def sys_call_def is_dir_def)
qed

lemma promoting_plain:
  assumes "promoting R T w t0 t" "T \<noteq> []" "list_all proper ms"
  shows "plain t (T @ ms)"
proof -
  have "is_dir t T" using assms(1) by (auto simp: promoting_def rooted_def)
  then have "entry_at t T \<noteq> None" using assms(2) by (auto simp: is_dir_def node_at_def)
  then have "list_all proper T" using wf_tree_above assms(1) by (auto simp: promoting_def)
  moreover have "node_at t (take n (T @ ms)) \<noteq> Some (Link p)" for n p
  proof (cases "n \<le> length T")
    case True
    then have "is_dir t (take n (T @ ms))" using assms(1) by (auto simp: promoting_def rooted_def)
    then show ?thesis by (simp add: is_dir_def)
  next
    case False
    then have "is_beneath T (take n (T @ ms))" by (simp add: is_beneath_def)
    then show ?thesis using assms(1) by (auto simp: promoting_def)
  qed
  ultimately show ?thesis using assms(3) by (auto simp: plain_def list_all_iff)
qed

lemma plain_resolves:
  assumes "plain t q" "is_absolute p" "path_names p = q" "resolve t p follow = Some r"
  shows "r = q"
proof -
  have "walk t max_links [] q (follow \<or> ends_in_slash p) \<in> {At q, NoEntry}"
    using walk_plain [of q t "[]" max_links "follow \<or> ends_in_slash p"] assms(1) by (auto simp: plain_def)
  then show ?thesis using assms(2-4) by (auto simp: resolve_def start_of_def split: if_splits)
qed

lemma unlink_existing_promoting:
  assumes "promoting R T w t0 t" "is_beneath R (butlast q)" "unlink_existing q w t = (res, t')" "q \<noteq> []"
  shows "promoting R T w t0 t' \<and> (is_ok res \<longrightarrow> entry_at t' q = None) \<and> (\<forall>p. is_dir t p \<longrightarrow> is_dir t' p)
    \<and> (\<forall>p. p \<noteq> q \<longrightarrow> node_at t' p = node_at t p)"
proof -
  consider "t' = t" "is_ok res \<longrightarrow> node_at t q = None"
    | r where "w" "unlink_at q t = (r, t')" "is_ok res \<longrightarrow> r = Inr True"
    using assms(3) by (auto simp: unlink_existing_def getS_def bindS_def guardS_def returnS_def split: if_splits prod.splits sum.splits)
  then show ?thesis
  proof cases
    case 1
    then show ?thesis using assms(1,4) by (auto simp: node_at_def)
  next
    case 2
    then show ?thesis using unlink_promoting [OF assms(1) _ assms(2)] by blast
  qed
qed

lemma rename_at_promoting:
  assumes "promoting R T w t0 t" "T \<noteq> []" "is_absolute src" "path_names src = T @ ms" "list_all proper ms" "ms \<noteq> []"
    "entry_at t r = None" "r \<noteq> []" "is_dir t (butlast r)" "proper (last r)" "is_beneath R (butlast r)"
    "rename_at src r t = (res, t')"
  shows "promoting R T w t0 t' \<and> (\<forall>p. is_dir t p \<longrightarrow> is_dir t' p)"
proof -
  consider "t' = t" | "t' = tick t"
    | q where "resolve t src False = Some q" "node_at t q \<noteq> None" "\<not> is_dir t q" "t' = move_entry q r (tick t)"
  proof (cases "resolve t src False")
    case None
    then show ?thesis using assms(12) that(1) by (simp add: rename_at_def getS_def throwS_def)
  next
    case (Some q)
    have "t' = snd (rename_entry q r t)"
      using assms(12) Some
      by (cases "rename_entry q r t"; cases "fst (rename_entry q r t)") (auto simp: rename_at_def getS_def bindS_def guardS_def split: if_splits)
    then show ?thesis using Some that by (simp add: rename_entry_def sys_call_def split: if_splits)
  qed
  then show ?thesis
  proof cases
    case 3
    have q: "q = T @ ms" using plain_resolves [OF promoting_plain [OF assms(1,2,5)] assms(3,4) 3(1)] .
    then obtain i where i: "entry_at t q = Some i" "in_node i \<noteq> Dir"
      using 3(2,3) assms(2) by (auto simp: node_at_def is_dir_def)
    have m: "promoting R T w t0 (move_entry q r t)"
      by (rule move_promoting [OF assms(1) _ _ i assms(7-11)]) (use q assms(6) in \<open>auto simp: is_beneath_append\<close>)
    have "is_dir (move_entry q r t) p" if "is_dir t p" for p
      using that i assms(7,8) 3(3) by (auto simp: move_entry_def is_dir_def node_at_def split: if_splits)
    then show ?thesis using m 3(4) by (auto simp: is_dir_def)
  qed (use assms(1) in \<open>auto simp: is_dir_def\<close>)
qed

lemma rename_into_promoting:
  assumes "promoting R T w t0 t" "so_root_fd st = R" "so_hardened st" "list_all proper ms" "ms \<noteq> []" "T \<noteq> []"
    "is_absolute src" "path_names src = T @ ms" "rename_into st src (join_slash ms) w t = (res, t')"
  shows "promoting R T w t0 t' \<and> (\<forall>p. is_dir t p \<longrightarrow> is_dir t' p)"
proof -
  have bms: "list_all proper (butlast ms)" using assms(4) by (auto simp: list_all_iff dest: in_set_butlastD)
  have lms: "proper (last ms)" using assms(4,5) by (auto simp: list_all_iff)
  obtain res1 t1 where o: "open_dir_hardened st (join_slash (butlast ms)) t = (res1, t1)"
    by (cases "open_dir_hardened st (join_slash (butlast ms)) t")
  note o1 = open_dir_promoting [OF assms(1,2) bms o]
  have dirs1: "is_dir t p \<Longrightarrow> is_dir t1 p" for p using o1 by (auto simp: builds_def local_def)
  have pp: "parent_path (join_slash ms) = join_slash (butlast ms)"
    using parent_join_slash assms(4,5) proper_is_name by blast
  show ?thesis
  proof (cases res1)
    case (Inl e)
    then show ?thesis using assms(3,9) o o1 dirs1 by (auto simp: rename_into_def rename_into_hardened_def bindS_def pp)
  next
    case (Inr fd)
    let ?dest = "R @ ms"
    have fd: "fd = R @ butlast ms" "has_dirs t1 R (butlast ms)" using o1 Inr by auto
    have dest: "entry_in fd (filename (join_slash ms)) = ?dest"
      using lms filename_join_slash [OF assms(5) proper_is_name [OF assms(4)]] assms(5) fd(1)
      by (auto simp: entry_in_def proper_def is_name_def)
    have bd: "butlast ?dest = R @ butlast ms" "?dest \<noteq> []" "last ?dest = last ms" using assms(5) by (auto simp: butlast_append)
    have parent: "is_dir t1 (butlast ?dest)" using fd(2) bd by (auto simp: has_dirs_def)
    have below: "is_beneath R (butlast ?dest)" by (simp add: bd is_beneath_append)
    obtain res2 t2 where u: "unlink_existing ?dest w t1 = (res2, t2)" by (cases "unlink_existing ?dest w t1")
    have p1: "promoting R T w t0 t1" using o1 by simp
    note u2 = unlink_existing_promoting [OF p1 below u bd(2)]
    show ?thesis
    proof (cases res2)
      case (Inl e)
      then show ?thesis using assms(3,9) o u u2 dirs1 \<open>res1 = Inr fd\<close>
        by (auto simp: rename_into_def rename_into_hardened_def bindS_def Let_def pp dest)
    next
      case ok: (Inr x)
      have ra: "rename_at src ?dest t2 = (res, t')"
        using assms(3,9) o u ok \<open>res1 = Inr fd\<close> by (simp add: rename_into_def rename_into_hardened_def bindS_def Let_def pp dest)
      have p2: "promoting R T w t0 t2" using u2 by simp
      have "promoting R T w t0 t' \<and> (\<forall>p. is_dir t2 p \<longrightarrow> is_dir t' p)"
        by (rule rename_at_promoting [OF p2 assms(6-8,4,5) _ bd(2) _ _ below ra]) (use u2 ok parent lms bd in auto)
      then show ?thesis using u2 dirs1 by blast
    qed
  qed
qed

text \<open>The source paths of the promotion.\<close>

lemma source_path_names:
  assumes "is_absolute tr" "path_names tr = T" "list_all proper ms"
  shows "is_absolute (source_path tr ms)" "path_names (source_path tr ms) = T @ ms"
proof -
  have r: "\<not> is_absolute (join_slash ms)"
    using join_slash_start [of ms] proper_is_name [OF assms(3)] by (cases "ms = []") (auto simp: is_absolute_def)
  show "is_absolute (source_path tr ms)"
    using path_append_absolute [of tr "join_slash ms"] r assms(1) by (auto simp: source_path_def is_absolute_def)
  show "path_names (source_path tr ms) = T @ ms"
    using path_append_names [OF r, of tr] assms(2) path_names_join [OF proper_is_name [OF assms(3)]] by (simp add: source_path_def)
qed

lemma relative_source:
  assumes "promoting R T w t0 t" "T \<noteq> []" "is_absolute tr" "path_names tr = T" "list_all proper ms" "ms \<noteq> []"
  shows "relative_path t (source_path tr ms) tr = Some (join_slash ms)"
proof -
  have "weakly_canonical t (source_path tr ms) = Some (T @ ms)"
    using promoting_plain [OF assms(1,2,5)] source_path_names [OF assms(3-5)] by (rule weakly_canonical_plain)
  moreover have "weakly_canonical t tr = Some T"
    using promoting_plain [OF assms(1,2), of "[]"] assms(3,4) by (intro weakly_canonical_plain) simp_all
  ultimately show ?thesis
    using assms(6) by (simp add: relative_path_def lexically_relative_def relative_names_append Let_def)
qed

lemma source_is_directory:
  assumes "promoting R T w t0 t" "T \<noteq> []" "is_absolute p" "path_names p = T @ ms" "list_all proper ms"
  shows "is_directory t p \<and> \<not> is_symlink t p \<longleftrightarrow> is_dir t (T @ ms)"
proof
  assume "is_directory t p \<and> \<not> is_symlink t p"
  then obtain q where q: "resolve t p True = Some q" "node_at t q = Some Dir"
    by (auto simp: is_directory_def status_of_def split: option.splits)
  then show "is_dir t (T @ ms)"
    using plain_resolves [OF promoting_plain [OF assms(1,2,5)] assms(3,4) q(1)] by (simp add: is_dir_def)
next
  assume d: "is_dir t (T @ ms)"
  then have "entry_at t (T @ ms) \<noteq> None" using assms(2) by (auto simp: is_dir_def node_at_def)
  then have above: "list_all proper (T @ ms)" "\<forall>n<length (T @ ms). is_dir t (take n (T @ ms))"
    using wf_tree_above [of t "T @ ms"] assms(1) by (auto simp: promoting_def)
  then have "walk t max_links [] (T @ ms) f = At (T @ ms)" for f
    using d by (intro walk_plain_dirs) (auto simp: is_dir_def)
  then have "resolve t p f = Some (T @ ms)" for f
    using assms(3,4) by (auto simp: resolve_def start_of_def is_absolute_def)
  then show "is_directory t p \<and> \<not> is_symlink t p"
    using d by (simp add: is_directory_def is_symlink_def status_of_def is_dir_def)
qed

text \<open>The reader during the promotion.\<close>

definition committing :: "names \<Rightarrow> names \<Rightarrow> file_tree \<Rightarrow> path \<Rightarrow> ArchiveReaderOptions \<Rightarrow> ArchiveReader \<Rightarrow> bool" where
  "committing R T t0 tr opts r \<longleftrightarrow> promoting R T (xo_overwrite_existing opts) t0 (xr_tree r)
     \<and> xr_temp_root r = tr \<and> xr_options r = opts \<and> is_absolute tr \<and> path_names tr = T \<and> T \<noteq> []"

lemma flush_promoted_state: "snd (flush_promoted hook p mode r) = r"
  by (auto simp: flush_promoted_def returnS_def bindS_def liftS_def split: option.splits sum.splits)

lemma promote_entry_committing:
  assumes "committing R T t0 tr opts r" "so_root_fd st = R" "so_hardened st" "list_all proper ms" "ms \<noteq> []"
    "promote_entry st (source_path tr ms) (join_slash ms) r = (res, r')"
  shows "committing R T t0 tr opts r' \<and> (\<forall>p. is_dir (xr_tree r) p \<longrightarrow> is_dir (xr_tree r') p)
    \<and> (is_ok res \<longrightarrow> is_dir (xr_tree r) (T @ ms) \<longrightarrow> has_dirs (xr_tree r') R ms)"
proof -
  let ?t = "xr_tree r" and ?w = "xo_overwrite_existing opts"
  have c: "promoting R T ?w t0 ?t" "T \<noteq> []" "is_absolute tr" "path_names tr = T" "xr_options r = opts"
    using assms(1) by (auto simp: committing_def)
  note src = source_path_names [OF c(3,4) assms(4)]
  have kind: "is_directory ?t (source_path tr ms) \<and> \<not> is_symlink ?t (source_path tr ms) \<longleftrightarrow> is_dir ?t (T @ ms)"
    by (rule source_is_directory [OF c(1,2) src assms(4)])
  show ?thesis
  proof (cases "is_dir ?t (T @ ms)")
    case True
    obtain res1 t1 where e: "ensure_dirs st (join_slash ms) ?t = (res1, t1)" by (cases "ensure_dirs st (join_slash ms) ?t")
    note e1 = ensure_dirs_promoting [OF c(1) assms(2-5) e]
    have "res = res1" "r' = r\<lparr>xr_tree := t1\<rparr>"
      using assms(6) kind True e by (auto simp: promote_entry_def getS_def on_tree_def)
    then show ?thesis using e1 assms(1) by (auto simp: committing_def builds_def local_def)
  next
    case False
    obtain res1 t1 where e: "rename_into st (source_path tr ms) (join_slash ms) ?w ?t = (res1, t1)"
      by (cases "rename_into st (source_path tr ms) (join_slash ms) ?w ?t")
    note e1 = rename_into_promoting [OF c(1) assms(2-5) c(2) src e]
    have "r' = r\<lparr>xr_tree := t1\<rparr>"
      using assms(6) kind False e c(5) flush_promoted_state
      by (cases res1) (auto simp: promote_entry_def getS_def on_tree_def bindS_def dest: arg_cong [of _ _ snd])
    then show ?thesis using e1 assms(1) False by (auto simp: committing_def)
  qed
qed

lemma promote_entries_committing:
  assumes "committing R T t0 tr opts r" "so_root_fd st = R" "so_hardened st"
    "\<forall>e\<in>set es. \<exists>ms. e = T @ ms \<and> ms \<noteq> [] \<and> list_all proper ms"
    "promote_entries st T es r = (res, r')"
  shows "committing R T t0 tr opts r' \<and> (\<forall>p. is_dir (xr_tree r) p \<longrightarrow> is_dir (xr_tree r') p)
    \<and> (is_ok res \<longrightarrow> (\<forall>ms. T @ ms \<in> set es \<longrightarrow> is_dir (xr_tree r) (T @ ms) \<longrightarrow> has_dirs (xr_tree r') R ms))"
  using assms
proof (induction es arbitrary: r)
  case Nil
  then show ?case by (auto simp: returnS_def)
next
  case (Cons e es)
  obtain ms where e: "e = T @ ms" "ms \<noteq> []" "list_all proper ms" using Cons.prems(4) by auto
  have c: "promoting R T (xo_overwrite_existing opts) t0 (xr_tree r)" "T \<noteq> []" "is_absolute tr" "path_names tr = T" "xr_temp_root r = tr"
    using Cons.prems(1) by (auto simp: committing_def)
  obtain res1 r1 where p: "promote_entry st (source_path tr ms) (join_slash ms) r = (res1, r1)"
    by (cases "promote_entry st (source_path tr ms) (join_slash ms) r")
  note p1 = promote_entry_committing [OF Cons.prems(1-3) e(3,2) p]
  have eq: "promote_entries st T (e # es) r = (case res1 of Inl x \<Rightarrow> (Inl x, r1) | Inr _ \<Rightarrow> promote_entries st T es r1)"
    using relative_source [OF c(1-4) e(3,2)] p c(5) by (simp add: e(1) getS_def bindS_def)
  show ?case
  proof (cases res1)
    case (Inl x)
    then show ?thesis using Cons.prems(5) p1 unfolding eq by auto
  next
    case (Inr x)
    then have rest: "promote_entries st T es r1 = (res, r')" using Cons.prems(5) unfolding eq by simp
    have IH: "committing R T t0 tr opts r' \<and> (\<forall>p. is_dir (xr_tree r1) p \<longrightarrow> is_dir (xr_tree r') p)
      \<and> (is_ok res \<longrightarrow> (\<forall>ms. T @ ms \<in> set es \<longrightarrow> is_dir (xr_tree r1) (T @ ms) \<longrightarrow> has_dirs (xr_tree r') R ms))"
      using Cons.IH [OF _ Cons.prems(2,3) _ rest] p1 Cons.prems(4) by auto
    moreover have "has_dirs (xr_tree r') R ms" if "is_dir (xr_tree r) (T @ ms)"
      using p1 Inr that IH by (auto simp: has_dirs_def)
    ultimately show ?thesis using p1 e(1) by auto
  qed
qed

lemma promoting_prefix:
  assumes "promoting R T w t0 t"
  shows "rooted R t" "R \<noteq> [] \<Longrightarrow> list_all proper R" "is_dir t T" "T \<noteq> [] \<Longrightarrow> list_all proper T"
proof -
  show r: "rooted R t" using assms rooted_beneath by (auto simp: promoting_def)
  have p: "list_all proper q" if "rooted q t" "q \<noteq> []" for q
  proof -
    have "is_dir t q" using that by (auto simp: rooted_def)
    then have "entry_at t q \<noteq> None" using that by (auto simp: is_dir_def node_at_def)
    then show ?thesis using wf_tree_above assms by (auto simp: promoting_def)
  qed
  then show "R \<noteq> [] \<Longrightarrow> list_all proper R" using r by blast
  show "is_dir t T" using assms by (auto simp: promoting_def rooted_def)
  show "T \<noteq> [] \<Longrightarrow> list_all proper T" using p assms by (auto simp: promoting_def)
qed

text \<open>A path that names its directories resolves to them.\<close>

lemma resolve_dirs:
  assumes "is_absolute p" "path_names p = q" "rooted q t"
  shows "resolve t p f = Some q"
proof -
  have "p \<noteq> []" using assms(1) by (auto simp: is_absolute_def)
  moreover have "walk t max_links [] (q @ []) g = walk t max_links q [] g" for g
    by (rule walk_rooted [OF assms(3)])
  ultimately show ?thesis using assms(1,2) by (simp add: resolve_def start_of_def)
qed

lemma has_dirs_rooted:
  assumes "rooted q t" "has_dirs t q ns" "list_all proper ns"
  shows "rooted (q @ ns) t"
proof -
  have "is_dir t (take n (q @ ns))" if "n \<le> length (q @ ns)" for n
  proof (cases "n \<le> length q")
    case True
    then show ?thesis using assms(1) by (simp add: rooted_def)
  next
    case False
    then have "take n (q @ ns) = q @ take (n - length q) ns" "n - length q \<le> length ns" using that by simp_all
    then show ?thesis using assms(2) by (simp add: has_dirs_def)
  qed
  then show ?thesis using assms(1,3) by (auto simp: rooted_def list_all_iff proper_def)
qed

lemma safe_output_path_names:
  assumes "make_safe_output_path root p = Inr q" "is_absolute root" "normal_names root = ns"
  shows "is_absolute q \<and> path_names q = ns @ entry_names p \<and> list_all proper (entry_names p)"
proof -
  have "root \<noteq> []" using assms(2) by (auto simp: is_absolute_def)
  from safe_output_path_shape [OF this assms(1)] obtain names
    where names: "list_all (\<lambda>n. is_name n \<and> n \<noteq> ''.'' \<and> n \<noteq> ''..'') names"
    and n: "names = filter (\<lambda>n. n \<noteq> ''.'') (path_names p)"
    and q: "q = render_path (is_absolute root) (normal_names root @ names) (last (path_elements p) = ''.'')"
    and pn: "normal_names root @ names \<noteq> [] \<longrightarrow> path_names q = normal_names root @ names"
    by (elim exE conjE) (rule that)
  have e: "names = entry_names p" by (simp add: n entry_names_def)
  have q': "q = render_path True (ns @ entry_names p) (last (path_elements p) = ''.'')"
    using q assms(2,3) by (simp add: e)
  have pn: "ns @ entry_names p \<noteq> [] \<longrightarrow> path_names q = ns @ entry_names p" using pn by (simp add: e assms(3))
  have names: "list_all proper (entry_names p)" using names by (simp add: e list_all_iff proper_def)
  have "ns @ entry_names p = [] \<Longrightarrow> path_names q = []" by (simp add: q' render_path_def)
  then have "path_names q = ns @ entry_names p" using pn by metis
  moreover have "is_absolute q" by (simp add: q' render_path_def is_absolute_def)
  ultimately show ?thesis using names by simp
qed

text \<open>Attributes of a directory.\<close>

lemma change_dir_promoting:
  assumes "promoting R T w t0 t" "is_beneath R q" "is_dir t q" "\<And>i. in_node (f i) = in_node i"
  shows "promoting R T w t0 (change_entry q f t)"
proof -
  have n: "node_at (change_entry q f t) p = node_at t p" for p
    using assms(4) by (auto simp: change_entry_def node_at_def split: option.splits)
  have e: "p \<noteq> q \<Longrightarrow> entry_at (change_entry q f t) p = entry_at t p" for p
    by (auto simp: change_entry_def split: option.splits)
  have ne: "entry_at (change_entry q f t) p \<noteq> None \<longleftrightarrow> entry_at t p \<noteq> None" for p
    by (auto simp: change_entry_def split: option.splits)
  have "entry_at (change_entry q f t) p = entry_at t0 p"
    if "\<not> w" "\<not> is_beneath T p" "node_at t0 p \<noteq> None" "\<not> is_dir t0 p" for p
  proof -
    have eq: "entry_at t p = entry_at t0 p" using assms(1) that by (simp add: promoting_def)
    then have "p \<noteq> q" using assms(3) that by (auto simp: node_at_def is_dir_def split: if_splits)
    then show ?thesis using eq e by simp
  qed
  moreover have "entry_at (change_entry q f t) p = entry_at t0 p" if "\<not> is_beneath R p" for p
    using assms(1,2) that e [of p] by (auto simp: promoting_def)
  ultimately show ?thesis
    using assms(1) n ne by (auto simp: promoting_def wf_tree_def rooted_def is_dir_def)
qed

lemma set_attribute_committing:
  assumes "committing R T t0 tr opts r" "resolve (xr_tree r) path True = Some q" "is_beneath R q" "is_dir (xr_tree r) q"
    "\<And>i. in_node (f i) = in_node i" "on_tree (set_attribute path f) r = (res, r')"
  shows "committing R T t0 tr opts r' \<and> (\<forall>p. is_dir (xr_tree r) p \<longrightarrow> is_dir (xr_tree r') p)"
proof -
  have "promoting R T (xo_overwrite_existing opts) t0 (change_entry q f (xr_tree r))"
    using assms(1,3-5) by (intro change_dir_promoting) (auto simp: committing_def)
  moreover have "is_dir (change_entry q f t) p \<longleftrightarrow> is_dir t p" for t p
    using assms(5) by (auto simp: change_entry_def is_dir_def node_at_def split: option.splits)
  ultimately show ?thesis
    using assms(1,2,6) by (auto simp: on_tree_def set_attribute_def sys_call_def committing_def is_dir_def split: if_splits)
qed

text \<open>The directories whose attributes are set at the end exist beneath the output root.\<close>

definition dirs_ready :: "names \<Rightarrow> file_tree \<Rightarrow> EntryMetadata list \<Rightarrow> bool" where
  "dirs_ready R t ms \<longleftrightarrow> (\<forall>m\<in>set ms. is_safe_relative_path (em_relative_path m)
     \<and> has_dirs t R (entry_names (em_relative_path m)))"

lemma dirs_ready_mono: "(\<And>p. is_dir t p \<Longrightarrow> is_dir t' p) \<Longrightarrow> dirs_ready R t ms \<Longrightarrow> dirs_ready R t' ms"
  by (auto simp: dirs_ready_def has_dirs_def)

definition grows :: "ArchiveReader \<Rightarrow> ArchiveReader \<Rightarrow> bool" where
  "grows r r' \<longleftrightarrow> (\<forall>p. is_dir (xr_tree r) p \<longrightarrow> is_dir (xr_tree r') p)"

lemma grows_refl [simp]: "grows r r" by (simp add: grows_def)

lemma grows_trans: "grows r r' \<Longrightarrow> grows r' r'' \<Longrightarrow> grows r r''" by (simp add: grows_def)

lemma apply_metadata_committing:
  assumes "committing R T t0 tr opts r" "is_absolute path" "path_names path = q" "rooted q (xr_tree r)" "is_beneath R q"
    "apply_metadata_to_path path m r = (res, r')"
  shows "committing R T t0 tr opts r' \<and> grows r r'"
proof -
  let ?I = "\<lambda>x. committing R T t0 tr opts x \<and> grows r x"
  have attr: "stable ?I (on_tree (set_attribute path f))" if f: "\<And>i. in_node (f i) = in_node i" for f
  proof -
    have "?I (snd (on_tree (set_attribute path f) x))" if x: "?I x" for x
    proof -
      have rq: "rooted q (xr_tree x)" using x assms(4) by (auto simp: rooted_def grows_def)
      obtain res' x' where o: "on_tree (set_attribute path f) x = (res', x')" by (cases "on_tree (set_attribute path f) x")
      have "is_dir (xr_tree x) q" using rq by (auto simp: rooted_def)
      from set_attribute_committing [OF _ resolve_dirs [OF assms(2,3) rq] assms(5) this f o] x
      show ?thesis unfolding o by (auto simp: grows_def)
    qed
    then show ?thesis by (simp add: stable_def)
  qed
  have "stable ?I (apply_metadata_to_path path m)"
    unfolding apply_metadata_to_path_def permissions_def last_write_time_def
    by (intro stable_intros attr) simp_all
  then show ?thesis using assms(1,6) stableD [of ?I _ r res r'] by simp
qed

lemma apply_all_metadata_committing:
  assumes "committing R T t0 tr opts r" "xo_output_root opts = absolute_path R" "dirs_ready R (xr_tree r) ms"
    "apply_all_metadata ms r = (res, r')"
  shows "committing R T t0 tr opts r' \<and> grows r r'"
  using assms(1,3,4)
proof (induction ms arbitrary: r)
  case Nil
  then show ?case by (simp add: returnS_def)
next
  case (Cons m ms)
  have prom: "promoting R T (xo_overwrite_existing opts) t0 (xr_tree r)" and o: "xr_options r = opts"
    using Cons.prems(1) by (auto simp: committing_def)
  have R: "rooted R (xr_tree r)" "list_all is_name R" "\<forall>d\<in>set R. d \<noteq> ''.'' \<and> d \<noteq> ''..''"
    using promoting_prefix [OF prom] proper_is_name by (cases "R = []"; auto simp: rooted_def)+
  have rdy: "has_dirs (xr_tree r) R (entry_names (em_relative_path m))" "dirs_ready R (xr_tree r) ms"
    using Cons.prems(2) by (auto simp: dirs_ready_def)
  show ?case
  proof (cases "final_path_for r (em_relative_path m)")
    case (Inl e)
    then show ?thesis using Cons.prems(1,3) by (auto simp: getS_def bindS_def liftS_def)
  next
    case (Inr path)
    have pn: "path_names (absolute_path R) = R" using R(2) by (rule path_names_absolute)
    then have "normal_names (absolute_path R) = R" using normal_names_plain [of "absolute_path R"] R(3) by simp
    then have path: "is_absolute path" "path_names path = R @ entry_names (em_relative_path m)" "list_all proper (entry_names (em_relative_path m))"
      using safe_output_path_names [of "absolute_path R" "em_relative_path m" path R] Inr assms(2) o by (auto simp: final_path_for_def)
    obtain res1 r1 where a: "apply_metadata_to_path path m r = (res1, r1)" by (cases "apply_metadata_to_path path m r")
    have "committing R T t0 tr opts r1 \<and> grows r r1"
      by (rule apply_metadata_committing [OF Cons.prems(1) path(1,2) has_dirs_rooted [OF R(1) rdy(1) path(3)] _ a])
        (simp add: is_beneath_append)
    then have c1: "committing R T t0 tr opts r1" "grows r r1" "dirs_ready R (xr_tree r1) ms"
      using rdy(2) dirs_ready_mono [of "xr_tree r" "xr_tree r1"] by (auto simp: grows_def)
    show ?thesis
    proof (cases res1)
      case (Inl e)
      then show ?thesis using Cons.prems(3) \<open>final_path_for r _ = Inr path\<close> a c1 by (auto simp: getS_def bindS_def liftS_def)
    next
      case ok: (Inr u)
      then have "apply_all_metadata ms r1 = (res, r')"
        using Cons.prems(3) Inr a by (simp add: getS_def bindS_def liftS_def)
      then show ?thesis using Cons.IH [OF c1(1,3)] c1(2) grows_trans by blast
    qed
  qed
qed

lemma committing_tick: "committing R T t0 tr opts r \<Longrightarrow> committing R T t0 tr opts (r\<lparr>xr_tree := tick (xr_tree r)\<rparr>)"
  by (simp add: committing_def)

lemma new_SafeOutputTree_hardened:
  assumes "rooted R t" "list_all is_name R" "want_hardened mode" "new_SafeOutputTree (absolute_path R) mode t = (res, t')"
  shows "t' = tick t \<and> (\<forall>st. res = Inr st \<longrightarrow> so_root_fd st = R \<and> so_hardened st)"
proof -
  have "resolve t (absolute_path R) True = Some R"
    using resolve_dirs [of "absolute_path R" R t True] assms(1,2) by (simp add: path_names_absolute)
  then show ?thesis
    using assms(3,4)
    by (auto simp: new_SafeOutputTree_def getS_def bindS_def guardS_def sys_ok_def returnS_def throwS_def want_hardened_def is_platform_supported_def split: if_splits)
qed

lemma temp_entries_proper:
  assumes "wf_tree t" "e \<in> set (temp_entries t T)"
  shows "\<exists>ms. e = T @ ms \<and> ms \<noteq> [] \<and> list_all proper ms"
proof -
  have e: "e \<in> fst ` set (ft_entries t)" "is_beneath T e" "e \<noteq> T" using assms(2) by (auto simp: temp_entries_def entries_beneath_def)
  then have "entry_at t e \<noteq> None" by (auto simp: entry_at_def map_of_eq_None_iff)
  then have "list_all proper e" using wf_tree_above [OF assms(1)] by blast
  moreover obtain ms where "e = T @ ms" using e(2) by (auto simp: is_beneath_iff)
  ultimately show ?thesis using e(3) by auto
qed

lemma temp_entries_complete: "entry_at t (T @ ms) \<noteq> None \<Longrightarrow> ms \<noteq> [] \<Longrightarrow> T @ ms \<in> set (temp_entries t T)"
  by (auto simp: temp_entries_def entries_beneath_def entry_at_def is_beneath_append dest!: map_of_SomeD intro: rev_image_eqI)

lemma commit_committing:
  assumes "committing R T t0 tr opts r" "xo_output_root opts = absolute_path R" "want_hardened (xo_hardened_extract_mode opts)"
    "commit_temp_tree r = (res, r')"
  shows "committing R T t0 tr opts r' \<and> grows r r' \<and> (is_ok res \<longrightarrow>
    (\<forall>ns. has_dirs (xr_tree r) T ns \<longrightarrow> has_dirs (xr_tree r') R ns))"
proof -
  have prom: "promoting R T (xo_overwrite_existing opts) t0 (xr_tree r)" and o: "xr_options r = opts"
    and tr: "xr_temp_root r = tr" "is_absolute tr" "path_names tr = T" "T \<noteq> []"
    using assms(1) by (auto simp: committing_def)
  have R: "rooted R (xr_tree r)" "list_all is_name R"
    using promoting_prefix [OF prom] proper_is_name by (cases "R = []"; auto)+
  obtain res1 t1 where n: "new_SafeOutputTree (absolute_path R) (xo_hardened_extract_mode opts) (xr_tree r) = (res1, t1)"
    by (cases "new_SafeOutputTree (absolute_path R) (xo_hardened_extract_mode opts) (xr_tree r)")
  note n1 = new_SafeOutputTree_hardened [OF R assms(3) n]
  let ?r = "r\<lparr>xr_tree := tick (xr_tree r)\<rparr>"
  have c1: "committing R T t0 tr opts ?r" using assms(1) by (rule committing_tick)
  have g1: "grows r ?r" by (simp add: grows_def is_dir_def)
  show ?thesis
  proof (cases res1)
    case (Inl e)
    then have "res = Inl e" "r' = ?r" using assms(2,4) n n1 o by (auto simp: commit_temp_tree_def getS_def bindS_def on_tree_def)
    then show ?thesis using c1 g1 by simp
  next
    case (Inr st)
    have root: "resolve (tick (xr_tree r)) tr True = Some T"
      using prom tr by (intro resolve_dirs) (auto simp: promoting_def rooted_def is_dir_def)
    have dT: "is_dir (tick (xr_tree r)) T" using promoting_prefix(3) [OF prom] by (simp add: is_dir_def)
    let ?es = "temp_entries (tick (xr_tree r)) T"
    obtain res2 r2 where p: "promote_entries st T ?es ?r = (res2, r2)" by (cases "promote_entries st T ?es ?r")
    have wf: "wf_tree (tick (xr_tree r))" using prom by (simp add: promoting_def wf_tree_def is_dir_def)
    have p1: "committing R T t0 tr opts r2 \<and> (\<forall>p. is_dir (xr_tree ?r) p \<longrightarrow> is_dir (xr_tree r2) p)
        \<and> (is_ok res2 \<longrightarrow> (\<forall>ms. T @ ms \<in> set ?es \<longrightarrow> is_dir (xr_tree ?r) (T @ ms) \<longrightarrow> has_dirs (xr_tree r2) R ms))"
      by (rule promote_entries_committing [OF c1 _ _ _ p]) (use n1 Inr temp_entries_proper [OF wf] in auto)
    have r': "r' = r2" "is_ok res \<longrightarrow> is_ok res2"
      using assms(2,4) n n1 Inr o root dT p tr(1) flush_promoted_state
      by (auto simp: commit_temp_tree_def getS_def bindS_def on_tree_def guardS_def split: sum.splits dest: arg_cong [of _ _ snd])
    have "has_dirs (xr_tree r2) R ns" if "is_ok res2" "has_dirs (xr_tree r) T ns" for ns
    proof (cases "ns = []")
      case True
      then show ?thesis using promoting_prefix(1) p1 by (auto simp: has_dirs_def committing_def dest!: promoting_is_dir)
    next
      case False
      have "is_dir (xr_tree r) (T @ ns)" using that(2) by (auto simp: has_dirs_def)
      moreover from this have "entry_at (tick (xr_tree r)) (T @ ns) \<noteq> None" using tr(4) by (auto simp: is_dir_def node_at_def)
      ultimately show ?thesis using p1 that(1) temp_entries_complete [OF _ False] by (auto simp: is_dir_def)
    qed
    then show ?thesis using p1 r' by (auto simp: grows_def is_dir_def)
  qed
qed

lemma deferred_committing:
  assumes "committing R T t0 tr opts r" "xo_output_root opts = absolute_path R"
    "dirs_ready R (xr_tree r) (xr_deferred_directory_metadata r)"
    "apply_deferred_directory_metadata r = (res, r')"
  shows "committing R T t0 tr opts r' \<and> grows r r'"
proof -
  let ?ms = "sort_key (\<lambda>m. - int (length (path_elements (em_relative_path m)))) (xr_deferred_directory_metadata r)"
  let ?r = "r\<lparr>xr_deferred_directory_metadata := ?ms\<rparr>"
  have "apply_all_metadata ?ms ?r = (res, r')"
    using assms(4) by (simp add: apply_deferred_directory_metadata_def bindS_def modifyS_def getS_def)
  moreover have "committing R T t0 tr opts ?r" "dirs_ready R (xr_tree ?r) ?ms"
    using assms(1,3) by (auto simp: committing_def dirs_ready_def)
  ultimately show ?thesis using apply_all_metadata_committing [of R T t0 tr opts ?r ?ms res r'] assms(2) by (simp add: grows_def)
qed

text \<open>What remains of these facts when the temporary directory is removed.\<close>

definition spared :: "names \<Rightarrow> names \<Rightarrow> bool \<Rightarrow> file_tree \<Rightarrow> file_tree \<Rightarrow> bool" where
  "spared R T w t0 t \<longleftrightarrow> (\<forall>q. \<not> is_beneath R q \<longrightarrow> entry_at t q = entry_at t0 q)
     \<and> (\<forall>q. \<not> is_beneath T q \<longrightarrow> is_dir t0 q \<longrightarrow> is_dir t q)
     \<and> (\<not> w \<longrightarrow> (\<forall>q. \<not> is_beneath T q \<longrightarrow> node_at t0 q \<noteq> None \<longrightarrow> \<not> is_dir t0 q \<longrightarrow> entry_at t q = entry_at t0 q))"

lemma promoting_spared: "promoting R T w t0 t \<Longrightarrow> spared R T w t0 t"
  by (simp add: promoting_def spared_def)

lemma removes_spared:
  assumes "spared R T w t0 t" "removes T t t'" "butlast T = R" "T \<noteq> []" "is_dir t0 R"
  shows "spared R T w t0 t'"
proof -
  have RT: "is_beneath R T" using assms(3,4) by (metis append_butlast_last_id is_beneath_append is_beneath_refl)
  then have out: "\<not> is_beneath T q" if "\<not> is_beneath R q" for q using that is_beneath_trans by blast
  have a: "entry_at t' q = entry_at t0 q" if "\<not> is_beneath R q" for q
  proof -
    have "q \<noteq> butlast T" using that assms(3) by auto
    then have "entry_at t' q = entry_at t q" using assms(2) out [OF that] by (simp add: removes_def)
    then show ?thesis using assms(1) that by (simp add: spared_def)
  qed
  have b: "is_dir t' q" if "\<not> is_beneath T q" "is_dir t0 q" for q
    using assms(1,2) that by (simp add: removes_def spared_def is_dir_def)
  have c: "entry_at t' q = entry_at t0 q" if "\<not> w" "\<not> is_beneath T q" "node_at t0 q \<noteq> None" "\<not> is_dir t0 q" for q
  proof -
    have "q \<noteq> butlast T" using that(4) assms(3,5) by auto
    then show ?thesis using assms(1,2) that by (simp add: removes_def spared_def)
  qed
  show ?thesis using a b c by (simp add: spared_def)
qed

lemma cleanup_tree: "xr_tree (snd (cleanup_temp_tree r)) = snd (remove_all (xr_temp_root r) (xr_tree r))"
proof -
  obtain res t where m: "remove_all (xr_temp_root r) (xr_tree r) = (res, t)" by (cases "remove_all (xr_temp_root r) (xr_tree r)")
  show ?thesis
    by (cases res) (simp_all add: cleanup_temp_tree_def bindS_def modifyS_def getS_def on_tree_def returnS_def m)
qed

lemma cleanup_spared:
  assumes "spared R T w t0 (xr_tree r)" "resolve (xr_tree r) (xr_temp_root r) False = Some T"
    "butlast T = R" "T \<noteq> []" "is_dir t0 R"
  shows "spared R T w t0 (xr_tree (snd (cleanup_temp_tree r)))"
proof -
  have "removes T (xr_tree r) (snd (remove_all (xr_temp_root r) (xr_tree r)))" by (rule remove_all_removes [OF assms(2)])
  then have "spared R T w t0 (snd (remove_all (xr_temp_root r) (xr_tree r)))"
    by (rule removes_spared [OF assms(1) _ assms(3-5)])
  then show ?thesis by (simp add: cleanup_tree)
qed

lemma promoting_resolves:
  "promoting R T w t0 t \<Longrightarrow> is_absolute tr \<Longrightarrow> path_names tr = T \<Longrightarrow> resolve t tr f = Some T"
  using resolve_dirs [of tr T t f] by (auto simp: promoting_def)

text \<open>From unpacking to promotion.\<close>

lemma unpacking_committing:
  assumes "unpacking False T t1 r" "is_beneath R T"
  shows "committing R T t1 (xr_temp_root r) (xr_options r) r"
    "dirs_ready T (xr_tree r) (xr_deferred_directory_metadata r)"
proof -
  have l: "local (\<lambda>_. False) T t1 (xr_tree r)" "sane (\<lambda>_. False) T (xr_tree r)" "wf_tree (xr_tree r)"
    using assms(1) by (auto simp: unpacking_def)
  have "entry_at (xr_tree r) q = entry_at t1 q" if "\<not> is_beneath T q" for q using l(1) that by (simp add: local_def)
  moreover have "\<not> is_beneath T q" if "\<not> is_beneath R q" for q using that assms(2) is_beneath_trans by blast
  ultimately have "promoting R T w t1 (xr_tree r)" for w
    using l assms(2) by (auto simp: promoting_def sane_def links_ok_def local_def)
  then show "committing R T t1 (xr_temp_root r) (xr_options r) r" using assms(1) by (simp add: committing_def unpacking_def)
  show "dirs_ready T (xr_tree r) (xr_deferred_directory_metadata r)"
    using assms(1) by (auto simp: dirs_ready_def unpacking_def)
qed

lemma remove_entries_result: "\<exists>ok t'. remove_entries qs t = (Inr ok, t')"
  by (induction qs arbitrary: t) (auto simp: bindS_def sys_call_def returnS_def)

lemma cleanup_result: "\<exists>r'. cleanup_temp_tree r = (Inr (), r')"
proof -
  obtain ok t where "remove_all (xr_temp_root r) (xr_tree r) = (Inr ok, t)"
    using remove_entries_result that unfolding remove_all_def
    by (cases "resolve (xr_tree r) (xr_temp_root r) False") (simp, metis option.simps(5))
  then show ?thesis by (simp add: cleanup_temp_tree_def bindS_def modifyS_def getS_def on_tree_def returnS_def)
qed

text \<open>The ways in which \<open>finish\<close> ends, if it has not ended before.\<close>

lemma finish_cases:
  assumes "finish r = (res, r')" "\<not> xr_finished r"
  obtains (early) "r' = r" "\<not> is_ok res"
  | (commit) "commit_temp_tree r = (res, r')" "\<not> is_ok res"
  | (deferred) r1 where "commit_temp_tree r = (Inr (), r1)" "apply_deferred_directory_metadata r1 = (res, r')" "\<not> is_ok res"
  | (ok) r1 r2 where "commit_temp_tree r = (Inr (), r1)" "apply_deferred_directory_metadata r1 = (Inr (), r2)"
      "r' = (snd (cleanup_temp_tree r2))\<lparr>xr_finished := True\<rparr>" "res = Inr ()"
      "xr_pending r = []" "xr_archive_begin_seen r" "xr_archive_end_seen r" "\<not> xr_current_file_open r"
proof (cases "xr_pending r \<noteq> [] \<or> \<not> xr_archive_begin_seen r \<or> \<not> xr_archive_end_seen r \<or> xr_current_file_open r")
  case True
  then have "r' = r \<and> \<not> is_ok res" using assms by (auto simp: finish_def getS_def bindS_def guardS_def split: if_splits)
  then show thesis using early by blast
next
  case False
  then have f: "finish r = bindS commit_temp_tree (\<lambda>_. bindS apply_deferred_directory_metadata (\<lambda>_.
      bindS cleanup_temp_tree (\<lambda>_. modifyS (\<lambda>r. r\<lparr>xr_finished := True\<rparr>)))) r"
    using assms(2) by (simp add: finish_def getS_def bindS_def guardS_def)
  obtain res1 r1 where c: "commit_temp_tree r = (res1, r1)" by (cases "commit_temp_tree r")
  show thesis
  proof (cases res1)
    case (Inl e)
    then have "res = res1" "r' = r1" using assms(1) c unfolding f by (auto simp: bindS_def)
    then show thesis using commit c Inl by simp
  next
    case (Inr u)
    obtain res2 r2 where d: "apply_deferred_directory_metadata r1 = (res2, r2)" by (cases "apply_deferred_directory_metadata r1")
    show thesis
    proof (cases res2)
      case (Inl e)
      then have "res = res2" "r' = r2" using assms(1) c d \<open>res1 = Inr u\<close> unfolding f by (auto simp: bindS_def)
      then show thesis using deferred c d Inl \<open>res1 = Inr u\<close> by simp
    next
      case ok2: (Inr u2)
      obtain r3 where "cleanup_temp_tree r2 = (Inr (), r3)" using cleanup_result by blast
      then have "res = Inr ()" "r' = (snd (cleanup_temp_tree r2))\<lparr>xr_finished := True\<rparr>"
        using assms(1) c d Inr ok2 unfolding f by (auto simp: bindS_def modifyS_def)
      then show thesis using ok c d Inr ok2 False by simp
    qed
  qed
qed

lemma promote_entries_preserves:
  assumes "\<And>r t. f (r\<lparr>xr_tree := t\<rparr>) = f r"
  shows "preserves f (promote_entries st root es)"
proof (induction es)
  case (Cons e es)
  have fl: "preserves f (flush_promoted h p m)" for h p m by (simp add: preserves_def flush_promoted_state)
  have "preserves f (promote_entry st src rel)" for src rel
    unfolding promote_entry_def by (intro preserves_intros fl assms)
  with Cons show ?case by (auto simp: Let_def intro!: preserves_intros)
qed (simp add: preserves_intros)

lemma commit_preserves:
  assumes "\<And>r t. f (r\<lparr>xr_tree := t\<rparr>) = f r"
  shows "preserves f commit_temp_tree"
proof -
  have fl: "preserves f (flush_promoted h p m)" for h p m by (simp add: preserves_def flush_promoted_state)
  show ?thesis unfolding commit_temp_tree_def
    by (intro preserves_intros fl assms promote_entries_preserves)
qed

lemma apply_all_preserves:
  assumes "\<And>r t. f (r\<lparr>xr_tree := t\<rparr>) = f r"
  shows "preserves f (apply_all_metadata ms)"
  by (induction ms) (auto simp: apply_metadata_to_path_def intro!: preserves_intros assms)

lemma deferred_preserves_finished: "preserves xr_finished apply_deferred_directory_metadata"
  unfolding apply_deferred_directory_metadata_def
  by (intro preserves_intros preserves_modifyS apply_all_preserves) simp_all

lemma finish_error_unfinished:
  assumes "finish r = (res, r')" "\<not> xr_finished r" "\<not> is_ok res"
  shows "\<not> xr_finished r'"
proof -
  have c: "commit_temp_tree r = (x, r1) \<Longrightarrow> \<not> xr_finished r1" for x r1
    using preservesD [OF commit_preserves [of xr_finished], of r] assms(2) by simp
  from assms(1,2) show ?thesis
  proof (cases rule: finish_cases)
    case (deferred r1)
    then show ?thesis using c preservesD [OF deferred_preserves_finished, of r1] by simp
  qed (use assms c in auto)
qed

lemma finish_destroy_spared:
  assumes "unpacking False T t1 r" "butlast T = R" "xo_output_root (xr_options r) = absolute_path R"
    "want_hardened (xo_hardened_extract_mode (xr_options r))" "\<not> xr_finished r" "is_dir t1 R"
    "finish r = (res, r')"
  shows "spared R T (xo_overwrite_existing (xr_options r)) t1 (xr_tree (destroy_ArchiveReader r'))"
proof -
  let ?w = "xo_overwrite_existing (xr_options r)" and ?c = "committing R T t1 (xr_temp_root r) (xr_options r)"
  have T: "T \<noteq> []" using assms(1) by (simp add: unpacking_def)
  then have RT: "is_beneath R T" using assms(2) by (metis append_butlast_last_id is_beneath_append is_beneath_refl)
  note c = unpacking_committing [OF assms(1) RT]
  have clean: "spared R T ?w t1 (xr_tree (snd (cleanup_temp_tree x)))" if "?c x" for x
    using that assms(2,6) T
    by (intro cleanup_spared) (auto simp: committing_def intro: promoting_spared promoting_resolves)
  note unfinished = finish_error_unfinished [OF assms(7,5)]
  from assms(7,5) show ?thesis
  proof (cases rule: finish_cases)
    case early
    then show ?thesis using clean [OF c(1)] assms(5) by (simp add: destroy_ArchiveReader_def)
  next
    case commit
    then have "?c r'" using commit_committing [OF c(1) assms(3,4)] by blast
    then show ?thesis using clean commit(2) unfinished by (simp add: destroy_ArchiveReader_def)
  next
    case (deferred r1)
    note c1 = commit_committing [OF c(1) assms(3,4) deferred(1)]
    have "xr_deferred_directory_metadata r1 = xr_deferred_directory_metadata r"
      using preservesD [OF commit_preserves [of xr_deferred_directory_metadata], of r] deferred(1) by simp
    then have "dirs_ready R (xr_tree r1) (xr_deferred_directory_metadata r1)"
      using c(2) c1 by (auto simp: dirs_ready_def)
    then have "?c r'" using deferred_committing [OF _ assms(3) _ deferred(2)] c1 by blast
    then show ?thesis using clean deferred(3) unfinished by (simp add: destroy_ArchiveReader_def)
  next
    case (ok r1 r2)
    note c1 = commit_committing [OF c(1) assms(3,4) ok(1)]
    have "xr_deferred_directory_metadata r1 = xr_deferred_directory_metadata r"
      using preservesD [OF commit_preserves [of xr_deferred_directory_metadata], of r] ok(1) by simp
    then have "dirs_ready R (xr_tree r1) (xr_deferred_directory_metadata r1)"
      using c(2) c1 by (auto simp: dirs_ready_def)
    then have "?c r2" using deferred_committing [OF _ assms(3) _ ok(2)] c1 by blast
    then show ?thesis using clean [of r2] ok(3) by (simp add: destroy_ArchiveReader_def)
  qed
qed

subsection \<open>A whole extraction\<close>

text \<open>
  The life of a reader: it is made, fed with the plaintext chunks, finished if all of them were
  accepted, and destroyed in any case.
\<close>

definition run_extraction :: "ArchiveReaderOptions \<Rightarrow> string \<Rightarrow> bytes list \<Rightarrow> file_tree \<Rightarrow> unit result \<times> file_tree" where
  "run_extraction opts temp_suffix chunks t =
    (case new_ArchiveReader opts temp_suffix t of
       (Inl e, t') \<Rightarrow> (Inl e, t')
     | (Inr r, t') \<Rightarrow>
         (case bindS (consume_all chunks) (\<lambda>_. finish) r of
            (res, r') \<Rightarrow> (res, xr_tree (destroy_ArchiveReader r'))))"

text \<open>The output root exists, and \<open>R\<close> is the directory it leads to.\<close>

definition output_root_at :: "names \<Rightarrow> path \<Rightarrow> file_tree \<Rightarrow> bool" where
  "output_root_at R p t \<longleftrightarrow> p \<noteq> [] \<and> create_directories p t = (Inr True, t)
     \<and> weakly_canonical t p = Some R \<and> rooted R t"

definition temp_entry :: "names \<Rightarrow> string \<Rightarrow> names" where
  "temp_entry R suffix = R @ [temp_dir_name suffix]"

lemma wf_nothing_beneath:
  assumes "wf_tree t" "node_at t T = None" "is_beneath T q"
  shows "entry_at t q = None"
proof (rule ccontr)
  assume e: "entry_at t q \<noteq> None"
  obtain cs where q: "q = T @ cs" using assms(3) by (auto simp: is_beneath_iff)
  show False
  proof (cases "cs = []")
    case True
    then show False using e assms(2) q by (auto simp: node_at_def split: if_splits)
  next
    case False
    have "\<forall>n<length q. is_dir t (take n q)" using wf_tree_above [OF assms(1) e] by blast
    moreover have "length T < length q" using False q by simp
    ultimately have "is_dir t (take (length T) q)" by blast
    then show False using assms(2) q by (simp add: is_dir_def)
  qed
qed

lemma make_temp_root_cases:
  assumes "rooted R t" "list_all is_name R" "proper name" "make_temp_root_hardened (absolute_path R) name t = (res, t')"
  obtains (made) "res = Inr ()" "node_at t (R @ [name]) = None" "t' = make_entry (R @ [name]) Dir (tick (tick t))"
  | (failed) e where "res = Inl e" "t' = tick t \<or> t' = tick (tick t)"
proof -
  have r: "resolve (tick t) (absolute_path R) False = Some R"
    using resolve_dirs [of "absolute_path R" R "tick t" False] assms(1,2) by (simp add: path_names_absolute rooted_def is_dir_def)
  have d: "is_dir (tick t) R" using assms(1) by (auto simp: rooted_def is_dir_def)
  have e: "entry_in R name = R @ [name]" using assms(3) by (auto simp: entry_in_def proper_def is_name_def)
  let ?m = "make_at (R @ [name]) Dir (tick t)"
  have m: "make_temp_root_hardened (absolute_path R) name t =
      (if faulty t then (Inl (InvalidArgument ''cannot open output root for hardened temp creation: ''), tick t)
       else bindS (make_at (R @ [name]) Dir) (\<lambda>ok. guardS (\<not> ok) (InvalidArgument ''cannot create temporary extraction directory'')) (tick t))"
    using r d by (simp add: make_temp_root_hardened_def sys_ok_def bindS_def getS_def guardS_def e)
  show thesis
  proof (cases "faulty t \<or> node_at t (R @ [name]) \<noteq> None \<or> faulty (tick t)")
    case True
    then have "(\<exists>e. res = Inl e) \<and> (t' = tick t \<or> t' = tick (tick t))"
      using assms(4) unfolding m by (auto simp: make_at_def sys_call_def bindS_def guardS_def split: if_splits)
    then show thesis using failed by blast
  next
    case False
    then show thesis using made assms(4) d unfolding m
      by (auto simp: make_at_def sys_call_def bindS_def guardS_def)
  qed
qed

lemma new_ArchiveReader_hardened:
  assumes "wf_tree t" "output_root_at R (xo_output_root opts) t" "want_hardened (xo_hardened_extract_mode opts)"
    "CHR ''/'' \<notin> set suffix" "new_ArchiveReader opts suffix t = (res, t')"
  defines "T \<equiv> temp_entry R suffix"
  shows "(\<forall>e. res = Inl e \<longrightarrow> (\<forall>q. entry_at t' q = entry_at t q))
    \<and> (\<forall>r. res = Inr r \<longrightarrow> unpacking (xo_allow_symlinks opts) T t' r \<and> xr_tree r = t' \<and> \<not> xr_finished r
         \<and> xr_options r = opts\<lparr>xo_output_root := absolute_path R\<rparr>
         \<and> node_at t T = None \<and> (\<forall>q. entry_at t' q = entry_at (make_entry T Dir t) q))"
proof -
  let ?name = "temp_dir_name suffix"
  let ?opts = "opts\<lparr>xo_output_root := absolute_path R\<rparr>" and ?tr = "path_append (absolute_path R) ?name"
  have root: "rooted R t" "weakly_canonical t (xo_output_root opts) = Some R"
      "create_directories (xo_output_root opts) t = (Inr True, t)" "xo_output_root opts \<noteq> []"
    using assms(2) by (auto simp: output_root_at_def)
  have R: "list_all is_name R"
  proof (cases "R = []")
    case False
    have "is_dir t R" using root(1) by (auto simp: rooted_def)
    then have "entry_at t R \<noteq> None" using False by (auto simp: is_dir_def node_at_def)
    then show ?thesis using wf_tree_above [OF assms(1)] proper_is_name by blast
  qed simp
  have name: "proper ?name" "\<not> is_absolute ?name" using assms(4) by (auto simp: temp_dir_name_def proper_def is_name_def is_absolute_def)
  obtain res1 t1 where m: "make_temp_root_hardened (absolute_path R) ?name t = (res1, t1)"
    by (cases "make_temp_root_hardened (absolute_path R) ?name t")
  have new: "(res, t') = (case res1 of Inl e \<Rightarrow> (Inl e, t1) | Inr _ \<Rightarrow> (Inr (initial_reader ?opts ?tr t1), t1))"
    using assms(3,5) root m
    by (cases res1) (auto simp: new_ArchiveReader_def bindS_def guardS_def getS_def returnS_def Let_def)
  from root(1) R name(1) m show ?thesis
  proof (cases rule: make_temp_root_cases)
    case (failed e)
    then show ?thesis using new by auto
  next
    case made
    have t1: "t1 = tick (tick (make_entry T Dir t))" using made(3) by (simp add: T_def temp_entry_def)
    have T: "T = R @ [?name]" by (simp add: T_def temp_entry_def)
    have l: "local (\<lambda>_. False) R t t1"
      unfolding t1 using made(2) root(1) name(1) local_make_entry [of R T t Dir "\<lambda>_. False"]
      by (auto simp: T rooted_def)
    have wf: "wf_tree t1" using local_wf [OF l assms(1)] .
    have dT: "is_dir t1 T" by (auto simp: t1 is_dir_def make_entry_def fresh_def T)
    have rT: "rooted T t1"
    proof -
      have "has_dirs t1 R [?name]"
        using dT local_rooted [OF l root(1)] unfolding has_dirs_def T
        by (intro allI impI) (rename_tac n, case_tac n, auto simp: rooted_def)
      then show ?thesis using has_dirs_rooted [OF local_rooted [OF l root(1)]] name(1) by (simp add: T)
    qed
    have links: "links_ok P T t1" for P
    proof -
      have "node_at t1 q \<noteq> Some (Link p)" if "is_beneath T q" for q p
        using wf_nothing_beneath [OF assms(1) _ that] made(2) dT
        by (cases "q = T") (auto simp: t1 T make_entry_def is_dir_def node_at_def)
      then show ?thesis by (simp add: links_ok_def)
    qed
    have "path_names ?name = [?name]"
      using name(1) by (auto simp: path_names_def split_slash_single proper_def is_name_def)
    then have tr: "is_absolute ?tr" "path_names ?tr = T"
      using path_append_absolute [of "absolute_path R" ?name] path_append_names [OF name(2), of "absolute_path R"] name(2)
        path_names_absolute [OF R]
      by (simp_all add: T) (simp add: absolute_path_def)
    have "unpacking (xo_allow_symlinks opts) T t1 (initial_reader ?opts ?tr t1)"
      using tr rT links wf link_policy_inner
      by (auto simp: unpacking_def initial_reader_def sane_def T)
    then show ?thesis using new made(1,2) by (auto simp: initial_reader_def T t1)
  qed
qed

lemma spared_before:
  assumes "spared R T w t1 tf" "butlast T = R" "T \<noteq> []" "node_at t T = None" "wf_tree t" "is_dir t R"
    "\<And>q. entry_at t1 q = entry_at (make_entry T Dir t) q"
  shows "(\<forall>q. \<not> is_beneath R q \<longrightarrow> entry_at tf q = entry_at t q) \<and> (\<forall>q. is_dir t q \<longrightarrow> is_dir tf q)
    \<and> (\<not> w \<longrightarrow> (\<forall>q. node_at t q \<noteq> None \<longrightarrow> \<not> is_dir t q \<longrightarrow> entry_at tf q = entry_at t q))"
proof -
  have RT: "is_beneath R T" "R \<noteq> T" using assms(2,3) by (metis append_butlast_last_id is_beneath_append is_beneath_refl)
      (metis assms(2,3) append_butlast_last_id not_Cons_self2 append_self_conv)
  have none: "\<not> is_beneath T q" if "node_at t q \<noteq> None" for q
    using wf_nothing_beneath [OF assms(5,4)] that assms(3) by (cases "q = []") (auto simp: node_at_def is_beneath_def)
  have e: "entry_at t1 q = entry_at t q" if "q \<noteq> T" "q \<noteq> R" for q
    using assms(2,7) that by (auto simp: make_entry_def)
  have d: "is_dir t1 q" if "is_dir t q" for q
  proof -
    have "is_dir (make_entry T Dir t) q" using that assms(4) by (auto simp: is_dir_def make_entry_def fresh_def)
    then show ?thesis using node_at_cong [of t1 "make_entry T Dir t"] assms(7) by (simp add: is_dir_def)
  qed
  have "entry_at tf q = entry_at t q" if "\<not> is_beneath R q" for q
  proof -
    have "q \<noteq> T" "q \<noteq> R" using that RT(1) by auto
    then show ?thesis using assms(1) e that by (simp add: spared_def)
  qed
  moreover have "is_dir tf q" if "is_dir t q" for q
    using assms(1) d [OF that] none [of q] that by (simp add: spared_def is_dir_def)
  moreover have "entry_at tf q = entry_at t q" if "\<not> w" "node_at t q \<noteq> None" "\<not> is_dir t q" for q
  proof -
    have n: "\<not> is_beneath T q" using none that(2) by blast
    then have "q \<noteq> T" "q \<noteq> R" using that(3) assms(6) by auto
    then have eq: "entry_at t1 q = entry_at t q" by (rule e)
    then have "node_at t1 q = node_at t q" by (simp add: node_at_def)
    then show ?thesis using assms(1) eq that n by (simp add: spared_def is_dir_def)
  qed
  ultimately show ?thesis by blast
qed

lemma consume_all_preserves:
  assumes "\<And>rec. preserves f (process_record rec)" "\<And>r p. f (r\<lparr>xr_pending := p\<rparr>) = f r"
  shows "preserves f (consume_all chunks)"
proof -
  have pr: "stable (\<lambda>r. f r = v) (process_record rec)" for rec v
    using assms(1) by (simp add: stable_def preserves_def)
  have "stable (\<lambda>r. f r = v) consume_records" for v
    by (rule consume_records_stable [OF pr]) (simp add: assms(2))
  then have "stable (\<lambda>r. f r = v) (consume bs)" for bs v
    by (simp add: stable_def consume_eq assms(2))
  then have "stable (\<lambda>r. f r = v) (consume_all chunks)" for v
    by (induction chunks) (auto intro: stable_intros)
  then show ?thesis by (simp add: stable_def preserves_def)
qed

text \<open>The states of an extraction that may be left behind: at any chunk, or after the end.\<close>

definition left_behind :: "ArchiveReaderOptions \<Rightarrow> string \<Rightarrow> bytes list \<Rightarrow> file_tree \<Rightarrow> file_tree \<Rightarrow> bool" where
  "left_behind opts suffix chunks t t' \<longleftrightarrow>
     (case new_ArchiveReader opts suffix t of
        (Inl e, t1) \<Rightarrow> t' = t1
      | (Inr r, t1) \<Rightarrow> \<exists>r'. (r' = snd (consume_all chunks r) \<or> r' = snd (bindS (consume_all chunks) (\<lambda>_. finish) r))
          \<and> t' = xr_tree (destroy_ArchiveReader r'))"

lemma run_extraction_left: "run_extraction opts suffix chunks t = (res, t') \<Longrightarrow> left_behind opts suffix chunks t t'"
  by (auto simp: run_extraction_def left_behind_def split: prod.splits sum.splits)

definition confined :: "names \<Rightarrow> bool \<Rightarrow> file_tree \<Rightarrow> file_tree \<Rightarrow> bool" where
  "confined R overwrite t t' \<longleftrightarrow> (\<forall>q. \<not> is_beneath R q \<longrightarrow> entry_at t' q = entry_at t q) \<and> (\<forall>q. is_dir t q \<longrightarrow> is_dir t' q)
     \<and> (\<not> overwrite \<longrightarrow> (\<forall>q. node_at t q \<noteq> None \<longrightarrow> \<not> is_dir t q \<longrightarrow> entry_at t' q = entry_at t q))"

lemma left_behind_confined:
  assumes "wf_tree t" "output_root_at R (xo_output_root opts) t" "want_hardened (xo_hardened_extract_mode opts)"
    "\<not> xo_allow_symlinks opts" "CHR ''/'' \<notin> set suffix" "left_behind opts suffix chunks t t'"
  shows "confined R (xo_overwrite_existing opts) t t'"
proof -
  let ?T = "temp_entry R suffix"
  have dR: "is_dir t R" using assms(2) by (auto simp: output_root_at_def rooted_def)
  have T: "?T \<noteq> []" "butlast ?T = R" by (simp_all add: temp_entry_def)
  obtain res1 t1 where n: "new_ArchiveReader opts suffix t = (res1, t1)" by (cases "new_ArchiveReader opts suffix t")
  note new = new_ArchiveReader_hardened [OF assms(1-3,5) n]
  show ?thesis
  proof (cases res1)
    case (Inl e)
    then have "entry_at t' q = entry_at t q" for q using new assms(6) n by (simp add: left_behind_def)
    then show ?thesis using node_at_cong [of t' t] by (simp add: confined_def is_dir_def)
  next
    case (Inr r)
    have r: "unpacking False ?T t1 r" "xr_tree r = t1" "\<not> xr_finished r" "xr_options r = opts\<lparr>xo_output_root := absolute_path R\<rparr>"
      "node_at t ?T = None" "\<And>q. entry_at t1 q = entry_at (make_entry ?T Dir t) q"
      using new Inr assms(4) by auto
    have d1: "is_dir t1 R" using r(6) dR by (auto simp: is_dir_def node_at_def make_entry_def temp_entry_def split: if_splits)
    obtain res2 r2 where c: "consume_all chunks r = (res2, r2)" by (cases "consume_all chunks r")
    have u: "unpacking False ?T t1 r2" using stableD [OF consume_all_unpacks r(1) c] .
    have fin: "\<not> xr_finished r2" "xr_options r2 = xr_options r"
      using preservesD [OF consume_all_preserves [of xr_finished chunks], of r]
        preservesD [OF consume_all_preserves [of xr_options chunks], of r] process_record_preserves r(3) c by simp_all
    have opts: "xo_output_root (xr_options r2) = absolute_path R" "want_hardened (xo_hardened_extract_mode (xr_options r2))"
      "xo_overwrite_existing (xr_options r2) = xo_overwrite_existing opts"
      using fin(2) r(4) assms(3) by simp_all
    have RT: "is_beneath R ?T" by (simp add: temp_entry_def is_beneath_append)
    have cm: "promoting R ?T (xo_overwrite_existing opts) t1 (xr_tree r2)" "is_absolute (xr_temp_root r2)" "path_names (xr_temp_root r2) = ?T"
      using unpacking_committing(1) [OF u RT] opts(3) by (auto simp: committing_def)
    have gone: "spared R ?T (xo_overwrite_existing opts) t1 (xr_tree (destroy_ArchiveReader r2))"
      using cm fin(1) by (simp add: destroy_ArchiveReader_def cleanup_spared promoting_spared promoting_resolves T d1)
    obtain r' where r': "r' = snd (consume_all chunks r) \<or> r' = snd (bindS (consume_all chunks) (\<lambda>_. finish) r)"
      and t': "t' = xr_tree (destroy_ArchiveReader r')"
      using assms(6) n Inr by (auto simp: left_behind_def)
    have "spared R ?T (xo_overwrite_existing opts) t1 t'"
    proof (cases "r' = r2")
      case True
      then show ?thesis using gone t' by simp
    next
      case False
      then obtain x res3 r3 where "res2 = Inr x" "finish r2 = (res3, r3)" "r' = r3"
        using r' c by (cases res2; cases "finish r2") (auto simp: bindS_def)
      then show ?thesis using finish_destroy_spared [OF u T(2) opts(1,2) fin(1) d1] t' opts(3) by simp
    qed
    then show ?thesis unfolding confined_def using spared_before [OF _ T(2,1) r(5) assms(1) dR r(6)] by blast
  qed
qed

text \<open>
  C2: Extraction in hardened mode cannot reach outside the output root.  Let \<open>R\<close> be the directory that
  the output path leads to.  Whatever plaintext is fed to the reader, however it is cut into chunks,
  whatever links and files already lie in the output root, whichever calls of the system fail and
  whether the extraction succeeds or not: at the end every entry outside \<open>R\<close> is exactly as it was,
  with contents and attributes, every directory is still a directory, and without permission to
  overwrite no file and no link that was there before has changed anywhere.
\<close>

theorem extraction_confined:
  assumes "wf_tree t" "output_root_at R (xo_output_root opts) t" "want_hardened (xo_hardened_extract_mode opts)"
    "\<not> xo_allow_symlinks opts" "CHR ''/'' \<notin> set suffix" "run_extraction opts suffix chunks t = (res, t')"
  shows "(\<forall>q. \<not> is_beneath R q \<longrightarrow> entry_at t' q = entry_at t q) \<and> (\<forall>q. is_dir t q \<longrightarrow> is_dir t' q)
    \<and> (\<not> xo_overwrite_existing opts \<longrightarrow>
         (\<forall>q. node_at t q \<noteq> None \<longrightarrow> \<not> is_dir t q \<longrightarrow> entry_at t' q = entry_at t q))"
  using left_behind_confined [OF assms(1-5) run_extraction_left [OF assms(6)]] unfolding confined_def .

text \<open>A tree with a link planted in the output root, and an archive that goes through it.\<close>

definition sample_tree :: file_tree where
  "sample_tree = \<lparr>ft_entries = [([''out''], fresh Dir), ([''home''], fresh Dir), ([''home'', ''f''], fresh (File [1])),
      ([''out'', ''d''], fresh (Link ''/home''))], ft_cwd = [], ft_clock = 0, ft_fault = \<lambda>_. False\<rparr>"

definition sample_extract_options :: ArchiveReaderOptions where
  "sample_extract_options = \<lparr>xo_output_root = ''/out'', xo_overwrite_existing = True, xo_restore_timestamps = True,
     xo_restore_permissions = True, xo_allow_symlinks = False, xo_hardened_extract_mode = HardenedAuto,
     xo_durability_mode = DurabilityOff, xo_durability_hooks = hooks_noop\<rparr>"

definition sample_metadata_of :: "path \<Rightarrow> u64 \<Rightarrow> EntryMetadata" where
  "sample_metadata_of p n = \<lparr>em_kind = RegularFile, em_relative_path = p, em_original_size = n, em_posix_mode = 0x1A4,
      em_times = \<lparr>ft_modified_ns = 5, ft_accessed_ns = None, ft_created_ns = None\<rparr>, em_symlink_target = []\<rparr>"

definition sample_records :: "path \<Rightarrow> bytes \<Rightarrow> ArchiveRecord list" where
  "sample_records p bs = [\<lparr>ar_type = ArchiveBegin, ar_payload = [1, 0, 0, 0]\<rparr>,
     \<lparr>ar_type = FileEntry, ar_payload = metadata_bytes (sample_metadata_of p (of_nat (length bs)))\<rparr>,
     \<lparr>ar_type = FileBytes, ar_payload = bs\<rparr>, \<lparr>ar_type = FileEnd, ar_payload = []\<rparr>, \<lparr>ar_type = ArchiveEnd, ar_payload = []\<rparr>]"

lemma sample_tree_entries: "entry_at sample_tree q =
    (if q = [''out''] then Some (fresh Dir) else if q = [''home''] then Some (fresh Dir)
     else if q = [''home'', ''f''] then Some (fresh (File [1]))
     else if q = [''out'', ''d''] then Some (fresh (Link ''/home'')) else None)"
  by (simp add: entry_at_def sample_tree_def)

lemma sample_tree_wf: "wf_tree sample_tree"
  by (auto simp: wf_tree_def is_dir_def node_at_def sample_tree_entries fresh_def proper_def is_name_def)

lemma sample_output_root: "output_root_at [''out''] ''/out'' sample_tree"
proof -
  have c: "create_directories ''/out'' sample_tree = (Inr True, sample_tree)"
    unfolding create_directories_def start_of_def sample_tree_def by (simp add: path_names_def is_absolute_def fresh_def is_dir_def node_at_def entry_at_def)
  have w: "weakly_canonical sample_tree ''/out'' = Some [''out'']" by code_simp
  have "rooted [''out''] sample_tree"
    by (auto simp: rooted_def is_dir_def node_at_def sample_tree_entries fresh_def le_Suc_eq)
  with c w show ?thesis by (simp add: output_root_at_def)
qed

definition sample_extraction :: "unit result \<times> file_tree" where
  "sample_extraction = run_extraction sample_extract_options ''x''
     [concat (map serialize_record (sample_records ''d/f'' [7]))] sample_tree"

theorem extraction_confined_witness:
  "entry_at (snd sample_extraction) [''home'', ''f''] = Some (fresh (File [1]))
     \<and> is_dir (snd sample_extraction) [''out'']"
proof -
  have r: "run_extraction sample_extract_options ''x'' [concat (map serialize_record (sample_records ''d/f'' [7]))] sample_tree
      = (fst sample_extraction, snd sample_extraction)"
    by (simp add: sample_extraction_def)
  have "(\<forall>q. \<not> is_beneath [''out''] q \<longrightarrow> entry_at (snd sample_extraction) q = entry_at sample_tree q)
      \<and> (\<forall>q. is_dir sample_tree q \<longrightarrow> is_dir (snd sample_extraction) q)"
    using extraction_confined [OF sample_tree_wf _ _ _ _ r, of "[''out'']"] sample_output_root
    by (simp add: sample_extract_options_def want_hardened_def is_platform_supported_def)
  moreover have "is_dir sample_tree [''out'']" by (simp add: is_dir_def node_at_def sample_tree_entries fresh_def)
  ultimately show ?thesis by (simp add: is_beneath_def sample_tree_entries)
qed

subsection \<open>The portable mode\<close>

text \<open>A link in the output root \<open>R\<close> whose target is a directory \<open>D\<close> outside.\<close>

definition leads_out :: "file_tree \<Rightarrow> names \<Rightarrow> string \<Rightarrow> names \<Rightarrow> bool" where
  "leads_out t R l D \<longleftrightarrow> list_all proper (R @ [l]) \<and> list_all proper D \<and> \<not> is_beneath R D
     \<and> (\<forall>n\<le>length R. is_dir t (take n R)) \<and> (\<forall>n\<le>length D. is_dir t (take n D))
     \<and> node_at t (R @ [l]) = Some (Link (absolute_path D))"

lemma dirs_above:
  assumes "wf_tree t" "is_dir t q"
  shows "list_all proper q" "n \<le> length q \<Longrightarrow> is_dir t (take n q)"
proof -
  have "q = [] \<or> entry_at t q \<noteq> None" using assms(2) by (cases "q = []") (auto simp: is_dir_def node_at_def)
  then show "list_all proper q" using wf_tree_above [OF assms(1)] by auto
  show "is_dir t (take n q)" if "n \<le> length q"
    using \<open>q = [] \<or> entry_at t q \<noteq> None\<close> wf_tree_above [OF assms(1)] assms(2) that by (cases "n = length q") (auto simp: is_dir_def)
qed

lemma planted_leads_out:
  assumes "wf_tree t" "is_dir t R" "node_at t (R @ [l]) = Some (Link (absolute_path D))" "is_dir t D" "\<not> is_beneath R D"
  shows "leads_out t R l D"
proof -
  have "entry_at t (R @ [l]) \<noteq> None" using assms(3) by (auto simp: node_at_def)
  then have "list_all proper (R @ [l])" using wf_tree_above [OF assms(1)] by blast
  then show ?thesis using assms dirs_above [OF assms(1,2)] dirs_above [OF assms(1,4)] by (simp add: leads_out_def)
qed

lemma leads_out_names: "leads_out t R l D \<Longrightarrow> c \<in> set (R @ l # D) \<Longrightarrow> is_name c \<and> c \<noteq> ''.'' \<and> c \<noteq> ''..''"
  by (auto simp: leads_out_def list_all_iff proper_def)

lemma leads_out_link:
  assumes "leads_out t R l D" "cs \<noteq> [] \<or> follow"
  shows "walk t (Suc k) R (l # cs) follow = walk t k D cs follow"
proof -
  have "walk t (Suc k) R (l # cs) follow = walk t k [] (D @ cs) follow"
    using assms leads_out_names [OF assms(1), of l] path_names_absolute [of D] leads_out_names [OF assms(1)]
    by (auto simp: leads_out_def list_all_iff)
  also have "\<dots> = walk t k ([] @ D) cs follow"
    using assms(1) leads_out_names [OF assms(1)] by (intro walk_beneath_dirs) (auto simp: leads_out_def)
  finally show ?thesis by simp
qed

lemma leads_out_walk:
  assumes "leads_out t R l D" "cs \<noteq> [] \<or> follow"
  shows "walk t (Suc k) [] (R @ l # cs) follow = walk t k D cs follow"
proof -
  have "walk t (Suc k) [] (R @ l # cs) follow = walk t (Suc k) ([] @ R) (l # cs) follow"
    using assms(1) leads_out_names [OF assms(1)] by (intro walk_beneath_dirs) (auto simp: leads_out_def)
  then show ?thesis using leads_out_link [OF assms] by simp
qed

lemma max_links_Suc: "max_links = Suc 39"
  by (simp add: max_links_def)

lemma leads_out_make_dirs:
  assumes "leads_out t R l D"
  shows "make_dirs [] (R @ l # cs) t = make_dirs D cs t"
proof -
  have "make_dirs [] (R @ l # cs) t = make_dirs ([] @ R) (l # cs) t"
    using assms leads_out_names [OF assms] by (intro make_dirs_existing) (auto simp: leads_out_def)
  moreover have "walk t max_links R [l] True = At D"
    unfolding max_links_Suc using leads_out_link [OF assms, of "[]" True 39] by simp
  moreover have "is_dir t D" using assms by (auto simp: leads_out_def dest: spec [of _ "length D"])
  ultimately show ?thesis by (simp del: walk.simps)
qed

lemma leads_out_canonical:
  assumes "leads_out t R l D"
  shows "weakly_canonical t (absolute_path (R @ [l])) = Some D"
proof -
  have dirs: "is_dir t (take n R)" if "n \<le> length R" for n using assms that by (simp add: leads_out_def)
  have "canonical_prefix t [] seen seen (cs @ [l]) = canonical_prefix t [] R R [l]" if "seen @ cs = R" for seen cs
    using that
  proof (induction cs arbitrary: seen)
    case (Cons c cs)
    have "is_dir t (seen @ [c])" using dirs [of "Suc (length seen)"] Cons.prems by auto
    moreover have "walk t max_links [] (seen @ [c]) True = At (seen @ [c])"
    proof (rule walk_plain_dirs)
      show "list_all proper (seen @ [c])" using assms Cons.prems by (auto simp: leads_out_def)
      show "is_dir t (take n (seen @ [c]))" if "n < length (seen @ [c])" for n
        using dirs [of n] that by (auto simp flip: Cons.prems)
      show "node_at t (seen @ [c]) \<noteq> Some (Link p)" for p using \<open>is_dir t (seen @ [c])\<close> by (simp add: is_dir_def)
    qed
    ultimately show ?case using Cons.IH [of "seen @ [c]"] Cons.prems by (simp add: is_dir_def del: walk.simps)
  qed simp
  from this [of "[]" R] have "canonical_prefix t [] [] [] (R @ [l]) = canonical_prefix t [] R R [l]" by simp
  moreover have "walk t max_links [] (R @ [l]) True = At D"
    unfolding max_links_Suc using leads_out_walk [OF assms, of "[]" True 39] by simp
  moreover have "is_dir t D" using assms by (auto simp: leads_out_def dest: spec [of _ "length D"])
  moreover have "path_names (absolute_path (R @ [l])) = R @ [l]"
    using leads_out_names [OF assms] by (intro path_names_absolute) (auto simp: list_all_iff)
  ultimately show ?thesis by (simp add: weakly_canonical_def start_of_def is_dir_def del: walk.simps)
qed

lemma relative_names_outside:
  "\<not> is_beneath R D \<Longrightarrow> \<exists>rest. relative_names D R = ''..'' # rest \<and> set rest \<subseteq> insert ''..'' (set D)"
proof (induction D arbitrary: R)
  case Nil
  then show ?case by (cases R) (auto simp: is_beneath_def)
next
  case (Cons d D)
  then show ?case by (cases R) (auto simp: is_beneath_def, blast)
qed

lemma leads_out_refused:
  assumes "leads_out t R l D" "so_root_path safe_tree = absolute_path R" "is_name f"
  shows "check_no_escape safe_tree (absolute_path (R @ [l, f])) t
     = (Inl (InvalidArgument ''output path escapes output root via symlink''), t)"
proof -
  have names: "list_all is_name (R @ [l, f])" "list_all is_name R"
    using leads_out_names [OF assms(1)] assms(3) by (auto simp: list_all_iff)
  have parent: "parent_path (absolute_path (R @ [l, f])) = absolute_path (R @ [l])"
    using parent_absolute_path [OF _ names(1)] by (simp add: butlast_append)
  obtain rest where rest: "relative_names D R = ''..'' # rest" "set rest \<subseteq> insert ''..'' (set D)"
    using relative_names_outside assms(1) unfolding leads_out_def by blast
  have isn: "list_all is_name (''..'' # rest)"
    using rest(2) leads_out_names [OF assms(1)] by (auto simp: list_all_iff is_name_def)
  have "join_slash (''..'' # rest) \<noteq> [] \<and> hd (join_slash (''..'' # rest)) \<noteq> CHR ''/''" by (rule join_slash_start [OF _ isn]) simp
  then have "path_elements (join_slash (''..'' # rest)) = ''..'' # rest"
    using relative_elements_join [OF _ isn] by (auto simp: path_elements_def is_absolute_def)
  then show ?thesis
    using leads_out_canonical [OF assms(1)] rest(1) \<open>join_slash (''..'' # rest) \<noteq> [] \<and> _\<close> path_names_absolute [OF names(2)]
    by (simp add: check_no_escape_def parent getS_def guardS_def lexically_relative_def Let_def assms(2) del: join_slash.simps)
qed

lemma remove_entries_ok:
  "\<forall>n. \<not> ft_fault t n \<Longrightarrow> \<exists>t'. remove_entries qs t = (Inr True, t') \<and> ft_fault t' = ft_fault t
     \<and> (\<forall>q. q \<notin> set qs \<longrightarrow> node_at t' q = node_at t q)"
proof (induction qs arbitrary: t)
  case (Cons p qs)
  let ?t = "touch (butlast p) (drop_entry p (tick t))"
  have f: "ft_fault ?t = ft_fault t" unfolding touch_def put_entry_def drop_entry_def tick_def by (simp split: option.split)
  then obtain t' where "remove_entries qs ?t = (Inr True, t')" "ft_fault t' = ft_fault t" "\<forall>q. q \<notin> set qs \<longrightarrow> node_at t' q = node_at ?t q"
    using Cons.IH [of ?t] Cons.prems by metis
  then show ?case using Cons.prems by (auto simp: bindS_def sys_call_def faulty_def)
qed (simp add: returnS_def)

lemma absolute_path_append:
  assumes "R \<noteq> []" "list_all is_name R" "is_name l" "is_name f"
  shows "path_append (absolute_path R) (join_slash [l, f]) = absolute_path (R @ [l, f])"
proof -
  have "\<not> is_absolute (join_slash [l, f])" using assms(3) by (cases l) (auto simp: is_absolute_def is_name_def)
  then show ?thesis
    using absolute_path_last [OF assms(1,2)] absolute_path_snoc [of "R @ [l]" f] absolute_path_snoc [of R l] assms(1)
    by (simp add: path_append_def)
qed

lemma leads_out_paths:
  assumes "leads_out t R l D" "is_name c"
  shows "path_append (absolute_path R) (join_slash [l, c]) = absolute_path (R @ [l, c])"
    "path_names (absolute_path (R @ [l, c])) = R @ [l, c]" "absolute_path (R @ [l, c]) \<noteq> []"
    "\<not> ends_in_slash (absolute_path (R @ [l, c]))"
    "parent_path (absolute_path (R @ [l, c])) = absolute_path (R @ [l])"
    "path_names (absolute_path (R @ [l])) = R @ [l]"
proof -
  have R: "R \<noteq> []" "list_all is_name R" "is_name l"
    using leads_out_names [OF assms(1)] assms(1) by (auto simp: leads_out_def list_all_iff is_beneath_def)
  then have n: "list_all is_name (R @ [l, c])" using assms(2) by simp
  show "path_append (absolute_path R) (join_slash [l, c]) = absolute_path (R @ [l, c])"
    by (rule absolute_path_append [OF R assms(2)])
  show "path_names (absolute_path (R @ [l, c])) = R @ [l, c]" by (rule path_names_absolute [OF n])
  show "absolute_path (R @ [l, c]) \<noteq> []" "\<not> ends_in_slash (absolute_path (R @ [l, c]))"
    using absolute_path_last [OF _ n] by (simp_all add: ends_in_slash_def)
  show "parent_path (absolute_path (R @ [l, c])) = absolute_path (R @ [l])"
    using parent_absolute_path [OF _ n] by (simp add: butlast_append)
  show "path_names (absolute_path (R @ [l])) = R @ [l]" using R by (intro path_names_absolute) simp
qed

lemma leads_out_resolves:
  assumes "leads_out t R l D" "proper f" "node_at t (D @ [f]) \<noteq> None"
  shows "resolve t (absolute_path (R @ [l, f])) False = Some (D @ [f])"
proof -
  note p = leads_out_paths [OF assms(1), of f]
  have "walk t 39 D [f] False = At (D @ [f])"
    using assms(2,3) by (auto simp: proper_def split: option.split node.split)
  then have "walk t max_links [] (R @ [l, f]) False = At (D @ [f])"
    unfolding max_links_Suc using leads_out_walk [OF assms(1), of "[f]" False 39] by simp
  then show ?thesis using p assms(2) by (simp add: resolve_def start_of_def proper_def del: walk.simps)
qed

lemma leads_out_stays:
  assumes "leads_out t R l D" "\<not> is_beneath (D @ [f]) R" "\<And>q. \<not> is_beneath (D @ [f]) q \<Longrightarrow> node_at t' q = node_at t q"
  shows "leads_out t' R l D"
proof -
  have "\<not> is_beneath (D @ [f]) (take n R)" for n
    using assms(2) append_take_drop_id [of n R] unfolding is_beneath_iff by (metis append_assoc)
  moreover have "\<not> is_beneath (D @ [f]) (take m D)" for m by (auto simp: is_beneath_def dest: arg_cong [of _ _ length])
  moreover have "\<not> is_beneath (D @ [f]) (R @ [l])"
  proof
    assume "is_beneath (D @ [f]) (R @ [l])"
    then obtain cs where cs: "R @ [l] = (D @ [f]) @ cs" by (auto simp: is_beneath_iff)
    show False using cs assms(1,2) by (cases cs rule: rev_cases) (auto simp: is_beneath_iff leads_out_def)
  qed
  ultimately show ?thesis using assms(1,3) by (simp add: leads_out_def is_dir_def)
qed

text \<open>What stands in the way outside is removed before the destination is refused.\<close>

lemma leads_out_rename:
  assumes "leads_out t R l D" "\<forall>n. \<not> ft_fault t n" "so_root_path safe_tree = absolute_path R" "\<not> so_hardened safe_tree"
    "proper f" "node_at t (D @ [f]) \<noteq> None" "\<not> is_beneath (D @ [f]) R"
  shows "\<exists>t'. rename_into safe_tree src (join_slash [l, f]) True t
        = (Inl (InvalidArgument ''output path escapes output root via symlink''), t')
        \<and> (\<forall>q. is_beneath (D @ [f]) q \<longrightarrow> entry_at t' q = None)"
proof -
  let ?dest = "absolute_path (R @ [l, f])"
  have f: "is_name f" using assms(5) by (simp add: proper_def)
  note p = leads_out_paths [OF assms(1) f] and res = leads_out_resolves [OF assms(1,5,6)]
  obtain t1 where t1: "remove_all ?dest t = (Inr True, t1)"
    "\<And>q. \<not> is_beneath (D @ [f]) q \<Longrightarrow> node_at t1 q = node_at t q"
    using remove_entries_ok [OF assms(2), of "rev (sort_key length (entries_beneath t (D @ [f])))"]
    by (auto simp: remove_all_def res entries_beneath_def)
  have gone: "\<forall>q. is_beneath (D @ [f]) q \<longrightarrow> entry_at t1 q = None"
    using remove_all_gone [OF t1(1) res] by blast
  have out1: "leads_out t1 R l D" by (rule leads_out_stays [OF assms(1,7) t1(2)])
  have dirs: "create_directories (absolute_path (R @ [l])) t1 = (Inr True, t1)"
    using leads_out_make_dirs [OF out1, of "[]"] p(6) by (simp add: create_directories_def start_of_def) (simp add: absolute_path_def)
  have "remove_existing ?dest True t = (Inr (), t1)"
    using res assms(6) t1(1) by (simp add: remove_existing_def status_of_def getS_def bindS_def guardS_def)
  then show ?thesis
    using gone dirs leads_out_refused [OF out1 assms(3) f] assms(3,4) p
    by (simp add: rename_into_def rename_into_portable_def Let_def bindS_def guardS_def del: join_slash.simps)
qed

lemma leads_out_ensure_dirs:
  assumes "leads_out t R l D" "\<forall>n. \<not> ft_fault t n" "so_root_path safe_tree = absolute_path R" "\<not> so_hardened safe_tree"
    "proper x" "node_at t (D @ [x]) = None"
  shows "\<exists>t'. ensure_dirs safe_tree (join_slash [l, x]) t = (Inr (), t') \<and> is_dir t' (D @ [x])"
proof -
  let ?t = "make_entry (D @ [x]) Dir (tick t)"
  have x: "is_name x" "x \<noteq> ''.''" "x \<noteq> ''..''" using assms(5) by (simp_all add: proper_def)
  note p = leads_out_paths [OF assms(1) x(1)]
  have D: "is_dir t D" using assms(1) by (auto simp: leads_out_def dest: spec [of _ "length D"])
  have "walk t max_links D [x] True = At (D @ [x])" using assms(6) x by (simp add: max_links_Suc)
  then have "make_dirs D [x] t = (Inr True, ?t)"
    using assms(2,6) D by (simp add: is_dir_def make_at_def sys_call_def faulty_def del: walk.simps)
  then have "create_directories (absolute_path (R @ [l, x])) t = (Inr True, ?t)"
    using leads_out_make_dirs [OF assms(1), of "[x]"] p by (simp add: create_directories_def start_of_def)
  moreover have "join_slash [l, x] \<noteq> []" by simp
  ultimately show ?thesis
    using assms(3,4) p(1)
    by (auto simp: ensure_dirs_def bindS_def guardS_def make_entry_def is_dir_def fresh_def simp del: join_slash.simps)
qed

text \<open>
  C40: The portable mode has no such guarantee.  Whenever the output root holds a link to a directory
  outside, \<open>rename_into\<close> with permission to overwrite removes what already has the name of the
  destination in that directory, with everything beneath it, before it checks where the destination
  leads and refuses it; this holds for every tree without failing calls, every entry that does not
  contain the output root, and every source.  \<open>ensure_dirs\<close> has no check at all and creates directories
  outside without an error.
\<close>

theorem portable_mode_reaches_outside:
  assumes "wf_tree t" "\<forall>n. \<not> ft_fault t n" "so_root_path safe_tree = absolute_path R" "\<not> so_hardened safe_tree"
    "is_dir t R" "node_at t (R @ [l]) = Some (Link (absolute_path D))" "is_dir t D" "\<not> is_beneath R D"
    "node_at t (D @ [f]) \<noteq> None" "\<not> is_beneath (D @ [f]) R" "proper x" "node_at t (D @ [x]) = None"
  shows "(\<exists>t'. rename_into safe_tree src (join_slash [l, f]) True t
        = (Inl (InvalidArgument ''output path escapes output root via symlink''), t')
        \<and> (\<forall>q. is_beneath (D @ [f]) q \<longrightarrow> entry_at t' q = None))
   \<and> (\<exists>t'. ensure_dirs safe_tree (join_slash [l, x]) t = (Inr (), t') \<and> is_dir t' (D @ [x]))"
proof -
  have out: "leads_out t R l D" by (rule planted_leads_out [OF assms(1,5-8)])
  have "entry_at t (D @ [f]) \<noteq> None" using assms(9) by (auto simp: node_at_def)
  then have "proper f" using wf_tree_above [OF assms(1)] by fastforce
  show ?thesis
    using leads_out_rename [OF out assms(2-4) \<open>proper f\<close> assms(9,10)] leads_out_ensure_dirs [OF out assms(2-4,11,12)] by blast
qed

definition portable_tree :: SafeOutputTree where
  "portable_tree = \<lparr>so_root_fd = [], so_root_path = ''/out'', so_hardened = False\<rparr>"

theorem portable_mode_reaches_outside_witness:
  "(\<exists>t'. rename_into portable_tree ''/out/t'' ''d/f'' True sample_tree
        = (Inl (InvalidArgument ''output path escapes output root via symlink''), t')
        \<and> entry_at sample_tree [''home'', ''f''] = Some (fresh (File [1])) \<and> entry_at t' [''home'', ''f''] = None)
   \<and> (\<exists>t'. ensure_dirs portable_tree ''d/x'' sample_tree = (Inr (), t') \<and> is_dir t' [''home'', ''x''])"
proof -
  have "node_at sample_tree [''out''] = Some Dir" "node_at sample_tree [''home''] = Some Dir"
    "node_at sample_tree [''out'', ''d''] = Some (Link ''/home'')" "node_at sample_tree [''home'', ''f''] = Some (File [1])"
    "node_at sample_tree [''home'', ''x''] = None"
    by (simp_all add: node_at_def sample_tree_entries fresh_def)
  note nodes = this
  have "(\<exists>t'. rename_into portable_tree ''/out/t'' (join_slash [''d'', ''f'']) True sample_tree
        = (Inl (InvalidArgument ''output path escapes output root via symlink''), t')
        \<and> (\<forall>q. is_beneath ([''home''] @ [''f'']) q \<longrightarrow> entry_at t' q = None))
     \<and> (\<exists>t'. ensure_dirs portable_tree (join_slash [''d'', ''x'']) sample_tree = (Inr (), t') \<and> is_dir t' ([''home''] @ [''x'']))"
  proof (rule portable_mode_reaches_outside [OF sample_tree_wf])
    show "\<forall>n. \<not> ft_fault sample_tree n" by (simp add: sample_tree_def)
    show "so_root_path portable_tree = absolute_path [''out'']" by (simp add: portable_tree_def absolute_path_def)
    show "node_at sample_tree ([''out''] @ [''d'']) = Some (Link (absolute_path [''home'']))"
      using nodes(3) by (simp add: absolute_path_def)
  qed (use nodes in \<open>simp_all add: is_dir_def portable_tree_def is_beneath_def proper_def is_name_def\<close>)
  moreover have "is_beneath ([''home''] @ [''f'']) [''home'', ''f'']" by (simp add: is_beneath_def)
  moreover have "entry_at sample_tree [''home'', ''f''] = Some (fresh (File [1]))" by (simp add: sample_tree_entries)
  moreover have "join_slash [''d'', ''f''] = ''d/f''" "join_slash [''d'', ''x''] = ''d/x''" by simp_all
  ultimately show ?thesis by (metis append_Cons append_Nil)
qed

end
