(* ===== verification/Decrypt_Safety.thy ===== *)
theory Decrypt_Safety
  imports Archive_Roundtrip Extraction_Safety
begin

text \<open>
  What \<open>core_decrypt\<close> as a whole may change: whatever it meets, the tree it leaves behind is one that an
  extraction of some plaintexts leaves behind, or the one it started with.
\<close>

lemma open_archive_reader:
  assumes "open_archive world params es = (Inr job, es')"
  shows "\<exists>shards key v. new_ShardReader (dw_hmac world) shards key v = Inr (dj_reader job)"
  using assms unfolding open_archive_def by (auto simp: bindS_Inr liftS_def returnS_def) blast

lemma extract_archive_left:
  assumes "extract_archive world params job es tree = Some (res, es', tree')"
    "new_ShardReader hmac shards key v = Inr (dj_reader job)"
  shows "\<exists>ps. left_behind (extraction_options world params) (dw_temp_suffix world) ps tree tree'"
proof (cases "new_ArchiveReader (extraction_options world params) (dw_temp_suffix world) tree")
  case (Pair r t1)
  show ?thesis
  proof (cases r)
    case (Inl e)
    then show ?thesis using assms(1) Pair by (simp add: extract_archive_def left_behind_def)
  next
    case xr: (Inr xr)
    show ?thesis
    proof (cases "make_backend (dw_sodium world) (dw_gcm world) (ac_suite (dj_context job))")
      case (Inl e)
      then have "left_behind (extraction_options world params) (dw_temp_suffix world) [] tree tree'"
        using assms(1) Pair xr by (auto simp: extract_archive_def left_behind_def returnS_def)
      then show ?thesis by blast
    next
      case (Inr be)
      then obtain res1 xr' where run: "run_decrypt (kl_hkdf (dw_libs world)) (dw_hardware_concurrency world) (dj_options job) (Some be)
          (dj_keys job) (dw_reads world) (dw_schedule world) (dj_reader job) xr = Some (res1, xr')"
        and t: "tree' = xr_tree (destroy_ArchiveReader xr')"
        using assms(1) Pair xr by (auto simp: extract_archive_def Let_def split: option.splits sum.splits)
      from decrypt_run_extracted [OF assms(2) run] obtain ps where
        "xr' = snd (consume_all ps xr) \<or> xr' = snd (bindS (consume_all ps) (\<lambda>_. finish) xr)" by blast
      then show ?thesis using Pair xr t by (auto simp: left_behind_def)
    qed
  qed
qed

text \<open>C1: \<open>core_decrypt\<close> as a whole, in hardened mode, cannot reach outside of the output root.  Let the output
  directory exist, and let \<open>R\<close> be the directory it leads to.  Whatever the shard files hold and however
  they change between two reads, whatever the libraries answer, whichever system calls fail, whatever
  the schedule of the threads and whether the call succeeds or not: at the end every entry outside of
  \<open>R\<close> is as it was, every directory is still one, and without permission to overwrite no file and no
  link that was there before has changed.\<close>

theorem core_decrypt_confined:
  assumes "wf_tree tree" "output_root_at R (dp_output params) tree" "status_of tree (dp_output params) True \<noteq> None"
    "dp_hardened_extract params \<noteq> CliHardenedOff" "CHR ''/'' \<notin> set (dw_temp_suffix world)"
    "core_decrypt world params tree = Some (res, es, tree')"
  shows "(\<forall>q. \<not> is_beneath R q \<longrightarrow> entry_at tree' q = entry_at tree q) \<and> (\<forall>q. is_dir tree q \<longrightarrow> is_dir tree' q)
    \<and> (\<not> dp_overwrite params \<longrightarrow>
         (\<forall>q. node_at tree q \<noteq> None \<longrightarrow> \<not> is_dir tree q \<longrightarrow> entry_at tree' q = entry_at tree q))"
proof -
  have c: "create_directories (dp_output params) tree = (Inr True, tree)" using assms(2) by (simp add: output_root_at_def)
  have "tree' = tree \<or> (\<exists>ps. left_behind (extraction_options world params) (dw_temp_suffix world) ps tree tree')"
  proof -
    consider "tree' = tree" | job es1 es2 res2 es3 where "open_archive world params es1 = (Inr job, es2)"
        "extract_archive world params job es2 tree = Some (res2, es3, tree')"
      using assms(3,6) c
      by (auto simp: core_decrypt_def Let_def remove_empty_output_def split: option.splits sum.splits prod.splits if_splits)
    then show ?thesis
    proof cases
      case (2 job es1 es2 res2 es3)
      then show ?thesis using open_archive_reader extract_archive_left by blast
    qed simp
  qed
  then have "confined R (dp_overwrite params) tree tree'"
  proof
    assume "tree' = tree" then show ?thesis by (simp add: confined_def)
  next
    assume "\<exists>ps. left_behind (extraction_options world params) (dw_temp_suffix world) ps tree tree'"
    then obtain ps where "left_behind (extraction_options world params) (dw_temp_suffix world) ps tree tree'" ..
    moreover have "want_hardened (to_archive_hardened_mode (dp_hardened_extract params))"
      using assms(4) by (cases "dp_hardened_extract params") (simp_all add: want_hardened_def is_platform_supported_def)
    ultimately show ?thesis using left_behind_confined [of tree R "extraction_options world params"] assms(1,2,5)
      by (simp add: extraction_options_def)
  qed
  then show ?thesis unfolding confined_def .
qed

subsection \<open>An example\<close>

text \<open>The archive of the round trip, extracted into a directory that is already there.\<close>

lemma trip_made_entries: "entry_at trip_made q = (if q = [''out''] \<or> q = [''in''] then Some (fresh Dir) else None)"
  by (simp add: entry_at_def trip_made_def)

lemma trip_made_ok: "wf_tree trip_made" "output_root_at [''out''] ''/out'' trip_made" "status_of trip_made ''/out'' True \<noteq> None"
proof -
  show "wf_tree trip_made"
    by (auto simp: wf_tree_def is_dir_def node_at_def trip_made_entries fresh_def proper_def is_name_def)
  have "weakly_canonical trip_made ''/out'' = Some [''out'']" by code_simp
  moreover have "rooted [''out''] trip_made"
    by (auto simp: rooted_def is_dir_def node_at_def trip_made_entries fresh_def le_Suc_eq)
  ultimately show "output_root_at [''out''] ''/out'' trip_made" using trip_create(2) by (simp add: output_root_at_def)
  show "status_of trip_made ''/out'' True \<noteq> None" by code_simp
qed

theorem core_decrypt_confined_witness:
  "\<exists>written ts es tree. core_decrypt (trip_decrypt_world written ts) trip_decrypt_params trip_made = Some (Inr (), es, tree)
     \<and> entry_at tree [''in''] = Some (fresh Dir)"
proof -
  obtain us es w where enc: "core_encrypt (trip_encrypt_world trip_disk trip_fsync us) trip_params = Some (Inr (), es, Some (StreamWriter w))"
    and len: "length (os_written (sd_out w)) = 350" using trip_core_encrypt [of trip_disk trip_fsync] by blast
  let ?dw = "trip_decrypt_world (os_written (sd_out w))"
  from trip_decrypts [OF core_stream_extracts [OF trip_prepared enc trip_hypotheses [OF len]] trip_create(2)] obtain ts des where
    d: "core_decrypt (?dw ts) trip_decrypt_params trip_made = Some (Inr (), des, trip_tree)" by blast
  have p: "dp_output trip_decrypt_params = ''/out''" "dp_hardened_extract trip_decrypt_params \<noteq> CliHardenedOff"
    "CHR ''/'' \<notin> set (dw_temp_suffix (?dw ts))" by (simp_all add: trip_decrypt_params_def trip_decrypt_world_def)
  have "entry_at trip_tree [''in''] = entry_at trip_made [''in'']"
    using core_decrypt_confined [OF trip_made_ok [folded p(1)] p(2,3) d] by (simp add: is_beneath_def)
  then show ?thesis using d by (metis trip_made_entries)
qed


end
