(* ===== verification/Spec2Isabelle.thy ===== *)
theory Spec2Isabelle
  imports Size_Parser Core_Plan Shard_Writer Shard_Reader Decrypt_Safety
begin

text \<open>
  BSEAL encrypts a directory into a set of shard files, or into one shard on an output stream, and
  extracts such an archive again.  This development models the program behind its command line and
  its graphical surface, as it is built for POSIX systems without test seams, and proves what makes
  it correct.  Paths below are relative to the directory \<^verbatim>\<open>src/\<close> of the repository.

  \<^bold>\<open>How the program works.\<close>  \<^verbatim>\<open>core_encrypt\<close> (\<^verbatim>\<open>src/app/CoreApi.cpp\<close>) validates its parameters, derives
  the keys, walks the input directory once to find the size of the plaintext stream, plans padding,
  chunks and shards, computes the public headers, and runs \<^verbatim>\<open>EncryptPipeline\<close>.  There one thread
  cuts the records of the \<^verbatim>\<open>ArchiveWriter\<close> into chunks and asks the shard writer for the frame header
  of each, workers encrypt the chunks, and the calling thread writes the frames in order.
  \<^verbatim>\<open>core_decrypt\<close> discovers the shard files, derives the keys from their header, authenticates the
  headers, and runs \<^verbatim>\<open>DecryptPipeline\<close>: one thread reads frames from the \<^verbatim>\<open>ShardReader\<close>, workers
  decrypt them, and the calling thread gives the plaintexts in order to the \<^verbatim>\<open>ArchiveReader\<close>, which
  unpacks them beneath a temporary directory and promotes the result through a \<^verbatim>\<open>SafeOutputTree\<close>.

  \<^bold>\<open>Conventions.\<close>  A class is a record with its members in their order, a method a function that is
  named after it.  An exception is a value of \<open>bseal_error\<close>, a function that may throw returns
  \<open>bseal_error + 'a\<close>, and one that also changes an object is an \<open>op\<close>: it takes the object and
  returns the outcome together with the object as the exception leaves it.  Unsigned integers are
  words of their width, \<^verbatim>\<open>std::size_t\<close> is a natural number where it counts elements of a container
  that exists, bytes are \<open>8 word\<close>, and strings and paths are lists of characters.  What is not in the
  repository is a parameter: the AEAD ciphers, Argon2id, HKDF, HMAC and BLAKE3 are functions or
  records of functions, and laws about them (that decryption inverts encryption, that digests have
  32 bytes) are hypotheses with a name, of the theorems that need them.  What the system answers
  is an argument too: random bytes and names, the point where an operation fails, the input files at
  every call, the number of processors and the schedule of the threads.

  \<^bold>\<open>Theories and code.\<close>
  \<^item> \<open>Prelude\<close>: \<^verbatim>\<open>src/common/Types.hpp\<close> and \<^verbatim>\<open>Errors.hpp\<close>; the error and state monads with
    their rules, and lemmas on lists, words and natural numbers.
  \<^item> \<open>Checked_Arithmetic\<close>, \<open>Endian\<close>, \<open>Size_Parser\<close>: \<^verbatim>\<open>CheckedArithmetic.hpp\<close>, \<^verbatim>\<open>Endian.hpp\<close> and
    \<^verbatim>\<open>SizeParser.hpp\<close> of \<^verbatim>\<open>src/common/\<close>.  Each checked operation is exact or fails; each appender is
    injective and inverted by the readers' loop (locale \<open>le_codec\<close>, interpreted for the four widths);
    the parsers accept exactly the numerals in range, with their suffixes.
  \<^item> \<open>Shard_Frame\<close>: \<^verbatim>\<open>src/io/ShardFrame.cpp\<close>.  Each parser accepts exactly the serialisations of
    valid headers (locale \<open>header_codec\<close>), the hashed and the authenticated bytes determine the
    headers, and accepted headers have sizes in range.
  \<^item> \<open>Path_Sanitizer\<close>: \<^verbatim>\<open>src/archive/PathSanitizer.cpp\<close>, with the part of \<^verbatim>\<open>std::filesystem::path\<close> it
    uses.  Archive paths have no element that leaves the root.
  \<^item> \<open>Record_Format\<close>: \<^verbatim>\<open>src/archive/RecordFormat.cpp\<close> and \<^verbatim>\<open>Metadata.hpp\<close>.  Records are round trips in
    both directions; metadata is one exactly if it is valid, up to the spelling of its path.
  \<^item> \<open>Kdf\<close>, \<open>Key_Schedule\<close>, \<open>Crypto_Backend\<close>: \<^verbatim>\<open>Kdf.cpp\<close>, \<^verbatim>\<open>KeySchedule.cpp\<close>, \<^verbatim>\<open>AesGcmBackend.cpp\<close> and
    \<^verbatim>\<open>XChaCha20Poly1305Backend.cpp\<close> of \<^verbatim>\<open>src/crypto/\<close>.  The cost of Argon2id is in bounds wherever
    it runs, nonces do not repeat, the mixed keyfile digests determine their list, and both backends
    are AEAD schemes if their library is one.
  \<^item> \<open>Durable_File\<close>: \<^verbatim>\<open>src/platform/DurableFile.cpp\<close> and the files that the shard writer
    works on; of directories only the creation is represented, as a call that may fail.
  \<^item> \<open>Shard_Writer\<close>, \<open>Stdout_Shard_Writer\<close>, \<open>Any_Shard_Writer\<close>: the three writers of \<^verbatim>\<open>src/io/\<close>.
    The planner and the writer of frames agree in every interleaving, what is written stands on the
    disk where it was planned, files that existed are never changed, and a failed writer removes what it has created.  The locale \<open>frame_writer\<close> is what the
    pipeline relies on; it is interpreted for both writers and for the variant of the two.
  \<^item> \<open>Shard_Reader\<close>: \<^verbatim>\<open>src/io/ShardReader.cpp\<close>.  Accepted sets of shards are complete and consistent,
    chunks come in order, and what well-formed files hold is what is read, to the end.
  \<^item> \<open>Work_Queue\<close>, \<open>Pipeline\<close>, \<open>Pipeline_Outcome\<close>: \<^verbatim>\<open>WorkQueue.hpp\<close>, \<^verbatim>\<open>PipelineCommon.hpp\<close> and the
    threads of both pipelines (\<^verbatim>\<open>src/pipeline/\<close>) as a step relation.  A queue is first-in first-out
    (locale \<open>bounded_queue\<close>) that refuses items once it is closed, the sink gets the results in order,
    some thread can always move while nothing has failed, every schedule reaches a state where no
    thread can move, which is the end of all threads or the one deadlock that a failure of the sink
    can cause, and a run of the jobs one after the other that succeeds has the outcome of every schedule.
  \<^item> \<open>Archive_Writer\<close>: \<^verbatim>\<open>src/archive/ArchiveWriter.cpp\<close>, over an input that may change between any two
    calls.  A completed stream is well-formed with valid metadata, and on an unchanged input it has the
    planned size.  An error of the directory iterator in the constructor is lost.
  \<^item> \<open>File_Tree\<close>, \<open>Safe_Output_Tree\<close>, \<open>Archive_Reader\<close>, \<open>Extraction_Safety\<close>: POSIX file trees
    with symbolic links and failing calls, \<^verbatim>\<open>SafeOutputTree.cpp\<close> and \<^verbatim>\<open>ArchiveReader.cpp\<close> of
    \<^verbatim>\<open>src/archive/\<close>, and what an extraction can change: in hardened mode nothing outside, in
    portable mode what a planted link leads to.  The stream may be fed in any pieces.
  \<^item> \<open>Decrypt_Pipeline\<close>, \<open>Encrypt_Pipeline\<close>: \<^verbatim>\<open>DecryptPipeline.cpp\<close> and \<^verbatim>\<open>EncryptPipeline.cpp\<close> as the
    jobs, the work and the sink of \<open>Pipeline\<close>.  Decryption hands out only authenticated chunks, in
    order; encryption covers the stream with consecutively numbered chunks, the last one marked.
  \<^item> \<open>Core_Plan\<close>, \<open>Core_Api\<close>: \<^verbatim>\<open>src/app/CoreApi.cpp\<close> and \<^verbatim>\<open>src/platform/ProcessMemoryLock.cpp\<close>.
    \<open>Core_Plan\<close> is what \<^verbatim>\<open>core_encrypt\<close> computes before any byte is written, \<open>Core_Api\<close> is
    \<^verbatim>\<open>core_encrypt\<close> and \<^verbatim>\<open>core_decrypt\<close> as a whole, with the events they report, and the sizes for
    which power-of-two padding gives an archive that no reader accepts.
  \<^item> \<open>Stored_Stream\<close>, \<open>Archive_Roundtrip\<close>, \<open>Decrypt_Safety\<close>: what the writing side puts on a
    stream, the reading side accepts; \<^verbatim>\<open>core_decrypt\<close> extracts what \<^verbatim>\<open>core_encrypt\<close> has written;
    and \<^verbatim>\<open>core_decrypt\<close> changes nothing outside of its output directory.

  \<^bold>\<open>Bounds.\<close>
  \<^item> The resolution of a path follows at most 40 symbolic links (\<open>max_links\<close>), as Linux does; it is
    an error to need more, so a cycle of links is an answer of the model and not a missing one.
  \<^item> \<^verbatim>\<open>ShardWriter\<close> draws at most 128 file names before it gives up, as the source does.
  \<^item> The recursions of parsers, walks and loops over records need no fuel: they are structural or have
    a measure.  A run of a pipeline is a list of threads that say who moves next; \<open>None\<close> is the answer
    for a list that is not a complete schedule.  \<open>pipeline_terminates\<close> bounds the length of all
    schedules by 7 n + 2 w + 3 for n jobs and w workers.
  \<^item> Faults are schedules by the number of calls made so far, so a theorem for all schedules covers
    every pattern of failures.  The view of the input, and the files that a decryption reads, are
    functions of the number of calls for the same reason.

  \<^bold>\<open>Granularity of the threads.\<close>  A step is one call of a shared object (queue, failure state) with the
  computation up to the next such call.  Reading one chunk is atomic: the producer of the encryption
  asks for a failure before every record, here before the first record of a chunk.

  \<^bold>\<open>What is not modelled.\<close>
  \<^item> \<^verbatim>\<open>src/cli/Args.cpp\<close>, \<^verbatim>\<open>src/app/BsealApp.cpp\<close>, \<^verbatim>\<open>src/app/SelfTest.cpp\<close> and \<^verbatim>\<open>src/gui/\<close>: they translate
    options, print tables, run known-answer tests and show widgets; the operations behind them are
    those of \<^verbatim>\<open>CoreApi.cpp\<close>, and the parsers of their numbers are in \<open>Size_Parser\<close>.
  \<^item> \<^verbatim>\<open>PassphrasePrompt.cpp\<close>, \<^verbatim>\<open>Random.cpp\<close> and \<^verbatim>\<open>CpuFeatures.cpp\<close> of \<^verbatim>\<open>src/platform/\<close>: input from the
    terminal, calls of the system's random generator and processor instructions.  Their answers are
    arguments.
  \<^item> \<^verbatim>\<open>MemoryLock.cpp\<close> and \<^verbatim>\<open>SecureBuffer.cpp\<close>: locking and wiping memory has no counterpart in the
    values of a functional model.  A buffer is its bytes, a key that was moved from is empty.
  \<^item> \<^verbatim>\<open>AsyncReader.cpp\<close>, \<^verbatim>\<open>AsyncWriter.cpp\<close> and \<^verbatim>\<open>BufferPool.cpp\<close> of \<^verbatim>\<open>src/io/\<close>: no other part of the
    program calls them.
  \<^item> Windows branches (apart from flushing), test seams and constructors for tests, and moving
    objects that own files.
\<close>

end
